(* ===== verification/Prelude.thy ===== *)
theory Prelude
  imports Main "HOL-Library.Word"
begin

text \<open>
  Shared vocabulary of the development: bytes, the errors a C++ operation can end in,
  the chaining of operations that may fail, block copies (\<open>memcpy\<close>), the byte images of
  machine integers, and \<open>std::size_t\<close> arithmetic.

  An operation of the code that can throw returns a value of \<open>error + 'a\<close>: \<open>Inl\<close> is the
  exception (or the undefined behaviour, or the failure to return), \<open>Inr\<close> the result.
\<close>

named_theorems size_arith \<open>rewriting of size_t arithmetic that stays in range\<close>
named_theorems result_simps \<open>evaluation of chained operations\<close>

type_synonym byte = "8 word"
type_synonym int32 = "32 word"
type_synonym int64 = "64 word"

subsection \<open>Errors and results\<close>

text \<open>
  \<open>Runtime_Error\<close> and \<open>Out_Of_Range\<close> are the exceptions the code throws (with their
  text), \<open>System_Error\<close> is \<open>std::system_error\<close> with its \<open>errno\<close>, \<open>Length_Error\<close> is what
  \<open>std::vector\<close> throws beyond \<open>max_size\<close>. \<open>Undefined\<close> marks an access the C++ standard
  gives no meaning (a read outside the allocated storage or of an indeterminate value, a
  null dereference, a signed overflow), and \<open>Hang\<close> a loop that never ends.
\<close>

datatype error =
    Runtime_Error string
  | Out_Of_Range string
  | System_Error int string
  | Length_Error
  | Undefined string
  | Hang

type_synonym 'a result = "error + 'a"

definition bindE :: "'a result \<Rightarrow> ('a \<Rightarrow> 'b result) \<Rightarrow> 'b result" where
  "bindE m f = (case m of Inl e \<Rightarrow> Inl e | Inr x \<Rightarrow> f x)"

lemma bindE_simps [simp, result_simps]:
  "bindE (Inl e) f = Inl e"
  "bindE (Inr x) f = f x"
  by (simp_all add: bindE_def)

lemma bindE_assoc [result_simps]: "bindE (bindE m f) g = bindE m (\<lambda>x. bindE (f x) g)"
  by (cases m) simp_all

lemma bindE_eq_Inr: "bindE m f = Inr y \<longleftrightarrow> (\<exists>x. m = Inr x \<and> f x = Inr y)"
  by (cases m) auto

lemma bindE_cong [fundef_cong]:
  "m = m' \<Longrightarrow> (\<And>x. m' = Inr x \<Longrightarrow> f x = f' x) \<Longrightarrow> bindE m f = bindE m' f'"
  by (cases m') simp_all

subsection \<open>size_t arithmetic\<close>

definition szadd :: "nat \<Rightarrow> nat \<Rightarrow> nat" where
  "szadd a b = (a + b) mod 2 ^ 64"

definition szsub :: "nat \<Rightarrow> nat \<Rightarrow> nat" where
  "szsub a b = (a + (2 ^ 64 - b)) mod 2 ^ 64"

lemma szadd_small [size_arith]: "a + b < 2 ^ 64 \<Longrightarrow> szadd a b = a + b"
  by (simp add: szadd_def)

lemma szsub_small [size_arith]: "b \<le> a \<Longrightarrow> a < 2 ^ 64 \<Longrightarrow> szsub a b = a - b"
proof -
  assume "b \<le> a" and a: "a < 2 ^ 64"
  then have "a + (2 ^ 64 - b) = (a - b) + 2 ^ 64" by simp
  then have "szsub a b = (a - b) mod 2 ^ 64" by (simp only: szsub_def mod_add_self2)
  with a show ?thesis by simp
qed

lemma szsub_wraps: "a < b \<Longrightarrow> b \<le> 2 ^ 64 \<Longrightarrow> szsub a b = 2 ^ 64 - (b - a)"
proof -
  assume "a < b" and "b \<le> 2 ^ 64"
  then have "a + (2 ^ 64 - b) = 2 ^ 64 - (b - a)" and "2 ^ 64 - (b - a) < (2::nat) ^ 64"
    by simp_all
  then show ?thesis by (simp only: szsub_def mod_less)
qed

subsection \<open>Block copies\<close>

text \<open>\<open>blit i xs mem\<close> is the storage \<open>mem\<close> after \<open>memcpy\<close> of \<open>xs\<close> to offset \<open>i\<close>.\<close>

definition blit :: "nat \<Rightarrow> 'a list \<Rightarrow> 'a list \<Rightarrow> 'a list" where
  "blit i xs mem = take i mem @ xs @ drop (i + length xs) mem"

lemma length_blit [simp]: "i + length xs \<le> length mem \<Longrightarrow> length (blit i xs mem) = length mem"
  by (simp add: blit_def)

lemma nth_blit:
  "i + length xs \<le> length mem \<Longrightarrow> k < length mem \<Longrightarrow>
   blit i xs mem ! k = (if i \<le> k \<and> k < i + length xs then xs ! (k - i) else mem ! k)"
  by (auto simp: blit_def nth_append min_def)

lemma blit_Nil [simp]: "blit i [] mem = mem"
  by (simp add: blit_def)

lemma take_blit_end:
  "i + length xs \<le> length mem \<Longrightarrow> take (i + length xs) (blit i xs mem) = take i mem @ xs"
  by (auto simp: blit_def min_absorb2)

subsection \<open>Byte images of integers\<close>

fun nat_bytes :: "nat \<Rightarrow> nat \<Rightarrow> byte list" where
  "nat_bytes 0 k = []"
| "nat_bytes (Suc n) k = of_nat (k mod 256) # nat_bytes n (k div 256)"

lemma nat_bytes_4:
  "nat_bytes 4 k = map of_nat [k mod 256, k div 256 mod 256, k div 65536 mod 256, k div 16777216 mod 256]"
proof -
  have d: "k div 256 div 256 = k div 65536" "k div 65536 div 256 = k div 16777216"
    by (simp_all only: div_mult2_eq [symmetric]) simp_all
  have "nat_bytes 4 k = nat_bytes (Suc (Suc (Suc (Suc 0)))) k"
    by (rule arg_cong [where f = "\<lambda>n. nat_bytes n k"]) simp
  also have "\<dots> = map of_nat [k mod 256, k div 256 mod 256, k div 65536 mod 256, k div 16777216 mod 256]"
    by (simp only: nat_bytes.simps d list.map)
  finally show ?thesis .
qed

fun bytes_nat :: "byte list \<Rightarrow> nat" where
  "bytes_nat [] = 0"
| "bytes_nat (b # bs) = unat b + 256 * bytes_nat bs"

lemma length_nat_bytes [simp]: "length (nat_bytes n k) = n"
  by (induction n arbitrary: k) auto

lemma bytes_nat_bytes: "bytes_nat (nat_bytes n k) = k mod 256 ^ n"
proof (induction n arbitrary: k)
  case 0
  then show ?case by simp
next
  case (Suc n)
  then show ?case by (simp add: unsigned_of_nat mod_mult2_eq take_bit_eq_mod)
qed

lemma nat_bytes_nat: "nat_bytes (length bs) (bytes_nat bs) = bs"
proof (induction bs)
  case Nil
  then show ?case by simp
next
  case (Cons b bs)
  have "unat b < 256" using unsigned_less [of b, where ?'a = nat] by simp
  with Cons show ?case by simp
qed

text \<open>The little-endian image of a word of \<open>8 * n\<close> bits, and the word of an image.\<close>

definition word_bytes :: "'a::len word \<Rightarrow> byte list" where
  "word_bytes w = nat_bytes (LENGTH('a) div 8) (unat w)"

definition bytes_word :: "byte list \<Rightarrow> 'a::len word" where
  "bytes_word bs = of_nat (bytes_nat bs)"

lemma length_word_bytes [simp]: "length (word_bytes (w :: 'a::len word)) = LENGTH('a) div 8"
  by (simp add: word_bytes_def)

lemma bytes_word_bytes:
  fixes w :: "'a::len word"
  assumes "8 dvd LENGTH('a)"
  shows "bytes_word (word_bytes w) = w"
proof -
  from assms obtain n where n: "LENGTH('a) = 8 * n" by (elim dvdE)
  have "(256::nat) ^ n = 2 ^ LENGTH('a)" by (simp add: n power_mult)
  then show ?thesis using unsigned_less [of w, where ?'a = nat]
    by (simp add: bytes_word_def word_bytes_def bytes_nat_bytes n)
qed

lemma bytes_word_bytes32 [simp]: "bytes_word (word_bytes w) = (w :: 32 word)"
  by (rule bytes_word_bytes) simp

lemma bytes_word_bytes64 [simp]: "bytes_word (word_bytes w) = (w :: 64 word)"
  by (rule bytes_word_bytes) simp

lemma bytes_nat_less: "bytes_nat bs < 256 ^ length bs"
proof (induction bs)
  case (Cons b bs)
  have "unat b < 256" using unsigned_less [of b, where ?'a = nat] by simp
  with Cons have "unat b + 256 * bytes_nat bs < 256 * (bytes_nat bs + 1)" by simp
  also have "\<dots> \<le> 256 * 256 ^ length bs" using Cons by (intro mult_le_mono2) simp
  finally show ?case by simp
qed simp

lemma word_bytes_word:
  assumes "LENGTH('a::len) = 8 * length bs"
  shows "word_bytes (bytes_word bs :: 'a word) = bs"
proof -
  have "(256::nat) ^ length bs = 2 ^ LENGTH('a)" by (simp add: assms power_mult)
  then have "unat (bytes_word bs :: 'a word) = bytes_nat bs"
    using bytes_nat_less [of bs] by (simp add: bytes_word_def unsigned_of_nat take_bit_nat_eq_self)
  then show ?thesis by (simp add: word_bytes_def assms nat_bytes_nat)
qed

text \<open>The value whose image is the reverse of the image of \<open>w\<close>.\<close>

definition byte_swap :: "'a::len word \<Rightarrow> 'a word" where
  "byte_swap w = bytes_word (rev (word_bytes w))"

lemma rev_word_bytes_swap:
  "8 dvd LENGTH('a::len) \<Longrightarrow> rev (word_bytes (byte_swap w)) = word_bytes (w :: 'a word)"
  by (simp add: byte_swap_def word_bytes_word)

text \<open>
  The image in memory depends on the byte order of the machine, \<open>std::endian::native\<close>,
  which is a parameter \<open>nb\<close> of the model (\<open>True\<close> for a big-endian machine).
\<close>

definition native_bytes :: "bool \<Rightarrow> 'a::len word \<Rightarrow> byte list" where
  "native_bytes nb w = (if nb then rev (word_bytes w) else word_bytes w)"

definition native_word :: "bool \<Rightarrow> byte list \<Rightarrow> 'a::len word" where
  "native_word nb bs = bytes_word (if nb then rev bs else bs)"

lemma length_native_bytes [simp]:
  "length (native_bytes nb (w :: 'a::len word)) = LENGTH('a) div 8"
  by (simp add: native_bytes_def)

subsection \<open>Signed 32-bit values\<close>

lemma sint_of_nat32: "n < 2 ^ 31 \<Longrightarrow> sint (of_nat n :: 32 word) = int n"
  by (simp add: signed_of_nat signed_take_bit_int_eq_self)

lemma unat_of_nat32: "n < 2 ^ 32 \<Longrightarrow> unat (of_nat n :: 32 word) = n"
  by (simp add: unsigned_of_nat take_bit_nat_eq_self)

lemma unat_of_nat64: "n < 2 ^ 64 \<Longrightarrow> unat (of_nat n :: 64 word) = n"
  by (simp add: unsigned_of_nat take_bit_nat_eq_self)

lemma sint_of_nat32_neg:
  assumes "2 ^ 31 \<le> n" "n < 2 ^ 32"
  shows "sint (of_nat n :: 32 word) = int n - 2 ^ 32"
proof -
  have "(of_nat n :: 32 word) = of_int (int n - 2 ^ 32)" by simp
  then have "sint (of_nat n :: 32 word) = sint (of_int (int n - 2 ^ 32) :: 32 word)" by (simp only:)
  also have "\<dots> = int n - 2 ^ 32"
    unfolding signed_of_int using assms by (simp add: signed_take_bit_int_eq_self)
  finally show ?thesis .
qed

lemma sint_add32:
  fixes a b :: "32 word"
  assumes "- (2 ^ 31) \<le> sint a + sint b" "sint a + sint b < 2 ^ 31"
  shows "sint (a + b) = sint a + sint b"
  using assms by (simp add: sint_word_add signed_take_bit_int_eq_self)

lemma scast_sint32: "(scast (w :: 32 word) :: 64 word) = of_int (sint w)"
  by simp

subsection \<open>Lists of tasks\<close>

text \<open>What replacing one entry of a list does to its members, to counts and to sums.\<close>

lemma filter_update:
  "i < length ws \<Longrightarrow> length (filter P (ws[i := w])) + of_bool (P (ws ! i)) = length (filter P ws) + of_bool (P w)"
proof (induction ws arbitrary: i)
  case (Cons x xs)
  then show ?case by (cases i) auto
qed simp

lemma sum_list_update_nat:
  "i < length ws \<Longrightarrow> sum_list (map f (ws[i := w])) + f (ws ! i) = sum_list (map f ws) + (f w :: nat)"
proof (induction ws arbitrary: i)
  case (Cons x xs)
  then show ?case by (cases i) auto
qed simp

lemma concat_map_update:
  assumes "i < length rs"
  shows "\<exists>xs ys. concat (map f rs) = xs @ f (rs ! i) @ ys \<and> concat (map f (rs[i := r])) = xs @ f r @ ys"
proof -
  have "concat (map f rs) = concat (map f (take i rs)) @ f (rs ! i) @ concat (map f (drop (Suc i) rs))"
    by (subst id_take_nth_drop [OF assms]) simp
  moreover have "concat (map f (rs[i := r])) = concat (map f (take i rs)) @ f r @ concat (map f (drop (Suc i) rs))"
    by (subst upd_conv_take_nth_drop [OF assms]) simp
  ultimately show ?thesis by blast
qed

lemma map_update_same: "f (rs ! i) = f r \<Longrightarrow> map f (rs[i := r]) = map f rs"
  by (metis list_update_id map_update)

lemma kept_entry: "v \<in> set rs \<Longrightarrow> v \<noteq> rs ! i \<Longrightarrow> v \<in> set (rs[i := r])"
  by (metis in_set_conv_nth length_list_update nth_list_update_neq)

lemma updated_entry: "v \<in> set (rs[i := r]) \<Longrightarrow> v = r \<or> v \<in> set rs"
  using set_update_subset_insert by fastforce

end
