(* ===== verification/Data_Stream.thy ===== *)
theory Data_Stream
  imports Prelude
begin

text \<open>
  The storage of \<open>class Data_Stream\<close> (\<open>Core/Data_Stream.h\<close>, \<open>Core/Data_Stream.cpp\<close>): a
  \<open>std::vector<char>\<close> with its allocated block, the read position and the byte-order flag,
  with \<open>reserve\<close>, \<open>write_memory\<close>, \<open>read_memory\<close>, \<open>load\<close>, and the reads and writes of the
  primitive types. The vector is modelled down to its block because \<open>load\<close> copies into
  the block without changing the vector's size: after it the readable bytes lie beyond
  \<open>size()\<close>. A byte that was never written is \<open>None\<close>; reading one, or a byte outside the
  block, is \<open>Undefined\<close>.

  The lemmas show that every write appends its encoding (\<open>appends\<close>), that the growth loop
  of \<open>reserve\<close> ends and makes room, and what the primitive reads return.
\<close>

subsection \<open>State\<close>

record data_stream =
  is_big_endian :: bool
  buf_mem :: "byte option list"
  buf_len :: nat
  ds_pos :: int32

text \<open>The enumeration \<open>Data_Type\<close>, as the tag bytes on the wire.\<close>

datatype data_type = DT_BOOL | DT_CHAR | DT_INT32 | DT_INT64 | DT_FLOAT | DT_DOUBLE | DT_STRING
  | DT_VECTOR | DT_LIST | DT_MAP | DT_SET | DT_CUSTOM

fun tag :: "data_type \<Rightarrow> byte" where
  "tag DT_BOOL = 0"
| "tag DT_CHAR = 1"
| "tag DT_INT32 = 2"
| "tag DT_INT64 = 3"
| "tag DT_FLOAT = 4"
| "tag DT_DOUBLE = 5"
| "tag DT_STRING = 6"
| "tag DT_VECTOR = 7"
| "tag DT_LIST = 8"
| "tag DT_MAP = 9"
| "tag DT_SET = 10"
| "tag DT_CUSTOM = 11"

lemma tag_eq_iff [simp]: "tag a = tag b \<longleftrightarrow> a = b"
  by (cases a; cases b) simp_all

declare tag.simps [simp del]

definition new_stream :: "bool \<Rightarrow> data_stream" where
  "new_stream nb = \<lparr>is_big_endian = nb, buf_mem = [], buf_len = 0, ds_pos = 0\<rparr>"

text \<open>The bytes of the vector proper, \<open>_buf[0..size)\<close>; \<open>data()\<close> returns them.\<close>

definition stored :: "data_stream \<Rightarrow> byte option list" where
  "stored s = take (buf_len s) (buf_mem s)"

definition ds_data :: "data_stream \<Rightarrow> byte option list" where
  "ds_data s = stored s"

text \<open>A copy of a \<open>Data_Stream\<close> copies the vector: its elements, not its spare block.\<close>

definition copy_stream :: "data_stream \<Rightarrow> data_stream" where
  "copy_stream s = s\<lparr>buf_mem := stored s\<rparr>"

subsection \<open>The vector operations the code uses\<close>

definition vec_max_size :: nat where
  "vec_max_size = 2 ^ 63 - 1"

definition vec_reserve :: "nat \<Rightarrow> data_stream \<Rightarrow> data_stream result" where
  "vec_reserve cap s =
     (if cap > vec_max_size then Inl Length_Error
      else if cap > length (buf_mem s)
      then Inr (s\<lparr>buf_mem := stored s @ replicate (cap - buf_len s) None\<rparr>)
      else Inr s)"

definition vec_resize :: "nat \<Rightarrow> data_stream \<Rightarrow> data_stream result" where
  "vec_resize n s =
     (if n \<le> buf_len s then Inr (s\<lparr>buf_len := n\<rparr>)
      else if n \<le> length (buf_mem s)
      then Inr (s\<lparr>buf_mem := blit (buf_len s) (replicate (n - buf_len s) (Some 0)) (buf_mem s),
                  buf_len := n\<rparr>)
      else if n > vec_max_size then Inl Length_Error
      else Inr (s\<lparr>buf_mem := stored s @ replicate (n - buf_len s) (Some 0), buf_len := n\<rparr>))"

subsection \<open>reserve, write_memory, read_memory, load\<close>

text \<open>
  The loop of \<open>reserve\<close>, on \<open>size_t\<close>: doubling wraps at \<open>2^64\<close>, and the loop need not end.
\<close>

partial_function (option) grow_cap :: "int64 \<Rightarrow> int64 \<Rightarrow> int64 option" where
  "grow_cap need cap =
     (if need > cap then grow_cap need (if cap = 0 then 1 else cap * 2) else Some cap)"

text \<open>\<open>reserve(int32_t len)\<close>: \<open>size + len\<close> sign-extends \<open>len\<close> to \<open>size_t\<close>.\<close>

definition reserve :: "int32 \<Rightarrow> data_stream \<Rightarrow> data_stream result" where
  "reserve len s =
     (let need = (of_nat (buf_len s) :: int64) + scast len;
          cap = of_nat (length (buf_mem s))
      in if need > cap then
           (case grow_cap need cap of None \<Rightarrow> Inl Hang | Some c \<Rightarrow> vec_reserve (unat c) s)
         else Inr s)"

text \<open>
  \<open>write_memory(const char*, uint32_t len)\<close>. \<open>data\<close> is the source range of the caller; its
  length arrives as an unsigned 32-bit value.
\<close>

definition write_memory :: "byte list \<Rightarrow> data_stream \<Rightarrow> data_stream result" where
  "write_memory data s =
     (let len = (of_nat (length data) :: int32) in
      bindE (reserve len s) (\<lambda>s1.
      let size = buf_len s1 in
      bindE (vec_resize (szadd size (unat len)) s1) (\<lambda>s2.
      Inr (s2\<lparr>buf_mem := blit size (map Some (take (unat len) data)) (buf_mem s2)\<rparr>))))"

text \<open>Reading \<open>n\<close> bytes of the block from index \<open>i\<close> on.\<close>

fun known :: "byte option list \<Rightarrow> byte list result" where
  "known [] = Inr []"
| "known (None # bs) = Inl (Undefined ''indeterminate byte'')"
| "known (Some b # bs) = bindE (known bs) (\<lambda>rest. Inr (b # rest))"

definition mem_read :: "nat \<Rightarrow> nat \<Rightarrow> data_stream \<Rightarrow> byte list result" where
  "mem_read i n s =
     (if i + n \<le> length (buf_mem s) then known (take n (drop i (buf_mem s)))
      else Inl (Undefined ''read outside the block''))"

text \<open>The bytes at \<open>&_buf[_pos]\<close>; a negative position is an index far outside the block.\<close>

definition at_pos :: "nat \<Rightarrow> data_stream \<Rightarrow> byte list result" where
  "at_pos n s =
     (if sint (ds_pos s) < 0 then Inl (Undefined ''read outside the block'')
      else mem_read (nat (sint (ds_pos s))) n s)"

definition byte_at_pos :: "data_stream \<Rightarrow> byte result" where
  "byte_at_pos s = bindE (at_pos 1 s) (\<lambda>bs. Inr (hd bs))"

text \<open>
  \<open>++_pos\<close> and \<open>_pos += len\<close> for an \<open>int32_t\<close> amount are signed additions (overflow is
  undefined); \<open>_pos += sizeof(T)\<close> and \<open>_pos += uint32_t\<close> are converted and wrap.
\<close>

definition pos_add_signed :: "int32 \<Rightarrow> data_stream \<Rightarrow> data_stream result" where
  "pos_add_signed k s =
     (if - (2 ^ 31) \<le> sint (ds_pos s) + sint k \<and> sint (ds_pos s) + sint k < 2 ^ 31
      then Inr (s\<lparr>ds_pos := ds_pos s + k\<rparr>)
      else Inl (Undefined ''signed overflow of _pos''))"

definition pos_add_wrap :: "int32 \<Rightarrow> data_stream \<Rightarrow> data_stream" where
  "pos_add_wrap k s = s\<lparr>ds_pos := ds_pos s + k\<rparr>"

definition read_memory :: "int32 \<Rightarrow> data_stream \<Rightarrow> (byte list \<times> data_stream) result" where
  "read_memory len s =
     bindE (at_pos (unat len) s) (\<lambda>bs. Inr (bs, pos_add_wrap len s))"

text \<open>
  \<open>load\<close>: makes room behind the current contents, copies to the start of the block, and
  resets the position. The vector's size stays what it was.
\<close>

definition load :: "byte list \<Rightarrow> data_stream \<Rightarrow> data_stream result" where
  "load data s =
     bindE (reserve (of_nat (length data)) s) (\<lambda>s1.
       if length data \<le> length (buf_mem s1)
       then Inr (s1\<lparr>buf_mem := blit 0 (map Some data) (buf_mem s1), ds_pos := 0\<rparr>)
       else Inl (Undefined ''write outside the block''))"

subsection \<open>Primitive writes\<close>

text \<open>
  A multi-byte value is copied from memory and, when the stream's flag says big-endian,
  reversed first.
\<close>

definition wire :: "bool \<Rightarrow> bool \<Rightarrow> 'a::len word \<Rightarrow> byte list" where
  "wire nb flag v = (let mem = native_bytes nb v in if flag then rev mem else mem)"

definition write_word :: "data_type \<Rightarrow> bool \<Rightarrow> 'a::len word \<Rightarrow> data_stream \<Rightarrow> data_stream result" where
  "write_word dt nb value s =
     bindE (write_memory [tag dt] s) (\<lambda>s1. write_memory (wire nb (is_big_endian s1) value) s1)"

definition write_bool :: "bool \<Rightarrow> data_stream \<Rightarrow> data_stream result" where
  "write_bool value s =
     bindE (write_memory [tag DT_BOOL] s) (write_memory [if value then 1 else 0])"

definition write_char :: "byte \<Rightarrow> data_stream \<Rightarrow> data_stream result" where
  "write_char value s = bindE (write_memory [tag DT_CHAR] s) (write_memory [value])"

definition write_int32 :: "bool \<Rightarrow> int32 \<Rightarrow> data_stream \<Rightarrow> data_stream result" where
  "write_int32 nb value s = write_word DT_INT32 nb value s"

definition write_int64 :: "bool \<Rightarrow> int64 \<Rightarrow> data_stream \<Rightarrow> data_stream result" where
  "write_int64 nb value s = write_word DT_INT64 nb value s"

text \<open>A \<open>float\<close> and a \<open>double\<close> are carried as their IEEE 754 bit patterns.\<close>

definition write_float :: "bool \<Rightarrow> 32 word \<Rightarrow> data_stream \<Rightarrow> data_stream result" where
  "write_float nb value s = write_word DT_FLOAT nb value s"

definition write_double :: "bool \<Rightarrow> 64 word \<Rightarrow> data_stream \<Rightarrow> data_stream result" where
  "write_double nb value s = write_word DT_DOUBLE nb value s"

definition write_string :: "bool \<Rightarrow> byte list \<Rightarrow> data_stream \<Rightarrow> data_stream result" where
  "write_string nb data s =
     bindE (write_memory [tag DT_STRING] s) (\<lambda>s1.
     bindE (write_int32 nb (of_nat (length data)) s1) (\<lambda>s2.
     write_memory data s2))"

text \<open>\<open>write(const char*)\<close>: the bytes before the terminating zero (\<open>strlen\<close>), as a string.\<close>

definition write_cstr :: "bool \<Rightarrow> byte list \<Rightarrow> data_stream \<Rightarrow> data_stream result" where
  "write_cstr nb chars s = write_string nb (takeWhile (\<lambda>c. c \<noteq> 0) chars) s"

subsection \<open>Primitive reads\<close>

text \<open>
  A read returns \<open>None\<close> where the code returns \<open>false\<close> (the variable is left as it was),
  \<open>Some v\<close> where it assigns \<open>v\<close> and returns \<open>true\<close>.
\<close>

definition read_tag :: "data_type \<Rightarrow> data_stream \<Rightarrow> (bool \<times> data_stream) result" where
  "read_tag dt s =
     bindE (byte_at_pos s) (\<lambda>b.
       if b \<noteq> tag dt then Inr (False, s)
       else bindE (pos_add_signed 1 s) (\<lambda>s1. Inr (True, s1)))"

definition read_word :: "data_type \<Rightarrow> bool \<Rightarrow> data_stream \<Rightarrow> ('a::len word option \<times> data_stream) result"
  where
  "read_word dt nb s =
     bindE (read_tag dt s) (\<lambda>(ok, s1).
       if \<not> ok then Inr (None, s1)
       else bindE (at_pos (LENGTH('a) div 8) s1) (\<lambda>bs.
         Inr (Some (native_word nb (if is_big_endian s1 then rev bs else bs)),
              pos_add_wrap (of_nat (LENGTH('a) div 8)) s1)))"

definition read_bool :: "data_stream \<Rightarrow> (bool option \<times> data_stream) result" where
  "read_bool s =
     bindE (read_tag DT_BOOL s) (\<lambda>(ok, s1).
       if \<not> ok then Inr (None, s1)
       else bindE (byte_at_pos s1) (\<lambda>b.
            bindE (pos_add_signed 1 s1) (\<lambda>s2. Inr (Some (b \<noteq> 0), s2))))"

definition read_char :: "data_stream \<Rightarrow> (byte option \<times> data_stream) result" where
  "read_char s =
     bindE (read_tag DT_CHAR s) (\<lambda>(ok, s1).
       if \<not> ok then Inr (None, s1)
       else bindE (byte_at_pos s1) (\<lambda>b.
            bindE (pos_add_signed 1 s1) (\<lambda>s2. Inr (Some b, s2))))"

definition read_int32 :: "bool \<Rightarrow> data_stream \<Rightarrow> (int32 option \<times> data_stream) result" where
  "read_int32 nb s = read_word DT_INT32 nb s"

definition read_int64 :: "bool \<Rightarrow> data_stream \<Rightarrow> (int64 option \<times> data_stream) result" where
  "read_int64 nb s = read_word DT_INT64 nb s"

definition read_float :: "bool \<Rightarrow> data_stream \<Rightarrow> (32 word option \<times> data_stream) result" where
  "read_float nb s = read_word DT_FLOAT nb s"

definition read_double :: "bool \<Rightarrow> data_stream \<Rightarrow> (64 word option \<times> data_stream) result" where
  "read_double nb s = read_word DT_DOUBLE nb s"

text \<open>
  \<open>int32_t len; read(len);\<close> ignores the result: after a \<open>false\<close> the length is
  indeterminate, and using it is undefined.
\<close>

definition read_len :: "bool \<Rightarrow> data_stream \<Rightarrow> (int32 \<times> data_stream) result" where
  "read_len nb s =
     bindE (read_int32 nb s) (\<lambda>(l, s1).
       case l of None \<Rightarrow> Inl (Undefined ''indeterminate length'') | Some n \<Rightarrow> Inr (n, s1))"

definition read_string :: "bool \<Rightarrow> data_stream \<Rightarrow> (byte list option \<times> data_stream) result" where
  "read_string nb s =
     bindE (read_tag DT_STRING s) (\<lambda>(ok, s1).
       if \<not> ok then Inr (None, s1)
       else bindE (read_len nb s1) (\<lambda>(len, s2).
         if sint len < 0 then Inr (None, s2)
         else bindE (at_pos (nat (sint len)) s2) (\<lambda>bs.
              bindE (pos_add_signed len s2) (\<lambda>s3. Inr (Some bs, s3)))))"

subsection \<open>The growth loop\<close>

lemma grow_cap_returns:
  assumes "unat need \<le> 2 ^ 63"
  shows "\<exists>c. grow_cap need cap = Some c \<and> need \<le> c \<and> (c = cap \<or> unat c < 2 * unat need)"
proof (induction "2 ^ 64 - unat cap" arbitrary: cap rule: less_induct)
  case less
  show ?case
  proof (cases "need > cap")
    case False
    then have "grow_cap need cap = Some cap" by (subst grow_cap.simps) (simp only: if_False)
    moreover have "need \<le> cap" using False by (simp add: not_less)
    ultimately show ?thesis by simp
  next
    case True
    define cap' where "cap' = (if cap = 0 then 1 else cap * 2)"
    have lt: "unat cap < unat need" using True by (simp add: word_less_nat_alt)
    have u: "unat cap' = (if cap = 0 then 1 else 2 * unat cap)"
    proof (cases "cap = 0")
      case False
      have "unat (cap * 2) = unat cap * 2"
        using lt assms by (simp add: unat_word_ariths)
      with False show ?thesis by (simp add: cap'_def)
    qed (simp add: cap'_def)
    have "0 < unat cap" if "cap \<noteq> 0" using that by (simp add: unat_gt_0)
    with u have inc: "unat cap < unat cap'" "unat cap' < 2 * unat need"
      using lt by (auto split: if_splits)
    have "unat cap < 2 ^ 64" using lt assms by simp
    with inc(1) have "2 ^ 64 - unat cap' < 2 ^ 64 - unat cap" by (rule diff_less_mono2)
    from less [OF this] obtain c where
      "grow_cap need cap' = Some c" "need \<le> c" "c = cap' \<or> unat c < 2 * unat need" by blast
    with True inc show ?thesis
      by (auto simp: grow_cap.simps [of need cap] cap'_def [symmetric])
  qed
qed

lemma double_pow2_word: "(2 :: int64) ^ k * 2 = 2 ^ Suc k"
  by simp

lemma pow2_word_le: "(2 :: int64) ^ k \<le> 2 ^ 63"
proof (cases "k < 64")
  case True
  then have k: "(2::nat) ^ k \<le> 2 ^ 63" by (intro power_increasing) simp_all
  then have "unat (of_nat (2 ^ k) :: int64) = 2 ^ k" by (intro unat_of_nat64) simp
  with k show ?thesis by (simp add: word_le_nat_alt)
next
  case False
  then have "(2 :: int64) ^ k = 0" by (simp add: exp_eq_zero_iff)
  then show ?thesis by (simp only: word_zero_le)
qed

text \<open>Beyond \<open>2^63\<close> no power of two is large enough, and the doubling wraps for ever.\<close>

lemma grow_cap_hangs:
  assumes "need > 2 ^ 63" and "cap = 0 \<or> (\<exists>k. cap = 2 ^ k)"
  shows "grow_cap need cap = None"
proof (rule ccontr)
  assume "grow_cap need cap \<noteq> None"
  then obtain r where ret: "grow_cap need cap = Some r" by blast
  have "(cap = 0 \<or> (\<exists>k. cap = 2 ^ k)) \<longrightarrow> need \<le> (2::int64) ^ 63"
  proof (rule grow_cap.raw_induct
      [where P = "\<lambda>need cap r. (cap = 0 \<or> (\<exists>k. cap = 2 ^ k)) \<longrightarrow> need \<le> (2::int64) ^ 63", OF _ ret])
    fix f need cap r
    assume IH: "\<And>need cap r. f need cap = Some r \<Longrightarrow>
        (cap = 0 \<or> (\<exists>k. cap = 2 ^ k)) \<longrightarrow> need \<le> (2::int64) ^ 63"
      and eq: "(if cap < need then f need (if cap = 0 then 1 else cap * 2) else Some cap) = Some r"
    show "(cap = 0 \<or> (\<exists>k. cap = 2 ^ k)) \<longrightarrow> need \<le> (2::int64) ^ 63"
    proof
      assume c: "cap = 0 \<or> (\<exists>k. cap = 2 ^ k)"
      show "need \<le> (2::int64) ^ 63"
      proof (cases "cap < need")
        case True
        have "(if cap = 0 then 1 else cap * 2) = 0 \<or> (\<exists>k. (if cap = 0 then 1 else cap * 2) = 2 ^ k)"
          using c by (metis double_pow2_word power_0)
        with IH [of need "if cap = 0 then 1 else cap * 2" r] eq True show ?thesis by auto
      next
        case False
        then have "need \<le> cap" by (simp add: not_less)
        moreover from c have "cap \<le> 2 ^ 63" using pow2_word_le by auto
        ultimately show ?thesis by (rule order_trans)
      qed
    qed
  qed
  with assms show False by (simp add: not_le)
qed

subsection \<open>Writes append\<close>

definition stream_ok :: "data_stream \<Rightarrow> bool" where
  "stream_ok s \<longleftrightarrow>
     buf_len s \<le> length (buf_mem s) \<and> length (buf_mem s) \<le> 2 ^ 62 \<and> None \<notin> set (stored s)"

lemma new_stream_ok [simp]: "stream_ok (new_stream nb)"
  by (simp add: stream_ok_def new_stream_def stored_def)

lemma new_stream_simps [simp]:
  "is_big_endian (new_stream nb) = nb" "stored (new_stream nb) = []" "buf_len (new_stream nb) = 0"
  "ds_pos (new_stream nb) = 0"
  by (simp_all add: new_stream_def stored_def)

lemma length_stored: "stream_ok s \<Longrightarrow> length (stored s) = buf_len s"
  by (simp add: stream_ok_def stored_def)

text \<open>\<open>r\<close> is \<open>s\<close> with \<open>bs\<close> appended to the vector, everything else as it was.\<close>

definition appended :: "data_stream \<Rightarrow> byte list \<Rightarrow> data_stream \<Rightarrow> bool" where
  "appended s bs s' \<longleftrightarrow>
     stream_ok s' \<and> stored s' = stored s @ map Some bs \<and> buf_len s' = buf_len s + length bs \<and>
     is_big_endian s' = is_big_endian s \<and> ds_pos s' = ds_pos s"

definition appends :: "data_stream \<Rightarrow> byte list \<Rightarrow> data_stream result \<Rightarrow> bool" where
  "appends s bs r \<longleftrightarrow> (\<exists>s'. r = Inr s' \<and> appended s bs s')"

lemma appends_Inr [simp]: "appends s bs (Inr s') \<longleftrightarrow> appended s bs s'"
  by (simp add: appends_def)

lemma appended_Nil [simp]: "appended s [] s \<longleftrightarrow> stream_ok s"
  by (simp add: appended_def)

lemma appends_bind:
  assumes "appends s as m" and "\<And>s'. appended s as s' \<Longrightarrow> appends s' bs (f s')"
  shows "appends s (as @ bs) (bindE m f)"
proof -
  from assms(1) obtain s1 where s1: "m = Inr s1" "appended s as s1" by (auto simp: appends_def)
  with assms(2) obtain s2 where s2: "f s1 = Inr s2" "appended s1 bs s2" by (auto simp: appends_def)
  from s1 s2 show ?thesis by (auto simp: appended_def appends_def)
qed

lemma scast_of_nat: "n < 2 ^ 31 \<Longrightarrow> (scast (of_nat n :: int32) :: int64) = of_nat n"
  using sint_of_nat32 [of n] by (simp add: signed_of_nat)

lemma vec_reserve_room:
  assumes ok: "stream_ok s" and c: "c \<le> 2 ^ 62"
  shows "\<exists>s'. vec_reserve c s = Inr s' \<and> c \<le> length (buf_mem s') \<and>
           length (buf_mem s) \<le> length (buf_mem s') \<and> appended s [] s'"
proof (cases "c > length (buf_mem s)")
  case True
  moreover have "c \<le> vec_max_size" using c by (simp add: vec_max_size_def)
  ultimately have "vec_reserve c s = Inr (s\<lparr>buf_mem := stored s @ replicate (c - buf_len s) None\<rparr>)"
    by (simp add: vec_reserve_def)
  moreover have "length (stored s) = buf_len s" "buf_len s \<le> c"
    using ok True by (auto simp: length_stored stream_ok_def)
  ultimately show ?thesis using ok c True
    by (auto simp: appended_def stream_ok_def stored_def)
next
  case False
  moreover have "c \<le> vec_max_size" using c by (simp add: vec_max_size_def)
  ultimately show ?thesis using ok by (simp add: vec_reserve_def)
qed

lemma reserve_room:
  assumes ok: "stream_ok s" and n: "buf_len s + n < 2 ^ 60" "n < 2 ^ 31"
  shows "\<exists>s'. reserve (of_nat n) s = Inr s' \<and> buf_len s + n \<le> length (buf_mem s') \<and>
           length (buf_mem s) \<le> length (buf_mem s') \<and> appended s [] s'"
proof -
  let ?need = "of_nat (buf_len s) + scast (of_nat n :: int32) :: int64"
  let ?cap = "of_nat (length (buf_mem s)) :: int64"
  have need: "?need = of_nat (buf_len s + n)" using n by (simp add: scast_of_nat)
  have un: "unat ?need = buf_len s + n" unfolding need using n by (intro unat_of_nat64) simp
  have uc: "unat ?cap = length (buf_mem s)"
    using ok by (intro unat_of_nat64) (simp add: stream_ok_def)
  show ?thesis
  proof (cases "?need > ?cap")
    case False
    then have "buf_len s + n \<le> length (buf_mem s)"
      using un uc by (simp add: word_less_nat_alt not_less)
    with False ok show ?thesis by (simp add: reserve_def)
  next
    case True
    have "unat ?need \<le> 2 ^ 63" using n un by simp
    from grow_cap_returns [OF this, of ?cap] obtain c where
      c: "grow_cap ?need ?cap = Some c" "?need \<le> c" "c = ?cap \<or> unat c < 2 * unat ?need" by blast
    have "unat c \<le> 2 ^ 62"
      using c(3) ok n un uc by (auto simp: stream_ok_def)
    from vec_reserve_room [OF ok this] obtain s' where
      "vec_reserve (unat c) s = Inr s'" "unat c \<le> length (buf_mem s')"
      "length (buf_mem s) \<le> length (buf_mem s')" "appended s [] s'" by blast
    moreover have "buf_len s + n \<le> unat c" using c(2) un by (simp add: word_le_nat_alt)
    ultimately show ?thesis using True c(1)
      by (auto simp: reserve_def Let_def)
  qed
qed

lemma stored_blit:
  assumes "buf_len s + length xs \<le> length (buf_mem s)"
  shows "take (buf_len s + length xs) (blit (buf_len s) xs (buf_mem s)) = stored s @ xs"
  using assms by (simp add: stored_def take_blit_end)

lemma blit_blit:
  "length xs = length ys \<Longrightarrow> i + length ys \<le> length m \<Longrightarrow> blit i xs (blit i ys m) = blit i xs m"
  by (auto simp: blit_def min_absorb2)

lemma write_memory_appends:
  assumes ok: "stream_ok s" and n: "buf_len s + length data < 2 ^ 31"
  shows "appends s data (write_memory data s)"
proof -
  let ?n = "length data"
  have u: "unat (of_nat ?n :: int32) = ?n" using n by (intro unat_of_nat32) simp
  have n60: "buf_len s + ?n < 2 ^ 60" "?n < 2 ^ 31" using n by simp_all
  from reserve_room [OF ok n60] obtain s1 where
    s1: "reserve (of_nat ?n) s = Inr s1" "buf_len s + ?n \<le> length (buf_mem s1)" "appended s [] s1"
    by blast
  from s1(3) have l1: "buf_len s1 = buf_len s" and ok1: "stream_ok s1"
    by (simp_all add: appended_def)
  define m where "m = blit (buf_len s1) (map Some data) (buf_mem s1)"
  have len: "szadd (buf_len s1) ?n = buf_len s1 + ?n" using n l1 by (simp add: szadd_small)
  have "bindE (vec_resize (buf_len s1 + ?n) s1)
          (\<lambda>s2. Inr (s2\<lparr>buf_mem := blit (buf_len s1) (map Some data) (buf_mem s2)\<rparr>))
        = Inr (s1\<lparr>buf_mem := m, buf_len := buf_len s1 + ?n\<rparr>)"
    using s1(2) l1 by (cases "?n = 0") (simp_all add: vec_resize_def m_def blit_blit)
  then have w: "write_memory data s = Inr (s1\<lparr>buf_mem := m, buf_len := buf_len s1 + ?n\<rparr>)"
    using s1(1) len u by (simp add: write_memory_def Let_def)
  have "take (buf_len s1 + ?n) m = stored s1 @ map Some data"
    unfolding m_def using stored_blit [of s1 "map Some data"] s1(2) l1 by simp
  moreover have "length m = length (buf_mem s1)" using s1(2) l1 by (simp add: m_def)
  ultimately show ?thesis using s1 ok1 l1 unfolding w
    by (auto simp: appended_def stream_ok_def stored_def)
qed

text \<open>A length that does not fit \<open>int32_t\<close> makes \<open>reserve\<close> loop for ever.\<close>

lemma write_memory_hangs:
  assumes n: "2 ^ 31 \<le> length data" "buf_len s + length data < 2 ^ 32"
    and cap: "length (buf_mem s) = 0 \<or> (\<exists>k<63. length (buf_mem s) = 2 ^ k)"
  shows "write_memory data s = Inl Hang"
proof -
  let ?l = "of_nat (length data) :: int32"
  let ?cap = "of_nat (length (buf_mem s)) :: int64"
  let ?need = "of_nat (buf_len s) + scast ?l :: int64"
  define d where "d = 2 ^ 32 - (buf_len s + length data)"
  have d: "0 < d" "d \<le> 2 ^ 31" "int (buf_len s) + (int (length data) - 2 ^ 32) = - int d"
    using n by (simp_all add: d_def)
  have "sint ?l = int (length data) - 2 ^ 32" using n by (intro sint_of_nat32_neg) simp_all
  then have "?need = of_int (int (buf_len s) + (int (length data) - 2 ^ 32))"
    by (simp only: scast_sint32 of_int_add of_int_of_nat_eq)
  also have "\<dots> = of_nat (2 ^ 64 - d)"
    unfolding d(3) using d by (simp add: of_nat_diff)
  finally have need: "?need = of_nat (2 ^ 64 - d)" .
  have "unat ?need = 2 ^ 64 - d" unfolding need using d by (intro unat_of_nat64) simp
  with d have un: "?need > 2 ^ 63" by (simp add: word_less_nat_alt)
  have c: "?cap = 0 \<or> (\<exists>k. ?cap = 2 ^ k)" using cap by auto
  then have "?cap \<le> 2 ^ 63" using pow2_word_le by auto
  with un have "?need > ?cap" by simp
  with grow_cap_hangs [OF un c] show ?thesis
    by (simp add: write_memory_def reserve_def Let_def)
qed

subsection \<open>Encodings of the primitive types\<close>

text \<open>
  \<open>enc_word dt x v\<close> is what a primitive write appends: the tag, then the value's bytes,
  little-endian where the stream's flag is the machine's byte order (\<open>x\<close> is \<open>False\<close>), as it
  is for every stream the program constructs, big-endian where it is not.
\<close>

definition enc_word :: "data_type \<Rightarrow> bool \<Rightarrow> 'a::len word \<Rightarrow> byte list" where
  "enc_word dt x v = tag dt # (if x then rev (word_bytes v) else word_bytes v)"

definition enc_len :: "bool \<Rightarrow> nat \<Rightarrow> byte list" where
  "enc_len x n = enc_word DT_INT32 x (of_nat n :: int32)"

definition foreign :: "bool \<Rightarrow> data_stream \<Rightarrow> bool" where
  "foreign nb s \<longleftrightarrow> is_big_endian s \<noteq> nb"

lemma wire_eq: "wire nb flag v = (if flag \<noteq> nb then rev (word_bytes v) else word_bytes v)"
  by (auto simp: wire_def native_bytes_def)

lemma length_wire [simp]: "length (wire nb flag (v :: 'a::len word)) = LENGTH('a) div 8"
  by (simp add: wire_eq)

lemma length_enc_word [simp]: "length (enc_word dt x (v :: 'a::len word)) = Suc (LENGTH('a) div 8)"
  by (simp add: enc_word_def)

lemma length_enc_len [simp]: "length (enc_len x n) = 5"
  by (simp add: enc_len_def)

lemma appended_foreign [simp]: "appended s bs s' \<Longrightarrow> foreign nb s' = foreign nb s"
  by (simp add: appended_def foreign_def)

lemma appended_ok: "appended s bs s' \<Longrightarrow> stream_ok s' \<and> buf_len s' = buf_len s + length bs"
  by (simp add: appended_def)

lemma two_writes:
  assumes "stream_ok s" and "buf_len s + length as + length bs < 2 ^ 31"
    and "\<And>s'. appended s as s' \<Longrightarrow> f s' = write_memory bs s'"
  shows "appends s (as @ bs) (bindE (write_memory as s) f)"
proof (rule appends_bind)
  show "appends s as (write_memory as s)" using assms by (intro write_memory_appends) simp_all
next
  fix s' assume a: "appended s as s'"
  then show "appends s' bs (f s')"
    using assms(2) appended_ok [OF a] unfolding assms(3) [OF a]
    by (intro write_memory_appends) simp_all
qed

lemma write_word_appends:
  assumes "stream_ok s" and "buf_len s + length (enc_word dt x v) < 2 ^ 31" and "x = foreign nb s"
  shows "appends s (enc_word dt x v) (write_word dt nb v s)"
proof -
  have "enc_word dt x v = [tag dt] @ wire nb (is_big_endian s) v"
    by (simp add: enc_word_def wire_eq assms(3) foreign_def)
  moreover have "appends s ([tag dt] @ wire nb (is_big_endian s) v) (write_word dt nb v s)"
    unfolding write_word_def
    by (rule two_writes) (use assms in \<open>auto simp: appended_def\<close>)
  ultimately show ?thesis by simp
qed

lemma write_bool_appends:
  assumes "stream_ok s" and "buf_len s + 2 < 2 ^ 31"
  shows "appends s [tag DT_BOOL, if v then 1 else 0] (write_bool v s)"
  using two_writes [of s "[tag DT_BOOL]" "[if v then 1 else 0]"] assms
  by (simp add: write_bool_def)

lemma write_char_appends:
  assumes "stream_ok s" and "buf_len s + 2 < 2 ^ 31"
  shows "appends s [tag DT_CHAR, c] (write_char c s)"
  using two_writes [of s "[tag DT_CHAR]" "[c]"] assms by (simp add: write_char_def)

lemma write_int32_appends:
  assumes "stream_ok s" and "buf_len s + 5 < 2 ^ 31" and "x = foreign nb s"
  shows "appends s (enc_word DT_INT32 x v) (write_int32 nb v s)"
  unfolding write_int32_def by (rule write_word_appends) (use assms in simp_all)

definition enc_string :: "bool \<Rightarrow> byte list \<Rightarrow> byte list" where
  "enc_string x bs = tag DT_STRING # enc_len x (length bs) @ bs"

lemma length_enc_string [simp]: "length (enc_string x bs) = 6 + length bs"
  by (simp add: enc_string_def)

text \<open>A tag, a length, then whatever the rest appends: the shape of every container write.\<close>

lemma tagged_length_appends:
  assumes ok: "stream_ok s" and n: "buf_len s + 6 + length bs < 2 ^ 31" and x: "x = foreign nb s"
    and rest: "\<And>s'. stream_ok s' \<Longrightarrow> foreign nb s' = x \<Longrightarrow> buf_len s' + length bs < 2 ^ 31 \<Longrightarrow>
                 appends s' bs (f s')"
  shows "appends s (tag dt # enc_len x k @ bs)
    (bindE (write_memory [tag dt] s) (\<lambda>s1. bindE (write_int32 nb (of_nat k) s1) f))"
proof -
  have "appends s ([tag dt] @ (enc_len x k @ bs))
    (bindE (write_memory [tag dt] s) (\<lambda>s1. bindE (write_int32 nb (of_nat k) s1) f))"
  proof (rule appends_bind)
    show "appends s [tag dt] (write_memory [tag dt] s)"
      using ok n by (intro write_memory_appends) simp_all
  next
    fix s1 assume a1: "appended s [tag dt] s1"
    show "appends s1 (enc_len x k @ bs) (bindE (write_int32 nb (of_nat k) s1) f)"
    proof (rule appends_bind)
      show "appends s1 (enc_len x k) (write_int32 nb (of_nat k) s1)"
        unfolding enc_len_def using appended_ok [OF a1] a1 n x
        by (intro write_int32_appends) simp_all
    next
      fix s2 assume a2: "appended s1 (enc_len x k) s2"
      show "appends s2 bs (f s2)"
        using appended_ok [OF a1] appended_ok [OF a2] a1 a2 n x by (intro rest) simp_all
    qed
  qed
  then show ?thesis by simp
qed

lemma write_string_appends:
  assumes "stream_ok s" and "buf_len s + 6 + length bs < 2 ^ 31" and "x = foreign nb s"
  shows "appends s (enc_string x bs) (write_string nb bs s)"
  unfolding enc_string_def write_string_def
  by (rule tagged_length_appends) (use assms in \<open>auto intro: write_memory_appends\<close>)

subsection \<open>Reads consume an encoding\<close>

text \<open>\<open>ready s bs\<close>: the bytes \<open>bs\<close> stand in the block from the read position on.\<close>

definition ready :: "data_stream \<Rightarrow> byte list \<Rightarrow> bool" where
  "ready s bs \<longleftrightarrow>
     0 \<le> sint (ds_pos s) \<and> sint (ds_pos s) + int (length bs) < 2 ^ 31 \<and>
     nat (sint (ds_pos s)) + length bs \<le> length (buf_mem s) \<and>
     take (length bs) (drop (nat (sint (ds_pos s))) (buf_mem s)) = map Some bs"

definition skip :: "nat \<Rightarrow> data_stream \<Rightarrow> data_stream" where
  "skip n s = s\<lparr>ds_pos := ds_pos s + of_nat n\<rparr>"

lemma skip_fields [simp]:
  "buf_mem (skip n s) = buf_mem s" "buf_len (skip n s) = buf_len s"
  "is_big_endian (skip n s) = is_big_endian s" "ds_pos (skip n s) = ds_pos s + of_nat n"
  "stored (skip n s) = stored s"
  by (simp_all add: skip_def stored_def)

lemma skip_skip [simp]: "skip m (skip n s) = skip (n + m) s"
  by (simp add: skip_def algebra_simps)

lemma skip_0 [simp]: "skip 0 s = s"
  by (simp add: skip_def)

lemma known_map [simp]: "known (map Some bs) = Inr bs"
  by (induction bs) simp_all

lemma ready_prefix: "ready s (as @ bs) \<Longrightarrow> ready s as"
  unfolding ready_def by (auto simp: take_add)

lemma ready_pos:
  assumes "ready s (as @ bs)"
  shows "sint (ds_pos s + of_nat (length as)) = sint (ds_pos s) + int (length as)"
proof -
  have p: "0 \<le> sint (ds_pos s)" "sint (ds_pos s) + int (length as) < 2 ^ 31"
    using assms by (auto simp: ready_def)
  then have "sint (of_nat (length as) :: int32) = int (length as)"
    by (intro sint_of_nat32) simp
  with p show ?thesis by (simp add: sint_add32)
qed

lemma ready_skip:
  assumes "ready s (as @ bs)"
  shows "ready (skip (length as) s) bs"
proof -
  define i where "i = nat (sint (ds_pos s))"
  have r: "0 \<le> sint (ds_pos s)" "sint (ds_pos s) + int (length as + length bs) < 2 ^ 31"
    "i + (length as + length bs) \<le> length (buf_mem s)"
    "take (length as + length bs) (drop i (buf_mem s)) = map Some as @ map Some bs"
    using assms by (simp_all add: ready_def i_def)
  have "nat (sint (ds_pos s + of_nat (length as))) = i + length as"
    using ready_pos [OF assms] r(1) by (simp add: i_def)
  moreover have "take (length bs) (drop (i + length as) (buf_mem s)) = map Some bs"
    using arg_cong [OF r(4), of "drop (length as)"] by (simp add: drop_take add.commute)
  ultimately show ?thesis using r ready_pos [OF assms] by (simp add: ready_def)
qed

lemma at_pos_ready: "ready s (as @ bs) \<Longrightarrow> length as = n \<Longrightarrow> at_pos n s = Inr as"
  using ready_prefix [of s as bs] by (auto simp: at_pos_def mem_read_def ready_def)

lemma byte_at_pos_ready: "ready s (b # bs) \<Longrightarrow> byte_at_pos s = Inr b"
  using at_pos_ready [of s "[b]" bs 1] by (simp add: byte_at_pos_def)

lemma pos_add_signed_ready:
  assumes "ready s (as @ bs)"
  shows "pos_add_signed (of_nat (length as)) s = Inr (skip (length as) s)"
proof -
  have p: "0 \<le> sint (ds_pos s)" "sint (ds_pos s) + int (length as) < 2 ^ 31"
    using assms by (auto simp: ready_def)
  then have "sint (of_nat (length as) :: int32) = int (length as)"
    by (intro sint_of_nat32) simp
  with p show ?thesis by (simp add: pos_add_signed_def skip_def)
qed

lemma read_tag_hit: "ready s (tag dt # bs) \<Longrightarrow> read_tag dt s = Inr (True, skip (Suc 0) s)"
  using pos_add_signed_ready [of s "[tag dt]" bs] by (simp add: read_tag_def byte_at_pos_ready)

lemma read_tag_miss: "ready s (b # bs) \<Longrightarrow> b \<noteq> tag dt \<Longrightarrow> read_tag dt s = Inr (False, s)"
  by (simp add: read_tag_def byte_at_pos_ready)

lemma ready_tail: "ready s (b # bs) \<Longrightarrow> ready (skip (Suc 0) s) bs"
  using ready_skip [of s "[b]" bs] by simp

lemma native_word_wire:
  fixes v :: "'a::len word"
  assumes "8 dvd LENGTH('a)"
  shows "native_word nb (if flag then rev (wire nb flag v) else wire nb flag v) = v"
  using bytes_word_bytes [OF assms] by (simp add: native_word_def wire_def native_bytes_def Let_def)

lemma read_word_ok:
  fixes v :: "'a::len word"
  assumes r: "ready s (enc_word dt (foreign nb s) v @ bs)" and "8 dvd LENGTH('a)"
  shows "read_word dt nb s = Inr (Some v, skip (Suc (LENGTH('a) div 8)) s)"
proof -
  let ?w = "wire nb (is_big_endian s) v"
  from r have r0: "ready s (tag dt # ?w @ bs)"
    by (simp add: enc_word_def foreign_def wire_eq)
  from ready_tail [OF this] have r1: "ready (skip (Suc 0) s) (?w @ bs)" .
  have "at_pos (LENGTH('a) div 8) (skip (Suc 0) s) = Inr ?w"
    by (rule at_pos_ready [OF r1]) simp
  then show ?thesis
    by (simp add: read_word_def read_tag_hit [OF r0] native_word_wire [OF assms(2)]
        pos_add_wrap_def skip_def)
qed

lemma read_int32_ok:
  "ready s (enc_word DT_INT32 (foreign nb s) v @ bs) \<Longrightarrow> read_int32 nb s = Inr (Some v, skip 5 s)"
  using read_word_ok [of s DT_INT32 nb v bs] by (simp add: read_int32_def)

lemma read_int64_ok:
  "ready s (enc_word DT_INT64 (foreign nb s) v @ bs) \<Longrightarrow> read_int64 nb s = Inr (Some v, skip 9 s)"
  using read_word_ok [of s DT_INT64 nb v bs] by (simp add: read_int64_def)

lemma read_float_ok:
  "ready s (enc_word DT_FLOAT (foreign nb s) v @ bs) \<Longrightarrow> read_float nb s = Inr (Some v, skip 5 s)"
  using read_word_ok [of s DT_FLOAT nb v bs] by (simp add: read_float_def)

lemma read_double_ok:
  "ready s (enc_word DT_DOUBLE (foreign nb s) v @ bs) \<Longrightarrow> read_double nb s = Inr (Some v, skip 9 s)"
  using read_word_ok [of s DT_DOUBLE nb v bs] by (simp add: read_double_def)

lemma read_bool_ok:
  assumes "ready s (tag DT_BOOL # b # bs)"
  shows "read_bool s = Inr (Some (b \<noteq> 0), skip 2 s)"
  using read_tag_hit [OF assms] byte_at_pos_ready [OF ready_tail [OF assms]]
    pos_add_signed_ready [of "skip (Suc 0) s" "[b]" bs] ready_tail [OF assms]
  by (simp add: read_bool_def numeral_2_eq_2)

lemma read_char_ok:
  assumes "ready s (tag DT_CHAR # b # bs)"
  shows "read_char s = Inr (Some b, skip 2 s)"
  using read_tag_hit [OF assms] byte_at_pos_ready [OF ready_tail [OF assms]]
    pos_add_signed_ready [of "skip (Suc 0) s" "[b]" bs] ready_tail [OF assms]
  by (simp add: read_char_def numeral_2_eq_2)

lemma read_len_ok:
  "ready s (enc_len (foreign nb s) n @ bs) \<Longrightarrow> read_len nb s = Inr (of_nat n, skip 5 s)"
  using read_int32_ok [of s nb "of_nat n" bs] by (simp add: read_len_def enc_len_def)

text \<open>After the tag and the length of a container or string, its body is next.\<close>

lemma tagged_length_read:
  assumes "ready s (tag dt # enc_len (foreign nb s) n @ bs)"
  shows "read_tag dt s = Inr (True, skip (Suc 0) s)"
    and "read_len nb (skip (Suc 0) s) = Inr (of_nat n, skip 6 s)"
    and "ready (skip 6 s) bs"
proof -
  show "read_tag dt s = Inr (True, skip (Suc 0) s)" by (rule read_tag_hit [OF assms])
  have f: "foreign nb (skip (Suc 0) s) = foreign nb s" by (simp add: foreign_def)
  have r: "ready (skip (Suc 0) s) (enc_len (foreign nb (skip (Suc 0) s)) n @ bs)"
    unfolding f by (rule ready_tail [OF assms])
  from read_len_ok [OF this] show "read_len nb (skip (Suc 0) s) = Inr (of_nat n, skip 6 s)" by simp
  from ready_skip [OF r] show "ready (skip 6 s) bs" by simp
qed

lemma read_string_ok:
  assumes r: "ready s (enc_string (foreign nb s) cs @ bs)"
  shows "read_string nb s = Inr (Some cs, skip (6 + length cs) s)"
proof -
  from r have r0: "ready s (tag DT_STRING # enc_len (foreign nb s) (length cs) @ (cs @ bs))"
    by (simp add: enc_string_def)
  note h = tagged_length_read [OF r0]
  have n: "length cs < 2 ^ 31" using h(3) by (simp add: ready_def)
  have "at_pos (length cs) (skip 6 s) = Inr cs" by (rule at_pos_ready [OF h(3)]) simp
  with pos_add_signed_ready [OF h(3)] n show ?thesis
    by (simp add: read_string_def h(1,2) sint_of_nat32 add.commute)
qed

text \<open>\<open>load\<close> into a fresh stream makes the bytes ready to read, with the vector still empty.\<close>

lemma load_fresh:
  assumes n: "length data < 2 ^ 31"
  shows "\<exists>s. load data (new_stream nb) = Inr s \<and> ready s data \<and> is_big_endian s = nb \<and>
             ds_pos s = 0 \<and> buf_len s = 0"
proof -
  have "buf_len (new_stream nb) + length data < 2 ^ 60" using n by simp
  from reserve_room [OF new_stream_ok this n] obtain s1 where
    s1: "reserve (of_nat (length data)) (new_stream nb) = Inr s1" "length data \<le> length (buf_mem s1)"
      "appended (new_stream nb) [] s1" by auto
  let ?s = "s1\<lparr>buf_mem := blit 0 (map Some data) (buf_mem s1), ds_pos := 0\<rparr>"
  have "load data (new_stream nb) = Inr ?s" using s1 by (simp add: load_def)
  moreover have "ready ?s data" using s1(2) n by (simp add: ready_def blit_def)
  ultimately show ?thesis using s1(3) by (auto simp: appended_def)
qed

text \<open>A stream that was only written to is ready to be read from the start.\<close>

lemma stored_ready:
  assumes "stream_ok s" "stored s = map Some bs" "ds_pos s = 0" "length bs < 2 ^ 31"
  shows "ready s bs"
  using assms length_stored [OF assms(1)]
  by (simp add: ready_def stored_def stream_ok_def)

end
