(* ===== verification/Stream_Growth.thy ===== *)
theory Stream_Growth
  imports Data_Stream
begin

text \<open>
  The growth of a \<open>Data_Stream\<close>'s vector: \<open>reserve\<close> ends and makes room for every length
  that fits \<open>int32_t\<close>; a longer one makes its loop run for ever.
\<close>

subsection \<open>The first bytes of a string written to a fresh stream\<close>

lemma grow_caps:
  "grow_cap 1 0 = Some 1" "grow_cap 2 1 = Some 2" "grow_cap 6 2 = Some 8"
  by (simp_all add: grow_cap.simps)

lemma write_tag_fresh:
  "write_memory [b] (new_stream nb) =
     Inr \<lparr>is_big_endian = nb, buf_mem = [Some b], buf_len = 1, ds_pos = 0\<rparr>"
  by (simp add: write_memory_def reserve_def new_stream_def Let_def grow_caps vec_reserve_def
      vec_max_size_def stored_def vec_resize_def szadd_def blit_def)

lemma write_len_fresh:
  fixes v :: int32
  shows "\<exists>m. write_int32 nb v \<lparr>is_big_endian = nb, buf_mem = [Some b], buf_len = 1, ds_pos = 0\<rparr> =
     Inr \<lparr>is_big_endian = nb, buf_mem = m, buf_len = 6, ds_pos = 0\<rparr> \<and> length m = 8"
proof -
  have w1: "write_memory [tag DT_INT32] \<lparr>is_big_endian = nb, buf_mem = [Some b], buf_len = 1, ds_pos = 0\<rparr>
     = Inr \<lparr>is_big_endian = nb, buf_mem = [Some b, Some (tag DT_INT32)], buf_len = 2, ds_pos = 0\<rparr>"
    by (simp add: write_memory_def reserve_def Let_def grow_caps vec_reserve_def
      vec_max_size_def stored_def vec_resize_def szadd_def blit_def)
  have "length (wire nb nb v) = Suc (Suc (Suc (Suc 0)))" by simp
  then obtain a0 a1 a2 a3 where a: "wire nb nb v = [a0, a1, a2, a3]"
    by (auto simp only: length_Suc_conv length_0_conv)
  have "\<exists>m. write_memory [a0, a1, a2, a3]
      \<lparr>is_big_endian = nb, buf_mem = [Some b, Some (tag DT_INT32)], buf_len = 2, ds_pos = 0\<rparr> =
      Inr \<lparr>is_big_endian = nb, buf_mem = m, buf_len = 6, ds_pos = 0\<rparr> \<and> length m = 8"
    by (simp add: write_memory_def reserve_def Let_def grow_caps vec_reserve_def
      vec_max_size_def stored_def vec_resize_def szadd_def)
  then show ?thesis
    by (simp only: write_int32_def write_word_def w1 bindE_simps data_stream.simps a)
qed

subsection \<open>Properties\<close>

text \<open>
  C32: \<open>reserve\<close> ends and makes room. For every length that fits \<open>int32_t\<close> the doubling loop
  terminates, the block then holds the contents and the new bytes, it never shrinks, and the
  contents, the flag and the position stay.
\<close>
theorem reserve_terminates:
  assumes "stream_ok s" and "buf_len s + n < 2 ^ 60" and "n < 2 ^ 31"
  shows "\<exists>s'. reserve (of_nat n) s = Inr s' \<and> buf_len s + n \<le> length (buf_mem s') \<and>
     length (buf_mem s) \<le> length (buf_mem s') \<and> stored s' = stored s \<and>
     is_big_endian s' = is_big_endian s \<and> ds_pos s' = ds_pos s \<and> stream_ok s'"
  using reserve_room [OF assms] by (auto simp: appended_def)

theorem reserve_terminates_witness:
  "\<exists>s'. reserve 100 (new_stream True) = Inr s' \<and> 100 \<le> length (buf_mem s') \<and> stored s' = [] \<and>
     stream_ok s'"
  using reserve_terminates [of "new_stream True" 100] by auto

text \<open>
  A string of two gigabytes. Writing a string of at least \<open>2^31\<close> bytes (whose length
  still fits \<open>uint32_t\<close>) to a fresh stream never returns: \<open>reserve\<close> takes the length as a
  negative \<open>int32_t\<close>, and its loop doubles a capacity that wraps to zero.
\<close>
theorem write_string_hangs:
  assumes "2 ^ 31 \<le> length data" and "length data + 6 < 2 ^ 32"
  shows "write_string nb data (new_stream nb) = Inl Hang"
proof -
  obtain m where m: "write_int32 nb (of_nat (length data))
      \<lparr>is_big_endian = nb, buf_mem = [Some (tag DT_STRING)], buf_len = 1, ds_pos = 0\<rparr> =
     Inr \<lparr>is_big_endian = nb, buf_mem = m, buf_len = 6, ds_pos = 0\<rparr>" "length m = 8"
    using write_len_fresh by blast
  have "\<exists>k<63. length m = 2 ^ k" using m(2) by (intro exI [of _ 3]) simp
  then have "write_memory data \<lparr>is_big_endian = nb, buf_mem = m, buf_len = 6, ds_pos = 0\<rparr> = Inl Hang"
    using assms by (intro write_memory_hangs) simp_all
  then show ?thesis by (simp only: write_string_def write_tag_fresh bindE_simps m(1))
qed

theorem write_string_hangs_witness:
  "write_string False (replicate 3000000000 0) (new_stream False) = Inl Hang"
  by (rule write_string_hangs) (simp_all only: length_replicate, simp_all)

end
