(* ===== verification/Data_Codec.thy ===== *)
theory Data_Codec
  imports Data_Stream
begin

text \<open>
  The serializable types of \<open>Core/Data_Stream.h\<close> and their templates \<open>write\<close>, \<open>read\<close>,
  \<open>write_args\<close>, \<open>read_args\<close>, \<open>get\<close> and \<open>get_args\<close>, with the \<open>SERIALIZE\<close> macro of
  \<open>Core/enable_serializable.h\<close>. A C++ type is a \<open>ctype\<close>, an object of it a \<open>cval\<close>; the
  template instances are the equations of \<open>write_value\<close> and \<open>read_value\<close>.

  \<open>enc\<close> is the wire format. The lemmas show that \<open>write\<close> appends \<open>enc\<close> and that
  \<open>read_value\<close> takes it off again, for every type, nested as deep as one likes.
\<close>

subsection \<open>Types and values\<close>

datatype ctype =
    TBool | TChar | TInt32 | TInt64 | TFloat | TDouble | TString
  | TVector ctype | TList ctype | TMap ctype ctype | TSet ctype
  | TUMap ctype ctype | TUSet ctype
  | TCustom "ctype list" \<comment> \<open>a class with \<open>SERIALIZE(fields)\<close>\<close>
  | TStream \<comment> \<open>\<open>Data_Stream\<close> itself, a class with \<open>SERIALIZE(is_big_endian, _buf, _pos)\<close>\<close>

text \<open>
  \<open>VUninit\<close> is an object of a primitive type that was never assigned. A \<open>std::set\<close> or
  \<open>std::map\<close> is the list of its elements in ascending order, an unordered container the
  list of its elements in iteration order.
\<close>

datatype cval =
    VUninit | VBool bool | VChar byte | VInt32 int32 | VInt64 int64
  | VFloat "32 word" | VDouble "64 word" | VString "byte list"
  | VVector "cval list" | VList "cval list" | VMap "(cval \<times> cval) list" | VSet "cval list"
  | VUMap "(cval \<times> cval) list" | VUSet "cval list"
  | VCustom "cval list" | VStream data_stream

fun elems_of :: "cval \<Rightarrow> cval list" where
  "elems_of (VSet xs) = xs"
| "elems_of (VUSet xs) = xs"
| "elems_of _ = []"

fun pairs_of :: "cval \<Rightarrow> (cval \<times> cval) list" where
  "pairs_of (VMap ps) = ps"
| "pairs_of (VUMap ps) = ps"
| "pairs_of _ = []"

fun fields_of :: "cval \<Rightarrow> cval list" where
  "fields_of (VCustom vs) = vs"
| "fields_of _ = []"

text \<open>\<open>T v;\<close>: primitives stay indeterminate, classes are default-constructed.\<close>

fun default_val :: "bool \<Rightarrow> ctype \<Rightarrow> cval" where
  "default_val nb TString = VString []"
| "default_val nb (TVector t) = VVector []"
| "default_val nb (TList t) = VList []"
| "default_val nb (TMap k v) = VMap []"
| "default_val nb (TSet t) = VSet []"
| "default_val nb (TUMap k v) = VUMap []"
| "default_val nb (TUSet t) = VUSet []"
| "default_val nb (TCustom ts) = VCustom (map (default_val nb) ts)"
| "default_val nb TStream = VStream (new_stream nb)"
| "default_val nb _ = VUninit"

text \<open>Copying an indeterminate value (into a container, out of a function) is undefined.\<close>

fun determinate :: "cval \<Rightarrow> bool" where
  "determinate VUninit = False"
| "determinate (VVector xs) = list_all determinate xs"
| "determinate (VList xs) = list_all determinate xs"
| "determinate (VSet xs) = list_all determinate xs"
| "determinate (VUSet xs) = list_all determinate xs"
| "determinate (VMap ps) = list_all (\<lambda>p. determinate (fst p) \<and> determinate (snd p)) ps"
| "determinate (VUMap ps) = list_all (\<lambda>p. determinate (fst p) \<and> determinate (snd p)) ps"
| "determinate (VCustom vs) = list_all determinate vs"
| "determinate _ = True"

subsection \<open>Order and equality of keys\<close>

text \<open>
  \<open>operator<\<close> of the key types, as a three-way comparison: \<open>LT\<close> for \<open>a < b\<close>, \<open>GT\<close> for
  \<open>b < a\<close>, \<open>EQ\<close> for neither. A \<open>char\<close> is signed (the x86-64 ABI), a string compares its
  bytes as \<open>unsigned char\<close>, floating point compares as IEEE 754 (a NaN is neither less nor
  greater), sequences and maps compare lexicographically. A user class used as a key has
  its own \<open>operator<\<close>, which is not code of the library; it has no equation of its own here
  and \<open>keyable\<close> excludes it.
\<close>

datatype ordering = LT | EQ | GT

definition cmp_int :: "int \<Rightarrow> int \<Rightarrow> ordering" where
  "cmp_int a b = (if a < b then LT else if b < a then GT else EQ)"

definition ieee_nan :: "nat \<Rightarrow> nat \<Rightarrow> nat \<Rightarrow> bool" where
  "ieee_nan sign topexp bits \<longleftrightarrow> bits mod sign > topexp"

definition ieee_key :: "nat \<Rightarrow> nat \<Rightarrow> int" where
  "ieee_key sign bits = (if bits \<ge> sign then - int (bits mod sign) else int (bits mod sign))"

definition cmp_ieee :: "nat \<Rightarrow> nat \<Rightarrow> nat \<Rightarrow> nat \<Rightarrow> ordering" where
  "cmp_ieee sign topexp a b =
     (if ieee_nan sign topexp a \<or> ieee_nan sign topexp b then EQ
      else cmp_int (ieee_key sign a) (ieee_key sign b))"

fun cmp_bytes :: "byte list \<Rightarrow> byte list \<Rightarrow> ordering" where
  "cmp_bytes [] [] = EQ"
| "cmp_bytes [] (y # ys) = LT"
| "cmp_bytes (x # xs) [] = GT"
| "cmp_bytes (x # xs) (y # ys) =
     (case cmp_int (int (unat x)) (int (unat y)) of EQ \<Rightarrow> cmp_bytes xs ys | c \<Rightarrow> c)"

function (sequential) key_cmp :: "cval \<Rightarrow> cval \<Rightarrow> ordering"
  and key_cmp_list :: "cval list \<Rightarrow> cval list \<Rightarrow> ordering"
  and key_cmp_pairs :: "(cval \<times> cval) list \<Rightarrow> (cval \<times> cval) list \<Rightarrow> ordering"
where
  "key_cmp (VBool a) y = (case y of VBool b \<Rightarrow> cmp_int (of_bool a) (of_bool b) | _ \<Rightarrow> EQ)"
| "key_cmp (VChar a) y = (case y of VChar b \<Rightarrow> cmp_int (sint a) (sint b) | _ \<Rightarrow> EQ)"
| "key_cmp (VInt32 a) y = (case y of VInt32 b \<Rightarrow> cmp_int (sint a) (sint b) | _ \<Rightarrow> EQ)"
| "key_cmp (VInt64 a) y = (case y of VInt64 b \<Rightarrow> cmp_int (sint a) (sint b) | _ \<Rightarrow> EQ)"
| "key_cmp (VFloat a) y = (case y of VFloat b \<Rightarrow> cmp_ieee (2 ^ 31) (255 * 2 ^ 23) (unat a) (unat b) | _ \<Rightarrow> EQ)"
| "key_cmp (VDouble a) y = (case y of VDouble b \<Rightarrow> cmp_ieee (2 ^ 63) (2047 * 2 ^ 52) (unat a) (unat b) | _ \<Rightarrow> EQ)"
| "key_cmp (VString a) y = (case y of VString b \<Rightarrow> cmp_bytes a b | _ \<Rightarrow> EQ)"
| "key_cmp (VVector a) y = (case y of VVector b \<Rightarrow> key_cmp_list a b | _ \<Rightarrow> EQ)"
| "key_cmp (VList a) y = (case y of VList b \<Rightarrow> key_cmp_list a b | _ \<Rightarrow> EQ)"
| "key_cmp (VSet a) y = (case y of VSet b \<Rightarrow> key_cmp_list a b | _ \<Rightarrow> EQ)"
| "key_cmp (VMap a) y = (case y of VMap b \<Rightarrow> key_cmp_pairs a b | _ \<Rightarrow> EQ)"
| "key_cmp VUninit y = EQ"
| "key_cmp (VUMap a) y = EQ"
| "key_cmp (VUSet a) y = EQ"
| "key_cmp (VCustom a) y = EQ"
| "key_cmp (VStream a) y = EQ"
| "key_cmp_list [] [] = EQ"
| "key_cmp_list [] (y # ys) = LT"
| "key_cmp_list (x # xs) [] = GT"
| "key_cmp_list (x # xs) (y # ys) =
     (case key_cmp x y of EQ \<Rightarrow> key_cmp_list xs ys | c \<Rightarrow> c)"
| "key_cmp_pairs [] [] = EQ"
| "key_cmp_pairs [] (q # qs) = LT"
| "key_cmp_pairs (p # ps) [] = GT"
| "key_cmp_pairs ((k, v) # ps) ((k', v') # qs) =
     (case key_cmp k k' of
        EQ \<Rightarrow> (case key_cmp v v' of EQ \<Rightarrow> key_cmp_pairs ps qs | c \<Rightarrow> c)
      | c \<Rightarrow> c)"
  by pat_completeness auto
termination
  by (relation "measure (case_sum (\<lambda>(a, b). size a)
        (case_sum (\<lambda>(a, b). size_list size a) (\<lambda>(a, b). size_list (size_prod size size) a)))")
     auto

definition key_less :: "cval \<Rightarrow> cval \<Rightarrow> bool" where
  "key_less a b \<longleftrightarrow> key_cmp a b = LT"

text \<open>\<open>operator==\<close> of the key types of the unordered containers.\<close>

definition ieee_eq :: "nat \<Rightarrow> nat \<Rightarrow> nat \<Rightarrow> nat \<Rightarrow> bool" where
  "ieee_eq sign topexp a b \<longleftrightarrow>
     \<not> ieee_nan sign topexp a \<and> \<not> ieee_nan sign topexp b \<and> ieee_key sign a = ieee_key sign b"

definition key_eq :: "cval \<Rightarrow> cval \<Rightarrow> bool" where
  "key_eq x y =
     (case (x, y) of
        (VFloat a, VFloat b) \<Rightarrow> ieee_eq (2 ^ 31) (255 * 2 ^ 23) (unat a) (unat b)
      | (VDouble a, VDouble b) \<Rightarrow> ieee_eq (2 ^ 63) (2047 * 2 ^ 52) (unat a) (unat b)
      | _ \<Rightarrow> x = y)"

subsection \<open>The standard containers' insertions\<close>

text \<open>\<open>std::set::insert\<close> and \<open>std::map::operator[]\<close> followed by an assignment.\<close>

fun set_insert :: "cval \<Rightarrow> cval list \<Rightarrow> cval list" where
  "set_insert x [] = [x]"
| "set_insert x (y # ys) =
     (if key_less y x then y # set_insert x ys
      else if key_less x y then x # y # ys else y # ys)"

fun map_put :: "cval \<times> cval \<Rightarrow> (cval \<times> cval) list \<Rightarrow> (cval \<times> cval) list" where
  "map_put p [] = [p]"
| "map_put p (q # qs) =
     (if key_less (fst q) (fst p) then q # map_put p qs
      else if key_less (fst p) (fst q) then p # q # qs else (fst q, snd p) # qs)"

fun uset_insert :: "cval \<Rightarrow> cval list \<Rightarrow> cval list" where
  "uset_insert x [] = [x]"
| "uset_insert x (y # ys) = (if key_eq y x then y # ys else y # uset_insert x ys)"

fun umap_put :: "cval \<times> cval \<Rightarrow> (cval \<times> cval) list \<Rightarrow> (cval \<times> cval) list" where
  "umap_put p [] = [p]"
| "umap_put p (q # qs) =
     (if key_eq (fst q) (fst p) then (fst q, snd p) # qs else q # umap_put p qs)"

definition copied :: "(cval \<Rightarrow> 'c \<Rightarrow> 'c) \<Rightarrow> cval \<Rightarrow> 'c \<Rightarrow> 'c result" where
  "copied ins v c =
     (if determinate v then Inr (ins v c) else Inl (Undefined ''copy of an indeterminate value''))"

definition copied_pair :: "(cval \<times> cval \<Rightarrow> 'c \<Rightarrow> 'c) \<Rightarrow> cval \<times> cval \<Rightarrow> 'c \<Rightarrow> 'c result" where
  "copied_pair ins p c =
     (if determinate (fst p) \<and> determinate (snd p) then Inr (ins p c)
      else Inl (Undefined ''copy of an indeterminate value''))"

definition push_back :: "'e \<Rightarrow> 'e list \<Rightarrow> 'e list" where
  "push_back v xs = xs @ [v]"

subsection \<open>Writing\<close>

fun write_chars :: "byte option list \<Rightarrow> data_stream \<Rightarrow> data_stream result" where
  "write_chars [] s = Inr s"
| "write_chars (None # cs) s = Inl (Undefined ''indeterminate byte'')"
| "write_chars (Some c # cs) s = bindE (write_char c s) (write_chars cs)"

text \<open>A nested \<open>Data_Stream\<close>: its three fields, the vector element by element.\<close>

definition write_stream :: "bool \<Rightarrow> data_stream \<Rightarrow> data_stream \<Rightarrow> data_stream result" where
  "write_stream nb t s =
     bindE (write_memory [tag DT_CUSTOM] s) (\<lambda>s1.
     bindE (write_bool (is_big_endian t) s1) (\<lambda>s2.
     bindE (bindE (write_memory [tag DT_VECTOR] s2) (\<lambda>s3.
            bindE (write_int32 nb (of_nat (length (stored t))) s3)
            (write_chars (stored t)))) (\<lambda>s4.
     write_int32 nb (ds_pos t) s4)))"

function (sequential) write_value :: "bool \<Rightarrow> cval \<Rightarrow> data_stream \<Rightarrow> data_stream result"
  and write_seq :: "bool \<Rightarrow> cval list \<Rightarrow> data_stream \<Rightarrow> data_stream result"
  and write_pairs :: "bool \<Rightarrow> (cval \<times> cval) list \<Rightarrow> data_stream \<Rightarrow> data_stream result"
where
  "write_value nb VUninit s = Inl (Undefined ''indeterminate value'')"
| "write_value nb (VBool b) s = write_bool b s"
| "write_value nb (VChar c) s = write_char c s"
| "write_value nb (VInt32 w) s = write_int32 nb w s"
| "write_value nb (VInt64 w) s = write_int64 nb w s"
| "write_value nb (VFloat w) s = write_float nb w s"
| "write_value nb (VDouble w) s = write_double nb w s"
| "write_value nb (VString bs) s = write_string nb bs s"
| "write_value nb (VVector xs) s =
     bindE (write_memory [tag DT_VECTOR] s) (\<lambda>s1.
     bindE (write_int32 nb (of_nat (length xs)) s1) (write_seq nb xs))"
| "write_value nb (VList xs) s =
     bindE (write_memory [tag DT_LIST] s) (\<lambda>s1.
     bindE (write_int32 nb (of_nat (length xs)) s1) (write_seq nb xs))"
| "write_value nb (VSet xs) s =
     bindE (write_memory [tag DT_SET] s) (\<lambda>s1.
     bindE (write_int32 nb (of_nat (length xs)) s1) (write_seq nb xs))"
| "write_value nb (VMap ps) s =
     bindE (write_memory [tag DT_MAP] s) (\<lambda>s1.
     bindE (write_int32 nb (of_nat (length ps)) s1) (write_pairs nb ps))"
| "write_value nb (VUSet xs) s =
     bindE (write_memory [tag DT_SET] s) (\<lambda>s1.
     bindE (write_int32 nb (of_nat (length xs)) s1) (write_seq nb xs))"
| "write_value nb (VUMap ps) s =
     bindE (write_memory [tag DT_MAP] s) (\<lambda>s1.
     bindE (write_int32 nb (of_nat (length ps)) s1) (write_pairs nb ps))"
| "write_value nb (VCustom vs) s = bindE (write_memory [tag DT_CUSTOM] s) (write_seq nb vs)"
| "write_value nb (VStream t) s = write_stream nb t s"
| "write_seq nb [] s = Inr s"
| "write_seq nb (v # vs) s = bindE (write_value nb v s) (write_seq nb vs)"
| "write_pairs nb [] s = Inr s"
| "write_pairs nb ((k, v) # ps) s =
     bindE (write_value nb k s) (\<lambda>s1. bindE (write_value nb v s1) (write_pairs nb ps))"
  by pat_completeness auto
termination
  by (relation "measure (case_sum (\<lambda>(nb, v, s). size v)
        (case_sum (\<lambda>(nb, vs, s). size_list size vs)
                  (\<lambda>(nb, ps, s). size_list (size_prod size size) ps)))")
     auto

text \<open>\<open>write_args(value, args...)\<close>.\<close>

fun write_args :: "bool \<Rightarrow> cval list \<Rightarrow> data_stream \<Rightarrow> data_stream result" where
  "write_args nb [] s = Inr s"
| "write_args nb [v] s = write_value nb v s"
| "write_args nb (v # vs) s = bindE (write_value nb v s) (write_args nb vs)"

subsection \<open>Reading\<close>

text \<open>The \<open>for\<close> loops: read an element, put it into the container, \<open>len\<close> times.\<close>

fun repeat_read :: "nat \<Rightarrow> (data_stream \<Rightarrow> ('e \<times> data_stream) result) \<Rightarrow>
    ('e \<Rightarrow> 'c \<Rightarrow> 'c result) \<Rightarrow> 'c \<Rightarrow> data_stream \<Rightarrow> ('c \<times> data_stream) result" where
  "repeat_read 0 get ins c s = Inr (c, s)"
| "repeat_read (Suc n) get ins c s =
     bindE (get s) (\<lambda>(v, s1). bindE (ins v c) (\<lambda>c1. repeat_read n get ins c1 s1))"

text \<open>The common head of the container reads: the tag, the length, the loop.\<close>

definition read_container :: "data_type \<Rightarrow> bool \<Rightarrow> (data_stream \<Rightarrow> ('e \<times> data_stream) result) \<Rightarrow>
    ('e \<Rightarrow> 'c \<Rightarrow> 'c result) \<Rightarrow> 'c \<Rightarrow> data_stream \<Rightarrow> ('c option \<times> data_stream) result" where
  "read_container dt nb get ins c s =
     bindE (read_tag dt s) (\<lambda>(ok, s1).
       if \<not> ok then Inr (None, s1)
       else bindE (read_len nb s1) (\<lambda>(len, s2).
            bindE (repeat_read (nat (sint len)) get ins c s2) (\<lambda>(c', s3). Inr (Some c', s3))))"

text \<open>\<open>char v; read(v);\<close> in the loop of \<open>read(std::vector<char>&)\<close>.\<close>

definition get_char :: "data_stream \<Rightarrow> (byte \<times> data_stream) result" where
  "get_char s =
     bindE (read_char s) (\<lambda>(c, s1).
       case c of None \<Rightarrow> Inl (Undefined ''copy of an indeterminate value'') | Some b \<Rightarrow> Inr (b, s1))"

text \<open>
  \<open>clear()\<close> and \<open>push_back\<close> of each byte: the block is kept while it is large enough.
  Where the vector grows, the capacity is the allocator's choice; the model takes the
  length, since the spare bytes are indeterminate and reading one is undefined either way.
\<close>

definition vec_assign :: "byte list \<Rightarrow> data_stream \<Rightarrow> data_stream" where
  "vec_assign cs t =
     t\<lparr>buf_mem := (if length cs \<le> length (buf_mem t) then blit 0 (map Some cs) (buf_mem t)
                   else map Some cs),
       buf_len := length cs\<rparr>"

text \<open>
  \<open>Data_Stream::deserialize\<close>, from the macro with the three fields: \<open>read_args\<close> stops at
  the first field that fails, its result is ignored, and \<open>deserialize\<close> returns \<open>true\<close>.
\<close>

definition read_stream ::
    "bool \<Rightarrow> data_stream \<Rightarrow> data_stream \<Rightarrow> (bool \<times> data_stream \<times> data_stream) result" where
  "read_stream nb t s =
     bindE (read_memory 1 s) (\<lambda>(bs, s1).
     if hd bs \<noteq> tag DT_CUSTOM then Inr (False, t, s1)
     else bindE (read_bool s1) (\<lambda>(b, s2).
       case b of None \<Rightarrow> Inr (True, t, s2)
       | Some be \<Rightarrow>
         bindE (read_container DT_VECTOR nb get_char (\<lambda>c cs. Inr (push_back c cs)) [] s2)
         (\<lambda>(cs, s3).
         case cs of None \<Rightarrow> Inr (True, t\<lparr>is_big_endian := be\<rparr>, s3)
         | Some bs' \<Rightarrow>
           bindE (read_int32 nb s3) (\<lambda>(p, s4).
           let t2 = vec_assign bs' (t\<lparr>is_big_endian := be\<rparr>) in
           case p of None \<Rightarrow> Inr (True, t2, s4)
           | Some pos \<Rightarrow> Inr (True, t2\<lparr>ds_pos := pos\<rparr>, s4)))))"

fun stream_of :: "bool \<Rightarrow> cval \<Rightarrow> data_stream" where
  "stream_of nb (VStream t) = t"
| "stream_of nb _ = new_stream nb"

definition outcome :: "cval \<Rightarrow> ('c \<Rightarrow> cval) \<Rightarrow> ('c option \<times> data_stream) result \<Rightarrow>
    (bool \<times> cval \<times> data_stream) result" where
  "outcome old mk r =
     bindE r (\<lambda>(v, s). case v of None \<Rightarrow> Inr (False, old, s) | Some x \<Rightarrow> Inr (True, mk x, s))"

text \<open>
  \<open>read(T& value)\<close>: the returned flag, the object afterwards, the stream afterwards. A
  vector or list is cleared first; a set or map is not, and keeps what \<open>old\<close> held.
\<close>

fun read_value :: "bool \<Rightarrow> ctype \<Rightarrow> cval \<Rightarrow> data_stream \<Rightarrow> (bool \<times> cval \<times> data_stream) result"
  and read_args :: "bool \<Rightarrow> ctype list \<Rightarrow> cval list \<Rightarrow> data_stream \<Rightarrow>
                      (bool \<times> cval list \<times> data_stream) result"
where
  "read_value nb TBool old s = outcome old VBool (read_bool s)"
| "read_value nb TChar old s = outcome old VChar (read_char s)"
| "read_value nb TInt32 old s = outcome old VInt32 (read_int32 nb s)"
| "read_value nb TInt64 old s = outcome old VInt64 (read_int64 nb s)"
| "read_value nb TFloat old s = outcome old VFloat (read_float nb s)"
| "read_value nb TDouble old s = outcome old VDouble (read_double nb s)"
| "read_value nb TString old s = outcome old VString (read_string nb s)"
| "read_value nb (TVector t) old s =
     outcome old VVector (read_container DT_VECTOR nb
       (\<lambda>s'. bindE (read_value nb t (default_val nb t) s') (\<lambda>(ok, v, s''). Inr (v, s'')))
       (copied push_back) [] s)"
| "read_value nb (TList t) old s =
     outcome old VList (read_container DT_LIST nb
       (\<lambda>s'. bindE (read_value nb t (default_val nb t) s') (\<lambda>(ok, v, s''). Inr (v, s'')))
       (copied push_back) [] s)"
| "read_value nb (TSet t) old s =
     outcome old VSet (read_container DT_SET nb
       (\<lambda>s'. bindE (read_value nb t (default_val nb t) s') (\<lambda>(ok, v, s''). Inr (v, s'')))
       (copied set_insert) (elems_of old) s)"
| "read_value nb (TUSet t) old s =
     outcome old VUSet (read_container DT_SET nb
       (\<lambda>s'. bindE (read_value nb t (default_val nb t) s') (\<lambda>(ok, v, s''). Inr (v, s'')))
       (copied uset_insert) (elems_of old) s)"
| "read_value nb (TMap kt vt) old s =
     outcome old VMap (read_container DT_MAP nb
       (\<lambda>s'. bindE (read_value nb kt (default_val nb kt) s') (\<lambda>(ok, k, s1).
             bindE (read_value nb vt (default_val nb vt) s1) (\<lambda>(ok', v, s2). Inr ((k, v), s2))))
       (copied_pair map_put) (pairs_of old) s)"
| "read_value nb (TUMap kt vt) old s =
     outcome old VUMap (read_container DT_MAP nb
       (\<lambda>s'. bindE (read_value nb kt (default_val nb kt) s') (\<lambda>(ok, k, s1).
             bindE (read_value nb vt (default_val nb vt) s1) (\<lambda>(ok', v, s2). Inr ((k, v), s2))))
       (copied_pair umap_put) (pairs_of old) s)"
| "read_value nb (TCustom ts) old s =
     bindE (read_memory 1 s) (\<lambda>(bs, s1).
     if hd bs \<noteq> tag DT_CUSTOM then Inr (False, old, s1)
     else bindE (read_args nb ts (fields_of old) s1) (\<lambda>(ok, vs, s2). Inr (True, VCustom vs, s2)))"
| "read_value nb TStream old s =
     bindE (read_stream nb (stream_of nb old) s) (\<lambda>(ok, t, s1). Inr (ok, VStream t, s1))"
| "read_args nb [] vs s = Inr (True, vs, s)"
| "read_args nb (t # ts) [] s = Inl (Undefined ''no such field'')"
| "read_args nb (t # ts) (v # vs) s =
     bindE (read_value nb t v s) (\<lambda>(ok, v', s1).
     if \<not> ok then Inr (False, v' # vs, s1)
     else bindE (read_args nb ts vs s1) (\<lambda>(ok', vs', s2). Inr (ok', v' # vs', s2)))"

text \<open>\<open>operator <<\<close> and \<open>operator >>\<close>, and chains of them; the result of \<open>read\<close> is dropped.\<close>

definition stream_out :: "bool \<Rightarrow> cval \<Rightarrow> data_stream \<Rightarrow> data_stream result" where
  "stream_out nb value s = bindE (write_value nb value s) Inr"

text \<open>\<open>operator<<(const char*)\<close>.\<close>

definition stream_out_cstr :: "bool \<Rightarrow> byte list \<Rightarrow> data_stream \<Rightarrow> data_stream result" where
  "stream_out_cstr nb chars s = bindE (write_cstr nb chars s) Inr"

definition stream_in :: "bool \<Rightarrow> ctype \<Rightarrow> cval \<Rightarrow> data_stream \<Rightarrow> (cval \<times> data_stream) result" where
  "stream_in nb t value s = bindE (read_value nb t value s) (\<lambda>(ok, v, s1). Inr (v, s1))"

fun stream_outs :: "bool \<Rightarrow> cval list \<Rightarrow> data_stream \<Rightarrow> data_stream result" where
  "stream_outs nb [] s = Inr s"
| "stream_outs nb (v # vs) s = bindE (stream_out nb v s) (stream_outs nb vs)"

fun stream_ins :: "bool \<Rightarrow> (ctype \<times> cval) list \<Rightarrow> data_stream \<Rightarrow> (cval list \<times> data_stream) result" where
  "stream_ins nb [] s = Inr ([], s)"
| "stream_ins nb ((t, old) # ts) s =
     bindE (stream_in nb t old s) (\<lambda>(v, s1). bindE (stream_ins nb ts s1) (\<lambda>(vs, s2). Inr (v # vs, s2)))"

text \<open>\<open>get<T>()\<close>: \<open>T value; read(value); return value;\<close>.\<close>

definition get :: "bool \<Rightarrow> ctype \<Rightarrow> data_stream \<Rightarrow> (cval \<times> data_stream) result" where
  "get nb t s =
     bindE (read_value nb t (default_val nb t) s) (\<lambda>(ok, v, s1).
       if determinate v then Inr (v, s1) else Inl (Undefined ''copy of an indeterminate value''))"

text \<open>
  \<open>get_args\<close> calls \<open>get<Args>()\<close> for every type in one argument list. C++ leaves the order
  of these calls open; \<open>order\<close> lists the argument indices in the order the compiler chose.
\<close>

fun get_in_order :: "bool \<Rightarrow> ctype list \<Rightarrow> nat list \<Rightarrow> cval list \<Rightarrow> data_stream \<Rightarrow>
    (cval list \<times> data_stream) result" where
  "get_in_order nb ts [] vs s = Inr (vs, s)"
| "get_in_order nb ts (i # order) vs s =
     bindE (get nb (ts ! i) s) (\<lambda>(v, s1). get_in_order nb ts order (vs[i := v]) s1)"

definition get_args :: "bool \<Rightarrow> nat list \<Rightarrow> ctype list \<Rightarrow> data_stream \<Rightarrow>
    (cval list \<times> data_stream) result" where
  "get_args nb order ts s = get_in_order nb ts order (replicate (length ts) VUninit) s"

subsection \<open>Well-formed values and the wire format\<close>

text \<open>
  \<open>is_value v t\<close>: \<open>v\<close> is a fully assigned object of type \<open>t\<close>. The elements of a set or the
  keys of a map ascend strictly, those of an unordered container are pairwise different, as
  the standard containers keep them; a \<open>Data_Stream\<close> is one without spare block, as every
  copy is.
\<close>

definition compact :: "data_stream \<Rightarrow> bool" where
  "compact t \<longleftrightarrow> None \<notin> set (buf_mem t) \<and> buf_len t = length (buf_mem t)"

fun is_value :: "cval \<Rightarrow> ctype \<Rightarrow> bool"
  and are_fields :: "cval list \<Rightarrow> ctype list \<Rightarrow> bool"
where
  "is_value VUninit t = False"
| "is_value (VBool b) t = (t = TBool)"
| "is_value (VChar c) t = (t = TChar)"
| "is_value (VInt32 w) t = (t = TInt32)"
| "is_value (VInt64 w) t = (t = TInt64)"
| "is_value (VFloat w) t = (t = TFloat)"
| "is_value (VDouble w) t = (t = TDouble)"
| "is_value (VString bs) t = (t = TString)"
| "is_value (VVector xs) t =
     (case t of TVector e \<Rightarrow> list_all (\<lambda>x. is_value x e) xs | _ \<Rightarrow> False)"
| "is_value (VList xs) t =
     (case t of TList e \<Rightarrow> list_all (\<lambda>x. is_value x e) xs | _ \<Rightarrow> False)"
| "is_value (VSet xs) t =
     (case t of TSet e \<Rightarrow> list_all (\<lambda>x. is_value x e) xs \<and> sorted_wrt key_less xs | _ \<Rightarrow> False)"
| "is_value (VUSet xs) t =
     (case t of TUSet e \<Rightarrow> list_all (\<lambda>x. is_value x e) xs \<and>
                           sorted_wrt (\<lambda>a b. \<not> key_eq a b) xs
      | _ \<Rightarrow> False)"
| "is_value (VMap ps) t =
     (case t of TMap kt vt \<Rightarrow> list_all (\<lambda>p. is_value (fst p) kt \<and> is_value (snd p) vt) ps \<and>
                              sorted_wrt key_less (map fst ps)
      | _ \<Rightarrow> False)"
| "is_value (VUMap ps) t =
     (case t of TUMap kt vt \<Rightarrow> list_all (\<lambda>p. is_value (fst p) kt \<and> is_value (snd p) vt) ps \<and>
                               sorted_wrt (\<lambda>a b. \<not> key_eq a b) (map fst ps)
      | _ \<Rightarrow> False)"
| "is_value (VCustom vs) t = (case t of TCustom ts \<Rightarrow> are_fields vs ts | _ \<Rightarrow> False)"
| "is_value (VStream d) t = (t = TStream \<and> compact d)"
| "are_fields [] ts = (ts = [])"
| "are_fields (v # vs) ts = (case ts of [] \<Rightarrow> False | t # ts' \<Rightarrow> is_value v t \<and> are_fields vs ts')"

definition stream_bytes :: "data_stream \<Rightarrow> byte list" where
  "stream_bytes t = map the (stored t)"

definition enc_char :: "byte \<Rightarrow> byte list" where
  "enc_char c = [tag DT_CHAR, c]"

definition enc_bool :: "bool \<Rightarrow> byte list" where
  "enc_bool b = [tag DT_BOOL, if b then 1 else 0]"

definition enc_seq :: "data_type \<Rightarrow> bool \<Rightarrow> ('e \<Rightarrow> byte list) \<Rightarrow> 'e list \<Rightarrow> byte list" where
  "enc_seq dt x e vs = tag dt # enc_len x (length vs) @ concat (map e vs)"

lemma length_enc_seq: "length (enc_seq dt x e vs) = 6 + length (concat (map e vs))"
  by (simp add: enc_seq_def)

lemma length_enc_chars: "length (concat (map enc_char cs)) = 2 * length cs"
  by (induction cs) (simp_all add: enc_char_def)

lemma enc_seq_cong [fundef_cong]:
  "vs = vs' \<Longrightarrow> (\<And>v. v \<in> set vs' \<Longrightarrow> e v = e' v) \<Longrightarrow> enc_seq dt x e vs = enc_seq dt x e' vs'"
  by (simp add: enc_seq_def cong: map_cong)

definition enc_stream :: "bool \<Rightarrow> data_stream \<Rightarrow> byte list" where
  "enc_stream x t =
     tag DT_CUSTOM # enc_bool (is_big_endian t) @ enc_seq DT_VECTOR x enc_char (stream_bytes t) @
     enc_word DT_INT32 x (ds_pos t)"

fun enc :: "bool \<Rightarrow> cval \<Rightarrow> byte list" where
  "enc x VUninit = []"
| "enc x (VBool b) = enc_bool b"
| "enc x (VChar c) = enc_char c"
| "enc x (VInt32 w) = enc_word DT_INT32 x w"
| "enc x (VInt64 w) = enc_word DT_INT64 x w"
| "enc x (VFloat w) = enc_word DT_FLOAT x w"
| "enc x (VDouble w) = enc_word DT_DOUBLE x w"
| "enc x (VString bs) = enc_string x bs"
| "enc x (VVector xs) = enc_seq DT_VECTOR x (enc x) xs"
| "enc x (VList xs) = enc_seq DT_LIST x (enc x) xs"
| "enc x (VSet xs) = enc_seq DT_SET x (enc x) xs"
| "enc x (VUSet xs) = enc_seq DT_SET x (enc x) xs"
| "enc x (VMap ps) = enc_seq DT_MAP x (\<lambda>p. enc x (fst p) @ enc x (snd p)) ps"
| "enc x (VUMap ps) = enc_seq DT_MAP x (\<lambda>p. enc x (fst p) @ enc x (snd p)) ps"
| "enc x (VCustom vs) = tag DT_CUSTOM # concat (map (enc x) vs)"
| "enc x (VStream t) = enc_stream x t"

lemma is_value_determinate: "is_value v t \<Longrightarrow> determinate v"
  and are_fields_determinate: "are_fields vs ts \<Longrightarrow> list_all determinate vs"
  by (induction v t and vs ts rule: is_value_are_fields.induct)
     (fastforce simp: list_all_iff split: ctype.splits list.splits)+

text \<open>What a container value of a type looks like, one equivalence per container.\<close>

lemma is_value_containers:
  "is_value (VVector xs) t \<longleftrightarrow> (\<exists>e. t = TVector e \<and> (\<forall>x \<in> set xs. is_value x e))"
  "is_value (VList xs) t \<longleftrightarrow> (\<exists>e. t = TList e \<and> (\<forall>x \<in> set xs. is_value x e))"
  "is_value (VSet xs) t \<longleftrightarrow>
     (\<exists>e. t = TSet e \<and> (\<forall>x \<in> set xs. is_value x e) \<and> sorted_wrt key_less xs)"
  "is_value (VUSet xs) t \<longleftrightarrow>
     (\<exists>e. t = TUSet e \<and> (\<forall>x \<in> set xs. is_value x e) \<and> sorted_wrt (\<lambda>a b. \<not> key_eq a b) xs)"
  by (cases t; auto simp: list_all_iff)+

lemma is_value_maps:
  "is_value (VMap ps) t \<longleftrightarrow>
     (\<exists>kt vt. t = TMap kt vt \<and> (\<forall>p \<in> set ps. is_value (fst p) kt \<and> is_value (snd p) vt) \<and>
              sorted_wrt key_less (map fst ps))"
  "is_value (VUMap ps) t \<longleftrightarrow>
     (\<exists>kt vt. t = TUMap kt vt \<and> (\<forall>p \<in> set ps. is_value (fst p) kt \<and> is_value (snd p) vt) \<and>
              sorted_wrt (\<lambda>a b. \<not> key_eq a b) (map fst ps))"
  by (cases t; auto simp: list_all_iff)+

lemma are_fields_list_all2: "are_fields vs ts \<longleftrightarrow> list_all2 is_value vs ts"
  by (induction vs arbitrary: ts) (auto split: list.splits simp: list_all2_Cons1)

lemma is_value_custom:
  "is_value (VCustom vs) t \<longleftrightarrow> (\<exists>ts. t = TCustom ts \<and> list_all2 is_value vs ts)"
  by (cases t) (simp_all add: are_fields_list_all2)

lemmas is_value_shapes = is_value_containers is_value_maps is_value_custom

declare is_value.simps(9-15) [simp del] and is_value_shapes [simp]

lemma enc_nonempty: "determinate v \<Longrightarrow> enc x v \<noteq> []"
  by (cases v) (simp_all add: enc_bool_def enc_char_def enc_word_def enc_string_def enc_seq_def
      enc_stream_def)

subsection \<open>Writing appends the encoding\<close>

definition writes :: "bool \<Rightarrow> bool \<Rightarrow> cval \<Rightarrow> bool" where
  "writes nb x v \<longleftrightarrow>
     (\<forall>s. stream_ok s \<longrightarrow> foreign nb s = x \<longrightarrow> buf_len s + length (enc x v) < 2 ^ 31 \<longrightarrow>
          appends s (enc x v) (write_value nb v s))"

lemma writesD:
  "writes nb x v \<Longrightarrow> stream_ok s \<Longrightarrow> foreign nb s = x \<Longrightarrow> buf_len s + length (enc x v) < 2 ^ 31 \<Longrightarrow>
   appends s (enc x v) (write_value nb v s)"
  by (simp add: writes_def)

lemma write_seq_appends:
  assumes "\<forall>v \<in> set vs. writes nb x v" and "stream_ok s" "foreign nb s = x"
    and "buf_len s + length (concat (map (enc x) vs)) < 2 ^ 31"
  shows "appends s (concat (map (enc x) vs)) (write_seq nb vs s)"
  using assms
proof (induction vs arbitrary: s)
  case Nil
  then show ?case by simp
next
  case (Cons v vs)
  have "appends s (enc x v @ concat (map (enc x) vs)) (bindE (write_value nb v s) (write_seq nb vs))"
  proof (rule appends_bind)
    show "appends s (enc x v) (write_value nb v s)"
      using Cons.prems by (intro writesD) simp_all
  next
    fix s' assume "appended s (enc x v) s'"
    then show "appends s' (concat (map (enc x) vs)) (write_seq nb vs s')"
      using Cons.prems by (intro Cons.IH) (simp_all add: appended_ok)
  qed
  then show ?case by simp
qed

lemma write_pairs_appends:
  assumes "\<forall>p \<in> set ps. writes nb x (fst p) \<and> writes nb x (snd p)" and "stream_ok s" "foreign nb s = x"
    and "buf_len s + length (concat (map (\<lambda>p. enc x (fst p) @ enc x (snd p)) ps)) < 2 ^ 31"
  shows "appends s (concat (map (\<lambda>p. enc x (fst p) @ enc x (snd p)) ps)) (write_pairs nb ps s)"
  using assms
proof (induction ps arbitrary: s)
  case Nil
  then show ?case by simp
next
  case (Cons p ps)
  obtain k v where p: "p = (k, v)" by (cases p)
  let ?rest = "concat (map (\<lambda>p. enc x (fst p) @ enc x (snd p)) ps)"
  have "appends s (enc x k @ (enc x v @ ?rest))
      (bindE (write_value nb k s) (\<lambda>s1. bindE (write_value nb v s1) (write_pairs nb ps)))"
  proof (rule appends_bind)
    show "appends s (enc x k) (write_value nb k s)"
      using Cons.prems p by (intro writesD) simp_all
  next
    fix s1 assume a1: "appended s (enc x k) s1"
    show "appends s1 (enc x v @ ?rest) (bindE (write_value nb v s1) (write_pairs nb ps))"
    proof (rule appends_bind)
      show "appends s1 (enc x v) (write_value nb v s1)"
        using Cons.prems p a1 appended_ok [OF a1] by (intro writesD) simp_all
    next
      fix s2 assume a2: "appended s1 (enc x v) s2"
      show "appends s2 ?rest (write_pairs nb ps s2)"
        using Cons.prems p a1 a2 appended_ok [OF a1] appended_ok [OF a2]
        by (intro Cons.IH) simp_all
    qed
  qed
  then show ?case by (simp add: p)
qed

lemma write_chars_appends:
  "stream_ok s \<Longrightarrow> buf_len s + length (concat (map enc_char cs)) < 2 ^ 31 \<Longrightarrow>
   appends s (concat (map enc_char cs)) (write_chars (map Some cs) s)"
proof (induction cs arbitrary: s)
  case Nil
  then show ?case by simp
next
  case (Cons c cs)
  have "appends s (enc_char c @ concat (map enc_char cs))
          (bindE (write_char c s) (write_chars (map Some cs)))"
  proof (rule appends_bind)
    show "appends s (enc_char c) (write_char c s)"
      unfolding enc_char_def using Cons.prems by (intro write_char_appends) (simp_all add: enc_char_def)
  next
    fix s' assume "appended s (enc_char c) s'"
    then show "appends s' (concat (map enc_char cs)) (write_chars (map Some cs) s')"
      using Cons.prems by (intro Cons.IH) (simp_all add: appended_ok enc_char_def)
  qed
  then show ?case by simp
qed

lemma map_Some_the: "None \<notin> set xs \<Longrightarrow> map Some (map the xs) = xs"
  by (induction xs) auto

lemma stored_bytes: "stream_ok t \<Longrightarrow> stored t = map Some (stream_bytes t)"
  by (simp add: stream_ok_def stream_bytes_def map_Some_the del: map_map)

lemma compact_stored: "compact t \<Longrightarrow> stored t = buf_mem t \<and> buf_mem t = map Some (stream_bytes t)"
  by (simp add: compact_def stored_def stream_bytes_def map_Some_the del: map_map)

lemma length_stream_bytes: "compact t \<Longrightarrow> length (stream_bytes t) = buf_len t"
  by (simp add: compact_def stored_def stream_bytes_def)

lemma write_stream_appends:
  assumes ok: "stream_ok s" and x: "foreign nb s = x" and t: "stored t = map Some (stream_bytes t)"
    and n: "buf_len s + length (enc_stream x t) < 2 ^ 31"
  shows "appends s (enc_stream x t) (write_stream nb t s)"
proof -
  let ?cs = "stream_bytes t"
  let ?body = "enc_seq DT_VECTOR x enc_char ?cs"
  have lt: "length (stored t) = length ?cs" using t by simp
  have n': "buf_len s + 8 + length ?body < 2 ^ 31"
    using n by (simp add: enc_stream_def enc_bool_def)
  have "appends s ([tag DT_CUSTOM] @ (enc_bool (is_big_endian t) @ (?body @ enc_word DT_INT32 x (ds_pos t))))
    (write_stream nb t s)"
    unfolding write_stream_def
  proof (intro appends_bind)
    show "appends s [tag DT_CUSTOM] (write_memory [tag DT_CUSTOM] s)"
      using ok n' by (intro write_memory_appends) simp_all
  next
    fix s1 assume a1: "appended s [tag DT_CUSTOM] s1"
    show "appends s1 (enc_bool (is_big_endian t)) (write_bool (is_big_endian t) s1)"
      unfolding enc_bool_def using appended_ok [OF a1] n' by (intro write_bool_appends) simp_all
    fix s2 assume a2: "appended s1 (enc_bool (is_big_endian t)) s2"
    have l2: "buf_len s2 = buf_len s + 3" "stream_ok s2" "foreign nb s2 = x"
      using appended_ok [OF a1] appended_ok [OF a2] a1 a2 x by (simp_all add: enc_bool_def)
    show "appends s2 ?body
        (bindE (write_memory [tag DT_VECTOR] s2) (\<lambda>s3.
         bindE (write_int32 nb (of_nat (length (stored t))) s3) (write_chars (stored t))))"
      unfolding enc_seq_def t length_map
      using l2 n' write_chars_appends
      by (intro tagged_length_appends) (simp_all add: enc_seq_def)
    fix s4 assume a4: "appended s2 ?body s4"
    show "appends s4 (enc_word DT_INT32 x (ds_pos t)) (write_int32 nb (ds_pos t) s4)"
      using appended_ok [OF a4] a4 l2 n' by (intro write_int32_appends) simp_all
  qed
  then show ?thesis by (simp add: enc_stream_def)
qed

lemma writesI:
  "(\<And>s. stream_ok s \<Longrightarrow> foreign nb s = x \<Longrightarrow> buf_len s + length (enc x v) < 2 ^ 31 \<Longrightarrow>
        appends s (enc x v) (write_value nb v s)) \<Longrightarrow> writes nb x v"
  by (simp add: writes_def)

lemma write_container_appends:
  assumes "\<forall>v \<in> set xs. writes nb x v" "stream_ok s" "foreign nb s = x"
    and "buf_len s + length (enc_seq dt x (enc x) xs) < 2 ^ 31"
  shows "appends s (enc_seq dt x (enc x) xs)
    (bindE (write_memory [tag dt] s) (\<lambda>s1.
     bindE (write_int32 nb (of_nat (length xs)) s1) (write_seq nb xs)))"
  unfolding enc_seq_def using assms
  by (intro tagged_length_appends write_seq_appends) (simp_all add: enc_seq_def)

lemma write_map_appends:
  assumes "\<forall>p \<in> set ps. writes nb x (fst p) \<and> writes nb x (snd p)" "stream_ok s" "foreign nb s = x"
    and "buf_len s + length (enc_seq dt x (\<lambda>p. enc x (fst p) @ enc x (snd p)) ps) < 2 ^ 31"
  shows "appends s (enc_seq dt x (\<lambda>p. enc x (fst p) @ enc x (snd p)) ps)
    (bindE (write_memory [tag dt] s) (\<lambda>s1.
     bindE (write_int32 nb (of_nat (length ps)) s1) (write_pairs nb ps)))"
  unfolding enc_seq_def using assms
  by (intro tagged_length_appends write_pairs_appends) (simp_all add: enc_seq_def)

lemma write_custom_appends:
  assumes "\<forall>v \<in> set vs. writes nb x v" "stream_ok s" "foreign nb s = x"
    and "buf_len s + length (enc x (VCustom vs)) < 2 ^ 31"
  shows "appends s (enc x (VCustom vs)) (bindE (write_memory [tag DT_CUSTOM] s) (write_seq nb vs))"
proof -
  have "appends s ([tag DT_CUSTOM] @ concat (map (enc x) vs))
          (bindE (write_memory [tag DT_CUSTOM] s) (write_seq nb vs))"
  proof (rule appends_bind)
    show "appends s [tag DT_CUSTOM] (write_memory [tag DT_CUSTOM] s)"
      using assms by (intro write_memory_appends) simp_all
  next
    fix s' assume "appended s [tag DT_CUSTOM] s'"
    then show "appends s' (concat (map (enc x) vs)) (write_seq nb vs s')"
      using assms by (intro write_seq_appends) (simp_all add: appended_ok)
  qed
  then show ?thesis by simp
qed

lemma write_value_appends: "is_value v t \<Longrightarrow> writes nb x v"
proof (induction v arbitrary: t)
  case (VVector xs)
  then have "\<forall>v \<in> set xs. writes nb x v" by auto
  then show ?case by (intro writesI) (simp add: write_container_appends)
next
  case (VList xs)
  then have "\<forall>v \<in> set xs. writes nb x v" by auto
  then show ?case by (intro writesI) (simp add: write_container_appends)
next
  case (VSet xs)
  then have "\<forall>v \<in> set xs. writes nb x v" by auto
  then show ?case by (intro writesI) (simp add: write_container_appends)
next
  case (VUSet xs)
  then have "\<forall>v \<in> set xs. writes nb x v" by auto
  then show ?case by (intro writesI) (simp add: write_container_appends)
next
  case (VMap ps)
  then have "\<forall>p \<in> set ps. writes nb x (fst p) \<and> writes nb x (snd p)"
    by (auto simp: prod_set_defs)
  then show ?case by (intro writesI) (simp add: write_map_appends)
next
  case (VUMap ps)
  then have "\<forall>p \<in> set ps. writes nb x (fst p) \<and> writes nb x (snd p)"
    by (auto simp: prod_set_defs)
  then show ?case by (intro writesI) (simp add: write_map_appends)
next
  case (VCustom vs)
  from VCustom.prems have "\<forall>v \<in> set vs. \<exists>t. is_value v t"
    by (fastforce simp: list_all2_conv_all_nth in_set_conv_nth)
  then have "\<forall>v \<in> set vs. writes nb x v" using VCustom.IH by blast
  then show ?case using write_custom_appends by (intro writesI) simp
next
  case (VStream d)
  then show ?case by (intro writesI) (simp add: compact_stored write_stream_appends)
qed (auto intro!: writesI simp: enc_bool_def enc_char_def write_int64_def write_float_def
    write_double_def write_bool_appends write_char_appends write_int32_appends write_word_appends
    write_string_appends)

subsection \<open>Reading takes the encoding off\<close>

fun ins_all :: "('e \<Rightarrow> 'c \<Rightarrow> 'c result) \<Rightarrow> 'e list \<Rightarrow> 'c \<Rightarrow> 'c result" where
  "ins_all ins [] c = Inr c"
| "ins_all ins (v # vs) c = bindE (ins v c) (ins_all ins vs)"

text \<open>
  The contract between a container's read and the read of its elements: \<open>rd\<close> takes the
  encoding \<open>e v\<close> of an admissible element off the stream and leaves the rest alone. The
  container reads are clients of it.
\<close>

locale element_codec =
  fixes x nb :: bool
    and rd :: "data_stream \<Rightarrow> ('e \<times> data_stream) result"
    and e :: "'e \<Rightarrow> byte list"
    and adm :: "'e \<Rightarrow> bool"
  assumes rd_enc: "adm v \<Longrightarrow> foreign nb s = x \<Longrightarrow> ready s (e v @ bs) \<Longrightarrow>
        rd s = Inr (v, skip (length (e v)) s)"
    and e_nonempty: "adm v \<Longrightarrow> e v \<noteq> []"
begin

lemma repeat_read_enc:
  assumes "list_all adm vs" "foreign nb s = x" "ready s (concat (map e vs) @ bs)"
    and "ins_all ins vs c = Inr c'"
  shows "repeat_read (length vs) rd ins c s = Inr (c', skip (length (concat (map e vs))) s)"
  using assms
proof (induction vs arbitrary: s c)
  case Nil
  then show ?case by simp
next
  case (Cons v vs)
  from Cons.prems(4) obtain c1 where c1: "ins v c = Inr c1" "ins_all ins vs c1 = Inr c'"
    by (auto simp: bindE_eq_Inr)
  have r: "ready s (e v @ (concat (map e vs) @ bs))" using Cons.prems(3) by simp
  have "rd s = Inr (v, skip (length (e v)) s)"
    by (rule rd_enc [OF _ Cons.prems(2) r]) (use Cons.prems(1) in simp)
  moreover have "repeat_read (length vs) rd ins c1 (skip (length (e v)) s) =
      Inr (c', skip (length (concat (map e vs))) (skip (length (e v)) s))"
    using Cons.prems(1,2) c1(2) ready_skip [OF r] by (intro Cons.IH) (simp_all add: foreign_def)
  ultimately show ?case using c1(1) by simp
qed

lemma length_concat_ge: "list_all adm vs \<Longrightarrow> length vs \<le> length (concat (map e vs))"
proof (induction vs)
  case (Cons v vs)
  then have "1 \<le> length (e v)" using e_nonempty [of v] by (cases "e v") simp_all
  moreover have "length vs \<le> length (concat (map e vs))" using Cons by simp
  ultimately have "1 + length vs \<le> length (e v) + length (concat (map e vs))" by (rule add_le_mono)
  then show ?case by simp
qed simp

lemma read_container_enc:
  assumes adm: "list_all adm vs" and x: "foreign nb s = x"
    and r: "ready s (enc_seq dt x e vs @ bs)" and ins: "ins_all ins vs c = Inr c'"
  shows "read_container dt nb rd ins c s = Inr (Some c', skip (length (enc_seq dt x e vs)) s)"
proof -
  let ?body = "concat (map e vs)"
  from r x have "ready s (tag dt # enc_len (foreign nb s) (length vs) @ (?body @ bs))"
    by (simp add: enc_seq_def)
  note h = tagged_length_read [OF this]
  have "length ?body < 2 ^ 31" using h(3) by (simp add: ready_def)
  with length_concat_ge [OF adm] have "length vs < 2 ^ 31" by linarith
  then have n: "nat (sint (of_nat (length vs) :: int32)) = length vs" by (simp add: sint_of_nat32)
  have "foreign nb (skip 6 s) = x" using x by (simp add: foreign_def)
  from repeat_read_enc [OF adm this h(3) ins] n h(1,2) show ?thesis
    by (simp add: read_container_def enc_seq_def)
qed

end

interpretation chars: element_codec x nb get_char enc_char "\<lambda>_. True" for x nb
  by unfold_locales (auto simp: get_char_def enc_char_def read_char_ok numeral_2_eq_2)

subsubsection \<open>What the insertions build\<close>

lemma ins_all_push:
  "list_all determinate vs \<Longrightarrow> ins_all (copied push_back) vs c = Inr (c @ vs)"
  by (induction vs arbitrary: c) (simp_all add: copied_def push_back_def)

lemma ins_all_push_char: "ins_all (\<lambda>c cs. Inr (push_back c cs)) cs acc = Inr (acc @ cs)"
  by (induction cs arbitrary: acc) (simp_all add: push_back_def)

lemma set_insert_last: "\<forall>y \<in> set c. key_less y v \<Longrightarrow> set_insert v c = c @ [v]"
  by (induction c) auto

lemma ins_all_set:
  "list_all determinate vs \<Longrightarrow> sorted_wrt key_less (c @ vs) \<Longrightarrow>
   ins_all (copied set_insert) vs c = Inr (c @ vs)"
  by (induction vs arbitrary: c)
     (simp_all add: copied_def set_insert_last sorted_wrt_append)

lemma map_put_last: "\<forall>q \<in> set c. key_less (fst q) (fst p) \<Longrightarrow> map_put p c = c @ [p]"
  by (induction c) auto

lemma ins_all_map:
  "list_all (\<lambda>p. determinate (fst p) \<and> determinate (snd p)) ps \<Longrightarrow>
   sorted_wrt key_less (map fst (c @ ps)) \<Longrightarrow>
   ins_all (copied_pair map_put) ps c = Inr (c @ ps)"
  by (induction ps arbitrary: c)
     (simp_all add: copied_pair_def map_put_last sorted_wrt_append)

lemma uset_insert_last: "\<forall>y \<in> set c. \<not> key_eq y v \<Longrightarrow> uset_insert v c = c @ [v]"
  by (induction c) auto

lemma ins_all_uset:
  "list_all determinate vs \<Longrightarrow> sorted_wrt (\<lambda>a b. \<not> key_eq a b) (c @ vs) \<Longrightarrow>
   ins_all (copied uset_insert) vs c = Inr (c @ vs)"
  by (induction vs arbitrary: c)
     (simp_all add: copied_def uset_insert_last sorted_wrt_append)

lemma umap_put_last: "\<forall>q \<in> set c. \<not> key_eq (fst q) (fst p) \<Longrightarrow> umap_put p c = c @ [p]"
  by (induction c) auto

lemma ins_all_umap:
  "list_all (\<lambda>p. determinate (fst p) \<and> determinate (snd p)) ps \<Longrightarrow>
   sorted_wrt (\<lambda>a b. \<not> key_eq a b) (map fst (c @ ps)) \<Longrightarrow>
   ins_all (copied_pair umap_put) ps c = Inr (c @ ps)"
  by (induction ps arbitrary: c)
     (simp_all add: copied_pair_def umap_put_last sorted_wrt_append)

subsubsection \<open>A nested stream\<close>

lemma read_memory_tag:
  assumes "ready s (b # bs)"
  shows "read_memory 1 s = Inr ([b], skip (Suc 0) s)"
  using at_pos_ready [of s "[b]" bs 1] assms
  by (simp add: read_memory_def pos_add_wrap_def skip_def)

lemma read_stream_ok:
  assumes t: "compact t" and r: "ready s (enc_stream (foreign nb s) t @ bs)"
  shows "read_stream nb (new_stream nb0) s =
         Inr (True, t, skip (length (enc_stream (foreign nb s) t)) s)"
proof -
  let ?x = "foreign nb s" let ?cs = "stream_bytes t"
  let ?vec = "enc_seq DT_VECTOR ?x enc_char ?cs" let ?pos = "enc_word DT_INT32 ?x (ds_pos t)"
  let ?flag = "if is_big_endian t then 1 else 0 :: byte"
  have r0: "ready s (tag DT_CUSTOM # tag DT_BOOL # ?flag # ?vec @ ?pos @ bs)"
    using r by (simp add: enc_stream_def enc_bool_def)
  have r1: "ready (skip (Suc 0) s) (tag DT_BOOL # ?flag # ?vec @ ?pos @ bs)"
    by (rule ready_tail [OF r0])
  have b: "read_bool (skip (Suc 0) s) = Inr (Some (is_big_endian t), skip 3 s)"
    using read_bool_ok [OF r1] by (simp add: numeral_3_eq_3 split: if_splits)
  have r2: "ready (skip 3 s) (?vec @ ?pos @ bs)"
    using ready_skip [of s "[tag DT_CUSTOM, tag DT_BOOL, ?flag]"] r0 by (simp add: numeral_3_eq_3)
  have f: "foreign nb (skip n s) = ?x" for n by (simp add: foreign_def)
  have c: "read_container DT_VECTOR nb get_char (\<lambda>c cs. Inr (push_back c cs)) [] (skip 3 s) =
      Inr (Some ?cs, skip (3 + length ?vec) s)"
    using chars.read_container_enc [OF _ f r2 ins_all_push_char, of "[]"]
    by (simp add: list_all_iff)
  have r3: "ready (skip (3 + length ?vec) s) (?pos @ bs)" using ready_skip [OF r2] by simp
  have p: "read_int32 nb (skip (3 + length ?vec) s) = Inr (Some (ds_pos t), skip (3 + length ?vec + 5) s)"
    using read_int32_ok [of "skip (3 + length ?vec) s" nb "ds_pos t" bs] r3 by (simp add: f)
  have e: "(vec_assign ?cs (new_stream nb0\<lparr>is_big_endian := is_big_endian t\<rparr>))\<lparr>ds_pos := ds_pos t\<rparr> = t"
    using compact_stored [OF t] length_stream_bytes [OF t]
    by (cases t) (auto simp: vec_assign_def new_stream_def)
  have l: "length (enc_stream ?x t) = 3 + length ?vec + 5"
    by (simp add: enc_stream_def enc_bool_def)
  show ?thesis
    unfolding read_stream_def read_memory_tag [OF r0] l
    by (simp add: b c p e)
qed

subsubsection \<open>Every type\<close>

definition reads_as :: "cval \<Rightarrow> ctype \<Rightarrow> bool" where
  "reads_as v t \<longleftrightarrow>
     (\<forall>nb s bs. ready s (enc (foreign nb s) v @ bs) \<longrightarrow>
        read_value nb t (default_val nb t) s =
          Inr (True, v, skip (length (enc (foreign nb s) v)) s))"

lemma reads_asD:
  "reads_as v t \<Longrightarrow> ready s (enc (foreign nb s) v @ bs) \<Longrightarrow>
   read_value nb t (default_val nb t) s = Inr (True, v, skip (length (enc (foreign nb s) v)) s)"
  unfolding reads_as_def by blast

interpretation fresh: element_codec x nb
  "\<lambda>s'. bindE (read_value nb t (default_val nb t) s') (\<lambda>(ok, v, s''). Inr (v, s''))"
  "enc x" "\<lambda>v. reads_as v t \<and> determinate v" for x nb t
  by unfold_locales (auto dest: reads_asD simp: enc_nonempty)

interpretation fresh_pair: element_codec x nb
  "\<lambda>s'. bindE (read_value nb kt (default_val nb kt) s') (\<lambda>(ok, k, s1).
        bindE (read_value nb vt (default_val nb vt) s1) (\<lambda>(ok', v, s2). Inr ((k, v), s2)))"
  "\<lambda>p. enc x (fst p) @ enc x (snd p)"
  "\<lambda>p. (reads_as (fst p) kt \<and> determinate (fst p)) \<and> reads_as (snd p) vt \<and> determinate (snd p)"
  for x nb kt vt
proof unfold_locales
  fix p :: "cval \<times> cval" and s bs
  assume adm: "(reads_as (fst p) kt \<and> determinate (fst p)) \<and> reads_as (snd p) vt \<and> determinate (snd p)"
    and x: "foreign nb s = x" and r: "ready s ((enc x (fst p) @ enc x (snd p)) @ bs)"
  have r0: "ready s (enc (foreign nb s) (fst p) @ enc x (snd p) @ bs)" using r x by simp
  let ?s1 = "skip (length (enc x (fst p))) s"
  have f: "foreign nb ?s1 = x" using x by (simp add: foreign_def)
  have r1: "ready ?s1 (enc (foreign nb ?s1) (snd p) @ bs)"
    using ready_skip [OF r0] x by (simp add: f)
  show "bindE (read_value nb kt (default_val nb kt) s) (\<lambda>(ok, k, s1).
        bindE (read_value nb vt (default_val nb vt) s1) (\<lambda>(ok', v, s2). Inr ((k, v), s2)))
      = Inr (p, skip (length (enc x (fst p) @ enc x (snd p))) s)"
    using reads_asD [OF _ r0] reads_asD [OF _ r1] adm x f by simp
qed (simp add: enc_nonempty)

lemma read_container_seq:
  assumes "list_all (\<lambda>v. reads_as v t \<and> determinate v) vs"
    and "ready s (enc_seq dt (foreign nb s) (enc (foreign nb s)) vs @ bs)"
    and "ins_all ins vs c = Inr vs"
  shows "outcome old mk (read_container dt nb
       (\<lambda>s'. bindE (read_value nb t (default_val nb t) s') (\<lambda>(ok, v, s''). Inr (v, s'')))
       ins c s)
     = Inr (True, mk vs, skip (length (enc_seq dt (foreign nb s) (enc (foreign nb s)) vs)) s)"
  using fresh.read_container_enc [OF assms(1) refl assms(2,3)] by (simp add: outcome_def)

lemma read_container_map:
  assumes "list_all (\<lambda>p. (reads_as (fst p) kt \<and> determinate (fst p)) \<and>
             reads_as (snd p) vt \<and> determinate (snd p)) ps"
    and "ready s (enc_seq dt (foreign nb s)
           (\<lambda>p. enc (foreign nb s) (fst p) @ enc (foreign nb s) (snd p)) ps @ bs)"
    and "ins_all ins ps c = Inr ps"
  shows "outcome old mk (read_container dt nb
       (\<lambda>s'. bindE (read_value nb kt (default_val nb kt) s') (\<lambda>(ok, k, s1).
             bindE (read_value nb vt (default_val nb vt) s1) (\<lambda>(ok', v, s2). Inr ((k, v), s2))))
       ins c s)
     = Inr (True, mk ps, skip (length (enc_seq dt (foreign nb s)
           (\<lambda>p. enc (foreign nb s) (fst p) @ enc (foreign nb s) (snd p)) ps)) s)"
  using fresh_pair.read_container_enc [OF assms(1) refl assms(2,3)] by (simp add: outcome_def)

text \<open>A container type reads back if its equation has the shape of the container loop.\<close>

lemma reads_as_seq:
  assumes a: "list_all (\<lambda>v. reads_as v t \<and> determinate v) xs" and ins: "ins_all ins xs c = Inr xs"
    and rv: "\<And>nb s. read_value nb T (default_val nb T) s = outcome (default_val nb T) mk
        (read_container dt nb
          (\<lambda>s'. bindE (read_value nb t (default_val nb t) s') (\<lambda>(ok, v, s''). Inr (v, s''))) ins c s)"
    and en: "\<And>x. enc x (mk xs) = enc_seq dt x (enc x) xs"
  shows "reads_as (mk xs) T"
  unfolding reads_as_def rv en using read_container_seq [OF a _ ins] by blast

lemma reads_as_map:
  assumes a: "list_all (\<lambda>p. (reads_as (fst p) kt \<and> determinate (fst p)) \<and>
      reads_as (snd p) vt \<and> determinate (snd p)) ps" and ins: "ins_all ins ps c = Inr ps"
    and rv: "\<And>nb s. read_value nb T (default_val nb T) s = outcome (default_val nb T) mk
        (read_container dt nb
          (\<lambda>s'. bindE (read_value nb kt (default_val nb kt) s') (\<lambda>(ok, k, s1).
             bindE (read_value nb vt (default_val nb vt) s1) (\<lambda>(ok', v, s2). Inr ((k, v), s2))))
          ins c s)"
    and en: "\<And>x. enc x (mk ps) = enc_seq dt x (\<lambda>p. enc x (fst p) @ enc x (snd p)) ps"
  shows "reads_as (mk ps) T"
  unfolding reads_as_def rv en using read_container_map [OF a _ ins] by blast

lemma read_args_ok:
  assumes "list_all2 reads_as vs ts"
    and "ready s (concat (map (enc (foreign nb s)) vs) @ bs)"
  shows "read_args nb ts (map (default_val nb) ts) s =
         Inr (True, vs, skip (length (concat (map (enc (foreign nb s)) vs))) s)"
  using assms
proof (induction arbitrary: s rule: list_all2_induct)
  case Nil
  then show ?case by simp
next
  case (Cons v vs t ts)
  let ?x = "foreign nb s" let ?s1 = "skip (length (enc ?x v)) s"
  have r: "ready s (enc ?x v @ (concat (map (enc ?x) vs) @ bs))" using Cons.prems by simp
  have f: "foreign nb ?s1 = ?x" by (simp add: foreign_def)
  have "ready ?s1 (concat (map (enc (foreign nb ?s1)) vs) @ bs)"
    unfolding f by (rule ready_skip [OF r])
  from Cons.IH [OF this] reads_asD [OF Cons.hyps(1) r] f show ?case by simp
qed

lemma read_value_enc: "is_value v t \<Longrightarrow> reads_as v t"
proof (induction v arbitrary: t)
  case (VVector xs)
  then obtain e where t: "t = TVector e" and e: "\<forall>x \<in> set xs. is_value x e"
    by auto
  then have a: "list_all (\<lambda>v. reads_as v e \<and> determinate v) xs"
    using VVector.IH by (auto simp: list_all_iff dest: is_value_determinate)
  have d: "list_all determinate xs" using a by (simp add: list_all_iff)
  show ?case unfolding t
    by (rule reads_as_seq [where mk = VVector and dt = DT_VECTOR and ins = "copied push_back" and c = "[]", OF a])
       (use d in \<open>simp_all add: ins_all_push\<close>)
next
  case (VList xs)
  then obtain e where t: "t = TList e" and e: "\<forall>x \<in> set xs. is_value x e"
    by auto
  then have a: "list_all (\<lambda>v. reads_as v e \<and> determinate v) xs"
    using VList.IH by (auto simp: list_all_iff dest: is_value_determinate)
  have d: "list_all determinate xs" using a by (simp add: list_all_iff)
  show ?case unfolding t
    by (rule reads_as_seq [where mk = VList and dt = DT_LIST and ins = "copied push_back" and c = "[]", OF a])
       (use d in \<open>simp_all add: ins_all_push\<close>)
next
  case (VSet xs)
  then obtain e where t: "t = TSet e" and e: "\<forall>x \<in> set xs. is_value x e"
    and srt: "sorted_wrt key_less xs"
    by auto
  then have a: "list_all (\<lambda>v. reads_as v e \<and> determinate v) xs"
    using VSet.IH by (auto simp: list_all_iff dest: is_value_determinate)
  have d: "list_all determinate xs" using a by (simp add: list_all_iff)
  show ?case unfolding t
    by (rule reads_as_seq [where mk = VSet and dt = DT_SET and ins = "copied set_insert" and c = "[]", OF a])
       (use d srt in \<open>simp_all add: ins_all_set\<close>)
next
  case (VUSet xs)
  then obtain e where t: "t = TUSet e" and e: "\<forall>x \<in> set xs. is_value x e"
    and srt: "sorted_wrt (\<lambda>a b. \<not> key_eq a b) xs"
    by auto
  then have a: "list_all (\<lambda>v. reads_as v e \<and> determinate v) xs"
    using VUSet.IH by (auto simp: list_all_iff dest: is_value_determinate)
  have d: "list_all determinate xs" using a by (simp add: list_all_iff)
  show ?case unfolding t
    by (rule reads_as_seq [where mk = VUSet and dt = DT_SET and ins = "copied uset_insert" and c = "[]", OF a])
       (use d srt in \<open>simp_all add: ins_all_uset\<close>)
next
  case (VMap ps)
  then obtain kt vt where t: "t = TMap kt vt"
    and e: "\<forall>p \<in> set ps. is_value (fst p) kt \<and> is_value (snd p) vt"
    and srt: "sorted_wrt key_less (map fst ps)"
    by auto
  have a: "list_all (\<lambda>p. (reads_as (fst p) kt \<and> determinate (fst p)) \<and>
      reads_as (snd p) vt \<and> determinate (snd p)) ps"
    using e VMap.IH by (auto simp: list_all_iff prod_set_defs dest: is_value_determinate)
  have d: "list_all (\<lambda>p. determinate (fst p) \<and> determinate (snd p)) ps"
    using a by (simp add: list_all_iff)
  show ?case unfolding t
    by (rule reads_as_map [where mk = VMap and dt = DT_MAP and ins = "copied_pair map_put" and c = "[]", OF a])
       (use d srt in \<open>simp_all add: ins_all_map\<close>)
next
  case (VUMap ps)
  then obtain kt vt where t: "t = TUMap kt vt"
    and e: "\<forall>p \<in> set ps. is_value (fst p) kt \<and> is_value (snd p) vt"
    and srt: "sorted_wrt (\<lambda>a b. \<not> key_eq a b) (map fst ps)"
    by auto
  have a: "list_all (\<lambda>p. (reads_as (fst p) kt \<and> determinate (fst p)) \<and>
      reads_as (snd p) vt \<and> determinate (snd p)) ps"
    using e VUMap.IH by (auto simp: list_all_iff prod_set_defs dest: is_value_determinate)
  have d: "list_all (\<lambda>p. determinate (fst p) \<and> determinate (snd p)) ps"
    using a by (simp add: list_all_iff)
  show ?case unfolding t
    by (rule reads_as_map [where mk = VUMap and dt = DT_MAP and ins = "copied_pair umap_put" and c = "[]", OF a])
       (use d srt in \<open>simp_all add: ins_all_umap\<close>)
next
  case (VCustom vs)
  then obtain ts where t: "t = TCustom ts" and a: "list_all2 is_value vs ts"
    by auto
  have f: "list_all2 reads_as vs ts"
    using a VCustom.IH by (auto simp: list_all2_conv_all_nth)
  show ?case unfolding reads_as_def t
  proof (intro allI impI)
    fix nb s bs
    let ?x = "foreign nb s"
    assume "ready s (enc ?x (VCustom vs) @ bs)"
    then have r: "ready s (tag DT_CUSTOM # concat (map (enc ?x) vs) @ bs)" by simp
    have "foreign nb (skip (Suc 0) s) = ?x" by (simp add: foreign_def)
    with read_args_ok [OF f, of "skip (Suc 0) s" nb bs] ready_tail [OF r]
    show "read_value nb (TCustom ts) (default_val nb (TCustom ts)) s =
        Inr (True, VCustom vs, skip (length (enc ?x (VCustom vs))) s)"
      by (simp add: read_memory_tag [OF r] del: One_nat_def)
  qed
next
  case (VStream d)
  then show ?case by (auto simp: reads_as_def read_stream_ok)
next
  case VUninit
  then show ?case by simp
next
  case (VBool b)
  then show ?case by (simp add: reads_as_def outcome_def enc_bool_def read_bool_ok numeral_2_eq_2)
next
  case (VChar c)
  then show ?case
    by (auto simp: reads_as_def outcome_def enc_char_def read_char_ok numeral_2_eq_2)
next
  case (VInt32 w)
  then show ?case by (auto simp: reads_as_def outcome_def read_int32_ok)
next
  case (VInt64 w)
  then show ?case by (auto simp: reads_as_def outcome_def read_int64_ok)
next
  case (VFloat w)
  then show ?case by (auto simp: reads_as_def outcome_def read_float_ok)
next
  case (VDouble w)
  then show ?case by (auto simp: reads_as_def outcome_def read_double_ok)
next
  case (VString bs)
  then show ?case by (auto simp: reads_as_def outcome_def read_string_ok)
qed

end
