(* ===== verification/Codec_Laws.thy ===== *)
theory Codec_Laws
  imports Data_Codec
begin

text \<open>
  What a user of \<open>Data_Stream\<close> sees: round trips through a stream, through the bytes and a
  second machine, and through argument lists; and what the reads do with bytes that are not
  what they expect. The properties of \<open>Data_Stream\<close> stand at the end.
\<close>

subsection \<open>Whole round trips\<close>

lemma new_stream_foreign [simp]: "foreign nb (new_stream nb') \<longleftrightarrow> nb \<noteq> nb'"
  by (auto simp: foreign_def)

lemma write_fresh:
  assumes "is_value v t" and "length (enc False v) < 2 ^ 31"
  obtains s where "write_value nb v (new_stream nb) = Inr s" "appended (new_stream nb) (enc False v) s"
  using writesD [OF write_value_appends [OF assms(1)], of "new_stream nb" nb False] assms(2)
  by (auto simp: appends_def)

lemma appended_new:
  assumes "appended (new_stream nb) bs s"
  shows "ds_data s = map Some bs" and "stored s = map Some bs" and "ds_pos s = 0"
    and "is_big_endian s = nb" and "stream_ok s" and "foreign nb s = False"
  using assms by (simp_all add: appended_def ds_data_def foreign_def)

lemma appended_new_ready:
  assumes "appended (new_stream nb) bs s" and "length bs < 2 ^ 31"
  shows "ready s bs"
  using stored_ready [of s bs] appended_new [OF assms(1)] assms(2) by simp

lemma read_loaded:
  assumes "is_value v t" and "length (enc False v) < 2 ^ 31"
  shows "\<exists>s s'. load (enc False v) (new_stream nb) = Inr s \<and>
           read_value nb t (default_val nb t) s = Inr (True, v, s')"
proof -
  from load_fresh [OF assms(2)] obtain s where
    s: "load (enc False v) (new_stream nb) = Inr s" "ready s (enc False v)" "is_big_endian s = nb"
    by blast
  then have "ready s (enc (foreign nb s) v @ [])" by (simp add: foreign_def)
  from reads_asD [OF read_value_enc [OF assms(1)] this] s(1) show ?thesis by blast
qed

text \<open>The same, with the position of the stream afterwards.\<close>

lemma read_loaded_end:
  assumes "is_value v t" and "length (enc False v) < 2 ^ 31"
  shows "\<exists>s s'. load (enc False v) (new_stream nb) = Inr s \<and>
           read_value nb t (default_val nb t) s = Inr (True, v, s') \<and> ds_pos s' = of_nat (length (enc False v))"
proof -
  from load_fresh [OF assms(2)] obtain s where
    s: "load (enc False v) (new_stream nb) = Inr s" "ready s (enc False v)" "is_big_endian s = nb" "ds_pos s = 0"
    by blast
  then have "ready s (enc (foreign nb s) v @ [])" by (simp add: foreign_def)
  from reads_asD [OF read_value_enc [OF assms(1)] this] s show ?thesis by (simp add: foreign_def)
qed

subsection \<open>Chains of operators\<close>

lemma stream_outs_seq: "stream_outs nb vs s = write_seq nb vs s"
proof (induction vs arbitrary: s)
  case (Cons v vs)
  then show ?case by (cases "write_value nb v s") (simp_all add: stream_out_def)
qed simp

lemma stream_ins_ok:
  assumes "list_all2 is_value vs ts" and "ready s (concat (map (enc (foreign nb s)) vs) @ bs)"
  shows "stream_ins nb (map (\<lambda>t. (t, default_val nb t)) ts) s =
     Inr (vs, skip (length (concat (map (enc (foreign nb s)) vs))) s)"
  using assms
proof (induction arbitrary: s rule: list_all2_induct)
  case (Cons v vs t ts)
  let ?x = "foreign nb s" let ?s1 = "skip (length (enc ?x v)) s"
  have r: "ready s (enc ?x v @ (concat (map (enc ?x) vs) @ bs))" using Cons.prems by simp
  have f: "foreign nb ?s1 = ?x" by (simp add: foreign_def)
  have "ready ?s1 (concat (map (enc (foreign nb ?s1)) vs) @ bs)" using ready_skip [OF r] f by simp
  from Cons.IH [OF this] reads_asD [OF read_value_enc [OF Cons.hyps(1)] r] f show ?case
    by (simp add: stream_in_def add.commute)
qed simp

text \<open>
  Chains. Any number of values of any types, written by \<open>s << a << b << ...\<close> and read by
  \<open>s >> a >> b >> ...\<close> on a machine of either byte order, come back in order, and every byte is read.
\<close>
theorem operators_roundtrip:
  assumes "list_all2 is_value vs ts" and "length (concat (map (enc False) vs)) < 2 ^ 31"
  shows "\<exists>s bytes s1 s2. stream_outs nb vs (new_stream nb) = Inr s \<and> ds_data s = map Some bytes \<and>
     load bytes (new_stream nb') = Inr s1 \<and>
     stream_ins nb' (map (\<lambda>t. (t, default_val nb' t)) ts) s1 = Inr (vs, s2) \<and> ds_pos s2 = of_nat (length bytes)"
proof -
  let ?bytes = "concat (map (enc False) vs)"
  have "\<forall>v \<in> set vs. writes nb False v"
    using assms(1) by (induction rule: list_all2_induct) (auto intro: write_value_appends)
  then have "appends (new_stream nb) ?bytes (write_seq nb vs (new_stream nb))"
    by (rule write_seq_appends) (use assms(2) in simp_all)
  then obtain s where s: "stream_outs nb vs (new_stream nb) = Inr s" "ds_data s = map Some ?bytes"
    using appended_new(1) by (auto simp: stream_outs_seq appends_def)
  from load_fresh [OF assms(2), of nb'] obtain s1 where
    s1: "load ?bytes (new_stream nb') = Inr s1" "ready s1 ?bytes" "is_big_endian s1 = nb'" "ds_pos s1 = 0" by blast
  from stream_ins_ok [OF assms(1), of s1 nb' "[]"] s1 s show ?thesis by (simp add: foreign_def)
qed

theorem operators_roundtrip_witness:
  "\<exists>s bytes s1 s2. stream_outs True [VInt32 5, VString [104, 105]] (new_stream True) = Inr s \<and> ds_data s = map Some bytes \<and>
     load bytes (new_stream False) = Inr s1 \<and>
     stream_ins False [(TInt32, VUninit), (TString, VString [])] s1 = Inr ([VInt32 5, VString [104, 105]], s2)"
  using operators_roundtrip [of "[VInt32 5, VString [104, 105]]" "[TInt32, TString]" True False]
  by auto

subsection \<open>Argument lists\<close>

definition enc_args :: "bool \<Rightarrow> cval list \<Rightarrow> byte list" where
  "enc_args x vs = concat (map (enc x) vs)"

lemma write_args_seq: "vs \<noteq> [] \<Longrightarrow> write_args nb vs s = write_seq nb vs s"
proof (induction nb vs s rule: write_args.induct)
  case (2 nb v s)
  then show ?case by (cases "write_value nb v s") simp_all
next
  case (3 nb v w vs s)
  then show ?case by (cases "write_value nb v s") simp_all
qed simp

lemma get_ok:
  assumes "is_value v t" and "ready s (enc (foreign nb s) v @ bs)"
  shows "get nb t s = Inr (v, skip (length (enc (foreign nb s) v)) s)"
  using reads_asD [OF read_value_enc [OF assms(1)] assms(2)] is_value_determinate [OF assms(1)]
  by (simp add: get_def)

lemma get_in_order_ok:
  assumes "\<forall>i \<in> set order. is_value (vs ! i) (ts ! i)"
    and "ready s (enc_args (foreign nb s) (map ((!) vs) order) @ bs)"
  shows "get_in_order nb ts order acc s =
     Inr (fold (\<lambda>i a. a[i := vs ! i]) order acc,
          skip (length (enc_args (foreign nb s) (map ((!) vs) order))) s)"
  using assms
proof (induction order arbitrary: acc s)
  case Nil
  then show ?case by (simp add: enc_args_def)
next
  case (Cons i order)
  let ?x = "foreign nb s" let ?e = "enc ?x (vs ! i)" let ?s1 = "skip (length ?e) s"
  have r: "ready s (?e @ (enc_args ?x (map ((!) vs) order) @ bs))"
    using Cons.prems(2) by (simp add: enc_args_def)
  have f: "foreign nb ?s1 = ?x" by (simp add: foreign_def)
  have "ready ?s1 (enc_args (foreign nb ?s1) (map ((!) vs) order) @ bs)"
    unfolding f by (rule ready_skip [OF r])
  from Cons.IH [OF _ this] Cons.prems(1) get_ok [OF _ r] f show ?case
    by (simp add: enc_args_def)
qed

lemma length_fold_update:
  "length (fold (\<lambda>i a. a[i := f i]) order acc) = length acc"
  by (induction order arbitrary: acc) simp_all

lemma fold_update_nth:
  "j < length acc \<Longrightarrow> fold (\<lambda>i a. a[i := f i]) order acc ! j = (if j \<in> set order then f j else acc ! j)"
  by (induction order arbitrary: acc) auto

lemma fold_update_all:
  assumes "set order = {..<n}" and "length acc = n"
  shows "fold (\<lambda>i a. a[i := f i]) order acc = map f [0..<n]"
  by (rule nth_equalityI)
     (use assms in \<open>auto simp: length_fold_update fold_update_nth\<close>)

lemma get_args_ok:
  assumes "set order = {..<length ts}" and "list_all2 is_value vs ts"
    and "ready s (enc_args (foreign nb s) (map ((!) vs) order) @ bs)"
  shows "get_args nb order ts s =
     Inr (vs, skip (length (enc_args (foreign nb s) (map ((!) vs) order))) s)"
proof -
  have len: "length vs = length ts" using assms(2) by (rule list_all2_lengthD)
  have "\<forall>i \<in> set order. is_value (vs ! i) (ts ! i)"
    using assms(1,2) len by (simp add: list_all2_conv_all_nth)
  moreover have "fold (\<lambda>i a. a[i := vs ! i]) order (replicate (length ts) VUninit) = vs"
    using fold_update_all [of order "length ts" "replicate (length ts) VUninit" "(!) vs"]
      assms(1) map_nth [of vs] len by simp
  ultimately show ?thesis
    using get_in_order_ok [OF _ assms(3)] by (simp add: get_args_def)
qed

text \<open>The two orders compilers use: GCC evaluates right to left, Clang left to right.\<close>

definition right_to_left :: "nat \<Rightarrow> nat list" where
  "right_to_left n = rev [0..<n]"

definition left_to_right :: "nat \<Rightarrow> nat list" where
  "left_to_right n = [0..<n]"

lemma map_nth_right_to_left: "map ((!) vs) (right_to_left (length vs)) = rev vs"
  by (simp add: right_to_left_def map_nth flip: rev_map)

subsection \<open>Bytes that are not what the read expects\<close>

fun type_tag :: "ctype \<Rightarrow> data_type" where
  "type_tag TBool = DT_BOOL"
| "type_tag TChar = DT_CHAR"
| "type_tag TInt32 = DT_INT32"
| "type_tag TInt64 = DT_INT64"
| "type_tag TFloat = DT_FLOAT"
| "type_tag TDouble = DT_DOUBLE"
| "type_tag TString = DT_STRING"
| "type_tag (TVector t) = DT_VECTOR"
| "type_tag (TList t) = DT_LIST"
| "type_tag (TMap k v) = DT_MAP"
| "type_tag (TSet t) = DT_SET"
| "type_tag (TUMap k v) = DT_MAP"
| "type_tag (TUSet t) = DT_SET"
| "type_tag (TCustom ts) = DT_CUSTOM"
| "type_tag TStream = DT_CUSTOM"

fun is_class :: "ctype \<Rightarrow> bool" where
  "is_class (TCustom ts) = True"
| "is_class TStream = True"
| "is_class _ = False"

lemma outcome_None [simp]: "outcome old mk (Inr (None, s)) = Inr (False, old, s)"
  by (simp add: outcome_def)

lemma read_value_tag_miss:
  assumes r: "ready s (b # bs)" and b: "b \<noteq> tag (type_tag t)" and c: "\<not> is_class t"
  shows "read_value nb t old s = Inr (False, old, s)"
  using b c read_tag_miss [OF r]
  by (cases t) (simp_all add: read_bool_def read_char_def read_int32_def read_int64_def
      read_float_def read_double_def read_string_def read_word_def read_container_def)

lemma read_value_tag_miss_class:
  assumes r: "ready s (b # bs)" and b: "b \<noteq> tag DT_CUSTOM"
  shows "read_value nb (TCustom ts) old s = Inr (False, old, skip (Suc 0) s)"
  using b by (simp add: read_memory_tag [OF r])

lemma read_args_first_miss:
  assumes r: "ready s (b # bs)" and b: "b \<noteq> tag (type_tag t)" and c: "\<not> is_class t"
  shows "read_args nb (t # ts) (v # vs) s = Inr (False, v # vs, s)"
  by (simp add: read_value_tag_miss [OF assms])

text \<open>No read checks the end of the buffer: on an empty stream every one of them is undefined.\<close>

lemma at_pos_empty: "0 < n \<Longrightarrow> at_pos n (new_stream nb) = Inl (Undefined ''read outside the block'')"
  by (simp add: at_pos_def mem_read_def new_stream_def)

lemma read_tag_empty: "read_tag dt (new_stream nb) = Inl (Undefined ''read outside the block'')"
  by (simp add: read_tag_def byte_at_pos_def at_pos_empty)

lemma read_memory_empty:
  "read_memory 1 (new_stream nb) = Inl (Undefined ''read outside the block'')"
  by (simp add: read_memory_def at_pos_empty)

lemma outcome_Inl [simp]: "outcome old mk (Inl e) = Inl e"
  by (simp add: outcome_def)

lemma read_value_empty:
  "read_value nb t old (new_stream nb') = Inl (Undefined ''read outside the block'')"
  by (cases t) (simp_all add: read_tag_empty read_memory_empty read_bool_def read_char_def
      read_int32_def read_int64_def read_float_def read_double_def read_string_def read_word_def
      read_container_def read_stream_def)

subsection \<open>Reading into a container that is not empty\<close>

lemma ins_all_copied: "list_all determinate vs \<Longrightarrow> ins_all (copied ins) vs c = Inr (fold ins vs c)"
  by (induction vs arbitrary: c) (simp_all add: copied_def)

lemma read_container_into:
  assumes "\<forall>v \<in> set vs. is_value v t"
    and "ready s (enc_seq dt (foreign nb s) (enc (foreign nb s)) vs @ bs)"
  shows "read_container dt nb
       (\<lambda>s'. bindE (read_value nb t (default_val nb t) s') (\<lambda>(ok, v, s''). Inr (v, s'')))
       (copied ins) c s
     = Inr (Some (fold ins vs c), skip (length (enc_seq dt (foreign nb s) (enc (foreign nb s)) vs)) s)"
proof -
  have a: "list_all (\<lambda>v. reads_as v t \<and> determinate v) vs"
    using assms(1) by (auto simp: list_all_iff read_value_enc dest: is_value_determinate)
  then have "list_all determinate vs" by (simp add: list_all_iff)
  from fresh.read_container_enc [OF a refl assms(2) ins_all_copied [OF this]] show ?thesis .
qed

lemma fold_push_back: "fold push_back vs c = c @ vs"
  by (induction vs arbitrary: c) (simp_all add: push_back_def)

subsection \<open>A stream that carries the other byte order's flag\<close>

lemma enc_word_swap:
  assumes "8 dvd LENGTH('a::len)"
  shows "enc_word dt False v = enc_word dt True (byte_swap v :: 'a word)"
  using assms by (simp add: enc_word_def rev_word_bytes_swap)

lemma read_int32_foreign:
  assumes "foreign nb s" and "ready s (enc_word DT_INT32 False v @ bs)"
  shows "read_int32 nb s = Inr (Some (byte_swap v), skip 5 s)"
  using read_int32_ok [of s nb "byte_swap v" bs] assms by (simp add: enc_word_swap)

lemma copy_stream_compact:
  assumes "stream_ok s"
  shows "compact (copy_stream s)" and "stored (copy_stream s) = stored s"
    and "is_big_endian (copy_stream s) = is_big_endian s" and "ds_pos (copy_stream s) = ds_pos s"
  using assms by (auto simp: compact_def copy_stream_def stored_def stream_ok_def dest: in_set_takeD)

lemma copy_appended_new:
  assumes "appended (new_stream nb) bs s" and "length bs < 2 ^ 31"
  shows "stored (copy_stream s) = map Some bs" and "compact (copy_stream s)"
    and "ready (copy_stream s) bs" and "is_big_endian (copy_stream s) = nb"
    and "ds_pos (copy_stream s) = 0" and "stream_bytes (copy_stream s) = bs"
proof -
  note a = appended_new [OF assms(1)]
  note c = copy_stream_compact [OF a(5)]
  show "compact (copy_stream s)" "stored (copy_stream s) = map Some bs"
    "is_big_endian (copy_stream s) = nb" "ds_pos (copy_stream s) = 0"
    using c a by simp_all
  then show "stream_bytes (copy_stream s) = bs" by (simp add: stream_bytes_def)
  show "ready (copy_stream s) bs"
    using a length_stored [OF a(5)] assms(2) by (simp add: ready_def copy_stream_def)
qed

subsection \<open>Properties\<close>

text \<open>
  C3: Wire round trip. Any well-formed value of any serializable type, containers and classes
  nested to any depth included, written on a machine of either byte order and shipped as the
  bytes \<open>data()\<close> returns (fewer than \<open>2 ^ 31\<close>), is read back unchanged by \<open>load\<close> and \<open>read\<close> on a
  machine of either byte order; no read fails, no byte outside the buffer is touched, and the read position
  is behind the last byte. (The elements of an unordered container are listed in one order here, the one
  of their insertion, which \<open>read\<close> repeats; the code promises the same elements.)
\<close>
theorem wire_roundtrip:
  assumes "is_value v t" and "length (enc False v) < 2 ^ 31"
  shows "\<exists>s bytes s1 s2.
     write_value nb v (new_stream nb) = Inr s \<and> ds_data s = map Some bytes \<and>
     load bytes (new_stream nb') = Inr s1 \<and>
     read_value nb' t (default_val nb' t) s1 = Inr (True, v, s2) \<and> ds_pos s2 = of_nat (length bytes)"
proof -
  obtain s where "write_value nb v (new_stream nb) = Inr s" "ds_data s = map Some (enc False v)"
    using write_fresh [OF assms] appended_new(1) by metis
  with read_loaded_end [OF assms, of nb'] show ?thesis by blast
qed

theorem wire_roundtrip_witness:
  "\<exists>s bytes s1 s2.
     write_value False (VMap [(VString [97], VVector [VInt32 7, VInt32 (- 1)])]) (new_stream False) = Inr s \<and>
     ds_data s = map Some bytes \<and> load bytes (new_stream True) = Inr s1 \<and>
     read_value True (TMap TString (TVector TInt32)) (VMap []) s1 =
       Inr (True, VMap [(VString [97], VVector [VInt32 7, VInt32 (- 1)])], s2)"
proof -
  let ?v = "VMap [(VString [97], VVector [VInt32 7, VInt32 (- 1)])]" and ?t = "TMap TString (TVector TInt32)"
  have "is_value ?v ?t" "length (enc False ?v) < 2 ^ 31" by (simp_all add: enc_seq_def)
  from wire_roundtrip [OF this, of False True] have "\<exists>s bytes s1 s2. write_value False ?v (new_stream False) = Inr s \<and>
      ds_data s = map Some bytes \<and> load bytes (new_stream True) = Inr s1 \<and>
      read_value True ?t (default_val True ?t) s1 = Inr (True, ?v, s2)" by blast
  moreover have "default_val True ?t = VMap []" by simp
  ultimately show ?thesis by (simp only:)
qed

text \<open>
  C33: The wire format. Writing a well-formed value to any well-formed stream that stays below
  \<open>2 ^ 31\<close> bytes appends exactly the bytes \<open>enc\<close> of it (a tag, then the number, or the length and the
  elements, or the fields), keeps what was there and moves no read position. Numbers and lengths are
  little-endian when the stream has the flag of the machine that writes, as every stream made there has,
  and big-endian in a stream with the other flag (one that was received from a machine of the other byte order).
\<close>
theorem write_value_format:
  assumes "is_value v t" and "stream_ok s" and "buf_len s + length (enc (foreign nb s) v) < 2 ^ 31"
  shows "\<exists>s'. write_value nb v s = Inr s' \<and> stream_ok s' \<and>
     stored s' = stored s @ map Some (enc (foreign nb s) v) \<and> ds_pos s' = ds_pos s \<and>
     is_big_endian s' = is_big_endian s"
  using writesD [OF write_value_appends [OF assms(1)] assms(2) refl assms(3)]
  by (auto simp: appends_def appended_def)

theorem write_value_format_witness:
  "\<exists>s'. write_value True (VCustom [VInt32 258, VBool True]) (new_stream True) = Inr s' \<and>
     stream_ok s' \<and> stored s' = map Some [11, 2, 2, 1, 0, 0, 0, 1] \<and> ds_pos s' = 0 \<and>
     is_big_endian s'"
  using write_value_format [of "VCustom [VInt32 258, VBool True]" "TCustom [TInt32, TBool]"
      "new_stream True" True]
  by (simp add: enc_bool_def enc_word_def word_bytes_def tag.simps nat_bytes_4)

text \<open>
  A type the bytes do not hold. When the tag at the read position is not the tag of the
  requested primitive or container type, \<open>read\<close> returns \<open>false\<close> and changes neither the
  object nor the read position.
\<close>
theorem read_wrong_tag:
  assumes "ready s (b # bs)" and "b \<noteq> tag (type_tag t)" and "\<not> is_class t"
  shows "read_value nb t old s = Inr (False, old, s)"
  using assms by (rule read_value_tag_miss)

theorem read_wrong_tag_witness:
  "\<exists>s. write_value False (VInt32 5) (new_stream False) = Inr s \<and>
       read_value False TString (VString [104]) s = Inr (False, VString [104], s)"
proof -
  obtain s where s: "write_value False (VInt32 5) (new_stream False) = Inr s"
      "appended (new_stream False) (enc False (VInt32 5)) s"
    using write_fresh [of "VInt32 5" TInt32 False] by auto
  then have "ready s (tag DT_INT32 # word_bytes (5 :: int32))"
    using appended_new_ready [OF s(2)] by (simp add: enc_word_def)
  from read_wrong_tag [OF this, of TString False "VString [104]"] s(1) show ?thesis by simp
qed

text \<open>
  \<open>deserialize\<close> hides a failure. A class whose first field does not match the bytes is
  left as it was, and \<open>deserialize\<close> still returns \<open>true\<close>: the macro drops the result of
  \<open>read_args\<close>.
\<close>
theorem deserialize_hides_failure:
  assumes "ready s (tag DT_CUSTOM # b # bs)" and "b \<noteq> tag (type_tag t)" and "\<not> is_class t"
  shows "read_value nb (TCustom (t # ts)) (VCustom (v # vs)) s =
         Inr (True, VCustom (v # vs), skip (Suc 0) s)"
  using read_memory_tag [OF assms(1)] read_args_first_miss [OF ready_tail [OF assms(1)] assms(2,3)]
  by simp

theorem deserialize_hides_failure_witness:
  "\<exists>s. write_value False (VCustom [VInt32 5]) (new_stream False) = Inr s \<and>
       read_value False (TCustom [TString]) (VCustom [VString []]) s =
         Inr (True, VCustom [VString []], skip (Suc 0) s)"
proof -
  obtain s where s: "write_value False (VCustom [VInt32 5]) (new_stream False) = Inr s"
      "appended (new_stream False) (enc False (VCustom [VInt32 5])) s"
    using write_fresh [of "VCustom [VInt32 5]" "TCustom [TInt32]" False] by auto
  then have "ready s (tag DT_CUSTOM # tag DT_INT32 # word_bytes (5 :: int32))"
    using appended_new_ready [OF s(2)] by (simp add: enc_word_def)
  from deserialize_hides_failure [OF this, of TString False "[]" "VString []" "[]"] s(1)
  show ?thesis by simp
qed

text \<open>
  Reading into a set that is not empty. \<open>read(std::set&)\<close> does not clear its argument:
  the result is the old set with the stream's elements inserted, whereas
  \<open>read(std::vector&)\<close> replaces what the vector held.
\<close>
theorem read_set_merges:
  assumes "\<forall>v \<in> set vs. is_value v t"
    and "ready s (enc_seq DT_SET (foreign nb s) (enc (foreign nb s)) vs @ bs)"
    and "ready s' (enc_seq DT_VECTOR (foreign nb s') (enc (foreign nb s')) vs @ bs)"
  shows "\<exists>s1 s2. read_value nb (TSet t) (VSet old) s = Inr (True, VSet (fold set_insert vs old), s1) \<and>
           read_value nb (TVector t) (VVector old) s' = Inr (True, VVector vs, s2)"
  using read_container_into [OF assms(1,2), of set_insert old]
    read_container_into [OF assms(1,3), of push_back "[]"]
  by (simp add: outcome_def fold_push_back)

theorem read_set_merges_witness:
  "\<exists>s s' s1 s2. write_value False (VSet [VInt32 2]) (new_stream False) = Inr s \<and>
     write_value False (VVector [VInt32 2]) (new_stream False) = Inr s' \<and>
     read_value False (TSet TInt32) (VSet [VInt32 1, VInt32 3]) s =
       Inr (True, VSet [VInt32 1, VInt32 2, VInt32 3], s1) \<and>
     read_value False (TVector TInt32) (VVector [VInt32 1, VInt32 3]) s' =
       Inr (True, VVector [VInt32 2], s2)"
proof -
  obtain s where s: "write_value False (VSet [VInt32 2]) (new_stream False) = Inr s"
      "appended (new_stream False) (enc False (VSet [VInt32 2])) s"
    using write_fresh [of "VSet [VInt32 2]" "TSet TInt32" False] by (auto simp: enc_seq_def)
  obtain s' where s': "write_value False (VVector [VInt32 2]) (new_stream False) = Inr s'"
      "appended (new_stream False) (enc False (VVector [VInt32 2])) s'"
    using write_fresh [of "VVector [VInt32 2]" "TVector TInt32" False] by (auto simp: enc_seq_def)
  have i: "fold set_insert [VInt32 2] [VInt32 1, VInt32 3] = [VInt32 1, VInt32 2, VInt32 3]"
    by (simp add: key_less_def cmp_int_def)
  have r: "ready s (enc_seq DT_SET (foreign False s) (enc (foreign False s)) [VInt32 2] @ [])"
    "ready s' (enc_seq DT_VECTOR (foreign False s') (enc (foreign False s')) [VInt32 2] @ [])"
    using appended_new_ready [OF s(2)] appended_new_ready [OF s'(2)]
      appended_new(6) [OF s(2)] appended_new(6) [OF s'(2)]
    by (simp_all add: enc_seq_def)
  from read_set_merges [OF _ r, of TInt32 "[VInt32 1, VInt32 3]"] s(1) s'(1) i show ?thesis by auto
qed

text \<open>
  No read checks the bounds of the buffer. On a stream without bytes (the response to a
  call of a \<open>void\<close> function, a truncated message) every read, of whatever type, touches
  storage outside the buffer instead of returning \<open>false\<close>.
\<close>
theorem read_past_end:
  "read_value nb t old (new_stream nb') = Inl (Undefined ''read outside the block'')"
  by (rule read_value_empty)

text \<open>
  A nested stream and the other byte order. The flag \<open>is_big_endian\<close> of a
  \<open>Data_Stream\<close> is one of its serialized fields. A stream of parameters sent to a machine
  of the other byte order arrives with the sender's flag, and the integers in it, which are
  little-endian on the wire, are read byte-swapped.
\<close>
theorem nested_stream_misread:
  assumes "nb \<noteq> nb'"
  shows "\<exists>p s s' p' s''. write_int32 nb v (new_stream nb) = Inr p \<and>
     load (enc False (VStream (copy_stream p))) (new_stream nb') = Inr s \<and>
     read_value nb' TStream (default_val nb' TStream) s = Inr (True, VStream p', s') \<and>
     read_int32 nb' p' = Inr (Some (byte_swap v), s'')"
proof -
  obtain p where p: "write_value nb (VInt32 v) (new_stream nb) = Inr p"
      "appended (new_stream nb) (enc False (VInt32 v)) p"
    using write_fresh [of "VInt32 v" TInt32 nb] by auto
  let ?p = "copy_stream p"
  note c = copy_appended_new [OF p(2)]
  have e: "length (enc False (VStream ?p)) < 2 ^ 31"
    by (simp add: enc_stream_def length_enc_seq length_enc_chars enc_bool_def c(6))
  have "foreign nb' ?p" using assms c(4) by (simp add: foreign_def)
  moreover have "ready ?p (enc_word DT_INT32 False v @ [])" using c(3) by simp
  ultimately have "read_int32 nb' ?p = Inr (Some (byte_swap v), skip 5 ?p)"
    by (rule read_int32_foreign)
  moreover have "is_value (VStream ?p) TStream" using c(2) by simp
  ultimately show ?thesis
    using read_loaded [OF _ e, of TStream nb'] p(1) by auto
qed

theorem nested_stream_misread_witness:
  "\<exists>p s s' p' s''. write_int32 True 1 (new_stream True) = Inr p \<and>
     load (enc False (VStream (copy_stream p))) (new_stream False) = Inr s \<and>
     read_value False TStream (default_val False TStream) s = Inr (True, VStream p', s') \<and>
     read_int32 False p' = Inr (Some 16777216, s'')"
proof -
  have "byte_swap (1 :: int32) = 16777216"
    by (simp add: byte_swap_def word_bytes_def bytes_word_def nat_bytes_4)
  with nested_stream_misread [of True False 1] show ?thesis by simp
qed

end
