(* ===== verification/Function_Handler.thy ===== *)
theory Function_Handler
  imports Codec_Laws
begin

text \<open>
  \<open>Function_Handler\<close> and \<open>Handler_Manager\<close> of \<open>RPC/Function_Handler.hpp\<close>: a registered function
  with its argument and result types, the call that unpacks the arguments, applies the function
  and packs the result, and the table of functions by name.

  The registered functions are the application's code: \<open>func\<close> is a parameter, a function of the
  arguments and of the application's state \<open>'u\<close> that returns a value or throws.
\<close>

subsection \<open>One registered function\<close>

text \<open>\<open>ret\<close> is \<open>None\<close> for the specialization with \<open>void\<close>, whose function's value is ignored.\<close>

record 'u handler =
  ret :: "ctype option"
  arg_types :: "ctype list"
  func :: "cval list \<Rightarrow> 'u \<Rightarrow> cval result \<times> 'u"

text \<open>\<open>order n\<close> is the order in which the compiler evaluates \<open>n\<close> function arguments.\<close>

definition handler_call :: "bool \<Rightarrow> (nat \<Rightarrow> nat list) \<Rightarrow> 'u handler \<Rightarrow> data_stream \<Rightarrow> 'u \<Rightarrow>
    data_stream result \<times> 'u" where
  "handler_call nb order h inArgs u =
     (case get_args nb (order (length (arg_types h))) (arg_types h) inArgs of
        Inl e \<Rightarrow> (Inl e, u)
      | Inr (args, s) \<Rightarrow>
          (case func h args u of
             (Inl e, u') \<Rightarrow> (Inl e, u')
           | (Inr value, u') \<Rightarrow>
               (case ret h of
                  None \<Rightarrow> (Inr (new_stream nb), u')
                | Some t \<Rightarrow> (write_value nb value (new_stream nb), u'))))"

subsection \<open>The table\<close>

type_synonym 'u handlers = "byte list \<rightharpoonup> 'u handler"

definition register_handler :: "byte list \<Rightarrow> 'u handler \<Rightarrow> 'u handlers \<Rightarrow> 'u handlers" where
  "register_handler name h handlers = handlers(name \<mapsto> h)"

text \<open>
  \<open>Handler_Manager::call\<close> returns an \<open>optional\<close>, which it never leaves empty. Its stream
  parameter, and that of the handler, are passed by value.
\<close>

definition manager_call :: "bool \<Rightarrow> (nat \<Rightarrow> nat list) \<Rightarrow> 'u handlers \<Rightarrow> byte list \<Rightarrow> data_stream \<Rightarrow>
    'u \<Rightarrow> data_stream option result \<times> 'u" where
  "manager_call nb order handlers name args u =
     (case handlers name of
        Some h \<Rightarrow>
          (case handler_call nb order h (copy_stream args) u of
             (Inl e, u') \<Rightarrow> (Inl e, u')
           | (Inr s, u') \<Rightarrow> (Inr (Some s), u'))
      | None \<Rightarrow> (Inl (Runtime_Error ''Handler not found''), u))"

subsection \<open>The interface: dispatch by name\<close>

text \<open>
  What a server promises about its methods: a call runs the function registered last under the
  name; registering one name leaves the others alone; an unknown name is an error that leaves the
  application's state as it was.
\<close>

locale dispatcher =
  fixes register :: "'n \<Rightarrow> 'h \<Rightarrow> 't \<Rightarrow> 't"
    and none :: 't
    and call :: "'t \<Rightarrow> 'n \<Rightarrow> 'a \<Rightarrow> 'u \<Rightarrow> 'r result \<times> 'u"
    and run :: "'h \<Rightarrow> 'a \<Rightarrow> 'u \<Rightarrow> 'r result \<times> 'u"
    and not_found :: error
  assumes call_none: "call none n a u = (Inl not_found, u)"
    and call_registered: "call (register n h t) n a u = run h a u"
    and call_other: "n' \<noteq> n \<Longrightarrow> call (register n h t) n' a u = call t n' a u"
begin

text \<open>A table made by a sequence of registrations.\<close>

definition table :: "('n \<times> 'h) list \<Rightarrow> 't" where
  "table regs = foldl (\<lambda>t (n, h). register n h t) none regs"

lemma call_table_append:
  "call (table (regs @ [(n, h)])) n' a u =
     (if n' = n then run h a u else call (table regs) n' a u)"
  by (simp add: table_def call_registered call_other)

lemma call_table:
  "call (table regs) n a u =
     (case map_of (rev regs) n of None \<Rightarrow> (Inl not_found, u) | Some h \<Rightarrow> run h a u)"
proof (induction regs rule: rev_induct)
  case Nil
  then show ?case by (simp add: table_def call_none)
next
  case (snoc r regs)
  then show ?case by (cases r) (simp add: call_table_append)
qed

end

definition run_handler :: "bool \<Rightarrow> (nat \<Rightarrow> nat list) \<Rightarrow> 'u handler \<Rightarrow> data_stream \<Rightarrow> 'u \<Rightarrow>
    data_stream option result \<times> 'u" where
  "run_handler nb order h args u =
     (case handler_call nb order h (copy_stream args) u of
        (Inl e, u') \<Rightarrow> (Inl e, u')
      | (Inr s, u') \<Rightarrow> (Inr (Some s), u'))"

interpretation manager: dispatcher register_handler Map.empty "manager_call nb order"
  "run_handler nb order" "Runtime_Error ''Handler not found''" for nb order
  by unfold_locales (simp_all add: register_handler_def manager_call_def run_handler_def)

subsection \<open>Calls with well-formed arguments\<close>

text \<open>\<open>order\<close> visits every argument once.\<close>

definition complete_order :: "(nat \<Rightarrow> nat list) \<Rightarrow> bool" where
  "complete_order order \<longleftrightarrow> (\<forall>n. set (order n) = {..<n} \<and> distinct (order n))"

lemma complete_orders: "complete_order right_to_left" "complete_order left_to_right"
  by (auto simp: complete_order_def right_to_left_def left_to_right_def)

text \<open>The parameters, in the order in which the handler takes them off the stream.\<close>

definition permuted :: "(nat \<Rightarrow> nat list) \<Rightarrow> cval list \<Rightarrow> cval list" where
  "permuted order vs = map ((!) vs) (order (length vs))"

lemma permuted_right_to_left: "permuted right_to_left vs = rev vs"
  by (simp add: permuted_def map_nth_right_to_left)

lemma permuted_left_to_right: "permuted left_to_right vs = vs"
  by (simp add: permuted_def left_to_right_def map_nth)

lemma handler_call_ok:
  assumes order: "complete_order order" and vs: "list_all2 is_value vs (arg_types h)"
    and r: "ready s (enc_args (foreign nb s) (permuted order vs) @ bs)"
  shows "handler_call nb order h s u =
     (case func h vs u of
        (Inl e, u') \<Rightarrow> (Inl e, u')
      | (Inr value, u') \<Rightarrow>
          (case ret h of
             None \<Rightarrow> (Inr (new_stream nb), u')
           | Some t \<Rightarrow> (write_value nb value (new_stream nb), u')))"
proof -
  have "length (arg_types h) = length vs" using vs by (simp add: list_all2_lengthD)
  then have "get_args nb (order (length (arg_types h))) (arg_types h) s =
      Inr (vs, skip (length (enc_args (foreign nb s) (permuted order vs))) s)"
    using get_args_ok [of "order (length (arg_types h))" "arg_types h" vs s nb bs] vs r order
    by (simp add: complete_order_def permuted_def)
  then show ?thesis by (simp add: handler_call_def)
qed

subsection \<open>Arguments of another type\<close>

lemma get_tag_miss:
  assumes "ready s (b # bs)" and "b \<noteq> tag (type_tag t)" and "\<not> is_class t"
    and "determinate (default_val nb t)"
  shows "get nb t s = Inr (default_val nb t, s)"
  using read_value_tag_miss [OF assms(1-3)] assms(4) by (simp add: get_def)

text \<open>
  A wrong argument is not noticed. When the bytes of a one-argument call do not start with
  the tag of the declared type (a string or a container), the function is called all the same,
  with an empty string or container in the place of what the caller sent; for a number the
  indeterminate variable is copied, which is undefined.
\<close>
theorem wrong_argument_type:
  assumes "ready s (b # bs)" and "b \<noteq> tag (type_tag t)" and "\<not> is_class t"
    and "arg_types h = [t]" and "order 1 = [0]"
  shows "handler_call nb order h s u =
     (if determinate (default_val nb t)
      then (case func h [default_val nb t] u of
          (Inl e, u') \<Rightarrow> (Inl e, u')
        | (Inr v, u') \<Rightarrow> (case ret h of None \<Rightarrow> (Inr (new_stream nb), u')
            | Some t' \<Rightarrow> (write_value nb v (new_stream nb), u')))
      else (Inl (Undefined ''copy of an indeterminate value''), u))"
  using read_value_tag_miss [OF assms(1-3)] assms(4,5)
  by (simp add: handler_call_def get_args_def get_def)

theorem wrong_argument_type_witness:
  "\<exists>s. write_value False (VInt32 7) (new_stream False) = Inr s \<and>
     handler_call False right_to_left \<lparr>ret = None, arg_types = [TString],
        func = (\<lambda>args u. (Inr VUninit, u @ args))\<rparr> s [] = (Inr (new_stream False), [VString []])"
proof -
  obtain s where s: "write_value False (VInt32 7) (new_stream False) = Inr s"
      "appended (new_stream False) (enc False (VInt32 7)) s"
    using write_fresh [of "VInt32 7" TInt32 False] by auto
  then have "ready s (tag DT_INT32 # word_bytes (7 :: int32))"
    using appended_new_ready [OF s(2)] by (simp add: enc_word_def)
  from wrong_argument_type [OF this, of TString
      "\<lparr>ret = None, arg_types = [TString], func = (\<lambda>args u. (Inr VUninit, u @ args))\<rparr>" right_to_left
      False "[]"] s(1)
  show ?thesis by (simp add: right_to_left_def)
qed

end
