(* ===== verification/Codec_Types.thy ===== *)
theory Codec_Types
  imports Function_Handler
begin

text \<open>
  Type safety of the reads of \<open>Data_Stream\<close> (\<open>Core/Data_Stream.h\<close>): whatever bytes a peer sent, an
  object that \<open>read\<close> was given has its own type afterwards. The arguments of a registered function then
  have its types, too, as long as none of them is indeterminate: the copy of an object that \<open>read\<close> has not
  assigned is undefined behaviour, which the code does not exclude.
\<close>

subsection \<open>The shape of a type\<close>

text \<open>\<open>shaped t v\<close>: \<open>v\<close> can be an object of type \<open>t\<close>, assigned or not.\<close>

function (sequential) shaped :: "ctype \<Rightarrow> cval \<Rightarrow> bool" and shapes :: "ctype list \<Rightarrow> cval list \<Rightarrow> bool" where
  "shaped TBool v = (case v of VBool b \<Rightarrow> True | VUninit \<Rightarrow> True | _ \<Rightarrow> False)"
| "shaped TChar v = (case v of VChar c \<Rightarrow> True | VUninit \<Rightarrow> True | _ \<Rightarrow> False)"
| "shaped TInt32 v = (case v of VInt32 w \<Rightarrow> True | VUninit \<Rightarrow> True | _ \<Rightarrow> False)"
| "shaped TInt64 v = (case v of VInt64 w \<Rightarrow> True | VUninit \<Rightarrow> True | _ \<Rightarrow> False)"
| "shaped TFloat v = (case v of VFloat w \<Rightarrow> True | VUninit \<Rightarrow> True | _ \<Rightarrow> False)"
| "shaped TDouble v = (case v of VDouble w \<Rightarrow> True | VUninit \<Rightarrow> True | _ \<Rightarrow> False)"
| "shaped TString v = (case v of VString bs \<Rightarrow> True | _ \<Rightarrow> False)"
| "shaped (TVector t) v = (case v of VVector xs \<Rightarrow> \<forall>x \<in> set xs. shaped t x | _ \<Rightarrow> False)"
| "shaped (TList t) v = (case v of VList xs \<Rightarrow> \<forall>x \<in> set xs. shaped t x | _ \<Rightarrow> False)"
| "shaped (TSet t) v = (case v of VSet xs \<Rightarrow> \<forall>x \<in> set xs. shaped t x | _ \<Rightarrow> False)"
| "shaped (TUSet t) v = (case v of VUSet xs \<Rightarrow> \<forall>x \<in> set xs. shaped t x | _ \<Rightarrow> False)"
| "shaped (TMap k t) v =
     (case v of VMap ps \<Rightarrow> (\<forall>p \<in> set ps. shaped k (fst p) \<and> shaped t (snd p)) | _ \<Rightarrow> False)"
| "shaped (TUMap k t) v =
     (case v of VUMap ps \<Rightarrow> (\<forall>p \<in> set ps. shaped k (fst p) \<and> shaped t (snd p)) | _ \<Rightarrow> False)"
| "shaped (TCustom ts) v = (case v of VCustom vs \<Rightarrow> shapes ts vs | _ \<Rightarrow> False)"
| "shaped TStream v = (case v of VStream d \<Rightarrow> True | _ \<Rightarrow> False)"
| "shapes [] vs = (vs = [])"
| "shapes (t # ts) vs = (case vs of [] \<Rightarrow> False | v # vs' \<Rightarrow> shaped t v \<and> shapes ts vs')"
  by pat_completeness auto
termination
  by (relation "measure (case_sum (\<lambda>(t, v). size t) (\<lambda>(ts, vs). size_list size ts))") auto

lemma shapes_list_all2: "shapes ts vs = list_all2 shaped ts vs"
  by (induction ts arbitrary: vs) (auto split: list.splits)

lemma shaped_default: "shaped t (default_val nb t)"
proof (induction t)
  case (TCustom ts)
  then show ?case by (simp add: shapes_list_all2 list_all2_conv_all_nth)
qed simp_all

subsection \<open>Containers\<close>

lemma repeat_read_keeps:
  assumes "\<And>s v s'. rd s = Inr (v, s') \<Longrightarrow> P v" and "\<And>v c c'. P v \<Longrightarrow> Q c \<Longrightarrow> ins v c = Inr c' \<Longrightarrow> Q c'"
  shows "repeat_read n rd ins c s = Inr (c', s') \<Longrightarrow> Q c \<Longrightarrow> Q c'"
proof (induction n arbitrary: c s)
  case (Suc n)
  then obtain v s1 c1 where "rd s = Inr (v, s1)" "ins v c = Inr c1" "repeat_read n rd ins c1 s1 = Inr (c', s')"
    by (auto simp: bindE_eq_Inr)
  with Suc.IH Suc.prems(2) assms show ?case by blast
qed simp

lemma read_container_keeps:
  assumes "read_container dt nb rd ins c s = Inr (Some c', s')" and "Q c"
    and "\<And>s v s'. rd s = Inr (v, s') \<Longrightarrow> P v" and "\<And>v c c'. P v \<Longrightarrow> Q c \<Longrightarrow> ins v c = Inr c' \<Longrightarrow> Q c'"
  shows "Q c'"
proof -
  from assms(1) obtain n s2 where "repeat_read n rd ins c s2 = Inr (c', s')"
    by (auto simp: read_container_def bindE_eq_Inr split: if_splits)
  from repeat_read_keeps [where P = P and Q = Q, OF assms(3,4) this assms(2)] show ?thesis .
qed

text \<open>The insertions put in the element and keep the others.\<close>

lemma set_insert_members: "set (set_insert x ys) \<subseteq> insert x (set ys)"
  by (induction ys) auto

lemma uset_insert_members: "set (uset_insert x ys) \<subseteq> insert x (set ys)"
  by (induction ys) auto

lemma map_put_members: "q \<in> set (map_put p qs) \<Longrightarrow> (fst q = fst p \<or> fst q \<in> fst ` set qs) \<and> (snd q = snd p \<or> snd q \<in> snd ` set qs)"
  by (induction qs) (auto split: if_splits)

lemma umap_put_members: "q \<in> set (umap_put p qs) \<Longrightarrow> (fst q = fst p \<or> fst q \<in> fst ` set qs) \<and> (snd q = snd p \<or> snd q \<in> snd ` set qs)"
  by (induction qs) (auto split: if_splits)

lemma read_elements_shaped:
  assumes "read_container dt nb rd (copied ins) c s = Inr (Some c', s')"
    and "\<And>s v s'. rd s = Inr (v, s') \<Longrightarrow> shaped t v" and "\<forall>x \<in> set c. shaped t x"
    and "\<And>x ys. set (ins x ys) \<subseteq> insert x (set ys)"
  shows "\<forall>x \<in> set c'. shaped t x"
  using assms(1,3,2)
  by (rule read_container_keeps [where P = "shaped t" and Q = "\<lambda>c. \<forall>x \<in> set c. shaped t x"])
     (use assms(4) in \<open>auto simp: copied_def split: if_splits\<close>)

lemma read_pairs_shaped:
  assumes "read_container dt nb rd (copied_pair ins) c s = Inr (Some c', s')"
    and "\<And>s p s'. rd s = Inr (p, s') \<Longrightarrow> shaped kt (fst p) \<and> shaped vt (snd p)"
    and "\<forall>p \<in> set c. shaped kt (fst p) \<and> shaped vt (snd p)"
    and "\<And>p q qs. q \<in> set (ins p qs) \<Longrightarrow>
       (fst q = fst p \<or> fst q \<in> fst ` set qs) \<and> (snd q = snd p \<or> snd q \<in> snd ` set qs)"
  shows "\<forall>p \<in> set c'. shaped kt (fst p) \<and> shaped vt (snd p)"
  using assms(1,3,2)
proof (rule read_container_keeps [where P = "\<lambda>p. shaped kt (fst p) \<and> shaped vt (snd p)"
      and Q = "\<lambda>c. \<forall>p \<in> set c. shaped kt (fst p) \<and> shaped vt (snd p)"])
  fix p c c'
  assume p: "shaped kt (fst p) \<and> shaped vt (snd p)" and c: "\<forall>p \<in> set c. shaped kt (fst p) \<and> shaped vt (snd p)"
    and "copied_pair ins p c = Inr c'"
  then have "c' = ins p c" by (simp add: copied_pair_def split: if_splits)
  with p c assms(4) [of _ p c] show "\<forall>p \<in> set c'. shaped kt (fst p) \<and> shaped vt (snd p)" by force
qed

subsection \<open>Every read\<close>

lemma outcome_shaped:
  assumes "outcome old mk r = Inr (ok, v, s')" and "shaped t old"
    and "\<And>x s'. r = Inr (Some x, s') \<Longrightarrow> shaped t (mk x)"
  shows "shaped t v"
  using assms by (auto simp: outcome_def bindE_eq_Inr split: option.splits)

lemma container_shaped:
  assumes "outcome old mk (read_container dt nb
      (\<lambda>s'. bindE (read_value nb t (default_val nb t) s') (\<lambda>(ok, v, s''). Inr (v, s''))) (copied ins) c s) =
      Inr (ok, v, s')"
    and "\<And>s ok v s'. read_value nb t (default_val nb t) s = Inr (ok, v, s') \<Longrightarrow>
       shaped t (default_val nb t) \<Longrightarrow> shaped t v"
    and "shaped T old" and "\<forall>x \<in> set c. shaped t x" and "\<And>x ys. set (ins x ys) \<subseteq> insert x (set ys)"
    and "\<And>xs. \<forall>x \<in> set xs. shaped t x \<Longrightarrow> shaped T (mk xs)"
  shows "shaped T v"
proof (rule outcome_shaped [OF assms(1,3)])
  fix c' s'
  assume r: "read_container dt nb
      (\<lambda>s'. bindE (read_value nb t (default_val nb t) s') (\<lambda>(ok, v, s''). Inr (v, s''))) (copied ins) c s =
      Inr (Some c', s')"
  have "\<forall>x \<in> set c'. shaped t x"
    by (rule read_elements_shaped [OF r _ assms(4,5)]) (auto simp: bindE_eq_Inr shaped_default intro: assms(2))
  then show "shaped T (mk c')" by (rule assms(6))
qed

lemma map_container_shaped:
  assumes "outcome old mk (read_container dt nb
      (\<lambda>s'. bindE (read_value nb kt (default_val nb kt) s') (\<lambda>(ok, k, s1).
            bindE (read_value nb vt (default_val nb vt) s1) (\<lambda>(ok', v, s2). Inr ((k, v), s2)))) (copied_pair ins) c s) =
      Inr (ok, v, s')"
    and "\<And>s ok v s'. read_value nb kt (default_val nb kt) s = Inr (ok, v, s') \<Longrightarrow>
       shaped kt (default_val nb kt) \<Longrightarrow> shaped kt v"
    and "\<And>s0 ok0 k s ok v s'. read_value nb kt (default_val nb kt) s0 = Inr (ok0, k, s) \<Longrightarrow>
       read_value nb vt (default_val nb vt) s = Inr (ok, v, s') \<Longrightarrow>
       shaped vt (default_val nb vt) \<Longrightarrow> shaped vt v"
    and "shaped T old" and "\<forall>p \<in> set c. shaped kt (fst p) \<and> shaped vt (snd p)"
    and "\<And>p q qs. q \<in> set (ins p qs) \<Longrightarrow>
       (fst q = fst p \<or> fst q \<in> fst ` set qs) \<and> (snd q = snd p \<or> snd q \<in> snd ` set qs)"
    and "\<And>ps. \<forall>p \<in> set ps. shaped kt (fst p) \<and> shaped vt (snd p) \<Longrightarrow> shaped T (mk ps)"
  shows "shaped T v"
proof (rule outcome_shaped [OF assms(1,4)])
  fix c' s'
  assume r: "read_container dt nb
      (\<lambda>s'. bindE (read_value nb kt (default_val nb kt) s') (\<lambda>(ok, k, s1).
            bindE (read_value nb vt (default_val nb vt) s1) (\<lambda>(ok', v, s2). Inr ((k, v), s2)))) (copied_pair ins) c s =
      Inr (Some c', s')"
  have "\<forall>p \<in> set c'. shaped kt (fst p) \<and> shaped vt (snd p)"
    by (rule read_pairs_shaped [OF r _ assms(5,6)])
       (auto simp: bindE_eq_Inr shaped_default intro: assms(2,3))
  then show "shaped T (mk c')" by (rule assms(7))
qed

lemma old_members:
  "shaped (TSet t) old \<Longrightarrow> \<forall>x \<in> set (elems_of old). shaped t x"
  "shaped (TUSet t) old \<Longrightarrow> \<forall>x \<in> set (elems_of old). shaped t x"
  "shaped (TMap k t) old \<Longrightarrow> \<forall>p \<in> set (pairs_of old). shaped k (fst p) \<and> shaped t (snd p)"
  "shaped (TUMap k t) old \<Longrightarrow> \<forall>p \<in> set (pairs_of old). shaped k (fst p) \<and> shaped t (snd p)"
  by (cases old; simp)+

lemma read_value_shaped:
  "read_value nb t old s = Inr (ok, v, s') \<Longrightarrow> shaped t old \<Longrightarrow> shaped t v"
  and read_args_shaped:
  "read_args nb ts olds s = Inr (ok', vs', s'') \<Longrightarrow> shapes ts olds \<Longrightarrow> shapes ts vs'"
proof (induction nb t old s and nb ts olds s arbitrary: ok v s' and ok' vs' s'' rule: read_value_read_args.induct)
  case (8 nb t old s)
  from 8(2)[unfolded read_value.simps] 8(1,3) show ?case
    by (rule container_shaped) (auto simp: push_back_def)
next
  case (9 nb t old s)
  from 9(2)[unfolded read_value.simps] 9(1,3) show ?case
    by (rule container_shaped) (auto simp: push_back_def)
next
  case (10 nb t old s)
  from 10(2)[unfolded read_value.simps] 10(1,3) old_members(1) [OF 10(3)] set_insert_members show ?case
    by (rule container_shaped) auto
next
  case (11 nb t old s)
  from 11(2)[unfolded read_value.simps] 11(1,3) old_members(2) [OF 11(3)] uset_insert_members show ?case
    by (rule container_shaped) auto
next
  case (12 nb kt vt old s)
  from 12(3)[unfolded read_value.simps] 12(1,2,4) old_members(3) [OF 12(4)] map_put_members show ?case
    by (rule map_container_shaped) auto
next
  case (13 nb kt vt old s)
  from 13(3)[unfolded read_value.simps] 13(1,2,4) old_members(4) [OF 13(4)] umap_put_members show ?case
    by (rule map_container_shaped) auto
next
  case (14 nb ts old s)
  from 14(3) obtain olds where old: "old = VCustom olds" "shapes ts olds" by (auto split: cval.splits)
  from 14(2) obtain bs s1 where m: "read_memory 1 s = Inr (bs, s1)" by (auto simp: bindE_eq_Inr)
  show ?case
  proof (cases "hd bs = tag DT_CUSTOM")
    case True
    with 14(2) m old(1) obtain ok2 vs where "read_args nb ts olds s1 = Inr (ok2, vs, s')" "v = VCustom vs"
      by (auto simp: bindE_eq_Inr)
    with 14(1) [OF m refl] True old show ?thesis by auto
  next
    case False
    with 14(2,3) m show ?thesis by auto
  qed
next
  case (18 nb t ts v vs s)
  from 18(3) obtain ok1 v1 s1 where r: "read_value nb t v s = Inr (ok1, v1, s1)" by (auto simp: bindE_eq_Inr)
  from 18(4) have sh: "shaped t v" "shapes ts vs" by simp_all
  show ?case
  proof (cases ok1)
    case True
    with 18(3) r obtain ok2 vs2 s2 where "read_args nb ts vs s1 = Inr (ok2, vs2, s2)" "vs' = v1 # vs2"
      by (auto simp: bindE_eq_Inr)
    with 18(1) [OF r sh(1)] 18(2) [OF r refl refl] True sh(2) show ?thesis by auto
  next
    case False
    with 18(3) r have "vs' = v1 # vs" by (auto simp: bindE_eq_Inr)
    with 18(1) [OF r sh(1)] sh(2) show ?thesis by simp
  qed
qed (auto simp: outcome_def bindE_eq_Inr split: option.splits cval.splits)

subsection \<open>Arguments\<close>

definition typed :: "ctype \<Rightarrow> cval \<Rightarrow> bool" where
  "typed t v \<longleftrightarrow> shaped t v \<and> determinate v"

lemma get_typed: "get nb t s = Inr (v, s') \<Longrightarrow> typed t v"
  using read_value_shaped shaped_default
  by (fastforce simp: get_def typed_def bindE_eq_Inr split: if_splits)

lemma get_in_order_typed:
  assumes "get_in_order nb ts order vs s = Inr (vs', s')" and "set order \<subseteq> {..<length vs}"
  shows "length vs' = length vs \<and>
     (\<forall>j < length vs. if j \<in> set order then typed (ts ! j) (vs' ! j) else vs' ! j = vs ! j)"
  using assms
proof (induction order arbitrary: vs s)
  case (Cons i order)
  then obtain v s1 where r: "get nb (ts ! i) s = Inr (v, s1)"
    "get_in_order nb ts order (vs[i := v]) s1 = Inr (vs', s')" by (auto simp: bindE_eq_Inr)
  from Cons.IH [OF r(2)] Cons.prems(2) get_typed [OF r(1)] show ?case
    by (auto simp: nth_list_update split: if_splits)
qed simp

lemma get_args_typed:
  assumes "get_args nb order ts s = Inr (args, s')" and "set order = {..<length ts}"
  shows "list_all2 typed ts args"
  using get_in_order_typed [OF assms(1) [unfolded get_args_def]] assms(2)
  by (auto simp: list_all2_conv_all_nth)

subsection \<open>The dispatch\<close>

text \<open>
  The dispatch of a request with arbitrary bytes, the arguments read in any order: it ends in undefined
  behaviour or an error of \<open>get_args\<close>, or the function gets one value of each of its types (an empty
  container or string for what could not be read) and its result or exception is passed on.
\<close>

lemma handler_arguments_typed:
  assumes "complete_order order"
  shows "(\<exists>e. handler_call nb order h inArgs u = (Inl e, u)) \<or>
     (\<exists>args. list_all2 typed (arg_types h) args \<and>
        handler_call nb order h inArgs u =
          (case func h args u of
             (Inl e, u') \<Rightarrow> (Inl e, u')
           | (Inr value, u') \<Rightarrow>
               (case ret h of None \<Rightarrow> Inr (new_stream nb) | Some t \<Rightarrow> write_value nb value (new_stream nb), u')))"
proof (cases "get_args nb (order (length (arg_types h))) (arg_types h) inArgs")
  case (Inl e)
  then show ?thesis by (simp add: handler_call_def)
next
  case (Inr r)
  obtain args s where r: "r = (args, s)" by (cases r)
  have "set (order (length (arg_types h))) = {..<length (arg_types h)}"
    using assms by (simp add: complete_order_def)
  from get_args_typed [OF Inr [unfolded r] this] have "list_all2 typed (arg_types h) args" .
  moreover have "handler_call nb order h inArgs u =
      (case func h args u of
         (Inl e, u') \<Rightarrow> (Inl e, u')
       | (Inr value, u') \<Rightarrow>
           (case ret h of None \<Rightarrow> Inr (new_stream nb) | Some t \<Rightarrow> write_value nb value (new_stream nb), u'))"
    using Inr r by (simp add: handler_call_def split: sum.splits option.splits prod.splits)
  ultimately show ?thesis by blast
qed

end
