(* ===== verification/Ring_Buffer.thy ===== *)
theory Ring_Buffer
  imports Prelude
begin

text \<open>
  \<open>Common::Buffer<T, Capacity>\<close> and the two byte-order helpers of \<open>Common/Buffer.hpp\<close>.
  The storage is a fixed array used as a ring; every operation runs under the buffer's own
  mutex, so it is one atomic step and the model leaves the lock out. The theory shows that
  the ring implements a bounded first-in first-out queue (locale \<open>bounded_queue\<close>), that the
  element-wise variants for types that are not trivially copyable do not, and that
  \<open>mem2variant\<close> inverts \<open>variant2mem\<close> on either kind of machine.
\<close>

subsection \<open>State and operations\<close>

record 'a buffer =
  buf_data :: "'a list"
  buf_head :: nat
  buf_tail :: nat
  buf_size :: nat

text \<open>\<open>Capacity\<close> is the length of the array; its elements start indeterminate (\<open>arr\<close>).\<close>

definition new_buffer :: "'a list \<Rightarrow> 'a buffer" where
  "new_buffer arr = \<lparr>buf_data = arr, buf_head = 0, buf_tail = 0, buf_size = 0\<rparr>"

definition buffer_capacity :: "'a buffer \<Rightarrow> nat" where
  "buffer_capacity b = length (buf_data b)"

definition buffer_at :: "'a buffer \<Rightarrow> nat \<Rightarrow> 'a result" where
  "buffer_at b index =
     (if index \<ge> buf_size b then Inl (Out_Of_Range ''Index out of range'')
      else Inr (buf_data b ! (szadd (buf_head b) index mod buffer_capacity b)))"

definition buffer_index :: "'a buffer \<Rightarrow> nat \<Rightarrow> 'a" where
  "buffer_index b index = buf_data b ! (szadd (buf_head b) index mod buffer_capacity b)"

definition buffer_clear :: "'a buffer \<Rightarrow> 'a buffer" where
  "buffer_clear b = b\<lparr>buf_head := 0, buf_tail := 0, buf_size := 0\<rparr>"

definition buffer_full :: "'a buffer \<Rightarrow> bool" where
  "buffer_full b \<longleftrightarrow> buf_size b = buffer_capacity b"

definition buffer_empty :: "'a buffer \<Rightarrow> bool" where
  "buffer_empty b \<longleftrightarrow> buf_size b = 0"

text \<open>The \<open>memcpy\<close> branches, for trivially copyable element types.\<close>

definition dequeue :: "nat \<Rightarrow> 'a buffer \<Rightarrow> ('a list \<times> 'a buffer) result" where
  "dequeue count b =
     (if count > buf_size b then Inl (Runtime_Error ''Not enough elements in _queue'')
      else
        let firstPart = min (szsub (buffer_capacity b) (buf_head b)) count;
            part1 = take firstPart (drop (buf_head b) (buf_data b));
            part2 = (if firstPart < count then take (count - firstPart) (buf_data b) else [])
        in Inr (part1 @ part2,
                b\<lparr>buf_head := szadd (buf_head b) count mod buffer_capacity b,
                  buf_size := szsub (buf_size b) count\<rparr>))"

definition enqueue :: "'a list \<Rightarrow> 'a buffer \<Rightarrow> 'a buffer result" where
  "enqueue xs b =
     (let count = length xs in
      if count > szsub (buffer_capacity b) (buf_size b) then Inl (Runtime_Error ''Queue overflow'')
      else
        let firstPart = min (szsub (buffer_capacity b) (buf_tail b)) count;
            d1 = blit (buf_tail b) (take firstPart xs) (buf_data b);
            d2 = (if firstPart < count then blit 0 (drop firstPart xs) d1 else d1)
        in Inr (b\<lparr>buf_data := d2,
                  buf_tail := szadd (buf_tail b) count mod buffer_capacity b,
                  buf_size := szadd (buf_size b) count\<rparr>))"

text \<open>The element-wise branches, for the other element types, with their loops.\<close>

fun dequeue_loop :: "nat \<Rightarrow> 'a list \<Rightarrow> 'a buffer \<Rightarrow> 'a list \<times> 'a buffer" where
  "dequeue_loop 0 out b = (out, b)"
| "dequeue_loop (Suc n) out b =
     dequeue_loop n (out @ [buf_data b ! buf_head b])
       (b\<lparr>buf_head := szadd (buf_head b) 1 mod buffer_capacity b\<rparr>)"

definition dequeue_elementwise :: "nat \<Rightarrow> 'a buffer \<Rightarrow> ('a list \<times> 'a buffer) result" where
  "dequeue_elementwise count b =
     (if count > buf_size b then Inl (Runtime_Error ''Not enough elements in _queue'')
      else
        let (out, b1) = dequeue_loop count [] b
        in Inr (out, b1\<lparr>buf_head := szadd (buf_head b1) count mod buffer_capacity b1,
                        buf_size := szsub (buf_size b1) count\<rparr>))"

fun enqueue_loop :: "'a list \<Rightarrow> 'a buffer \<Rightarrow> 'a buffer" where
  "enqueue_loop [] b = b"
| "enqueue_loop (x # xs) b =
     enqueue_loop xs
       (b\<lparr>buf_data := (buf_data b)[buf_tail b := x],
          buf_tail := szadd (buf_tail b) 1 mod buffer_capacity b\<rparr>)"

definition enqueue_elementwise :: "'a list \<Rightarrow> 'a buffer \<Rightarrow> 'a buffer result" where
  "enqueue_elementwise xs b =
     (let count = length xs in
      if count > szsub (buffer_capacity b) (buf_size b) then Inl (Runtime_Error ''Queue overflow'')
      else
        let b1 = enqueue_loop xs b
        in Inr (b1\<lparr>buf_tail := szadd (buf_tail b1) count mod buffer_capacity b1,
                   buf_size := szadd (buf_size b1) count\<rparr>))"

subsection \<open>The interface: a bounded queue that moves blocks\<close>

locale bounded_queue =
  fixes put :: "'a list \<Rightarrow> 'q \<Rightarrow> 'q result"
    and get :: "nat \<Rightarrow> 'q \<Rightarrow> ('a list \<times> 'q) result"
    and items :: "'q \<Rightarrow> 'a list"
    and room :: "'q \<Rightarrow> nat"
    and ok :: "'q \<Rightarrow> bool"
    and overflow :: error
    and underflow :: error
  assumes put_fits: "ok q \<Longrightarrow> length (items q) + length xs \<le> room q \<Longrightarrow>
        \<exists>q'. put xs q = Inr q' \<and> ok q' \<and> items q' = items q @ xs \<and> room q' = room q"
    and put_full: "ok q \<Longrightarrow> room q < length (items q) + length xs \<Longrightarrow> put xs q = Inl overflow"
    and get_enough: "ok q \<Longrightarrow> n \<le> length (items q) \<Longrightarrow>
        \<exists>q'. get n q = Inr (take n (items q), q') \<and> ok q' \<and> items q' = drop n (items q) \<and>
             room q' = room q"
    and get_short: "ok q \<Longrightarrow> length (items q) < n \<Longrightarrow> get n q = Inl underflow"
begin

text \<open>What a reader of length-prefixed frames relies on: a prefix comes out as it went in.\<close>

lemma get_prefix:
  assumes "ok q" and "items q = xs @ ys"
  shows "\<exists>q'. get (length xs) q = Inr (xs, q') \<and> ok q' \<and> items q' = ys \<and> room q' = room q"
  using get_enough [OF assms(1), of "length xs"] assms(2) by simp

lemma put_get_all:
  assumes "ok q" and "items q = []" and "length xs \<le> room q"
  shows "\<exists>q' q''. put xs q = Inr q' \<and> get (length xs) q' = Inr (xs, q'') \<and> ok q'' \<and>
           items q'' = [] \<and> room q'' = room q"
proof -
  from put_fits [OF assms(1)] assms(2,3) obtain q' where
    q': "put xs q = Inr q'" "ok q'" "items q' = xs" "room q' = room q" by force
  with get_prefix [of q' xs "[]"] show ?thesis by auto
qed

lemma get_outcome:
  assumes "ok q"
  shows "(\<exists>xs q'. get n q = Inr (xs, q') \<and> xs @ items q' = items q \<and> ok q' \<and> length xs = n)
         \<or> get n q = Inl underflow"
proof (cases "n \<le> length (items q)")
  case True
  with get_enough [OF assms True] show ?thesis by force
next
  case False
  with get_short [OF assms] show ?thesis by simp
qed

end

subsection \<open>The ring implements it\<close>

definition buffer_items :: "'a buffer \<Rightarrow> 'a list" where
  "buffer_items b =
     map (\<lambda>i. buf_data b ! ((buf_head b + i) mod buffer_capacity b)) [0..<buf_size b]"

definition buffer_ok :: "'a buffer \<Rightarrow> bool" where
  "buffer_ok b \<longleftrightarrow>
     0 < buffer_capacity b \<and> buffer_capacity b < 2 ^ 63 \<and>
     buf_head b < buffer_capacity b \<and> buf_size b \<le> buffer_capacity b \<and>
     buf_tail b = (buf_head b + buf_size b) mod buffer_capacity b"

lemma length_buffer_items [simp]: "length (buffer_items b) = buf_size b"
  by (simp add: buffer_items_def)

lemma nth_buffer_items:
  "i < buf_size b \<Longrightarrow>
   buffer_items b ! i = buf_data b ! ((buf_head b + i) mod buffer_capacity b)"
  by (simp add: buffer_items_def)

text \<open>One step round the ring, without \<open>mod\<close>.\<close>

lemma ring_mod:
  fixes h i c :: nat
  shows "h < c \<Longrightarrow> i \<le> c \<Longrightarrow> (h + i) mod c = (if h + i < c then h + i else h + i - c)"
  by (auto simp: mod_if)

lemma ring_add: "((h + i) mod c + j) mod c = (h + (i + j)) mod (c::nat)"
  by (simp add: mod_add_left_eq add.assoc)

lemma buffer_okD:
  assumes "buffer_ok b"
  shows "buf_head b < buffer_capacity b" "buf_size b \<le> buffer_capacity b"
    "buffer_capacity b < 2 ^ 63" "buf_tail b < buffer_capacity b" "0 < buffer_capacity b"
    "buf_tail b = (buf_head b + buf_size b) mod buffer_capacity b"
  using assms by (auto simp: buffer_ok_def)

lemma new_buffer_ok: "0 < length arr \<Longrightarrow> length arr < 2 ^ 63 \<Longrightarrow> buffer_ok (new_buffer arr)"
  by (simp add: buffer_ok_def new_buffer_def buffer_capacity_def)

lemma new_buffer_items [simp]: "buffer_items (new_buffer arr) = []"
  by (simp add: buffer_items_def new_buffer_def)

text \<open>Reading \<open>n\<close> slots from slot \<open>h\<close> on, in the two pieces the code copies.\<close>

lemma ring_read:
  assumes "h < length d" and "n \<le> length d"
  shows "take (min (length d - h) n) (drop h d) @
           (if min (length d - h) n < n then take (n - min (length d - h) n) d else [])
         = map (\<lambda>i. d ! ((h + i) mod length d)) [0..<n]"
    (is "?l = ?r")
proof (rule nth_equalityI)
  show "length ?l = length ?r" using assms by (auto simp: min_def)
next
  fix i assume "i < length ?l"
  with assms have i: "i < n" by (auto simp: min_def split: if_splits)
  with assms show "?l ! i = ?r ! i"
    by (auto simp: ring_mod nth_append min_def algebra_simps)
qed

text \<open>Writing \<open>xs\<close> from slot \<open>t\<close> on, in the two pieces the code copies.\<close>

lemma ring_write:
  fixes d :: "'a list" and xs :: "'a list"
  assumes "t < length d" and "length xs \<le> length d"
  defines "fp \<equiv> min (length d - t) (length xs)"
  defines "d1 \<equiv> blit t (take fp xs) d"
  defines "d2 \<equiv> (if fp < length xs then blit 0 (drop fp xs) d1 else d1)"
  shows "length d2 = length d"
    and "j < length d \<Longrightarrow>
         d2 ! ((t + j) mod length d) = (if j < length xs then xs ! j else d ! ((t + j) mod length d))"
proof -
  have fp: "t + fp \<le> length d" "fp \<le> length xs" "fp = length xs \<or> t + fp = length d"
    using assms(1) by (auto simp: fp_def min_def)
  have l1: "length d1 = length d" using fp by (simp add: d1_def)
  have rest: "length xs - fp \<le> length d" using assms(2) by simp
  show l2: "length d2 = length d" using l1 rest by (simp add: d2_def)
  show "d2 ! ((t + j) mod length d) = (if j < length xs then xs ! j else d ! ((t + j) mod length d))"
    if j: "j < length d"
  proof (cases "t + j < length d")
    case True
    then show ?thesis using fp l1 rest assms(2)
      by (auto simp: d2_def d1_def nth_blit)
  next
    case False
    with assms(1) j have "(t + j) mod length d = t + j - length d"
      by (simp add: ring_mod)
    moreover have "fp + (t + j - length d) = j" if "fp < length xs"
      using fp False that by auto
    ultimately show ?thesis using False fp l1 rest assms(1,2) j
      by (auto simp: d2_def d1_def nth_blit)
  qed
qed

lemma dequeue_fits:
  assumes ok: "buffer_ok b" and n: "n \<le> buf_size b"
  shows "dequeue n b =
     Inr (take n (buffer_items b),
          b\<lparr>buf_head := (buf_head b + n) mod buffer_capacity b, buf_size := buf_size b - n\<rparr>)"
proof -
  note b = buffer_okD [OF ok]
  define fp where "fp = min (buffer_capacity b - buf_head b) n"
  have fp: "min (szsub (buffer_capacity b) (buf_head b)) n = fp"
    using b by (simp add: fp_def szsub_small)
  have "take fp (drop (buf_head b) (buf_data b)) @
          (if fp < n then take (n - fp) (buf_data b) else [])
        = map (\<lambda>i. buf_data b ! ((buf_head b + i) mod buffer_capacity b)) [0..<n]"
    unfolding fp_def buffer_capacity_def
    by (rule ring_read) (use b n in \<open>auto simp: buffer_capacity_def\<close>)
  also have "\<dots> = take n (buffer_items b)"
    using n by (simp add: buffer_items_def take_map)
  finally have read: "take fp (drop (buf_head b) (buf_data b)) @
          (if fp < n then take (n - fp) (buf_data b) else []) = take n (buffer_items b)" .
  from b n show ?thesis
    by (simp only: dequeue_def Let_def fp read) (simp add: szadd_small szsub_small)
qed

lemma dequeue_keeps:
  assumes ok: "buffer_ok b" and n: "n \<le> buf_size b"
  defines "b' \<equiv> b\<lparr>buf_head := (buf_head b + n) mod buffer_capacity b, buf_size := buf_size b - n\<rparr>"
  shows "buffer_ok b'" and "buffer_items b' = drop n (buffer_items b)"
    and "buffer_capacity b' = buffer_capacity b"
proof -
  note b = buffer_okD [OF ok]
  show cap: "buffer_capacity b' = buffer_capacity b" by (simp add: b'_def buffer_capacity_def)
  have "((buf_head b + n) mod buffer_capacity b + (buf_size b - n)) mod buffer_capacity b
        = (buf_head b + buf_size b) mod buffer_capacity b"
    using n by (simp only: ring_add) simp
  with b n show "buffer_ok b'"
    unfolding buffer_ok_def cap by (simp add: b'_def)
  show "buffer_items b' = drop n (buffer_items b)"
  proof (rule nth_equalityI)
    fix i assume "i < length (buffer_items b')"
    then have "i < buf_size b - n" by (simp add: b'_def)
    then show "buffer_items b' ! i = drop n (buffer_items b) ! i"
      using n by (simp add: nth_buffer_items b'_def buffer_capacity_def ring_add)
  qed (simp add: b'_def)
qed

lemma enqueue_fits:
  assumes ok: "buffer_ok b" and n: "buf_size b + length xs \<le> buffer_capacity b"
  shows "\<exists>b'. enqueue xs b = Inr b' \<and> buffer_ok b' \<and> buffer_items b' = buffer_items b @ xs \<and>
              buffer_capacity b' = buffer_capacity b"
proof -
  note b = buffer_okD [OF ok]
  define fp where "fp = min (length (buf_data b) - buf_tail b) (length xs)"
  define d1 where "d1 = blit (buf_tail b) (take fp xs) (buf_data b)"
  define d2 where "d2 = (if fp < length xs then blit 0 (drop fp xs) d1 else d1)"
  define b' where "b' = b\<lparr>buf_data := d2,
      buf_tail := (buf_tail b + length xs) mod buffer_capacity b, buf_size := buf_size b + length xs\<rparr>"
  have t: "buf_tail b < length (buf_data b)" "length xs \<le> length (buf_data b)"
    using b n by (simp_all add: buffer_capacity_def)
  note w = ring_write [OF t, folded fp_def, folded d1_def, folded d2_def]
  have sz: "szsub (buffer_capacity b) (buf_size b) = buffer_capacity b - buf_size b"
    "szsub (buffer_capacity b) (buf_tail b) = length (buf_data b) - buf_tail b"
    "szadd (buf_tail b) (length xs) = buf_tail b + length xs"
    "szadd (buf_size b) (length xs) = buf_size b + length xs"
    using b(1-5) n by (simp_all add: szsub_small szadd_small buffer_capacity_def)
  have fits: "\<not> buffer_capacity b - buf_size b < length xs" using n by simp
  have step: "enqueue xs b = Inr b'"
    by (simp only: enqueue_def Let_def sz fits if_False fp_def [symmetric] d1_def [symmetric]
        d2_def [symmetric] b'_def)
  have cap: "buffer_capacity b' = buffer_capacity b"
    using w(1) by (simp add: b'_def buffer_capacity_def)
  have ok': "buffer_ok b'"
    using b n unfolding buffer_ok_def cap by (simp add: b'_def ring_add)
  have "buffer_items b' = buffer_items b @ xs"
  proof (rule nth_equalityI)
    show "length (buffer_items b') = length (buffer_items b @ xs)" by (simp add: b'_def)
  next
    fix i assume "i < length (buffer_items b')"
    then have i: "i < buf_size b + length xs" by (simp add: b'_def)
    define c where "c = buffer_capacity b"
    define h where "h = buf_head b"
    have bi: "buffer_items b' ! i = d2 ! ((h + i) mod c)"
    proof -
      have "i < buf_size b'" "buf_data b' = d2" "buf_head b' = h"
        using i by (simp_all add: b'_def h_def)
      then show ?thesis by (simp add: nth_buffer_items cap c_def)
    qed
    show "buffer_items b' ! i = (buffer_items b @ xs) ! i"
    proof (cases "i < buf_size b")
      case True
      define j where "j = c - buf_size b + i"
      have j: "j < c" "length xs \<le> j" using True b n by (auto simp: j_def c_def)
      have "(buf_tail b + j) mod c = (h + (buf_size b + j)) mod c"
        using b by (simp add: c_def h_def ring_add)
      also have "buf_size b + j = c + i" using b by (simp add: j_def c_def)
      also have "(h + (c + i)) mod c = (h + i) mod c" by (simp add: add.left_commute)
      finally have e: "(buf_tail b + j) mod c = (h + i) mod c" .
      with w(2) [of j] j bi True show ?thesis
        by (simp add: nth_append nth_buffer_items c_def h_def buffer_capacity_def)
    next
      case False
      define j where "j = i - buf_size b"
      have "(buf_tail b + j) mod c = (h + (buf_size b + j)) mod c"
        using b by (simp add: c_def h_def ring_add)
      moreover have "j < c" "j < length xs" "buf_size b + j = i"
        using False i n by (auto simp: j_def c_def)
      ultimately show ?thesis using w(2) [of j] bi
        by (auto simp: nth_append c_def buffer_capacity_def)
    qed
  qed
  with step ok' cap show ?thesis by blast
qed

lemma enqueue_full:
  assumes "buffer_ok b" and "buffer_capacity b < buf_size b + length xs"
  shows "enqueue xs b = Inl (Runtime_Error ''Queue overflow'')"
  using buffer_okD [OF assms(1)] assms(2) by (simp add: enqueue_def Let_def szsub_small)

interpretation ring: bounded_queue enqueue dequeue buffer_items buffer_capacity buffer_ok
  "Runtime_Error ''Queue overflow''" "Runtime_Error ''Not enough elements in _queue''"
proof unfold_locales
  fix q :: "'a buffer" and xs and n
  assume ok: "buffer_ok q"
  show "\<exists>q'. enqueue xs q = Inr q' \<and> buffer_ok q' \<and> buffer_items q' = buffer_items q @ xs \<and>
          buffer_capacity q' = buffer_capacity q"
    if "length (buffer_items q) + length xs \<le> buffer_capacity q"
    using enqueue_fits [OF ok] that by simp
  show "enqueue xs q = Inl (Runtime_Error ''Queue overflow'')"
    if "buffer_capacity q < length (buffer_items q) + length xs"
    using enqueue_full [OF ok] that by simp
  show "\<exists>q'. dequeue n q = Inr (take n (buffer_items q), q') \<and> buffer_ok q' \<and>
          buffer_items q' = drop n (buffer_items q) \<and> buffer_capacity q' = buffer_capacity q"
    if "n \<le> length (buffer_items q)"
    using dequeue_fits [OF ok] dequeue_keeps [OF ok] that by auto
  show "dequeue n q = Inl (Runtime_Error ''Not enough elements in _queue'')"
    if "length (buffer_items q) < n"
    using that by (simp add: dequeue_def)
qed

subsection \<open>Element access\<close>

lemma buffer_at_items:
  assumes "buffer_ok b"
  shows "buffer_at b i =
    (if i < buf_size b then Inr (buffer_items b ! i) else Inl (Out_Of_Range ''Index out of range''))"
  using buffer_okD [OF assms] by (auto simp: buffer_at_def nth_buffer_items szadd_small)

subsection \<open>Whole runs against a bounded list\<close>

text \<open>
  A caller sees the results of a sequence of block operations. An exception is thrown before
  anything is written, so the caller may go on with the same buffer.
\<close>

datatype 'a buffer_op = Enq "'a list" | Deq nat

fun buffer_run :: "'a buffer_op list \<Rightarrow> 'a buffer \<Rightarrow> 'a list result list" where
  "buffer_run [] b = []"
| "buffer_run (Enq xs # ops) b =
     (case enqueue xs b of
        Inl e \<Rightarrow> Inl e # buffer_run ops b
      | Inr b' \<Rightarrow> Inr [] # buffer_run ops b')"
| "buffer_run (Deq n # ops) b =
     (case dequeue n b of
        Inl e \<Rightarrow> Inl e # buffer_run ops b
      | Inr (xs, b') \<Rightarrow> Inr xs # buffer_run ops b')"

fun fifo_run :: "nat \<Rightarrow> 'a buffer_op list \<Rightarrow> 'a list \<Rightarrow> 'a list result list" where
  "fifo_run c [] q = []"
| "fifo_run c (Enq xs # ops) q =
     (if length q + length xs \<le> c then Inr [] # fifo_run c ops (q @ xs)
      else Inl (Runtime_Error ''Queue overflow'') # fifo_run c ops q)"
| "fifo_run c (Deq n # ops) q =
     (if n \<le> length q then Inr (take n q) # fifo_run c ops (drop n q)
      else Inl (Runtime_Error ''Not enough elements in _queue'') # fifo_run c ops q)"

lemma buffer_run_fifo:
  "buffer_ok b \<Longrightarrow> buffer_run ops b = fifo_run (buffer_capacity b) ops (buffer_items b)"
proof (induction ops arbitrary: b)
  case Nil
  then show ?case by simp
next
  case (Cons op ops)
  show ?case
  proof (cases op)
    case (Enq xs)
    show ?thesis
    proof (cases "length (buffer_items b) + length xs \<le> buffer_capacity b")
      case True
      from ring.put_fits [OF Cons.prems True] obtain b' where
        "enqueue xs b = Inr b'" "buffer_ok b'" "buffer_items b' = buffer_items b @ xs"
        "buffer_capacity b' = buffer_capacity b" by blast
      with Cons.IH [of b'] Enq True show ?thesis by simp
    next
      case False
      with ring.put_full [OF Cons.prems, of xs] Cons.IH [OF Cons.prems] Enq show ?thesis by simp
    qed
  next
    case (Deq n)
    show ?thesis
    proof (cases "n \<le> length (buffer_items b)")
      case True
      from ring.get_enough [OF Cons.prems True] obtain b' where
        "dequeue n b = Inr (take n (buffer_items b), b')" "buffer_ok b'"
        "buffer_items b' = drop n (buffer_items b)"
        "buffer_capacity b' = buffer_capacity b" by blast
      with Cons.IH [of b'] Deq True show ?thesis by simp
    next
      case False
      with ring.get_short [OF Cons.prems, of n] Cons.IH [OF Cons.prems] Deq show ?thesis by simp
    qed
  qed
qed

subsection \<open>The element-wise branches move the index twice\<close>

lemma enqueue_loop_fields:
  "buf_tail b < buffer_capacity b \<Longrightarrow> buffer_capacity b < 2 ^ 63 \<Longrightarrow>
   buf_tail (enqueue_loop xs b) = (buf_tail b + length xs) mod buffer_capacity b \<and>
   buf_head (enqueue_loop xs b) = buf_head b \<and> buf_size (enqueue_loop xs b) = buf_size b \<and>
   buffer_capacity (enqueue_loop xs b) = buffer_capacity b"
proof (induction xs arbitrary: b)
  case Nil
  then show ?case by simp
next
  case (Cons x xs)
  let ?b = "b\<lparr>buf_data := (buf_data b)[buf_tail b := x],
      buf_tail := szadd (buf_tail b) 1 mod buffer_capacity b\<rparr>"
  have c: "buffer_capacity ?b = buffer_capacity b" by (simp add: buffer_capacity_def)
  have t: "buf_tail ?b = (buf_tail b + 1) mod buffer_capacity b"
    using Cons.prems by (simp add: szadd_small)
  have "buf_tail ?b < buffer_capacity ?b" unfolding c t using Cons.prems by simp
  with Cons.IH [of ?b] Cons.prems c show ?case
    by (simp only: enqueue_loop.simps t ring_add) simp
qed

lemma enqueue_elementwise_tail:
  assumes ok: "buffer_ok b" and n: "buf_size b + length xs \<le> buffer_capacity b"
  shows "\<exists>b'. enqueue_elementwise xs b = Inr b' \<and>
           buf_tail b' = (buf_tail b + 2 * length xs) mod buffer_capacity b \<and>
           buf_head b' = buf_head b \<and> buf_size b' = buf_size b + length xs \<and>
           buffer_capacity b' = buffer_capacity b"
proof -
  note b = buffer_okD [OF ok]
  note l = enqueue_loop_fields [OF b(4,3), of xs]
  let ?l = "enqueue_loop xs b"
  let ?b = "?l\<lparr>buf_tail := szadd (buf_tail ?l) (length xs) mod buffer_capacity ?l,
               buf_size := szadd (buf_size ?l) (length xs)\<rparr>"
  have "buf_tail ?l < buffer_capacity b" "(2::nat) ^ 63 + 2 ^ 63 \<le> 2 ^ 64" using l b(5) by simp_all
  then have "buf_tail ?l + length xs < 2 ^ 64" using b(3) n by linarith
  then have "szadd (buf_tail ?l) (length xs) = buf_tail ?l + length xs"
    "szadd (buf_size ?l) (length xs) = buf_size b + length xs"
    using l b(1-5) n by (simp_all add: szadd_small)
  then have f: "buf_tail ?b = (buf_tail b + 2 * length xs) mod buffer_capacity b"
    "buf_size ?b = buf_size b + length xs"
    using l by (simp_all add: ring_add mult_2)
  have "enqueue_elementwise xs b = Inr ?b"
    using b(1-5) n by (simp add: enqueue_elementwise_def Let_def szsub_small)
  moreover have "buffer_capacity ?b = buffer_capacity b" "buf_head ?b = buf_head b"
    using l by (simp_all add: buffer_capacity_def)
  ultimately show ?thesis using f by blast
qed

lemma mod_shift_neq:
  fixes t n c :: nat
  assumes "0 < n" and "n < c"
  shows "(t + 2 * n) mod c \<noteq> (t + n) mod c"
proof
  assume "(t + 2 * n) mod c = (t + n) mod c"
  then have "c dvd (t + 2 * n) - (t + n)" by (simp add: mod_eq_dvd_iff_nat)
  with assms show False by (auto dest: dvd_imp_le)
qed

lemma enqueue_elementwise_breaks:
  assumes ok: "buffer_ok b" and n: "buf_size b + length xs \<le> buffer_capacity b"
    and "xs \<noteq> []" "length xs < buffer_capacity b"
    and e: "enqueue_elementwise xs b = Inr b'"
  shows "\<not> buffer_ok b'"
proof -
  from enqueue_elementwise_tail [OF ok n] e have
    t: "buf_tail b' = (buf_tail b + 2 * length xs) mod buffer_capacity b" and
    f: "buf_head b' = buf_head b" "buf_size b' = buf_size b + length xs"
      "buffer_capacity b' = buffer_capacity b" by auto
  have "(buf_head b' + buf_size b') mod buffer_capacity b' =
        (buf_tail b + length xs) mod buffer_capacity b"
    using buffer_okD(6) [OF ok] by (simp add: f ring_add)
  moreover have "(buf_tail b + length xs) mod buffer_capacity b \<noteq> buf_tail b'"
    unfolding t using assms(3,4) by (metis mod_shift_neq length_greater_0_conv)
  ultimately show ?thesis by (auto simp: buffer_ok_def)
qed

subsection \<open>mem2variant and variant2mem\<close>

definition variant2mem :: "bool \<Rightarrow> 'a::len word \<Rightarrow> byte list" where
  "variant2mem nb value = (let res = native_bytes nb value in if nb then rev res else res)"

definition mem2variant :: "bool \<Rightarrow> byte list \<Rightarrow> 'a::len word result" where
  "mem2variant nb memory =
     (let n = LENGTH('a) div 8 in
      if length memory < n
      then Inl (Runtime_Error ''mem2variant convert error! invalid memory size!'')
      else if nb then Inr (native_word nb (take n (rev memory)))
      else Inr (native_word nb (take n memory)))"

lemma variant2mem_le: "variant2mem nb v = word_bytes v"
  by (simp add: variant2mem_def native_bytes_def)

lemma mem2variant_le:
  assumes "length m = LENGTH('a::len) div 8"
  shows "mem2variant nb m = Inr (bytes_word m :: 'a word)"
  using assms by (simp add: mem2variant_def native_word_def Let_def)

lemma mem2variant_variant2mem:
  fixes v :: "'a::len word"
  assumes "8 dvd LENGTH('a)"
  shows "mem2variant nb' (variant2mem nb v) = Inr v"
  using assms by (simp add: variant2mem_le mem2variant_le bytes_word_bytes)

subsection \<open>Properties\<close>

text \<open>
  C16: The ring buffer is a bounded queue. Whatever sequence of block writes and block reads a
  caller makes on a new buffer, of any capacity and wrapping as often as it likes, every read
  returns, and every write accepts, exactly what a first-in first-out queue bounded by the
  capacity does; an operation that does not fit throws and loses nothing.
\<close>
theorem buffer_refines_fifo:
  assumes "0 < length arr" and "length arr < 2 ^ 63"
  shows "buffer_run ops (new_buffer arr) = fifo_run (length arr) ops []"
proof -
  have "buffer_capacity (new_buffer arr) = length arr"
    by (simp add: buffer_capacity_def new_buffer_def)
  then show ?thesis using buffer_run_fifo [OF new_buffer_ok [OF assms], of ops] by simp
qed

theorem buffer_refines_fifo_witness:
  "buffer_run [Enq [1, 2], Deq 1, Enq [3, 4], Enq [5], Deq 3, Deq 1] (new_buffer [0, 0, 0 :: nat]) =
   [Inr [], Inr [1], Inr [], Inl (Runtime_Error ''Queue overflow''), Inr [2, 3, 4],
    Inl (Runtime_Error ''Not enough elements in _queue'')]"
  using buffer_refines_fifo [of "[0, 0, 0 :: nat]"
      "[Enq [1, 2], Deq 1, Enq [3, 4], Enq [5], Deq 3, Deq 1]"] by simp

text \<open>
  The element-wise branch of \<open>enqueue\<close> does not queue. For an element type that is not
  trivially copyable the loop moves the tail and the common code behind it moves it again: of two
  elements put into a new buffer one after the other, the second is not at index 1, which holds
  the array's initial element.
\<close>
theorem enqueue_elementwise_skips:
  assumes "3 \<le> length arr" and "length arr < 2 ^ 63"
  shows "\<exists>b1 b2. enqueue_elementwise [x] (new_buffer arr) = Inr b1 \<and>
     enqueue_elementwise [y] b1 = Inr b2 \<and> buf_size b2 = 2 \<and>
     buffer_at b2 0 = Inr x \<and> buffer_at b2 1 = Inr (arr ! 1) \<and> \<not> buffer_ok b1"
proof -
  have m: "Suc 0 mod length arr = 1" "2 mod length arr = 2" "arr \<noteq> []" using assms(1) by auto
  have s: "szadd 0 (Suc 0) = 1" "szadd (Suc 0) (Suc 0) = 2" "szadd 0 0 = 0"
    "szsub (length arr) 0 = length arr" "szsub (length arr) (Suc 0) = length arr - 1"
    using assms by (simp_all add: szadd_def szsub_small)
  let ?b1 = "\<lparr>buf_data = arr[0 := x], buf_head = 0, buf_tail = 2, buf_size = 1\<rparr>"
  have e1: "enqueue_elementwise [x] (new_buffer arr) = Inr ?b1"
    using assms s m
    by (simp add: enqueue_elementwise_def new_buffer_def buffer_capacity_def Let_def)
  obtain t where e2: "enqueue_elementwise [y] ?b1 =
      Inr \<lparr>buf_data = arr[0 := x, 2 := y], buf_head = 0, buf_tail = t, buf_size = 2\<rparr>" (is "_ = Inr ?b2")
    using assms s m
    by (simp add: enqueue_elementwise_def buffer_capacity_def Let_def)
  have at: "buffer_at ?b2 0 = Inr x" "buffer_at ?b2 1 = Inr (arr ! 1)"
    using assms(1) s m by (simp_all add: buffer_at_def buffer_capacity_def)
  have "\<not> buffer_ok ?b1" using m by (simp add: buffer_ok_def buffer_capacity_def)
  with e1 e2 at have "enqueue_elementwise [x] (new_buffer arr) = Inr ?b1 \<and>
     enqueue_elementwise [y] ?b1 = Inr ?b2 \<and> buf_size ?b2 = 2 \<and>
     buffer_at ?b2 0 = Inr x \<and> buffer_at ?b2 1 = Inr (arr ! 1) \<and> \<not> buffer_ok ?b1" by simp
  then show ?thesis by blast
qed

theorem enqueue_elementwise_skips_witness:
  "\<exists>b1 b2. enqueue_elementwise [''a''] (new_buffer [[], [], []]) = Inr b1 \<and>
     enqueue_elementwise [''b''] b1 = Inr b2 \<and> buf_size b2 = 2 \<and>
     buffer_at b2 0 = Inr ''a'' \<and> buffer_at b2 1 = Inr [] \<and> \<not> buffer_ok b1"
  using enqueue_elementwise_skips [of "[[], [], []] :: string list" "''a''" "''b''"] by simp

text \<open>
  The byte-order helpers. \<open>variant2mem\<close> gives the same four bytes on either kind of
  machine, \<open>mem2variant\<close> on either kind turns them back into the value, and three bytes are
  refused with an exception.
\<close>
theorem byte_order_helpers:
  "variant2mem nb (v :: int32) = variant2mem nb' v \<and> length (variant2mem nb v) = 4 \<and>
   mem2variant nb' (variant2mem nb v) = Inr v \<and>
   (mem2variant nb' (take 3 (variant2mem nb v)) :: int32 result) =
     Inl (Runtime_Error ''mem2variant convert error! invalid memory size!'')"
  using mem2variant_variant2mem [where v = v and nb = nb and nb' = nb']
  by (simp add: variant2mem_le mem2variant_def)

end
