(* ===== verification/Safe_Queue.thy ===== *)
theory Safe_Queue
  imports Prelude
begin

text \<open>
  \<open>Thread_Safe_Queue\<close> of \<open>Common/Thread_Safe_Queue.hpp\<close>: a \<open>std::queue\<close> every method of
  which runs under one mutex, so each method is one atomic step. \<open>front\<close>, \<open>pop\<close> and
  \<open>front_pop\<close> do not test for an empty queue; on one they are undefined behaviour.
\<close>

record 'a tsq =
  tsq_queue :: "'a list"

definition new_tsq :: "'a tsq" where
  "new_tsq = \<lparr>tsq_queue = []\<rparr>"

definition tsq_push :: "'a \<Rightarrow> 'a tsq \<Rightarrow> 'a tsq" where
  "tsq_push data q = q\<lparr>tsq_queue := tsq_queue q @ [data]\<rparr>"

definition tsq_empty :: "'a tsq \<Rightarrow> bool" where
  "tsq_empty q \<longleftrightarrow> tsq_queue q = []"

definition tsq_size :: "'a tsq \<Rightarrow> nat" where
  "tsq_size q = length (tsq_queue q)"

definition tsq_front :: "'a tsq \<Rightarrow> 'a result" where
  "tsq_front q =
     (case tsq_queue q of [] \<Rightarrow> Inl (Undefined ''front of an empty queue'') | x # _ \<Rightarrow> Inr x)"

definition tsq_pop :: "'a tsq \<Rightarrow> 'a tsq result" where
  "tsq_pop q =
     (case tsq_queue q of [] \<Rightarrow> Inl (Undefined ''pop of an empty queue'')
      | _ # xs \<Rightarrow> Inr (q\<lparr>tsq_queue := xs\<rparr>))"

definition tsq_front_pop :: "'a tsq \<Rightarrow> ('a \<times> 'a tsq) result" where
  "tsq_front_pop q = bindE (tsq_front q) (\<lambda>res. bindE (tsq_pop q) (\<lambda>q'. Inr (res, q')))"

text \<open>\<open>clear\<close> pops until the queue is empty.\<close>

function tsq_clear :: "'a tsq \<Rightarrow> 'a tsq result" where
  "tsq_clear q = (if \<not> tsq_empty q then bindE (tsq_pop q) tsq_clear else Inr q)"
  by pat_completeness auto
termination
  by (relation "measure tsq_size")
     (auto simp: tsq_empty_def tsq_pop_def tsq_size_def split: list.splits)

declare tsq_clear.simps [simp del]

subsection \<open>The interface: a first-in first-out queue\<close>

locale fifo_queue =
  fixes empty :: 'q
    and push :: "'a \<Rightarrow> 'q \<Rightarrow> 'q"
    and is_empty :: "'q \<Rightarrow> bool"
    and front :: "'q \<Rightarrow> 'a result"
    and pop :: "'q \<Rightarrow> 'q result"
    and front_pop :: "'q \<Rightarrow> ('a \<times> 'q) result"
    and elems :: "'q \<Rightarrow> 'a list"
  assumes elems_empty: "elems empty = []"
    and elems_push: "elems (push x q) = elems q @ [x]"
    and is_empty_elems: "is_empty q \<longleftrightarrow> elems q = []"
    and front_Cons: "elems q = x # xs \<Longrightarrow> front q = Inr x"
    and pop_Cons: "elems q = x # xs \<Longrightarrow> \<exists>q'. pop q = Inr q' \<and> elems q' = xs"
    and front_pop_Cons: "elems q = x # xs \<Longrightarrow> \<exists>q'. front_pop q = Inr (x, q') \<and> elems q' = xs"
begin

lemma elems_pushes: "elems (fold push xs q) = elems q @ xs"
  by (induction xs arbitrary: q) (simp_all add: elems_push)

text \<open>An element pushed behind others comes out after them.\<close>

lemma front_pop_push:
  assumes "\<not> is_empty q"
  shows "\<exists>y q'. front_pop (push x q) = Inr (y, q') \<and> front q = Inr y \<and>
           elems q' = tl (elems q) @ [x]"
proof -
  from assms obtain y ys where "elems q = y # ys"
    by (metis is_empty_elems neq_Nil_conv)
  then show ?thesis
    using front_pop_Cons [of "push x q" y "ys @ [x]"] front_Cons [of q y ys]
    by (auto simp: elems_push)
qed

end

interpretation tsq: fifo_queue new_tsq tsq_push tsq_empty tsq_front tsq_pop tsq_front_pop tsq_queue
  by unfold_locales
     (auto simp: new_tsq_def tsq_push_def tsq_empty_def tsq_front_def tsq_pop_def tsq_front_pop_def)

lemma tsq_clear_result: "tsq_clear q = Inr (q\<lparr>tsq_queue := []\<rparr>)"
proof (induction q rule: tsq_clear.induct)
  case (1 q)
  show ?case
  proof (cases "tsq_queue q")
    case Nil
    then show ?thesis by (simp add: tsq_clear.simps [of q] tsq_empty_def)
  next
    case (Cons x xs)
    then have "tsq_pop q = Inr (q\<lparr>tsq_queue := xs\<rparr>)" "\<not> tsq_empty q"
      by (simp_all add: tsq_pop_def tsq_empty_def)
    with "1" [of "q\<lparr>tsq_queue := xs\<rparr>"] show ?thesis
      by (simp add: tsq_clear.simps [of q])
  qed
qed

end
