(* ===== verification/Compression.thy ===== *)
theory Compression
  imports Prelude
begin

text \<open>
  \<open>Core/Compression.h\<close> and \<open>Core/Compression.cpp\<close>: the enumeration \<open>Compression_Type\<close> and
  the class \<open>Brotli\<close>. The Brotli library itself is not part of the repository; its entry
  points are the fields of a record \<open>brotli\<close> that the definitions take as a parameter, and
  \<open>brotli_contract\<close> states what its documentation promises. The theory shows that the
  decompression loop ends and returns what was compressed.
\<close>

datatype compression_type = Comp_None | Comp_Brotli

fun compression_byte :: "compression_type \<Rightarrow> byte" where
  "compression_byte Comp_None = 0"
| "compression_byte Comp_Brotli = 1"

datatype decoder_result = Decoder_Error | Decoder_Success | Needs_More_Input | Needs_More_Output

text \<open>
  The library: \<open>BrotliEncoderMaxCompressedSize\<close>, \<open>BrotliEncoderCompress\<close> (output space and
  input; \<open>None\<close> for \<open>BROTLI_FALSE\<close>), \<open>BrotliDecoderCreateInstance\<close>, and one call of
  \<open>BrotliDecoderDecompressStream\<close> (decoder state, rest of the input, output space; its
  result, the new state, the rest of the input, the bytes it wrote).
\<close>

record 'd brotli =
  max_compressed_size :: "nat \<Rightarrow> nat"
  encoder_compress :: "nat \<Rightarrow> byte list \<Rightarrow> byte list option"
  create_instance :: "'d option"
  decompress_stream :: "'d \<Rightarrow> byte list \<Rightarrow> nat \<Rightarrow> decoder_result \<times> 'd \<times> byte list \<times> byte list"

definition compress :: "'d brotli \<Rightarrow> byte list \<Rightarrow> byte list result" where
  "compress lib data =
     (case encoder_compress lib (max_compressed_size lib (length data)) data of
        None \<Rightarrow> Inl (Runtime_Error ''Brotli compression failed'')
      | Some compressed \<Rightarrow> Inr compressed)"

text \<open>
  The \<open>do ... while\<close> loop. \<open>out\<close> holds the first \<open>decoded_size\<close> bytes of the vector
  \<open>decompressed\<close>, \<open>cap\<close> is that vector's size; the vector doubles while the decoder asks
  for more output.
\<close>

partial_function (option) decompress_loop ::
    "('d \<Rightarrow> byte list \<Rightarrow> nat \<Rightarrow> decoder_result \<times> 'd \<times> byte list \<times> byte list) \<Rightarrow>
     'd \<Rightarrow> byte list \<Rightarrow> byte list \<Rightarrow> nat \<Rightarrow> (decoder_result \<times> byte list) option" where
  "decompress_loop step st inp out cap =
     (case step st inp (szsub cap (length out)) of
        (r, st', inp', written) \<Rightarrow>
          if r = Needs_More_Output
          then decompress_loop step st' inp' (out @ written) (if cap * 2 = 0 then 1024 else cap * 2)
          else Some (r, out @ written))"

definition decompress :: "'d brotli \<Rightarrow> byte list \<Rightarrow> byte list result" where
  "decompress lib compressed_data =
     (case create_instance lib of
        None \<Rightarrow> Inl (Runtime_Error ''Failed to create Brotli decoder instance'')
      | Some st \<Rightarrow>
          (case decompress_loop (decompress_stream lib) st compressed_data [] 0 of
             None \<Rightarrow> Inl Hang
           | Some (r, decompressed) \<Rightarrow>
               if r \<noteq> Decoder_Success then Inl (Runtime_Error ''Brotli decompression failed'')
               else Inr decompressed))"

subsection \<open>The library's contract\<close>

text \<open>
  \<open>pending st inp\<close> is what a decoder in state \<open>st\<close> with \<open>inp\<close> left to read still has to
  write, when \<open>inp\<close> completes a valid stream. A call writes a prefix of it: all of it and
  reports success, or as much as fits and asks for more output.
\<close>

definition decoder_contract ::
    "('d \<Rightarrow> byte list \<Rightarrow> nat \<Rightarrow> decoder_result \<times> 'd \<times> byte list \<times> byte list) \<Rightarrow>
     ('d \<Rightarrow> byte list \<Rightarrow> byte list option) \<Rightarrow> bool" where
  "decoder_contract step pending \<longleftrightarrow>
     (\<forall>st inp n rest. pending st inp = Some rest \<longrightarrow>
        (case step st inp n of (r, st', inp', written) \<Rightarrow>
           (r = Decoder_Success \<and> written = rest \<and> length rest \<le> n) \<or>
           (r = Needs_More_Output \<and> length written = n \<and>
            (\<exists>rest'. rest = written @ rest' \<and> pending st' inp' = Some rest'))))"

definition brotli_contract :: "'d brotli \<Rightarrow> bool" where
  "brotli_contract lib \<longleftrightarrow>
     (\<exists>pending st. decoder_contract (decompress_stream lib) pending \<and> create_instance lib = Some st \<and>
        (\<forall>data. length data < 2 ^ 60 \<longrightarrow>
           (\<exists>c. encoder_compress lib (max_compressed_size lib (length data)) data = Some c \<and>
                pending st c = Some data)))"

lemma decoder_contractD:
  assumes "decoder_contract step pending" and "pending st inp = Some rest"
    and "step st inp n = (r, st', inp', w)"
  shows "(r = Decoder_Success \<and> w = rest \<and> length rest \<le> n) \<or>
     (r = Needs_More_Output \<and> length w = n \<and>
      (\<exists>rest'. rest = w @ rest' \<and> pending st' inp' = Some rest'))"
  using assms(1) [unfolded decoder_contract_def, rule_format, OF assms(2), of n]
  by (simp add: assms(3))

lemma decompress_loop_returns:
  assumes "decoder_contract step pending" and "pending st inp = Some rest"
    and "length out + length rest < 2 ^ 60" and "cap < 2 ^ 61"
    and "cap = 0 \<and> out = [] \<or> length out < cap"
  shows "decompress_loop step st inp out cap = Some (Decoder_Success, out @ rest)"
  using assms(2-5)
proof (induction "length rest + (if cap = 0 then 1 else 0)" arbitrary: st inp rest out cap
    rule: less_induct)
  case less
  define n where "n = cap - length out"
  have n: "szsub cap (length out) = n"
    using less.prems by (auto simp: n_def szsub_small)
  obtain r st' inp' w where s: "step st inp n = (r, st', inp', w)" by (metis prod_cases4)
  from decoder_contractD [OF assms(1) less.prems(1) s]
  consider "r = Decoder_Success" "w = rest"
    | rest' where "r = Needs_More_Output" "length w = n" "rest = w @ rest'" "pending st' inp' = Some rest'"
    by blast
  then show ?case
  proof cases
    case 1
    then show ?thesis by (simp add: decompress_loop.simps [of step st] n s)
  next
    case 2
    define cap' where "cap' = (if cap * 2 = 0 then 1024 else cap * 2)"
    have full: "length (out @ w) = cap" using 2(2) less.prems(4) by (auto simp: n_def)
    have "length (out @ w) < cap'" using full by (simp add: cap'_def)
    moreover have "cap \<le> length out + length rest" using full 2(3) by simp
    then have "cap' < 2 ^ 61" using less.prems(2) by (simp add: cap'_def)
    moreover have "length rest' + (if cap' = 0 then 1 else 0) < length rest + (if cap = 0 then 1 else 0)"
      using 2(2,3) less.prems(4) by (auto simp: cap'_def n_def)
    ultimately have "decompress_loop step st' inp' (out @ w) cap' = Some (Decoder_Success, (out @ w) @ rest')"
      using less.hyps [of rest' cap' st' inp' "out @ w"] 2 less.prems(2) by simp
    then show ?thesis using 2
      by (simp add: decompress_loop.simps [of step st] n s cap'_def)
  qed
qed

lemma brotli_roundtrip:
  assumes "brotli_contract lib" and "length data < 2 ^ 60"
  shows "\<exists>c. compress lib data = Inr c \<and> decompress lib c = Inr data"
proof -
  from assms obtain pending st c where
    "decoder_contract (decompress_stream lib) pending" "create_instance lib = Some st"
    "encoder_compress lib (max_compressed_size lib (length data)) data = Some c"
    "pending st c = Some data"
    unfolding brotli_contract_def by blast
  with decompress_loop_returns [of "decompress_stream lib" pending st c data "[]" 0] assms(2)
  show ?thesis by (simp add: compress_def decompress_def)
qed

subsection \<open>An instance of the contract\<close>

text \<open>
  A library that stores the data as they are keeps the contract; its decoder writes as much
  as fits. It shows that the hypothesis can hold.
\<close>

definition stored_lib :: "unit brotli" where
  "stored_lib = \<lparr>max_compressed_size = (\<lambda>n. n),
     encoder_compress = (\<lambda>space data. if length data \<le> space then Some data else None),
     create_instance = Some (),
     decompress_stream = (\<lambda>st inp n.
       if length inp \<le> n then (Decoder_Success, st, [], inp)
       else (Needs_More_Output, st, drop n inp, take n inp))\<rparr>"

lemma stored_lib_contract: "brotli_contract stored_lib"
proof -
  have "decoder_contract (decompress_stream stored_lib) (\<lambda>st inp. Some inp)"
    by (auto simp: decoder_contract_def stored_lib_def)
  then show ?thesis
    unfolding brotli_contract_def by (intro exI [of _ "\<lambda>st inp. Some inp"]) (auto simp: stored_lib_def)
qed

subsection \<open>Properties\<close>

text \<open>
  C34: Brotli round trip and termination. With a library that keeps its contract,
  \<open>Brotli::decompress\<close> ends on the output of \<open>Brotli::compress\<close> and returns the data,
  however often its output vector has to double.
\<close>
theorem compression_roundtrip:
  assumes "brotli_contract lib" and "length data < 2 ^ 60"
  shows "\<exists>c. compress lib data = Inr c \<and> decompress lib c = Inr data"
  using assms by (rule brotli_roundtrip)

theorem compression_roundtrip_witness:
  "\<exists>c. compress stored_lib (replicate 3000 7) = Inr c \<and> decompress stored_lib c = Inr (replicate 3000 7)"
  by (rule compression_roundtrip [OF stored_lib_contract]) simp

end
