(* ===== verification/Channel.thy ===== *)
theory Channel
  imports Ring_Buffer Safe_Queue Compression
begin

text \<open>
  \<open>Socket_Channel\<close> (\<open>Core/Channel.h\<close>, \<open>Core/Channel.cpp\<close>): the length-prefixed framing of
  messages over a TCP stream. A message goes out as a four-byte little-endian length and the
  encoded bytes, which start with the compression byte; \<open>parse_message\<close> cuts the received
  bytes into messages again.

  The lemmas show that complete frames are delivered in order, whatever is already in the
  buffer and however the ring wraps, and where \<open>parse_message\<close> never returns.
\<close>

definition BUFFER_SIZE :: nat where
  "BUFFER_SIZE = 2 * 8 * 1024 + 8"

definition HEAD_LENGTH :: nat where
  "HEAD_LENGTH = 4"

record channel =
  ch_fd :: int
  ch_compression :: compression_type
  ch_read_buffer :: "byte buffer"
  ch_read_length :: nat
  ch_read_messages :: "byte list tsq"
  ch_send_messages :: "byte list tsq"
  ch_send_offset :: nat

text \<open>The constructor; \<open>arr\<close> is the indeterminate storage of the read buffer.\<close>

definition new_channel :: "byte list \<Rightarrow> int \<Rightarrow> channel" where
  "new_channel arr fd =
     \<lparr>ch_fd = fd, ch_compression = Comp_None, ch_read_buffer = new_buffer arr, ch_read_length = 0,
      ch_read_messages = new_tsq, ch_send_messages = new_tsq, ch_send_offset = 0\<rparr>"

definition set_compress_algo :: "compression_type \<Rightarrow> channel \<Rightarrow> channel" where
  "set_compress_algo type ch = ch\<lparr>ch_compression := type\<rparr>"

definition get_fd :: "channel \<Rightarrow> int" where
  "get_fd ch = ch_fd ch"

subsection \<open>Encoding and decoding one message\<close>

definition encode_string :: "'d brotli \<Rightarrow> compression_type \<Rightarrow> byte list \<Rightarrow> byte list result" where
  "encode_string lib type plain_string =
     (case type of
        Comp_None \<Rightarrow> Inr (compression_byte Comp_None # plain_string)
      | Comp_Brotli \<Rightarrow>
          bindE (compress lib plain_string) (\<lambda>encoded. Inr (compression_byte Comp_Brotli # encoded)))"

text \<open>
  The \<open>switch\<close> has no default: for any other first byte the pointer \<open>alg\<close> is indeterminate
  when it is tested. For an empty span \<open>encoded_string[0]\<close> is outside it.
\<close>

definition decode_string :: "'d brotli \<Rightarrow> byte list \<Rightarrow> byte list result" where
  "decode_string lib encoded_string =
     (case encoded_string of
        [] \<Rightarrow> Inl (Undefined ''read outside the span'')
      | c # rest \<Rightarrow>
          if c = compression_byte Comp_None then Inr rest
          else if c = compression_byte Comp_Brotli then decompress lib rest
          else Inl (Undefined ''indeterminate alg''))"

text \<open>\<open>write_data\<close>, up to the call of \<open>_on_send_message\<close>, which the network classes supply.\<close>

definition frame_message :: "bool \<Rightarrow> byte list \<Rightarrow> byte list" where
  "frame_message nb encoded = variant2mem nb (of_nat (length encoded) :: int32) @ encoded"

definition enqueue_message :: "'d brotli \<Rightarrow> bool \<Rightarrow> byte list \<Rightarrow> channel \<Rightarrow> channel result" where
  "enqueue_message lib nb data ch =
     bindE (encode_string lib (ch_compression ch) data) (\<lambda>encoded.
       Inr (ch\<lparr>ch_send_messages := tsq_push (frame_message nb encoded) (ch_send_messages ch)\<rparr>))"

subsection \<open>parse_message\<close>

text \<open>
  The first half of the loop's body: the length. \<open>None\<close> is the \<open>break\<close>. Assigning the
  \<open>int32_t\<close> to \<open>uint64_t _read_buffer_length\<close> sign-extends it.
\<close>

definition parse_head :: "bool \<Rightarrow> channel \<Rightarrow> channel option result" where
  "parse_head nb ch =
     (if ch_read_length ch = 0 then
        if buf_size (ch_read_buffer ch) > HEAD_LENGTH then
          bindE (dequeue HEAD_LENGTH (ch_read_buffer ch)) (\<lambda>(temp, rb).
          bindE (mem2variant nb temp) (\<lambda>len :: int32.
            Inr (Some (ch\<lparr>ch_read_buffer := rb, ch_read_length := unat (scast len :: int64)\<rparr>))))
        else Inr None
      else Inr (Some ch))"

text \<open>The second half: the body, once it is complete; otherwise nothing happens.\<close>

definition parse_body :: "'d brotli \<Rightarrow> channel \<Rightarrow> channel result" where
  "parse_body lib ch =
     (if buf_size (ch_read_buffer ch) \<ge> ch_read_length ch then
        bindE (dequeue (ch_read_length ch) (ch_read_buffer ch)) (\<lambda>(data, rb).
        bindE (decode_string lib data) (\<lambda>newData.
          Inr (ch\<lparr>ch_read_buffer := rb, ch_read_length := 0,
                 ch_read_messages := tsq_push newData (ch_read_messages ch)\<rparr>)))
      else Inr ch)"

text \<open>\<open>while(1)\<close>: \<open>None\<close> where the loop does not end.\<close>

partial_function (option) parse_loop :: "'d brotli \<Rightarrow> bool \<Rightarrow> channel \<Rightarrow> channel result option" where
  "parse_loop lib nb ch =
     (case parse_head nb ch of
        Inl e \<Rightarrow> Some (Inl e)
      | Inr next \<Rightarrow>
          (case next of
             None \<Rightarrow> Some (Inr ch)
           | Some ch1 \<Rightarrow>
               (case parse_body lib ch1 of
                  Inl e \<Rightarrow> Some (Inl e)
                | Inr ch2 \<Rightarrow> parse_loop lib nb ch2)))"

text \<open>The delivery loop; the result lists the arguments of \<open>_on_read_message\<close> in call order.\<close>

function deliver :: "channel \<Rightarrow> (byte list list \<times> channel) result" where
  "deliver ch =
     (if tsq_empty (ch_read_messages ch) then Inr ([], ch)
      else
        bindE (tsq_front_pop (ch_read_messages ch)) (\<lambda>(m, q).
        bindE (deliver (ch\<lparr>ch_read_messages := q\<rparr>)) (\<lambda>(ms, ch'). Inr (m # ms, ch'))))"
  by pat_completeness auto
termination
  by (relation "measure (\<lambda>ch. tsq_size (ch_read_messages ch))")
     (auto simp: tsq_empty_def tsq_size_def tsq_front_pop_def tsq_front_def tsq_pop_def
       split: list.splits)

declare deliver.simps [simp del]

definition parse_message :: "'d brotli \<Rightarrow> bool \<Rightarrow> channel \<Rightarrow> (byte list list \<times> channel) result" where
  "parse_message lib nb ch =
     (case parse_loop lib nb ch of None \<Rightarrow> Inl Hang | Some r \<Rightarrow> bindE r deliver)"

subsection \<open>Delivery\<close>

lemma deliver_all:
  "deliver ch = Inr (tsq_queue (ch_read_messages ch), ch\<lparr>ch_read_messages := new_tsq\<rparr>)"
proof (induction "tsq_queue (ch_read_messages ch)" arbitrary: ch)
  case Nil
  then have "ch\<lparr>ch_read_messages := new_tsq\<rparr> = ch"
    by (cases "ch_read_messages ch") (simp add: new_tsq_def)
  with Nil show ?case by (simp add: deliver.simps [of ch] tsq_empty_def)
next
  case (Cons m ms)
  from tsq.front_pop_Cons [OF Cons.hyps(2) [symmetric]] obtain q where
    q: "tsq_front_pop (ch_read_messages ch) = Inr (m, q)" "tsq_queue q = ms" by blast
  have "\<not> tsq_empty (ch_read_messages ch)" using Cons.hyps(2) by (auto simp: tsq_empty_def)
  with q Cons.hyps(1) [of "ch\<lparr>ch_read_messages := q\<rparr>"] Cons.hyps(2) show ?case
    by (simp add: deliver.simps [of ch])
qed

subsection \<open>Message codecs\<close>

text \<open>
  What framing relies on in the encoding of a message: it is not empty, and decoding gives
  the message back.
\<close>

locale message_codec =
  fixes enc :: "byte list \<Rightarrow> byte list result"
    and dec :: "byte list \<Rightarrow> byte list result"
    and adm :: "byte list \<Rightarrow> bool"
  assumes dec_enc: "adm m \<Longrightarrow> \<exists>e. enc m = Inr e \<and> e \<noteq> [] \<and> dec e = Inr m"
begin

lemma encode_all:
  "list_all adm ms \<Longrightarrow>
   \<exists>es. list_all2 (\<lambda>m e. enc m = Inr e \<and> e \<noteq> [] \<and> dec e = Inr m) ms es"
proof (induction ms)
  case (Cons m ms)
  then obtain es where "list_all2 (\<lambda>m e. enc m = Inr e \<and> e \<noteq> [] \<and> dec e = Inr m) ms es" by auto
  moreover obtain e where "enc m = Inr e \<and> e \<noteq> [] \<and> dec e = Inr m"
    using dec_enc [of m] Cons.prems by auto
  ultimately show ?case by (intro exI [of _ "e # es"]) simp
next
  case Nil
  then show ?case by (intro exI [of _ "[]"]) simp
qed

end

interpretation plain: message_codec "encode_string lib Comp_None" "decode_string lib" "\<lambda>_. True" for lib
  by unfold_locales (simp add: encode_string_def decode_string_def)

lemma brotli_codec:
  assumes "brotli_contract lib"
  shows "message_codec (encode_string lib type) (decode_string lib) (\<lambda>m. length m < 2 ^ 60)"
proof unfold_locales
  fix m :: "byte list" assume m: "length m < 2 ^ 60"
  show "\<exists>e. encode_string lib type m = Inr e \<and> e \<noteq> [] \<and> decode_string lib e = Inr m"
  proof (cases type)
    case Comp_Brotli
    then show ?thesis using brotli_roundtrip [OF assms m]
      by (auto simp: encode_string_def decode_string_def)
  qed (simp add: encode_string_def decode_string_def)
qed

subsection \<open>Cutting frames\<close>

text \<open>A channel between two messages, with the bytes \<open>bs\<close> received and not yet parsed.\<close>

definition channel_ok :: "channel \<Rightarrow> bool" where
  "channel_ok ch \<longleftrightarrow>
     buffer_ok (ch_read_buffer ch) \<and> buffer_capacity (ch_read_buffer ch) = BUFFER_SIZE"

definition received :: "channel \<Rightarrow> byte list" where
  "received ch = buffer_items (ch_read_buffer ch)"

lemma frame_message_eq: "frame_message nb e = word_bytes (of_nat (length e) :: int32) @ e"
  by (simp add: frame_message_def variant2mem_le)

lemma length_received [simp]: "length (received ch) = buf_size (ch_read_buffer ch)"
  by (simp add: received_def)

lemma received_le: "channel_ok ch \<Longrightarrow> length (received ch) \<le> BUFFER_SIZE"
  by (simp add: channel_ok_def buffer_ok_def)

lemma dequeue_received:
  assumes "channel_ok ch" and "received ch = xs @ ys"
  shows "\<exists>rb. dequeue (length xs) (ch_read_buffer ch) = Inr (xs, rb) \<and> buffer_ok rb \<and>
           buffer_items rb = ys \<and> buffer_capacity rb = BUFFER_SIZE"
  using ring.get_prefix [of "ch_read_buffer ch" xs ys] assms by (simp add: channel_ok_def received_def)

lemma unat_scast_len: "n < 2 ^ 31 \<Longrightarrow> unat (scast (of_nat n :: int32) :: int64) = n"
proof -
  assume n: "n < 2 ^ 31"
  then have "(scast (of_nat n :: int32) :: int64) = of_nat n"
    by (simp only: scast_sint32 sint_of_nat32 of_int_of_nat_eq)
  with n show ?thesis by (simp add: unat_of_nat64)
qed

text \<open>The head of a frame of \<open>n\<close> bytes, with at least one byte of it (or of the next) there.\<close>

lemma parse_head_length:
  assumes ok: "channel_ok ch" and l: "ch_read_length ch = 0"
    and r: "received ch = word_bytes (of_nat n :: int32) @ rest" and "rest \<noteq> []" and n: "n < 2 ^ 31"
  shows "\<exists>rb. parse_head nb ch = Inr (Some (ch\<lparr>ch_read_buffer := rb, ch_read_length := n\<rparr>)) \<and>
           buffer_ok rb \<and> buffer_items rb = rest \<and> buffer_capacity rb = BUFFER_SIZE"
proof -
  have sz: "buf_size (ch_read_buffer ch) > HEAD_LENGTH"
    using arg_cong [OF r, of length] \<open>rest \<noteq> []\<close> by (simp add: HEAD_LENGTH_def)
  from dequeue_received [OF ok r] obtain rb where
    rb: "dequeue HEAD_LENGTH (ch_read_buffer ch) = Inr (word_bytes (of_nat n :: int32), rb)"
      "buffer_ok rb" "buffer_items rb = rest" "buffer_capacity rb = BUFFER_SIZE"
    by (auto simp: HEAD_LENGTH_def)
  have "mem2variant nb (word_bytes (of_nat n :: int32)) = Inr (of_nat n :: int32)"
    by (simp add: mem2variant_le)
  with rb l sz n show ?thesis
    by (intro exI [of _ rb]) (simp add: parse_head_def unat_scast_len)
qed

lemma parse_body_ready:
  assumes "channel_ok ch" and "received ch = e @ rest" and "ch_read_length ch = length e"
    and "decode_string lib e = Inr m"
  shows "\<exists>rb. parse_body lib ch = Inr (ch\<lparr>ch_read_buffer := rb, ch_read_length := 0,
                 ch_read_messages := tsq_push m (ch_read_messages ch)\<rparr>) \<and>
           buffer_ok rb \<and> buffer_items rb = rest \<and> buffer_capacity rb = BUFFER_SIZE"
  using dequeue_received [OF assms(1,2)] arg_cong [OF assms(2), of length] assms(3,4)
  by (auto simp: parse_body_def)

text \<open>One whole frame: head and body in one turn of the loop.\<close>

lemma parse_one_frame:
  assumes ok: "channel_ok ch" and l: "ch_read_length ch = 0"
    and r: "received ch = frame_message nb e @ rest" and "e \<noteq> []"
    and d: "decode_string lib e = Inr m"
  shows "\<exists>ch'. parse_loop lib nb' ch = parse_loop lib nb' ch' \<and> channel_ok ch' \<and>
     ch_read_length ch' = 0 \<and> received ch' = rest \<and>
     tsq_queue (ch_read_messages ch') = tsq_queue (ch_read_messages ch) @ [m] \<and>
     ch' = ch\<lparr>ch_read_buffer := ch_read_buffer ch', ch_read_messages := ch_read_messages ch'\<rparr>"
proof -
  have "length e \<le> BUFFER_SIZE"
    using received_le [OF ok] arg_cong [OF r, of length] by (simp add: frame_message_eq)
  then have n: "length e < 2 ^ 31" by (simp add: BUFFER_SIZE_def)
  have r1: "received ch = word_bytes (of_nat (length e) :: int32) @ (e @ rest)"
    using r by (simp add: frame_message_eq)
  from parse_head_length [OF ok l r1 _ n] \<open>e \<noteq> []\<close> obtain rb where
    h: "parse_head nb' ch = Inr (Some (ch\<lparr>ch_read_buffer := rb, ch_read_length := length e\<rparr>))"
      "buffer_ok rb" "buffer_items rb = e @ rest" "buffer_capacity rb = BUFFER_SIZE" by blast
  let ?ch1 = "ch\<lparr>ch_read_buffer := rb, ch_read_length := length e\<rparr>"
  have "channel_ok ?ch1" "received ?ch1 = e @ rest"
    using h by (simp_all add: channel_ok_def received_def)
  from parse_body_ready [OF this _ d] obtain rb' where
    b: "parse_body lib ?ch1 = Inr (?ch1\<lparr>ch_read_buffer := rb', ch_read_length := 0,
          ch_read_messages := tsq_push m (ch_read_messages ch)\<rparr>)"
      "buffer_ok rb'" "buffer_items rb' = rest" "buffer_capacity rb' = BUFFER_SIZE" by auto
  let ?ch2 = "?ch1\<lparr>ch_read_buffer := rb', ch_read_length := 0,
      ch_read_messages := tsq_push m (ch_read_messages ch)\<rparr>"
  have "parse_loop lib nb' ch = parse_loop lib nb' ?ch2"
    by (subst parse_loop.simps) (simp add: h(1) b(1))
  moreover have "ch_read_length ?ch2 = 0" "?ch2 = ch\<lparr>ch_read_buffer := ch_read_buffer ?ch2,
      ch_read_messages := ch_read_messages ?ch2\<rparr>"
    using l by (simp, cases ch, simp)
  ultimately show ?thesis using b(2-4) l
    by (intro exI [of _ ?ch2]) (simp add: channel_ok_def received_def tsq.elems_push)
qed

lemma parse_stops:
  assumes "ch_read_length ch = 0" and "length (received ch) \<le> HEAD_LENGTH"
  shows "parse_loop lib nb ch = Some (Inr ch)"
  using assms by (subst parse_loop.simps) (simp add: parse_head_def)

definition decodes_to :: "'d brotli \<Rightarrow> byte list \<Rightarrow> byte list \<Rightarrow> bool" where
  "decodes_to lib m e \<longleftrightarrow> e \<noteq> [] \<and> decode_string lib e = Inr m"

lemma parse_frames:
  assumes "list_all2 (decodes_to lib) ms es" and "channel_ok ch" and "ch_read_length ch = 0"
    and "received ch = concat (map (frame_message nb) es) @ tail" and "length tail \<le> HEAD_LENGTH"
  shows "\<exists>ch'. parse_loop lib nb' ch = Some (Inr ch') \<and> channel_ok ch' \<and> ch_read_length ch' = 0 \<and>
     received ch' = tail \<and>
     tsq_queue (ch_read_messages ch') = tsq_queue (ch_read_messages ch) @ ms \<and>
     ch' = ch\<lparr>ch_read_buffer := ch_read_buffer ch', ch_read_messages := ch_read_messages ch'\<rparr>"
  using assms
proof (induction arbitrary: ch rule: list_all2_induct)
  case Nil
  then show ?case using parse_stops [of ch] by (intro exI [of _ ch]) simp
next
  case (Cons m ms e es)
  have r: "received ch = frame_message nb e @ (concat (map (frame_message nb) es) @ tail)"
    using Cons.prems by simp
  from parse_one_frame [OF Cons.prems(1,2) r] Cons.hyps(1) obtain ch1 where
    c1: "parse_loop lib nb' ch = parse_loop lib nb' ch1" "channel_ok ch1" "ch_read_length ch1 = 0"
      "received ch1 = concat (map (frame_message nb) es) @ tail"
      "tsq_queue (ch_read_messages ch1) = tsq_queue (ch_read_messages ch) @ [m]"
      "ch1 = ch\<lparr>ch_read_buffer := ch_read_buffer ch1, ch_read_messages := ch_read_messages ch1\<rparr>"
    unfolding decodes_to_def by blast
  from Cons.IH [OF c1(2-4) Cons.prems(4)] obtain ch2 where
    c2: "parse_loop lib nb' ch1 = Some (Inr ch2)" "channel_ok ch2" "ch_read_length ch2 = 0"
      "received ch2 = tail" "tsq_queue (ch_read_messages ch2) = tsq_queue (ch_read_messages ch1) @ ms"
      "ch2 = ch1\<lparr>ch_read_buffer := ch_read_buffer ch2, ch_read_messages := ch_read_messages ch2\<rparr>"
    by blast
  have "ch2 = ch\<lparr>ch_read_buffer := ch_read_buffer ch2, ch_read_messages := ch_read_messages ch2\<rparr>"
    by (subst c2(6), subst c1(6)) simp
  with c1 c2 show ?case by (intro exI [of _ ch2]) simp
qed

subsection \<open>Where the loop never ends\<close>

text \<open>
  A body that is announced and not complete: the turn of the loop changes nothing, and the
  next one finds the same state.
\<close>

lemma parse_loop_stuck:
  assumes l: "ch_read_length ch \<noteq> 0" and short: "length (received ch) < ch_read_length ch"
  shows "parse_loop lib nb ch = None"
proof (rule ccontr)
  assume "parse_loop lib nb ch \<noteq> None"
  then obtain r where ret: "parse_loop lib nb ch = Some r" by blast
  have "\<not> (ch_read_length ch \<noteq> 0 \<and> length (received ch) < ch_read_length ch)"
  proof (rule parse_loop.raw_induct
      [where P = "\<lambda>lib nb ch r. \<not> (ch_read_length ch \<noteq> 0 \<and> length (received ch) < ch_read_length ch)",
       OF _ ret])
    fix f lib nb ch r
    assume IH: "\<And>lib nb ch r. f lib nb ch = Some r \<Longrightarrow>
        \<not> (ch_read_length ch \<noteq> 0 \<and> length (received ch) < ch_read_length ch)"
      and eq: "(case parse_head nb ch of Inl e \<Rightarrow> Some (Inl e)
          | Inr next \<Rightarrow> (case next of None \<Rightarrow> Some (Inr ch)
             | Some ch1 \<Rightarrow> (case parse_body lib ch1 of Inl e \<Rightarrow> Some (Inl e) | Inr ch2 \<Rightarrow> f lib nb ch2))) = Some r"
    show "\<not> (ch_read_length ch \<noteq> 0 \<and> length (received ch) < ch_read_length ch)"
    proof
      assume s: "ch_read_length ch \<noteq> 0 \<and> length (received ch) < ch_read_length ch"
      then have "parse_head nb ch = Inr (Some ch)" "parse_body lib ch = Inr ch"
        by (simp_all add: parse_head_def parse_body_def)
      with eq have "f lib nb ch = Some r" by simp
      with IH s show False by blast
    qed
  qed
  with l short show False by blast
qed

lemma parse_partial_frame:
  assumes ok: "channel_ok ch" and l: "ch_read_length ch = 0"
    and r: "received ch = word_bytes (of_nat n :: int32) @ part"
    and "part \<noteq> []" "length part < n" "n < 2 ^ 31"
  shows "parse_loop lib nb ch = None"
proof -
  from parse_head_length [OF ok l r assms(4,6)] obtain rb where
    h: "parse_head nb ch = Inr (Some (ch\<lparr>ch_read_buffer := rb, ch_read_length := n\<rparr>))"
      "buffer_items rb = part" by blast
  let ?ch1 = "ch\<lparr>ch_read_buffer := rb, ch_read_length := n\<rparr>"
  have p: "length (received ?ch1) < ch_read_length ?ch1" "ch_read_length ?ch1 \<noteq> 0"
    using assms(4,5) h(2) by (auto simp: received_def simp flip: length_buffer_items)
  then have "parse_body lib ?ch1 = Inr ?ch1" by (simp add: parse_body_def)
  then have "parse_loop lib nb ch = parse_loop lib nb ?ch1"
    by (subst parse_loop.simps) (simp add: h(1))
  with parse_loop_stuck [OF p(2,1)] show ?thesis by simp
qed

text \<open>Headers no honest sender writes: a zero or negative length, an unknown compression byte.\<close>

lemma parse_loop_head_body:
  assumes "parse_head nb ch = Inr (Some ch1)" and "parse_body lib ch1 = Inl e"
  shows "parse_loop lib nb ch = Some (Inl e)"
  by (subst parse_loop.simps) (simp add: assms)

lemma parse_zero_length:
  assumes ok: "channel_ok ch" and l: "ch_read_length ch = 0"
    and r: "received ch = [0, 0, 0, 0] @ rest" and "rest \<noteq> []"
  shows "parse_loop lib nb ch = Some (Inl (Undefined ''read outside the span''))"
proof -
  have "word_bytes (of_nat 0 :: int32) = [0, 0, 0, 0]" by (simp add: word_bytes_def nat_bytes_4)
  with r have "received ch = word_bytes (of_nat 0 :: int32) @ rest" by simp
  from parse_head_length [OF ok l this \<open>rest \<noteq> []\<close>] obtain rb where
    h: "parse_head nb ch = Inr (Some (ch\<lparr>ch_read_buffer := rb, ch_read_length := 0\<rparr>))"
      "buffer_ok rb" by auto
  have "dequeue 0 rb = Inr ([], rb\<lparr>buf_head := buf_head rb mod buffer_capacity rb, buf_size := buf_size rb\<rparr>)"
    using dequeue_fits [OF h(2), of 0] by simp
  then have "parse_body lib (ch\<lparr>ch_read_buffer := rb, ch_read_length := 0\<rparr>) =
      Inl (Undefined ''read outside the span'')"
    by (simp add: parse_body_def decode_string_def)
  with h(1) show ?thesis by (rule parse_loop_head_body)
qed

lemma parse_unknown_compression:
  assumes ok: "channel_ok ch" and l: "ch_read_length ch = 0"
    and r: "received ch = frame_message nb' (c # body) @ rest" and c: "c \<noteq> 0" "c \<noteq> 1"
  shows "parse_loop lib nb ch = Some (Inl (Undefined ''indeterminate alg''))"
proof -
  let ?e = "c # body"
  have "length ?e \<le> BUFFER_SIZE"
    using received_le [OF ok] arg_cong [OF r, of length] by (simp add: frame_message_eq)
  then have n: "length ?e < 2 ^ 31" by (simp add: BUFFER_SIZE_def)
  have r1: "received ch = word_bytes (of_nat (length ?e) :: int32) @ (?e @ rest)"
    using r by (simp add: frame_message_eq)
  from parse_head_length [OF ok l r1 _ n] obtain rb where
    h: "parse_head nb ch = Inr (Some (ch\<lparr>ch_read_buffer := rb, ch_read_length := length ?e\<rparr>))"
      "buffer_ok rb" "buffer_items rb = ?e @ rest" by auto
  from ring.get_prefix [OF h(2,3)] obtain rb' where "dequeue (length ?e) rb = Inr (?e, rb')" by blast
  moreover have "length ?e \<le> buf_size rb" using arg_cong [OF h(3), of length] by simp
  ultimately have "parse_body lib (ch\<lparr>ch_read_buffer := rb, ch_read_length := length ?e\<rparr>) =
      Inl (Undefined ''indeterminate alg'')"
    using c by (simp add: parse_body_def decode_string_def)
  with h(1) show ?thesis by (rule parse_loop_head_body)
qed

lemma unat_scast_negative:
  fixes w :: int32
  assumes "sint w < 0"
  shows "2 ^ 63 \<le> unat (scast w :: int64)"
proof -
  define d where "d = nat (- sint w)"
  have "- (2 ^ 31) \<le> sint w" using sint_greater_eq [of w] by simp
  then have d: "0 < d" "d \<le> 2 ^ 31" "sint w = - int d" using assms by (auto simp: d_def)
  have "(scast w :: int64) = of_nat (2 ^ 64 - d)"
    unfolding scast_sint32 d(3) using d by (simp add: of_nat_diff)
  also have "unat \<dots> = 2 ^ 64 - d" by (rule unat_of_nat64) (use d in simp)
  finally have "unat (scast w :: int64) = 2 ^ 64 - d" .
  with d show ?thesis by simp
qed

lemma parse_negative_length:
  assumes ok: "channel_ok ch" and l: "ch_read_length ch = 0"
    and r: "received ch = word_bytes (w :: int32) @ rest" and "rest \<noteq> []" and neg: "sint w < 0"
  shows "parse_loop lib nb ch = None"
proof -
  have sz: "buf_size (ch_read_buffer ch) > HEAD_LENGTH"
    using arg_cong [OF r, of length] \<open>rest \<noteq> []\<close> by (simp add: HEAD_LENGTH_def)
  from dequeue_received [OF ok r] obtain rb where
    rb: "dequeue HEAD_LENGTH (ch_read_buffer ch) = Inr (word_bytes w, rb)"
      "buffer_ok rb" "buffer_capacity rb = BUFFER_SIZE" by (auto simp: HEAD_LENGTH_def)
  let ?ch1 = "ch\<lparr>ch_read_buffer := rb, ch_read_length := unat (scast w :: int64)\<rparr>"
  have h: "parse_head nb ch = Inr (Some ?ch1)"
    using rb(1) l sz by (simp add: parse_head_def mem2variant_le)
  have "length (received ?ch1) \<le> BUFFER_SIZE"
    using rb(2,3) by (intro received_le) (simp add: channel_ok_def)
  moreover have "BUFFER_SIZE < 2 ^ 63" by (simp add: BUFFER_SIZE_def)
  ultimately have s: "length (received ?ch1) < ch_read_length ?ch1" "ch_read_length ?ch1 \<noteq> 0"
    using unat_scast_negative [OF neg] by simp_all
  then have "parse_body lib ?ch1 = Inr ?ch1" by (simp add: parse_body_def)
  then have "parse_loop lib nb ch = parse_loop lib nb ?ch1"
    by (subst parse_loop.simps) (simp add: h)
  with parse_loop_stuck [OF s(2,1)] show ?thesis by simp
qed

subsection \<open>From one channel to another\<close>

fun enqueue_messages :: "'d brotli \<Rightarrow> bool \<Rightarrow> byte list list \<Rightarrow> channel \<Rightarrow> channel result" where
  "enqueue_messages lib nb [] ch = Inr ch"
| "enqueue_messages lib nb (m # ms) ch =
     bindE (enqueue_message lib nb m ch) (enqueue_messages lib nb ms)"

lemma enqueue_messages_frames:
  assumes "list_all2 (\<lambda>m e. encode_string lib (ch_compression ch) m = Inr e) ms es"
  shows "\<exists>ch'. enqueue_messages lib nb ms ch = Inr ch' \<and>
     tsq_queue (ch_send_messages ch') = tsq_queue (ch_send_messages ch) @ map (frame_message nb) es"
  using assms
proof (induction ms arbitrary: es ch)
  case Nil
  then show ?case by simp
next
  case (Cons m ms)
  then obtain e es' where es: "es = e # es'" and e: "encode_string lib (ch_compression ch) m = Inr e"
    and rest: "list_all2 (\<lambda>m e. encode_string lib (ch_compression ch) m = Inr e) ms es'"
    by (auto simp: list_all2_Cons1)
  let ?ch = "ch\<lparr>ch_send_messages := tsq_push (frame_message nb e) (ch_send_messages ch)\<rparr>"
  from Cons.IH [of ?ch es'] rest e show ?case
    by (simp add: enqueue_message_def tsq.elems_push es)
qed

lemma received_enqueue:
  assumes "channel_ok ch" and "length (received ch) + length bs \<le> BUFFER_SIZE"
  shows "\<exists>rb. enqueue bs (ch_read_buffer ch) = Inr rb \<and>
     channel_ok (ch\<lparr>ch_read_buffer := rb\<rparr>) \<and> received (ch\<lparr>ch_read_buffer := rb\<rparr>) = received ch @ bs"
  using ring.put_fits [of "ch_read_buffer ch" bs] assms by (auto simp: channel_ok_def received_def)

lemma new_channel_ok: "length arr = BUFFER_SIZE \<Longrightarrow> channel_ok (new_channel arr fd)"
  using new_buffer_ok [of arr]
  by (simp add: channel_ok_def new_channel_def buffer_capacity_def new_buffer_def BUFFER_SIZE_def)

lemma new_channel_fields [simp]:
  "received (new_channel arr fd) = []" "ch_read_length (new_channel arr fd) = 0"
  "tsq_queue (ch_read_messages (new_channel arr fd)) = []"
  "tsq_queue (ch_send_messages (new_channel arr fd)) = []"
  by (simp_all add: new_channel_def received_def new_tsq_def)

lemma parse_message_frames:
  assumes "list_all2 (decodes_to lib) ms es" and "channel_ok ch" and "ch_read_length ch = 0"
    and "tsq_queue (ch_read_messages ch) = []"
    and "received ch = concat (map (frame_message nb) es) @ tail" and "length tail \<le> HEAD_LENGTH"
  shows "\<exists>ch'. parse_message lib nb' ch = Inr (ms, ch') \<and> channel_ok ch' \<and>
     ch_read_length ch' = 0 \<and> received ch' = tail \<and> tsq_queue (ch_read_messages ch') = [] \<and>
     ch_send_messages ch' = ch_send_messages ch \<and> ch_fd ch' = ch_fd ch \<and>
     ch_compression ch' = ch_compression ch \<and> ch_send_offset ch' = ch_send_offset ch"
proof -
  from parse_frames [OF assms(1-3,5,6)] assms(4) obtain ch' where
    c: "parse_loop lib nb' ch = Some (Inr ch')" "channel_ok ch'" "ch_read_length ch' = 0"
      "received ch' = tail" "tsq_queue (ch_read_messages ch') = ms"
      "ch' = ch\<lparr>ch_read_buffer := ch_read_buffer ch', ch_read_messages := ch_read_messages ch'\<rparr>"
    by auto
  have f: "ch_send_messages ch' = ch_send_messages ch" "ch_fd ch' = ch_fd ch"
    "ch_compression ch' = ch_compression ch" "ch_send_offset ch' = ch_send_offset ch"
    by (subst c(6), simp)+
  have "parse_message lib nb' ch = Inr (ms, ch'\<lparr>ch_read_messages := new_tsq\<rparr>)"
    by (simp add: parse_message_def c(1,5) deliver_all)
  with c(2-4) f show ?thesis
    by (intro exI [of _ "ch'\<lparr>ch_read_messages := new_tsq\<rparr>"])
       (simp add: channel_ok_def received_def tsq.elems_empty)
qed

subsection \<open>A stream of chunks\<close>

text \<open>
  What the readers of the sockets do with the bytes of one \<open>recv\<close> after the other: put them
  into the ring and call \<open>parse_message\<close>.
\<close>

definition feed :: "'d brotli \<Rightarrow> bool \<Rightarrow> byte list \<Rightarrow> channel \<Rightarrow> (byte list list \<times> channel) result" where
  "feed lib nb chunk ch =
     bindE (enqueue chunk (ch_read_buffer ch)) (\<lambda>rb. parse_message lib nb (ch\<lparr>ch_read_buffer := rb\<rparr>))"

fun feeds :: "'d brotli \<Rightarrow> bool \<Rightarrow> byte list list \<Rightarrow> channel \<Rightarrow> (byte list list \<times> channel) result" where
  "feeds lib nb [] ch = Inr ([], ch)"
| "feeds lib nb (c # cs) ch =
     bindE (feed lib nb c ch) (\<lambda>(ms, ch1).
     bindE (feeds lib nb cs ch1) (\<lambda>(ms', ch2). Inr (ms @ ms', ch2)))"

text \<open>A channel that waits for a message, with the bytes \<open>tail\<close> (part of a header) in it.\<close>

definition waiting :: "byte list \<Rightarrow> channel \<Rightarrow> bool" where
  "waiting tail ch \<longleftrightarrow> channel_ok ch \<and> ch_read_length ch = 0 \<and> received ch = tail \<and>
     tsq_queue (ch_read_messages ch) = []"

lemma new_channel_waiting: "length arr = BUFFER_SIZE \<Longrightarrow> waiting [] (new_channel arr fd)"
  by (simp add: waiting_def new_channel_ok)

lemma feed_frames:
  assumes w: "waiting pre ch" and "list_all2 (decodes_to lib) ms es"
    and b: "pre @ chunk = concat (map (frame_message nb) es) @ tail"
    and "length tail \<le> HEAD_LENGTH" and "length (pre @ chunk) \<le> BUFFER_SIZE"
  shows "\<exists>ch'. feed lib nb' chunk ch = Inr (ms, ch') \<and> waiting tail ch' \<and>
     ch_send_messages ch' = ch_send_messages ch \<and> ch_fd ch' = ch_fd ch \<and>
     ch_compression ch' = ch_compression ch \<and> ch_send_offset ch' = ch_send_offset ch"
proof -
  note w = w [unfolded waiting_def]
  from received_enqueue [of ch chunk] w assms(5) obtain rb where
    rb: "enqueue chunk (ch_read_buffer ch) = Inr rb" "channel_ok (ch\<lparr>ch_read_buffer := rb\<rparr>)"
      "received (ch\<lparr>ch_read_buffer := rb\<rparr>) = pre @ chunk" by auto
  from parse_message_frames [OF assms(2) rb(2) _ _ _ assms(4), of nb nb'] rb(3) b w obtain ch' where
    "parse_message lib nb' (ch\<lparr>ch_read_buffer := rb\<rparr>) = Inr (ms, ch')" "waiting tail ch'"
    "ch_send_messages ch' = ch_send_messages ch" "ch_fd ch' = ch_fd ch"
    "ch_compression ch' = ch_compression ch" "ch_send_offset ch' = ch_send_offset ch"
    unfolding waiting_def by auto
  with rb(1) show ?thesis by (simp add: feed_def)
qed

lemma feed_partial:
  assumes w: "waiting pre ch" and b: "pre @ chunk = word_bytes (of_nat n :: int32) @ part"
    and "part \<noteq> []" "length part < n" "n < 2 ^ 31" and "length (pre @ chunk) \<le> BUFFER_SIZE"
  shows "feed lib nb chunk ch = Inl Hang"
proof -
  note w = w [unfolded waiting_def]
  from received_enqueue [of ch chunk] w assms(6) obtain rb where
    rb: "enqueue chunk (ch_read_buffer ch) = Inr rb" "channel_ok (ch\<lparr>ch_read_buffer := rb\<rparr>)"
      "received (ch\<lparr>ch_read_buffer := rb\<rparr>) = pre @ chunk" by auto
  have "parse_loop lib nb (ch\<lparr>ch_read_buffer := rb\<rparr>) = None"
    by (rule parse_partial_frame [OF rb(2)]) (use rb(3) w assms in auto)
  then show ?thesis using rb(1) by (simp add: feed_def parse_message_def)
qed

text \<open>The chunks of a sender that hands over the frames of a batch of messages at a time.\<close>

definition batch_chunk :: "'d brotli \<Rightarrow> bool \<Rightarrow> compression_type \<Rightarrow> byte list list \<Rightarrow> byte list \<Rightarrow> bool"
  where
  "batch_chunk lib nb type ms chunk \<longleftrightarrow>
     (\<exists>tx'. enqueue_messages lib nb ms (set_compress_algo type (new_channel [] 0)) = Inr tx' \<and>
        chunk = concat (tsq_queue (ch_send_messages tx')))"

lemma encoded_decodes:
  assumes "brotli_contract lib" and "length m < 2 ^ 60" and "encode_string lib type m = Inr e"
  shows "decodes_to lib m e"
proof -
  have "\<exists>e. encode_string lib type m = Inr e \<and> e \<noteq> [] \<and> decode_string lib e = Inr m"
    using message_codec.dec_enc [OF brotli_codec [OF assms(1)]] assms(2) by blast
  then show ?thesis using assms(3) by (simp add: decodes_to_def)
qed

lemma batch_frames:
  assumes lib: "brotli_contract lib" and ms: "list_all (\<lambda>m. length m < 2 ^ 60) ms"
    and b: "batch_chunk lib nb type ms chunk"
  shows "\<exists>es. list_all2 (decodes_to lib) ms es \<and> chunk = concat (map (frame_message nb) es)"
proof -
  let ?tx = "set_compress_algo type (new_channel [] 0)"
  have t: "ch_compression ?tx = type" "tsq_queue (ch_send_messages ?tx) = []"
    by (simp_all add: set_compress_algo_def new_channel_def new_tsq_def)
  from message_codec.encode_all [OF brotli_codec [OF lib] ms, of type] obtain es where
    es: "list_all2 (\<lambda>m e. encode_string lib type m = Inr e \<and> e \<noteq> [] \<and> decode_string lib e = Inr m) ms es"
    by blast
  then have "list_all2 (\<lambda>m e. encode_string lib (ch_compression ?tx) m = Inr e) ms es"
    unfolding t by (rule list_all2_mono) simp
  from enqueue_messages_frames [OF this, of nb] b have "chunk = concat (map (frame_message nb) es)"
    by (auto simp: batch_chunk_def t)
  moreover have "list_all2 (decodes_to lib) ms es"
    using es by (rule list_all2_mono) (simp add: decodes_to_def)
  ultimately show ?thesis by blast
qed

lemma feeds_batches:
  assumes lib: "brotli_contract lib"
    and "list_all2 (batch_chunk lib nb type) batches chunks"
    and "\<forall>b \<in> set batches. list_all (\<lambda>m. length m < 2 ^ 60) b"
    and "\<forall>c \<in> set chunks. length c \<le> BUFFER_SIZE" and "waiting [] rx"
  shows "\<exists>rx'. feeds lib nb' chunks rx = Inr (concat batches, rx') \<and> waiting [] rx'"
  using assms(2-5)
proof (induction arbitrary: rx rule: list_all2_induct)
  case Nil
  then show ?case by simp
next
  case (Cons b bs c cs)
  from batch_frames [OF lib _ Cons.hyps(1)] Cons.prems(1) obtain es where
    "list_all2 (decodes_to lib) b es" "c = concat (map (frame_message nb) es)" by auto
  from feed_frames [OF Cons.prems(3) this(1), of c nb "[]"] this(2) Cons.prems(2) obtain rx1 where
    "feed lib nb' c rx = Inr (b, rx1)" "waiting [] rx1" by auto
  with Cons.IH [of rx1] Cons.prems show ?case by auto
qed

subsection \<open>Properties\<close>

text \<open>
  C5: Transport of messages. Batches of messages, framed by a sending channel with either
  compression type on a machine of either byte order, and received one batch after the other by
  a channel of a machine of either byte order, are delivered to \<open>_on_read_message\<close> all, once, in
  order and unchanged, for as many batches as one likes: the ring buffer wraps and is empty again
  after each. (Each batch's frames fit the ring buffer, and the compression library keeps its
  contract.)
\<close>
theorem channel_transport:
  assumes "brotli_contract lib" and "list_all2 (batch_chunk lib nb type) batches chunks"
    and "\<forall>b \<in> set batches. list_all (\<lambda>m. length m < 2 ^ 60) b"
    and "\<forall>c \<in> set chunks. length c \<le> BUFFER_SIZE" and "waiting [] rx"
  shows "\<exists>rx'. feeds lib nb' chunks rx = Inr (concat batches, rx') \<and> waiting [] rx'"
  using assms by (rule feeds_batches)

theorem channel_transport_witness:
  "\<exists>rx'. feeds stored_lib True [[4, 0, 0, 0, 1, 7, 8, 9, 2, 0, 0, 0, 1, 5], [3, 0, 0, 0, 1, 1, 2]]
      (new_channel (replicate 16392 0) 3) = Inr ([[7, 8, 9], [5], [1, 2]], rx') \<and> waiting [] rx'"
proof -
  have b: "batch_chunk stored_lib False Comp_Brotli [[7, 8, 9], [5]]
      [4, 0, 0, 0, 1, 7, 8, 9, 2, 0, 0, 0, 1, 5]"
    "batch_chunk stored_lib False Comp_Brotli [[1, 2]] [3, 0, 0, 0, 1, 1, 2]"
    by (simp_all add: batch_chunk_def enqueue_message_def encode_string_def compress_def
        stored_lib_def set_compress_algo_def new_channel_def new_tsq_def tsq_push_def
        frame_message_eq word_bytes_def nat_bytes_4)
  have "length (replicate 16392 (0 :: byte)) = BUFFER_SIZE"
    by (simp only: length_replicate) (simp add: BUFFER_SIZE_def)
  from channel_transport [OF stored_lib_contract _ _ _ new_channel_waiting [OF this],
      of False Comp_Brotli "[[[7, 8, 9], [5]], [[1, 2]]]"
        "[[4, 0, 0, 0, 1, 7, 8, 9, 2, 0, 0, 0, 1, 5], [3, 0, 0, 0, 1, 1, 2]]" True 3] b
  show ?thesis by (simp add: BUFFER_SIZE_def)
qed

text \<open>
  A frame that arrives in two pieces. When the bytes received so far end inside a message
  (behind its header), \<open>parse_message\<close> never returns: its loop neither consumes anything nor
  leaves, so the rest is never read. A message longer than the ring buffer always ends like this.
\<close>
theorem partial_frame_hangs:
  assumes "waiting [] ch" and "length e < 2 ^ 31" and "HEAD_LENGTH < k"
    and "k < length (frame_message nb e)" and "k \<le> BUFFER_SIZE"
  shows "feed lib nb' (take k (frame_message nb e)) ch = Inl Hang"
proof (rule feed_partial [OF assms(1) _ _ _ assms(2)])
  show "[] @ take k (frame_message nb e) = word_bytes (of_nat (length e) :: int32) @ take (k - 4) e"
    using assms(3) by (simp add: frame_message_eq HEAD_LENGTH_def)
qed (use assms in \<open>auto simp: frame_message_eq HEAD_LENGTH_def\<close>)

theorem partial_frame_hangs_witness:
  "feed stored_lib False [3, 0, 0, 0, 0] (new_channel (replicate 16392 0) 3) = Inl Hang"
proof -
  have "length (replicate 16392 (0 :: byte)) = BUFFER_SIZE"
    by (simp only: length_replicate) (simp add: BUFFER_SIZE_def)
  from partial_frame_hangs [OF new_channel_waiting [OF this], of "[0, 1, 2]" 5 False stored_lib False 3]
  show ?thesis by (simp add: frame_message_eq word_bytes_def nat_bytes_4 HEAD_LENGTH_def BUFFER_SIZE_def)
qed

text \<open>
  Headers no honest sender writes. A zero length makes \<open>decode_string\<close> read outside its
  span, a negative length makes \<open>parse_message\<close> wait for ever for almost \<open>2^64\<close> bytes, and a
  compression byte other than the two known ones leaves the algorithm pointer indeterminate: none
  of the three is answered with an error.
\<close>
theorem malformed_frames:
  assumes "waiting [] ch" and "rest \<noteq> []" and "length rest + 4 \<le> BUFFER_SIZE"
    and "sint w < 0" and "c \<noteq> 0" and "c \<noteq> 1"
  shows "feed lib nb ([0, 0, 0, 0] @ rest) ch = Inl (Undefined ''read outside the span'') \<and>
    feed lib nb (word_bytes (w :: int32) @ rest) ch = Inl Hang \<and>
    feed lib nb (frame_message nb' (c # tl rest)) ch = Inl (Undefined ''indeterminate alg'')"
proof -
  have z: "buf_size (ch_read_buffer ch) = 0"
    using assms(1) length_received [of ch] by (simp add: waiting_def)
  have loop: "\<exists>rb. feed lib nb chunk ch =
      (case parse_loop lib nb (ch\<lparr>ch_read_buffer := rb\<rparr>) of None \<Rightarrow> Inl Hang | Some r \<Rightarrow> bindE r deliver)
      \<and> channel_ok (ch\<lparr>ch_read_buffer := rb\<rparr>) \<and> received (ch\<lparr>ch_read_buffer := rb\<rparr>) = chunk
      \<and> ch_read_length (ch\<lparr>ch_read_buffer := rb\<rparr>) = 0" if "length chunk \<le> BUFFER_SIZE" for chunk
    using received_enqueue [of ch chunk] assms(1) that z
    by (auto simp: waiting_def feed_def parse_message_def)
  have f: "length (frame_message nb' (c # tl rest)) = 4 + length rest"
    using assms(2) by (cases rest) (simp_all add: frame_message_eq)
  show ?thesis
  proof (intro conjI)
    show "feed lib nb ([0, 0, 0, 0] @ rest) ch = Inl (Undefined ''read outside the span'')"
      using loop [of "[0, 0, 0, 0] @ rest"] assms(2,3)
      by (auto simp del: append.simps simp: parse_zero_length)
    show "feed lib nb (word_bytes w @ rest) ch = Inl Hang"
      using loop [of "word_bytes w @ rest"] assms(2-4) by (auto simp: parse_negative_length)
    show "feed lib nb (frame_message nb' (c # tl rest)) ch = Inl (Undefined ''indeterminate alg'')"
      using loop [of "frame_message nb' (c # tl rest)"] assms(3,5,6) f
        parse_unknown_compression [where rest = "[]" and c = c and body = "tl rest" and nb' = nb'
          and nb = nb and lib = lib]
      by force
  qed
qed

theorem malformed_frames_witness:
  "feed stored_lib False [0, 0, 0, 0, 9] (new_channel (replicate 16392 0) 3) =
     Inl (Undefined ''read outside the span'') \<and>
   feed stored_lib False [255, 255, 255, 255, 9] (new_channel (replicate 16392 0) 3) = Inl Hang \<and>
   feed stored_lib False [1, 0, 0, 0, 2] (new_channel (replicate 16392 0) 3) =
     Inl (Undefined ''indeterminate alg'')"
proof -
  have "length (replicate 16392 (0 :: byte)) = BUFFER_SIZE"
    by (simp only: length_replicate) (simp add: BUFFER_SIZE_def)
  from malformed_frames [OF new_channel_waiting [OF this], of "[9]" 4294967295 2 stored_lib False 3 False]
  show ?thesis by (simp add: frame_message_eq word_bytes_def nat_bytes_4 BUFFER_SIZE_def)
qed

end
