(* ===== verification/Network.thy ===== *)
theory Network
  imports Channel
begin

text \<open>
  \<open>Network\<close> (\<open>Core/Network.h\<close>), the base of the two TCP classes, and the system calls they use.
  The operating system is not part of the repository: its calls are the fields of a record
  \<open>kernel\<close> over a state \<open>'k\<close> of its own, which the definitions take as a parameter.
\<close>

subsection \<open>System calls\<close>

text \<open>The outcome of \<open>read\<close> on a non-blocking socket: bytes, the end, \<open>EAGAIN\<close>, another \<open>errno\<close>.\<close>

datatype read_result = Bytes "byte list" | Eof | Read_Again | Read_Error int

datatype send_result = Sent nat | Send_Again | Send_Error int

datatype accept_result = Accepted int | Accept_Again | Accept_Error int

datatype epoll_op = Ctl_Add | Ctl_Mod | Ctl_Del

text \<open>
  \<open>read\<close> (descriptor, count), \<open>send\<close> (descriptor, bytes), \<open>accept4\<close>, \<open>epoll_ctl\<close> (instance,
  operation, descriptor, events; whether it succeeded), \<open>close\<close>; then the calls of the set-up:
  \<open>socket\<close> (a descriptor, or its \<open>errno\<close>), \<open>setsockopt\<close> and \<open>bind\<close> and \<open>listen\<close> (whether they
  succeeded), \<open>inet_pton\<close> (whether the text is an address), \<open>connect\<close> (\<open>None\<close>, or its \<open>errno\<close>),
  \<open>epoll_create1\<close>, and \<open>epoll_wait\<close> (the ready descriptors with their events; \<open>None\<close> is -1).
  \<open>k_errno\<close> is the calling thread's \<open>errno\<close>, which a call that succeeds may leave as it was.
\<close>

record 'k kernel =
  k_read :: "int \<Rightarrow> nat \<Rightarrow> 'k \<Rightarrow> read_result \<times> 'k"
  k_send :: "int \<Rightarrow> byte list \<Rightarrow> 'k \<Rightarrow> send_result \<times> 'k"
  k_accept :: "int \<Rightarrow> 'k \<Rightarrow> accept_result \<times> 'k"
  k_epoll_ctl :: "nat \<Rightarrow> epoll_op \<Rightarrow> int \<Rightarrow> int32 \<Rightarrow> 'k \<Rightarrow> bool \<times> 'k"
  k_close :: "int \<Rightarrow> 'k \<Rightarrow> 'k"
  k_socket :: "'k \<Rightarrow> (int + int) \<times> 'k"
  k_setsockopt :: "int \<Rightarrow> 'k \<Rightarrow> bool \<times> 'k"
  k_bind :: "int \<Rightarrow> int \<Rightarrow> 'k \<Rightarrow> bool \<times> 'k"
  k_listen :: "int \<Rightarrow> 'k \<Rightarrow> bool \<times> 'k"
  k_inet_pton :: "byte list \<Rightarrow> bool"
  k_connect :: "int \<Rightarrow> byte list \<Rightarrow> int \<Rightarrow> 'k \<Rightarrow> int option \<times> 'k"
  k_epoll_create :: "'k \<Rightarrow> nat option \<times> 'k"
  k_epoll_wait :: "nat \<Rightarrow> int \<Rightarrow> 'k \<Rightarrow> (int \<times> int32) list option \<times> 'k"
  k_errno :: "'k \<Rightarrow> int"

definition EPOLLIN :: int32 where
  "EPOLLIN = 1"

definition EPOLLOUT :: int32 where
  "EPOLLOUT = 4"

definition EPOLLET :: int32 where
  "EPOLLET = 2147483648"

text \<open>Values of \<open>errno\<close>, as on Linux (where \<open>EWOULDBLOCK\<close> is \<open>EAGAIN\<close>).\<close>

definition EAGAIN :: int where
  "EAGAIN = 11"

definition EBADF :: int where
  "EBADF = 9"

definition EINPROGRESS :: int where
  "EINPROGRESS = 115"

subsection \<open>The base class\<close>

text \<open>
  \<open>Network\<close> has the compression type that new channels get, and the callbacks. \<open>cb_read\<close> returns
  what the callback hands to \<open>write_data\<close> of the channel, message by message; \<open>None\<close> is a callback
  that was not set. \<open>'a\<close> is the state behind the callbacks.
\<close>

record network =
  net_compression :: compression_type

definition net_set_compress_algo :: "compression_type \<Rightarrow> 'm network_scheme \<Rightarrow> 'm network_scheme" where
  "net_set_compress_algo type n = n\<lparr>net_compression := type\<rparr>"

record 'a callbacks =
  cb_connect :: "(int \<Rightarrow> 'a \<Rightarrow> 'a) option"
  cb_disconnect :: "(int \<Rightarrow> 'a \<Rightarrow> 'a) option"
  cb_read :: "(int \<Rightarrow> byte list \<Rightarrow> 'a \<Rightarrow> (byte list list \<times> 'a) result) option"

text \<open>\<open>if (callback) callback(fd);\<close>\<close>

definition notify :: "(int \<Rightarrow> 'a \<Rightarrow> 'a) option \<Rightarrow> int \<Rightarrow> 'a \<Rightarrow> 'a" where
  "notify callback fd a = (case callback of None \<Rightarrow> a | Some f \<Rightarrow> f fd a)"

definition set_read_message_callback ::
    "(int \<Rightarrow> byte list \<Rightarrow> 'a \<Rightarrow> (byte list list \<times> 'a) result) \<Rightarrow> 'a callbacks \<Rightarrow> 'a callbacks" where
  "set_read_message_callback message_handler cbs = cbs\<lparr>cb_read := Some message_handler\<rparr>"

definition set_new_connection_callback :: "(int \<Rightarrow> 'a \<Rightarrow> 'a) \<Rightarrow> 'a callbacks \<Rightarrow> 'a callbacks" where
  "set_new_connection_callback connection_callback cbs = cbs\<lparr>cb_connect := Some connection_callback\<rparr>"

definition set_disconnect_callback :: "(int \<Rightarrow> 'a \<Rightarrow> 'a) \<Rightarrow> 'a callbacks \<Rightarrow> 'a callbacks" where
  "set_disconnect_callback disconnect_callback cbs = cbs\<lparr>cb_disconnect := Some disconnect_callback\<rparr>"

text \<open>Before any of them is set.\<close>

definition no_callbacks :: "'a callbacks" where
  "no_callbacks = \<lparr>cb_connect = None, cb_disconnect = None, cb_read = None\<rparr>"

lemmas callback_defs = set_read_message_callback_def set_new_connection_callback_def set_disconnect_callback_def
  no_callbacks_def

text \<open>The fixed surroundings of a connection.\<close>

record ('d, 'a, 'k) tcp_env =
  env_lib :: "'d brotli"
  env_nb :: bool
  env_kernel :: "'k kernel"
  env_cbs :: "'a callbacks"

text \<open>What a callback makes of a sequence of messages: its answers in order, and its state.\<close>

fun serve :: "(int \<Rightarrow> byte list \<Rightarrow> 'a \<Rightarrow> (byte list list \<times> 'a) result) \<Rightarrow> int \<Rightarrow> byte list list \<Rightarrow> 'a \<Rightarrow>
    (byte list list \<times> 'a) result" where
  "serve f fd [] a = Inr ([], a)"
| "serve f fd (m # ms) a =
     bindE (f fd m a) (\<lambda>(outs, a1).
     bindE (serve f fd ms a1) (\<lambda>(outs', a2). Inr (outs @ outs', a2)))"

lemma serve_append:
  "serve f fd (ms @ ms') a =
     bindE (serve f fd ms a) (\<lambda>(outs, a1).
     bindE (serve f fd ms' a1) (\<lambda>(outs', a2). Inr (outs @ outs', a2)))"
proof (induction ms arbitrary: a)
  case Nil
  then show ?case by (cases "serve f fd ms' a") auto
next
  case (Cons m ms)
  show ?case
  proof (cases "f fd m a")
    case (Inr r)
    obtain outs a1 where r: "r = (outs, a1)" by (cases r)
    show ?thesis
    proof (cases "serve f fd ms a1")
      case (Inr r1)
      obtain outs1 a2 where "r1 = (outs1, a2)" by (cases r1)
      with Inr r \<open>f fd m a = Inr r\<close> Cons.IH [of a1] show ?thesis
        by (cases "serve f fd ms' a2") auto
    qed (use Inr r Cons.IH [of a1] in simp)
  qed simp
qed

subsection \<open>What the code relies on\<close>

text \<open>
  For one connected descriptor \<open>fd\<close>: \<open>inp\<close> is the sequence of what the next calls of \<open>read\<close> return
  before \<open>EAGAIN\<close>, \<open>out\<close> is what its peer was sent so far. A socket with room accepts at least one
  and at most all of the bytes offered, in order; \<open>epoll_ctl\<close> on a watched descriptor succeeds;
  neither touches the input, and \<open>read\<close> does not touch the output.
\<close>

definition sends_progress :: "'k kernel \<Rightarrow> int \<Rightarrow> ('k \<Rightarrow> byte list list) \<Rightarrow> ('k \<Rightarrow> byte list) \<Rightarrow> bool" where
  "sends_progress kern fd inp out \<longleftrightarrow>
     (\<forall>bs k. bs \<noteq> [] \<longrightarrow>
        (\<exists>n k'. k_send kern fd bs k = (Sent n, k') \<and> 0 < n \<and> n \<le> length bs \<and>
                out k' = out k @ take n bs \<and> inp k' = inp k))"

definition modifies :: "'k kernel \<Rightarrow> int \<Rightarrow> ('k \<Rightarrow> byte list list) \<Rightarrow> ('k \<Rightarrow> byte list) \<Rightarrow> bool" where
  "modifies kern fd inp out \<longleftrightarrow>
     (\<forall>ep ev k. \<exists>k'. k_epoll_ctl kern ep Ctl_Mod fd ev k = (True, k') \<and> out k' = out k \<and> inp k' = inp k)"

definition reads_chunks :: "'k kernel \<Rightarrow> int \<Rightarrow> ('k \<Rightarrow> byte list list) \<Rightarrow> ('k \<Rightarrow> byte list) \<Rightarrow> bool" where
  "reads_chunks kern fd inp out \<longleftrightarrow>
     (\<forall>k n. \<exists>k'. k_read kern fd n k =
        (case inp k of [] \<Rightarrow> (Read_Again, k') | c # cs \<Rightarrow> (Bytes c, k')) \<and>
        inp k' = tl (inp k) \<and> out k' = out k)"

definition serves :: "'k kernel \<Rightarrow> int \<Rightarrow> ('k \<Rightarrow> byte list list) \<Rightarrow> ('k \<Rightarrow> byte list) \<Rightarrow> bool" where
  "serves kern fd inp out \<longleftrightarrow>
     sends_progress kern fd inp out \<and> modifies kern fd inp out \<and> reads_chunks kern fd inp out"

subsection \<open>An instance\<close>

text \<open>
  A kernel with one connected socket: the chunks to come, and the bytes sent; every \<open>send\<close> takes
  at most \<open>limit\<close> bytes. It shows that the hypotheses can hold.
\<close>

record sim =
  sim_in :: "byte list list"
  sim_out :: "byte list"

definition sim_kernel :: "nat \<Rightarrow> sim kernel" where
  "sim_kernel limit =
     \<lparr>k_read = (\<lambda>fd n k. case sim_in k of [] \<Rightarrow> (Read_Again, k)
        | c # cs \<Rightarrow> (Bytes c, k\<lparr>sim_in := cs\<rparr>)),
      k_send = (\<lambda>fd bs k. let n = min limit (length bs)
        in (Sent n, k\<lparr>sim_out := sim_out k @ take n bs\<rparr>)),
      k_accept = (\<lambda>fd k. (Accept_Again, k)),
      k_epoll_ctl = (\<lambda>ep op fd ev k. (True, k)),
      k_close = (\<lambda>fd k. k),
      k_socket = (\<lambda>k. (Inr 3, k)), k_setsockopt = (\<lambda>fd k. (True, k)),
      k_bind = (\<lambda>fd port k. (True, k)), k_listen = (\<lambda>fd k. (True, k)),
      k_inet_pton = (\<lambda>ip. True), k_connect = (\<lambda>fd ip port k. (None, k)),
      k_epoll_create = (\<lambda>k. (Some 0, k)), k_epoll_wait = (\<lambda>ep timeout k. (Some [], k)),
      k_errno = (\<lambda>k. EAGAIN)\<rparr>"

lemma sim_kernel_serves:
  assumes "0 < limit"
  shows "serves (sim_kernel limit) fd sim_in sim_out"
  unfolding serves_def
proof (intro conjI)
  show "sends_progress (sim_kernel limit) fd sim_in sim_out"
    unfolding sends_progress_def
  proof (intro allI impI)
    fix bs :: "byte list" and k :: sim
    assume "bs \<noteq> []"
    with assms show "\<exists>n k'. k_send (sim_kernel limit) fd bs k = (Sent n, k') \<and> 0 < n \<and>
        n \<le> length bs \<and> sim_out k' = sim_out k @ take n bs \<and> sim_in k' = sim_in k"
      by (intro exI [of _ "min limit (length bs)"]) (simp add: sim_kernel_def Let_def)
  qed
  show "modifies (sim_kernel limit) fd sim_in sim_out"
    by (simp add: modifies_def sim_kernel_def)
  show "reads_chunks (sim_kernel limit) fd sim_in sim_out"
    by (auto simp: reads_chunks_def sim_kernel_def split: list.splits)
qed

end
