(* ===== verification/Tcp_Server.thy ===== *)
theory Tcp_Server
  imports Network
begin

text \<open>
  \<open>Reactor\<close> and \<open>Tcp_Server\<close> (\<open>Core/Tcp_Server.h\<close>, \<open>Core/Tcp_Server.cpp\<close>): accepting
  connections, reading a connection until it would block, sending what is queued, closing. The
  channels are objects on a heap, because a thread that reads keeps its pointer when the
  connection is taken out of the table.

  The lemmas show that \<open>try_send\<close> writes every queued frame completely and in order however the
  socket splits the writes, and that \<open>read_data\<close> runs the callback on every message of the
  chunks it reads and sends the answers in order.
\<close>

unbundle bit_operations_syntax

subsection \<open>State\<close>

text \<open>
  \<open>channels\<close> maps a descriptor to a \<open>shared_ptr\<close>: \<open>Some None\<close> is an entry with a null pointer,
  \<open>Some (Some p)\<close> the object at \<open>p\<close> of \<open>heap\<close>.
\<close>

record tcp_server = network +
  executor_set :: bool
  srv_stop :: bool
  main_reactor :: nat
  sub_reactors :: "nat list"
  listen_fd :: int
  channels :: "int \<rightharpoonup> nat option"
  fd_location :: "int \<rightharpoonup> nat"
  heap :: "channel list"

record ('a, 'k) world =
  w_server :: tcp_server
  w_app :: 'a
  w_kernel :: 'k

definition channel_at :: "nat \<Rightarrow> ('a, 'k) world \<Rightarrow> channel" where
  "channel_at p w = heap (w_server w) ! p"

definition put_channel :: "nat \<Rightarrow> channel \<Rightarrow> ('a, 'k) world \<Rightarrow> ('a, 'k) world" where
  "put_channel p ch w = w\<lparr>w_server := (w_server w)\<lparr>heap := (heap (w_server w))[p := ch]\<rparr>\<rparr>"

subsection \<open>Reactor\<close>

definition new_reactor :: "'k kernel \<Rightarrow> 'k \<Rightarrow> (nat \<times> 'k) result" where
  "new_reactor kern k =
     (case k_epoll_create kern k of
        (None, k') \<Rightarrow> Inl (Runtime_Error ''Failed to create epoll instance'')
      | (Some ep, k') \<Rightarrow> Inr (ep, k'))"

text \<open>\<open>~Reactor()\<close>.\<close>

definition delete_reactor :: "'k kernel \<Rightarrow> nat \<Rightarrow> 'k \<Rightarrow> 'k" where
  "delete_reactor kern ep k = k_close kern (int ep) k"

definition add_fd :: "'k kernel \<Rightarrow> nat \<Rightarrow> int \<Rightarrow> int32 \<Rightarrow> 'k \<Rightarrow> 'k result" where
  "add_fd kern ep fd events k =
     (case k_epoll_ctl kern ep Ctl_Add fd events k of (ok, k') \<Rightarrow>
        if ok then Inr k' else Inl (Runtime_Error ''Failed to add _fd to epoll''))"

definition remove_fd :: "'k kernel \<Rightarrow> nat \<Rightarrow> int \<Rightarrow> 'k \<Rightarrow> 'k result" where
  "remove_fd kern ep fd k =
     (case k_epoll_ctl kern ep Ctl_Del fd 0 k of (ok, k') \<Rightarrow>
        if ok then Inr k' else Inl (Runtime_Error ''Failed to remove _fd from epoll''))"

definition modify_fd :: "'k kernel \<Rightarrow> nat \<Rightarrow> int \<Rightarrow> int32 \<Rightarrow> 'k \<Rightarrow> 'k result" where
  "modify_fd kern ep fd events k =
     (case k_epoll_ctl kern ep Ctl_Mod fd events k of (ok, k') \<Rightarrow>
        if ok then Inr k' else Inl (Runtime_Error ''Failed to modify _fd in epoll''))"

text \<open>The exception's text also has the text of \<open>errno\<close> at its end.\<close>

definition reactor_wait :: "'k kernel \<Rightarrow> nat \<Rightarrow> int \<Rightarrow> 'k \<Rightarrow> ((int \<times> int32) list \<times> 'k) result" where
  "reactor_wait kern ep timeout k =
     (case k_epoll_wait kern ep timeout k of
        (None, k') \<Rightarrow> Inl (Runtime_Error ''epoll_wait failed'')
      | (Some events, k') \<Rightarrow> Inr (events, k'))"

subsection \<open>Construction\<close>

definition create_listen_socket :: "'k kernel \<Rightarrow> int \<Rightarrow> 'k \<Rightarrow> (int result) \<times> 'k" where
  "create_listen_socket kern port k =
     (case k_socket kern k of
        (Inl e, k1) \<Rightarrow> (Inl (Runtime_Error ''Failed to create socket''), k1)
      | (Inr fd, k1) \<Rightarrow>
          (case k_setsockopt kern fd k1 of
             (False, k2) \<Rightarrow> (Inl (Runtime_Error ''Failed to set SO_REUSEADDR''), k_close kern fd k2)
           | (True, k2) \<Rightarrow>
               (case k_bind kern fd port k2 of
                  (False, k3) \<Rightarrow> (Inl (Runtime_Error ''Failed to bind''), k_close kern fd k3)
                | (True, k3) \<Rightarrow>
                    (case k_listen kern fd k3 of
                       (False, k4) \<Rightarrow> (Inl (Runtime_Error ''Failed to listen''), k_close kern fd k4)
                     | (True, k4) \<Rightarrow> (Inr fd, k4)))))"

fun new_reactors :: "'k kernel \<Rightarrow> nat \<Rightarrow> 'k \<Rightarrow> (nat list \<times> 'k) result" where
  "new_reactors kern 0 k = Inr ([], k)"
| "new_reactors kern (Suc n) k =
     bindE (new_reactor kern k) (\<lambda>(ep, k1).
     bindE (new_reactors kern n k1) (\<lambda>(eps, k2). Inr (ep # eps, k2)))"

definition new_tcp_server :: "'k kernel \<Rightarrow> int \<Rightarrow> nat \<Rightarrow> 'k \<Rightarrow> (tcp_server \<times> 'k) result" where
  "new_tcp_server kern port num_workers k =
     bindE (new_reactor kern k) (\<lambda>(ep, k1).
     case create_listen_socket kern port k1 of (r, k2) \<Rightarrow>
     bindE r (\<lambda>fd.
     bindE (add_fd kern ep fd (EPOLLIN OR EPOLLET) k2) (\<lambda>k3.
     bindE (new_reactors kern num_workers k3) (\<lambda>(eps, k4).
     Inr (\<lparr>net_compression = Comp_None, executor_set = False, srv_stop = False, main_reactor = ep,
           sub_reactors = eps, listen_fd = fd, channels = Map.empty, fd_location = Map.empty,
           heap = []\<rparr>, k4)))))"

subsection \<open>Closing a connection\<close>

text \<open>\<open>_fd_location[fd]\<close> enters 0 for a descriptor that is not in the table.\<close>

definition locate :: "int \<Rightarrow> ('a, 'k) world \<Rightarrow> nat \<times> ('a, 'k) world" where
  "locate fd w =
     (case fd_location (w_server w) fd of
        Some i \<Rightarrow> (i, w)
      | None \<Rightarrow> (0, w\<lparr>w_server := (w_server w)\<lparr>fd_location := (fd_location (w_server w))(fd \<mapsto> 0)\<rparr>\<rparr>))"

definition sub_reactor :: "nat \<Rightarrow> ('a, 'k) world \<Rightarrow> nat result" where
  "sub_reactor i w =
     (if i < length (sub_reactors (w_server w)) then Inr (sub_reactors (w_server w) ! i)
      else Inl (Undefined ''index outside _sub_reactors''))"

definition close_connection :: "('d, 'a, 'k) tcp_env \<Rightarrow> int \<Rightarrow> ('a, 'k) world \<Rightarrow> ('a, 'k) world result" where
  "close_connection env fd w =
     (case locate fd w of (loc, w1) \<Rightarrow>
      bindE (sub_reactor loc w1) (\<lambda>ep.
      bindE (remove_fd (env_kernel env) ep fd (w_kernel w1)) (\<lambda>k.
      Inr (w1\<lparr>w_server := (w_server w1)\<lparr>fd_location := (fd_location (w_server w1))(fd := None),
                                     channels := (channels (w_server w1))(fd := None)\<rparr>,
              w_kernel := k_close (env_kernel env) fd k,
              w_app := notify (cb_disconnect (env_cbs env)) fd (w_app w1)\<rparr>))))"

definition server_set_executor :: "tcp_server \<Rightarrow> tcp_server" where
  "server_set_executor sv = sv\<lparr>executor_set := True\<rparr>"

subsection \<open>Sending\<close>

text \<open>One turn of the loop of \<open>try_send\<close>: it is done, goes on, or returns from the function.\<close>

datatype send_outcome = All_Sent | Go_On | Given_Up

definition send_step :: "('d, 'a, 'k) tcp_env \<Rightarrow> int \<Rightarrow> nat \<Rightarrow> ('a, 'k) world \<Rightarrow>
    (send_outcome \<times> ('a, 'k) world) result" where
  "send_step env fd p w =
     (let ch = channel_at p w in
      if tsq_empty (ch_send_messages ch) then Inr (All_Sent, w)
      else
        bindE (tsq_front (ch_send_messages ch)) (\<lambda>message.
        case k_send (env_kernel env) fd (drop (ch_send_offset ch) message) (w_kernel w) of
          (Sent n, k) \<Rightarrow>
            let w1 = w\<lparr>w_kernel := k\<rparr>; offset = szadd (ch_send_offset ch) n in
            if n > 0 then
              if offset = length message then
                bindE (tsq_pop (ch_send_messages ch)) (\<lambda>q.
                Inr (Go_On, put_channel p (ch\<lparr>ch_send_messages := q, ch_send_offset := 0\<rparr>) w1))
              else Inr (Go_On, put_channel p (ch\<lparr>ch_send_offset := offset\<rparr>) w1)
            else Inr (Go_On, w1)
        | (Send_Again, k) \<Rightarrow> Inr (Given_Up, w\<lparr>w_kernel := k\<rparr>)
        | (Send_Error e, k) \<Rightarrow>
            bindE (close_connection env fd (w\<lparr>w_kernel := k\<rparr>)) (\<lambda>w1. Inr (Given_Up, w1))))"

partial_function (option) send_loop :: "('d, 'a, 'k) tcp_env \<Rightarrow> int \<Rightarrow> nat \<Rightarrow> ('a, 'k) world \<Rightarrow>
    (send_outcome \<times> ('a, 'k) world) result option" where
  "send_loop env fd p w =
     (case send_step env fd p w of
        Inl e \<Rightarrow> Some (Inl e)
      | Inr (out, w1) \<Rightarrow> (if out = Go_On then send_loop env fd p w1 else Some (Inr (out, w1))))"

definition rearm :: "('d, 'a, 'k) tcp_env \<Rightarrow> int \<Rightarrow> int32 \<Rightarrow> ('a, 'k) world \<Rightarrow> ('a, 'k) world result" where
  "rearm env fd events w =
     (case locate fd w of (loc, w1) \<Rightarrow>
      bindE (sub_reactor loc w1) (\<lambda>ep.
      bindE (modify_fd (env_kernel env) ep fd events (w_kernel w1)) (\<lambda>k.
      Inr (w1\<lparr>w_kernel := k\<rparr>))))"

definition try_send :: "('d, 'a, 'k) tcp_env \<Rightarrow> nat \<Rightarrow> ('a, 'k) world \<Rightarrow> ('a, 'k) world result" where
  "try_send env p w =
     (let fd = ch_fd (channel_at p w) in
      case send_loop env fd p w of
        None \<Rightarrow> Inl Hang
      | Some r \<Rightarrow> bindE r (\<lambda>(out, w1).
          if out = All_Sent then rearm env fd (EPOLLIN OR EPOLLET) w1 else Inr w1))"

text \<open>The callback the constructor installs, and \<open>write_data\<close> of a channel with it.\<close>

definition on_send_message :: "('d, 'a, 'k) tcp_env \<Rightarrow> nat \<Rightarrow> ('a, 'k) world \<Rightarrow> ('a, 'k) world result"
  where
  "on_send_message env p w =
     bindE (rearm env (ch_fd (channel_at p w)) (EPOLLIN OR EPOLLOUT OR EPOLLET) w) (try_send env p)"

definition write_data :: "('d, 'a, 'k) tcp_env \<Rightarrow> nat \<Rightarrow> byte list \<Rightarrow> ('a, 'k) world \<Rightarrow>
    ('a, 'k) world result" where
  "write_data env p data w =
     bindE (enqueue_message (env_lib env) (env_nb env) data (channel_at p w)) (\<lambda>ch.
       on_send_message env p (put_channel p ch w))"

fun write_all :: "('d, 'a, 'k) tcp_env \<Rightarrow> nat \<Rightarrow> byte list list \<Rightarrow> ('a, 'k) world \<Rightarrow>
    ('a, 'k) world result" where
  "write_all env p [] w = Inr w"
| "write_all env p (d # ds) w = bindE (write_data env p d w) (write_all env p ds)"

subsection \<open>Reading\<close>

text \<open>
  The calls of \<open>_on_read_message\<close> that \<open>parse_message\<close> makes, one per message. The callback and
  the sends use the sending half of the channel only, the parser the receiving half, so running
  the callbacks after the parser is what the code does.
\<close>

fun run_callbacks :: "('d, 'a, 'k) tcp_env \<Rightarrow> nat \<Rightarrow> byte list list \<Rightarrow> ('a, 'k) world \<Rightarrow>
    ('a, 'k) world result" where
  "run_callbacks env p [] w = Inr w"
| "run_callbacks env p (m # ms) w =
     (case cb_read (env_cbs env) of
        None \<Rightarrow> run_callbacks env p ms w
      | Some f \<Rightarrow>
          bindE (f (ch_fd (channel_at p w)) m (w_app w)) (\<lambda>(outs, app).
          bindE (write_all env p outs (w\<lparr>w_app := app\<rparr>)) (run_callbacks env p ms)))"

definition parse_and_run :: "('d, 'a, 'k) tcp_env \<Rightarrow> nat \<Rightarrow> ('a, 'k) world \<Rightarrow> ('a, 'k) world result" where
  "parse_and_run env p w =
     bindE (parse_message (env_lib env) (env_nb env) (channel_at p w)) (\<lambda>(ms, ch).
       run_callbacks env p ms (put_channel p ch w))"

text \<open>\<open>channel->...\<close> on a null pointer is undefined.\<close>

definition deref :: "nat option \<Rightarrow> nat result" where
  "deref p = (case p of None \<Rightarrow> Inl (Undefined ''null channel'') | Some q \<Rightarrow> Inr q)"

text \<open>One turn of the loop of \<open>read_data\<close>: it goes on, leaves the loop, or returns.\<close>

datatype read_outcome = Read_On | Drained | Closed

definition read_step :: "('d, 'a, 'k) tcp_env \<Rightarrow> int \<Rightarrow> nat option \<Rightarrow> ('a, 'k) world \<Rightarrow>
    (read_outcome \<times> ('a, 'k) world) result" where
  "read_step env fd ptr w =
     (case k_read (env_kernel env) fd BUFFER_SIZE (w_kernel w) of
        (Read_Again, k) \<Rightarrow> Inr (Drained, w\<lparr>w_kernel := k\<rparr>)
      | (Read_Error e, k) \<Rightarrow> bindE (close_connection env fd (w\<lparr>w_kernel := k\<rparr>)) (\<lambda>w1. Inr (Closed, w1))
      | (Eof, k) \<Rightarrow> bindE (close_connection env fd (w\<lparr>w_kernel := k\<rparr>)) (\<lambda>w1. Inr (Closed, w1))
      | (Bytes bs, k) \<Rightarrow>
          bindE (deref ptr) (\<lambda>p.
          let w1 = w\<lparr>w_kernel := k\<rparr>; ch = channel_at p w1 in
          bindE (enqueue bs (ch_read_buffer ch)) (\<lambda>rb.
          bindE (parse_and_run env p (put_channel p (ch\<lparr>ch_read_buffer := rb\<rparr>) w1)) (\<lambda>w2.
          Inr (Read_On, w2)))))"

partial_function (option) read_loop :: "('d, 'a, 'k) tcp_env \<Rightarrow> int \<Rightarrow> nat option \<Rightarrow> ('a, 'k) world \<Rightarrow>
    (read_outcome \<times> ('a, 'k) world) result option" where
  "read_loop env fd ptr w =
     (case read_step env fd ptr w of
        Inl e \<Rightarrow> Some (Inl e)
      | Inr (out, w1) \<Rightarrow> (if out = Read_On then read_loop env fd ptr w1 else Some (Inr (out, w1))))"

text \<open>\<open>_channels[fd]\<close> enters a null pointer for a descriptor that is not in the table.\<close>

definition read_data :: "('d, 'a, 'k) tcp_env \<Rightarrow> int \<Rightarrow> ('a, 'k) world \<Rightarrow> ('a, 'k) world result" where
  "read_data env fd w =
     (let (ptr, w0) = (case channels (w_server w) fd of
            Some p \<Rightarrow> (p, w)
          | None \<Rightarrow> (None, w\<lparr>w_server := (w_server w)\<lparr>channels := (channels (w_server w))(fd \<mapsto> None)\<rparr>\<rparr>))
      in case read_loop env fd ptr w0 of
           None \<Rightarrow> Inl Hang
         | Some r \<Rightarrow> bindE r (\<lambda>(out, w1).
             if out = Drained then bindE (deref ptr) (\<lambda>p. parse_and_run env p w1) else Inr w1))"

subsection \<open>Accepting\<close>

text \<open>\<open>arr\<close> is the indeterminate storage of a new channel's buffer.\<close>

definition add_connection :: "('d, 'a, 'k) tcp_env \<Rightarrow> byte list \<Rightarrow> int \<Rightarrow> ('a, 'k) world \<Rightarrow>
    ('a, 'k) world result" where
  "add_connection env arr clientFd w =
     (let sv = w_server w in
      if sub_reactors sv = [] then Inl (Undefined ''modulo by zero'')
      else
        let idx = nat clientFd mod length (sub_reactors sv) in
        bindE (add_fd (env_kernel env) (sub_reactors sv ! idx) clientFd (EPOLLIN OR EPOLLET) (w_kernel w)) (\<lambda>k.
        let newChannel = Channel.set_compress_algo (net_compression sv) (new_channel arr clientFd) in
        Inr (w\<lparr>w_server := sv\<lparr>fd_location := (fd_location sv)(clientFd \<mapsto> idx),
                             heap := heap sv @ [newChannel],
                             channels := (channels sv)(clientFd \<mapsto> Some (length (heap sv)))\<rparr>,
               w_kernel := k,
               w_app := notify (cb_connect (env_cbs env)) clientFd (w_app w)\<rparr>)))"

partial_function (option) accept_loop :: "('d, 'a, 'k) tcp_env \<Rightarrow> byte list \<Rightarrow> ('a, 'k) world \<Rightarrow>
    ('a, 'k) world result option" where
  "accept_loop env arr w =
     (case k_accept (env_kernel env) (listen_fd (w_server w)) (w_kernel w) of (r, k) \<Rightarrow>
      (case r of
         Accept_Again \<Rightarrow> Some (Inr (w\<lparr>w_kernel := k\<rparr>))
       | Accept_Error e \<Rightarrow> Some (Inl (Runtime_Error ''Failed to accept connection''))
       | Accepted clientFd \<Rightarrow>
           (case add_connection env arr clientFd (w\<lparr>w_kernel := k\<rparr>) of
              Inl e \<Rightarrow> Some (Inl e)
            | Inr w1 \<Rightarrow> accept_loop env arr w1)))"

definition handle_new_connections :: "('d, 'a, 'k) tcp_env \<Rightarrow> byte list \<Rightarrow> ('a, 'k) world \<Rightarrow>
    ('a, 'k) world result" where
  "handle_new_connections env arr w =
     (case accept_loop env arr w of None \<Rightarrow> Inl Hang | Some r \<Rightarrow> r)"

subsection \<open>The event loops\<close>

text \<open>
  One turn of \<open>sub_reactor_run\<close>: the descriptors whose \<open>read_data\<close> goes to the executor, in
  order. One turn of \<open>run\<close>: an event on the listening socket accepts.
\<close>

fun read_tasks :: "(int \<times> int32) list \<Rightarrow> int list" where
  "read_tasks [] = []"
| "read_tasks ((fd, events) # es) =
     (if events AND EPOLLIN \<noteq> 0 then fd # read_tasks es else read_tasks es)"

definition sub_reactor_turn :: "('d, 'a, 'k) tcp_env \<Rightarrow> nat \<Rightarrow> ('a, 'k) world \<Rightarrow>
    (int list \<times> ('a, 'k) world) result" where
  "sub_reactor_turn env index w =
     bindE (sub_reactor index w) (\<lambda>ep.
     bindE (reactor_wait (env_kernel env) ep 100 (w_kernel w)) (\<lambda>(events, k).
     Inr (read_tasks events, w\<lparr>w_kernel := k\<rparr>)))"

fun handle_events :: "('d, 'a, 'k) tcp_env \<Rightarrow> byte list \<Rightarrow> (int \<times> int32) list \<Rightarrow> ('a, 'k) world \<Rightarrow>
    ('a, 'k) world result" where
  "handle_events env arr [] w = Inr w"
| "handle_events env arr ((fd, ev) # es) w =
     (if fd = listen_fd (w_server w)
      then bindE (handle_new_connections env arr w) (handle_events env arr es)
      else handle_events env arr es w)"

text \<open>
  The start of \<open>run\<close>: it refuses to run without an executor, and otherwise gives the executor one
  task per sub-reactor; \<open>main_turn\<close> is one turn of its loop. The exception's text is Chinese, given
  by its UTF-8 bytes.
\<close>

definition no_executor_text :: string where
  "no_executor_text = map char_of
     ([229, 143, 141, 229, 186, 148, 229, 160, 134, 230, 156, 170, 232, 174, 190, 231, 189, 174,
      231, 186, 191, 231, 168, 139, 230, 177, 160] :: nat list)"

definition run_start :: "('a, 'k) world \<Rightarrow> nat list result" where
  "run_start w =
     (if \<not> executor_set (w_server w) then Inl (Runtime_Error no_executor_text)
      else Inr [0..<length (sub_reactors (w_server w))])"

definition main_turn :: "('d, 'a, 'k) tcp_env \<Rightarrow> byte list \<Rightarrow> ('a, 'k) world \<Rightarrow> ('a, 'k) world result" where
  "main_turn env arr w =
     bindE (reactor_wait (env_kernel env) (main_reactor (w_server w)) (- 1) (w_kernel w)) (\<lambda>(events, k).
     handle_events env arr events (w\<lparr>w_kernel := k\<rparr>))"

subsection \<open>Sending: every queued byte, in order\<close>

text \<open>The state \<open>w\<close> with another kernel state and another sending half of the channel at \<open>p\<close>.\<close>

definition sending :: "nat \<Rightarrow> byte list tsq \<Rightarrow> nat \<Rightarrow> 'k \<Rightarrow> ('a, 'k) world \<Rightarrow> ('a, 'k) world" where
  "sending p q off k w =
     put_channel p (channel_at p w\<lparr>ch_send_messages := q, ch_send_offset := off\<rparr>) (w\<lparr>w_kernel := k\<rparr>)"

lemma channel_at_put [simp]:
  "p < length (heap (w_server w)) \<Longrightarrow> channel_at p (put_channel p ch w) = ch"
  by (simp add: channel_at_def put_channel_def)

lemma put_put [simp]: "put_channel p a (put_channel p b w) = put_channel p a w"
  by (simp add: put_channel_def)

lemma put_self: "put_channel p (channel_at p w) w = w"
proof -
  have "(w_server w)\<lparr>heap := heap (w_server w)\<rparr> = w_server w" by (cases "w_server w") simp
  then show ?thesis by (cases w) (simp add: put_channel_def channel_at_def)
qed

lemma put_channel_fields [simp]:
  "w_kernel (put_channel p ch w) = w_kernel w" "w_app (put_channel p ch w) = w_app w"
  "channels (w_server (put_channel p ch w)) = channels (w_server w)"
  "fd_location (w_server (put_channel p ch w)) = fd_location (w_server w)"
  "sub_reactors (w_server (put_channel p ch w)) = sub_reactors (w_server w)"
  "length (heap (w_server (put_channel p ch w))) = length (heap (w_server w))"
  "(put_channel p ch w)\<lparr>w_kernel := k\<rparr> = put_channel p ch (w\<lparr>w_kernel := k\<rparr>)"
  "(put_channel p ch w)\<lparr>w_app := a\<rparr> = put_channel p ch (w\<lparr>w_app := a\<rparr>)"
  by (simp_all add: put_channel_def)

lemma channel_at_kernel [simp]:
  "channel_at p (w\<lparr>w_kernel := k\<rparr>) = channel_at p w" "channel_at p (w\<lparr>w_app := a\<rparr>) = channel_at p w"
  by (simp_all add: channel_at_def)

lemma sending_fields [simp]:
  "w_kernel (sending p q off k w) = k" "w_app (sending p q off k w) = w_app w"
  "channels (w_server (sending p q off k w)) = channels (w_server w)"
  "fd_location (w_server (sending p q off k w)) = fd_location (w_server w)"
  "sub_reactors (w_server (sending p q off k w)) = sub_reactors (w_server w)"
  "length (heap (w_server (sending p q off k w))) = length (heap (w_server w))"
  by (simp_all add: sending_def)

lemma channel_at_sending [simp]:
  "p < length (heap (w_server w)) \<Longrightarrow>
   channel_at p (sending p q off k w) = channel_at p w\<lparr>ch_send_messages := q, ch_send_offset := off\<rparr>"
  by (simp add: sending_def)

lemma sending_sending:
  "p < length (heap (w_server w)) \<Longrightarrow> sending p q' off' k' (sending p q off k w) = sending p q' off' k' w"
  unfolding sending_def by simp

lemma sending_kernel:
  "p < length (heap (w_server w)) \<Longrightarrow> (sending p q off k w)\<lparr>w_kernel := k'\<rparr> = sending p q off k' w"
  unfolding sending_def by simp

text \<open>What is left to send of a queue whose first message was sent up to an offset.\<close>

fun left_to_send :: "byte list list \<Rightarrow> nat \<Rightarrow> byte list" where
  "left_to_send [] off = []"
| "left_to_send (m # ms) off = drop off m @ concat ms"

fun sendable_queue :: "byte list list \<Rightarrow> nat \<Rightarrow> bool" where
  "sendable_queue [] off = (off = 0)"
| "sendable_queue (m # ms) off =
     (off < length m \<and> length m < 2 ^ 63 \<and> list_all (\<lambda>m. m \<noteq> [] \<and> length m < 2 ^ 63) ms)"

lemma sendable_tail:
  "list_all (\<lambda>m. m \<noteq> [] \<and> length m < 2 ^ 63) ms \<Longrightarrow> sendable_queue ms 0 \<and> left_to_send ms 0 = concat ms"
  by (cases ms) simp_all

lemma send_loop_rule:
  assumes ret: "send_loop env fd p w = Some (Inr (out, w1))" and init: "I w"
    and step: "\<And>w out w1. I w \<Longrightarrow> send_step env fd p w = Inr (out, w1) \<Longrightarrow> I w1"
  shows "I w1"
proof -
  let ?P = "\<lambda>env' fd' p' w r. env' = env \<and> fd' = fd \<and> p' = p \<and> I w \<longrightarrow> (\<forall>out w1. r = Inr (out, w1) \<longrightarrow> I w1)"
  have "?P env fd p w r" if "send_loop env fd p w = Some r" for r
  proof (rule send_loop.raw_induct [where P = ?P, OF _ that])
    fix loop env' fd' p' and w :: "('a, 'b) world" and r
    assume IH: "\<And>env' fd' p' w r. loop env' fd' p' w = Some r \<Longrightarrow> ?P env' fd' p' w r"
      and eq: "(case send_step env' fd' p' w of Inl e \<Rightarrow> Some (Inl e)
        | Inr (out, w1) \<Rightarrow> (if out = Go_On then loop env' fd' p' w1 else Some (Inr (out, w1)))) = Some r"
    show "?P env' fd' p' w r"
    proof (intro impI allI)
      fix out w1
      assume e: "env' = env \<and> fd' = fd \<and> p' = p \<and> I w" and r: "r = Inr (out, w1)"
      from eq r obtain o2 w2 where s: "send_step env fd p w = Inr (o2, w2)" using e by (auto split: sum.splits)
      have w2: "I w2" using step [OF _ s] e by simp
      from eq e r s have "if o2 = Go_On then loop env fd p w2 = Some r else w1 = w2" by (auto split: if_splits)
      with IH [of env fd p w2 r] w2 r show "I w1" by (cases "o2 = Go_On") auto
    qed
  qed
  from this [OF ret] init show ?thesis by blast
qed

lemma send_step_progress:
  assumes kern: "sends_progress (env_kernel env) fd inp out" and p: "p < length (heap (w_server w))"
    and q: "tsq_queue q = m # ms" and s: "sendable_queue (m # ms) off"
  shows "\<exists>q' off' k'. send_step env fd p (sending p q off k w) = Inr (Go_On, sending p q' off' k' w) \<and>
     sendable_queue (tsq_queue q') off' \<and>
     out k' @ left_to_send (tsq_queue q') off' = out k @ left_to_send (m # ms) off \<and>
     length (left_to_send (tsq_queue q') off') < length (left_to_send (m # ms) off) \<and> inp k' = inp k"
proof -
  have "drop off m \<noteq> []" using s by simp
  with kern obtain n k' where n: "k_send (env_kernel env) fd (drop off m) k = (Sent n, k')" "0 < n"
    "n \<le> length m - off" "out k' = out k @ take n (drop off m)" "inp k' = inp k"
    unfolding sends_progress_def by (metis length_drop)
  have f: "\<not> tsq_empty q" "tsq_front q = Inr m"
    using q tsq.front_Cons [OF q] by (simp_all add: tsq_empty_def)
  obtain q' where q': "tsq_pop q = Inr q'" "tsq_queue q' = ms" using tsq.pop_Cons [OF q] by blast
  have "off < length m" "length m < 2 ^ 63" using s by simp_all
  with n(3) have "off + n \<le> length m" "length m < 2 ^ 63" by simp_all
  then have off: "szadd off n = off + n" by (intro szadd_small) simp
  have mid: "take n (drop off m) @ drop (off + n) m = drop off m"
    by (metis add.commute append_take_drop_id drop_drop)
  show ?thesis
  proof (cases "off + n = length m")
    case True
    have "take n (drop off m) = drop off m" using mid True by simp
    with True f n q' off s sendable_tail [of ms] p show ?thesis
      by (intro exI [of _ q'] exI [of _ 0] exI [of _ k'])
         (simp add: send_step_def Let_def sending_kernel, simp add: sending_def)
  next
    case False
    then have "off + n < length m" using n s by simp
    with False f n q off s p mid show ?thesis
      by (intro exI [of _ q] exI [of _ "off + n"] exI [of _ k'])
         (simp add: send_step_def Let_def sending_kernel, simp add: sending_def flip: append_assoc)
  qed
qed

lemma send_step_empty:
  "p < length (heap (w_server w)) \<Longrightarrow> tsq_queue q = [] \<Longrightarrow>
   send_step env fd p (sending p q off k w) = Inr (All_Sent, sending p q off k w)"
  by (simp add: send_step_def Let_def tsq_empty_def)

lemma send_loop_all:
  assumes kern: "sends_progress (env_kernel env) fd inp out" and p: "p < length (heap (w_server w))"
    and s: "sendable_queue (tsq_queue q) off"
  shows "\<exists>k'. send_loop env fd p (sending p q off k w) = Some (Inr (All_Sent, sending p new_tsq 0 k' w)) \<and>
     out k' = out k @ left_to_send (tsq_queue q) off \<and> inp k' = inp k"
  using s
proof (induction "length (left_to_send (tsq_queue q) off)" arbitrary: q off k rule: less_induct)
  case less
  show ?case
  proof (cases "tsq_queue q")
    case Nil
    then have "q = new_tsq" by (cases q) (simp add: new_tsq_def)
    with Nil less.prems send_step_empty [OF p Nil, of env fd off k] show ?thesis
      by (intro exI [of _ k], subst send_loop.simps) simp
  next
    case (Cons m ms)
    from send_step_progress [OF kern p Cons, of off k] less.prems Cons obtain q' off' k' where
      st: "send_step env fd p (sending p q off k w) = Inr (Go_On, sending p q' off' k' w)"
      "sendable_queue (tsq_queue q') off'"
      "out k' @ left_to_send (tsq_queue q') off' = out k @ left_to_send (tsq_queue q) off"
      "length (left_to_send (tsq_queue q') off') < length (left_to_send (tsq_queue q) off)"
      "inp k' = inp k" by auto
    from less.hyps [OF st(4) st(2), of k'] st(3,5) obtain k'' where
      "send_loop env fd p (sending p q' off' k' w) = Some (Inr (All_Sent, sending p new_tsq 0 k'' w))"
      "out k'' = out k @ left_to_send (tsq_queue q) off" "inp k'' = inp k" by auto
    with st(1) show ?thesis by (intro exI [of _ k''], subst send_loop.simps) simp
  qed
qed

text \<open>A connection whose table entries are in order.\<close>

definition registered :: "int \<Rightarrow> nat \<Rightarrow> ('a, 'k) world \<Rightarrow> bool" where
  "registered fd p w \<longleftrightarrow>
     p < length (heap (w_server w)) \<and> ch_fd (channel_at p w) = fd \<and>
     channels (w_server w) fd = Some (Some p) \<and>
     (\<exists>loc. fd_location (w_server w) fd = Some loc \<and> loc < length (sub_reactors (w_server w)))"

lemma registered_put:
  "registered fd p w \<Longrightarrow> ch_fd ch = fd \<Longrightarrow> registered fd p (put_channel p ch w)"
  by (auto simp: registered_def)

lemma registered_kernel [simp]:
  "registered fd p (w\<lparr>w_kernel := k\<rparr>) = registered fd p w" "registered fd p (w\<lparr>w_app := a\<rparr>) = registered fd p w"
  by (simp_all add: registered_def)

lemma registered_sending: "registered fd p w \<Longrightarrow> registered fd p (sending p q off k w)"
  unfolding sending_def by (rule registered_put) (simp_all add: registered_def)

lemma rearm_ok:
  assumes "modifies (env_kernel env) fd inp out" and "registered fd p w"
  shows "\<exists>k. rearm env fd ev w = Inr (w\<lparr>w_kernel := k\<rparr>) \<and> out k = out (w_kernel w) \<and>
     inp k = inp (w_kernel w)"
proof -
  from assms(2) obtain loc where l: "fd_location (w_server w) fd = Some loc"
    "loc < length (sub_reactors (w_server w))" by (auto simp: registered_def)
  from assms(1) obtain k where
    "k_epoll_ctl (env_kernel env) (sub_reactors (w_server w) ! loc) Ctl_Mod fd ev (w_kernel w) = (True, k)"
    "out k = out (w_kernel w)" "inp k = inp (w_kernel w)" unfolding modifies_def by blast
  with l show ?thesis
    by (intro exI [of _ k]) (simp add: rearm_def locate_def sub_reactor_def modify_fd_def)
qed

lemma try_send_all:
  assumes kern: "sends_progress (env_kernel env) fd inp out" "modifies (env_kernel env) fd inp out"
    and r: "registered fd p w" and s: "sendable_queue (tsq_queue q) off"
  shows "\<exists>k'. try_send env p (sending p q off k w) = Inr (sending p new_tsq 0 k' w) \<and>
     out k' = out k @ left_to_send (tsq_queue q) off \<and> inp k' = inp k"
proof -
  have p: "p < length (heap (w_server w))" "ch_fd (channel_at p w) = fd"
    using r by (simp_all add: registered_def)
  from send_loop_all [OF kern(1) p(1) s, of k] obtain k1 where
    k1: "send_loop env fd p (sending p q off k w) = Some (Inr (All_Sent, sending p new_tsq 0 k1 w))"
      "out k1 = out k @ left_to_send (tsq_queue q) off" "inp k1 = inp k" by blast
  from rearm_ok [OF kern(2) registered_sending [OF r], of "EPOLLIN OR EPOLLET" new_tsq 0 k1] obtain k2 where
    "rearm env fd (EPOLLIN OR EPOLLET) (sending p new_tsq 0 k1 w) = Inr (sending p new_tsq 0 k2 w)"
      "out k2 = out k1" "inp k2 = inp k1" by (auto simp: sending_kernel p)
  with k1 p show ?thesis by (intro exI [of _ k2]) (simp add: try_send_def Let_def)
qed

lemma sending_self:
  "p < length (heap (w_server w)) \<Longrightarrow> ch_send_messages (channel_at p w) = q \<Longrightarrow>
   ch_send_offset (channel_at p w) = off \<Longrightarrow> sending p q off k w = w\<lparr>w_kernel := k\<rparr>"
  using put_self [of p "w\<lparr>w_kernel := k\<rparr>"]
  by (cases "channel_at p w") (auto simp: sending_def)

text \<open>A message and its encoding, short enough for its length field.\<close>

definition encodes_to :: "'d brotli \<Rightarrow> compression_type \<Rightarrow> byte list \<Rightarrow> byte list \<Rightarrow> bool" where
  "encodes_to lib type m e \<longleftrightarrow> encode_string lib type m = Inr e \<and> length e < 2 ^ 31"

text \<open>Between two callbacks nothing is left to send.\<close>

definition idle :: "nat \<Rightarrow> ('a, 'k) world \<Rightarrow> bool" where
  "idle p w \<longleftrightarrow> ch_send_messages (channel_at p w) = new_tsq \<and> ch_send_offset (channel_at p w) = 0"

lemma write_data_sends:
  assumes kern: "sends_progress (env_kernel env) fd inp out" "modifies (env_kernel env) fd inp out"
    and r: "registered fd p w" and i: "idle p w"
    and e: "encodes_to (env_lib env) (ch_compression (channel_at p w)) data e"
  shows "\<exists>k. write_data env p data w = Inr (w\<lparr>w_kernel := k\<rparr>) \<and>
     out k = out (w_kernel w) @ frame_message (env_nb env) e \<and> inp k = inp (w_kernel w)"
proof -
  let ?ch = "channel_at p w" let ?f = "frame_message (env_nb env) e"
  let ?q = "tsq_push ?f new_tsq"
  have p: "p < length (heap (w_server w))" "ch_fd ?ch = fd" using r by (simp_all add: registered_def)
  have l: "length ?f = 4 + length e" by (simp add: frame_message_eq)
  have f: "?f \<noteq> []" "length ?f < 2 ^ 63"
    using l e by (auto simp: encodes_to_def simp flip: length_0_conv)
  have q: "tsq_queue ?q = [?f]" by (simp add: tsq_push_def new_tsq_def)
  have "?ch\<lparr>ch_send_messages := ?q\<rparr> = ?ch\<lparr>ch_send_messages := ?q, ch_send_offset := 0\<rparr>"
    using i by (cases ?ch) (simp add: idle_def)
  then have w1: "put_channel p (?ch\<lparr>ch_send_messages := ?q\<rparr>) w = sending p ?q 0 (w_kernel w) w"
    by (simp add: sending_def)
  have m: "enqueue_message (env_lib env) (env_nb env) data ?ch = Inr (?ch\<lparr>ch_send_messages := ?q\<rparr>)"
    using e i by (simp add: enqueue_message_def encodes_to_def idle_def)
  from rearm_ok [OF kern(2) registered_sending [OF r], of "EPOLLIN OR EPOLLOUT OR EPOLLET" ?q 0 "w_kernel w"]
  obtain k1 where
    k1: "rearm env fd (EPOLLIN OR EPOLLOUT OR EPOLLET) (sending p ?q 0 (w_kernel w) w) = Inr (sending p ?q 0 k1 w)"
      "out k1 = out (w_kernel w)" "inp k1 = inp (w_kernel w)" by (auto simp: sending_kernel p)
  have "sendable_queue (tsq_queue ?q) 0" using f q by simp
  from try_send_all [OF kern r this, of k1] obtain k2 where
    "try_send env p (sending p ?q 0 k1 w) = Inr (sending p new_tsq 0 k2 w)"
      "out k2 = out (w_kernel w) @ ?f" "inp k2 = inp (w_kernel w)" using q k1(2,3) by auto
  moreover have "sending p new_tsq 0 k2 w = w\<lparr>w_kernel := k2\<rparr>"
    using i p by (intro sending_self) (simp_all add: idle_def)
  ultimately show ?thesis using k1(1) p
    by (intro exI [of _ k2]) (simp add: write_data_def m on_send_message_def w1)
qed

lemma write_all_sends:
  assumes kern: "sends_progress (env_kernel env) fd inp out" "modifies (env_kernel env) fd inp out"
    and "list_all2 (encodes_to (env_lib env) (ch_compression (channel_at p w))) ds es"
    and "registered fd p w" and "idle p w"
  shows "\<exists>k. write_all env p ds w = Inr (w\<lparr>w_kernel := k\<rparr>) \<and>
     out k = out (w_kernel w) @ concat (map (frame_message (env_nb env)) es) \<and>
     inp k = inp (w_kernel w)"
  using assms(3-5)
proof (induction ds arbitrary: es w)
  case Nil
  then show ?case by (intro exI [of _ "w_kernel w"]) simp
next
  case (Cons d ds)
  then obtain e es' where es: "es = e # es'"
    and e: "encodes_to (env_lib env) (ch_compression (channel_at p w)) d e"
    and rest: "list_all2 (encodes_to (env_lib env) (ch_compression (channel_at p w))) ds es'"
    by (auto simp: list_all2_Cons1)
  from write_data_sends [OF kern Cons.prems(2,3) e] obtain k where
    k: "write_data env p d w = Inr (w\<lparr>w_kernel := k\<rparr>)"
      "out k = out (w_kernel w) @ frame_message (env_nb env) e" "inp k = inp (w_kernel w)" by blast
  have "registered fd p (w\<lparr>w_kernel := k\<rparr>)" "idle p (w\<lparr>w_kernel := k\<rparr>)"
    using Cons.prems(2,3) by (simp_all add: idle_def)
  from Cons.IH [OF _ this, of es'] rest k es show ?case by auto
qed

subsection \<open>Reading: every message to the callback, every answer back\<close>

lemma run_callbacks_sends:
  assumes kern: "sends_progress (env_kernel env) fd inp out" "modifies (env_kernel env) fd inp out"
    and f: "cb_read (env_cbs env) = Some f"
    and "serve f fd ms (w_app w) = Inr (outs, app)"
    and "list_all2 (encodes_to (env_lib env) (ch_compression (channel_at p w))) outs es"
    and "registered fd p w" and "idle p w"
  shows "\<exists>k. run_callbacks env p ms w = Inr (w\<lparr>w_app := app, w_kernel := k\<rparr>) \<and>
     out k = out (w_kernel w) @ concat (map (frame_message (env_nb env)) es) \<and>
     inp k = inp (w_kernel w)"
  using assms(4-7)
proof (induction ms arbitrary: outs es w)
  case Nil
  then show ?case by (intro exI [of _ "w_kernel w"]) simp
next
  case (Cons m ms)
  from Cons.prems(1) obtain o1 a1 o2 where
    fm: "f fd m (w_app w) = Inr (o1, a1)" "serve f fd ms a1 = Inr (o2, app)" "outs = o1 @ o2"
    by (auto simp: bindE_eq_Inr)
  from Cons.prems(2) [unfolded fm(3) list_all2_append1] obtain e1 e2 where
    es: "es = e1 @ e2" "list_all2 (encodes_to (env_lib env) (ch_compression (channel_at p w))) o1 e1"
      "list_all2 (encodes_to (env_lib env) (ch_compression (channel_at p w))) o2 e2" by blast
  let ?w = "w\<lparr>w_app := a1\<rparr>"
  have w: "registered fd p ?w" "idle p ?w" using Cons.prems(3,4) by (simp_all add: idle_def)
  from write_all_sends [OF kern _ w, of o1 e1] es(2) obtain k where
    k: "write_all env p o1 ?w = Inr (?w\<lparr>w_kernel := k\<rparr>)"
      "out k = out (w_kernel w) @ concat (map (frame_message (env_nb env)) e1)"
      "inp k = inp (w_kernel w)" by auto
  have w': "registered fd p (?w\<lparr>w_kernel := k\<rparr>)" "idle p (?w\<lparr>w_kernel := k\<rparr>)"
    using w by (simp_all add: idle_def)
  from Cons.IH [OF _ _ w', of o2 e2] fm(2) es(3) obtain k' where
    "run_callbacks env p ms (?w\<lparr>w_kernel := k\<rparr>) = Inr (?w\<lparr>w_kernel := k, w_app := app, w_kernel := k'\<rparr>)"
      "out k' = out k @ concat (map (frame_message (env_nb env)) e2)" "inp k' = inp k" by auto
  moreover have "ch_fd (channel_at p w) = fd" using Cons.prems(3) by (simp add: registered_def)
  ultimately show ?case using f fm(1) k es(1) by (intro exI [of _ k']) simp
qed

text \<open>A connection between two messages, with nothing left to send.\<close>

definition connection :: "int \<Rightarrow> nat \<Rightarrow> ('a, 'k) world \<Rightarrow> bool" where
  "connection fd p w \<longleftrightarrow> registered fd p w \<and> idle p w \<and> waiting [] (channel_at p w)"

definition connection_type :: "nat \<Rightarrow> ('a, 'k) world \<Rightarrow> compression_type" where
  "connection_type p w = ch_compression (channel_at p w)"

lemma connection_kernel [simp]:
  "connection fd p (w\<lparr>w_kernel := k\<rparr>) = connection fd p w" "connection fd p (w\<lparr>w_app := a\<rparr>) = connection fd p w"
  "connection_type p (w\<lparr>w_kernel := k\<rparr>) = connection_type p w"
  "connection_type p (w\<lparr>w_app := a\<rparr>) = connection_type p w"
  by (simp_all add: connection_def idle_def connection_type_def)

lemma connection_put:
  assumes "connection fd p w" and "waiting [] ch" and "ch_fd ch = fd"
    and "ch_send_messages ch = new_tsq" and "ch_send_offset ch = 0"
  shows "connection fd p (put_channel p ch w)"
  using assms registered_put [of fd p w ch] by (auto simp: connection_def idle_def registered_def)

text \<open>One chunk of whole frames.\<close>

lemma read_step_chunk:
  assumes kern: "serves (env_kernel env) fd inp out" and f: "cb_read (env_cbs env) = Some f"
    and c: "connection fd p w" and i: "inp (w_kernel w) = concat (map (frame_message nb) es) # cs"
    and es: "list_all2 (decodes_to (env_lib env)) ms es"
    and len: "length (concat (map (frame_message nb) es)) \<le> BUFFER_SIZE"
    and s: "serve f fd ms (w_app w) = Inr (outs, app)"
    and os: "list_all2 (encodes_to (env_lib env) (connection_type p w)) outs os"
  shows "\<exists>w'. read_step env fd (Some p) w = Inr (Read_On, w') \<and> connection fd p w' \<and>
     connection_type p w' = connection_type p w \<and> w_app w' = app \<and> inp (w_kernel w') = cs \<and>
     out (w_kernel w') = out (w_kernel w) @ concat (map (frame_message (env_nb env)) os)"
proof -
  let ?c = "concat (map (frame_message nb) es)" let ?ch = "channel_at p w"
  note kern = kern [unfolded serves_def]
  have p: "p < length (heap (w_server w))" "ch_fd ?ch = fd" "waiting [] ?ch" "registered fd p w"
    "ch_send_messages ?ch = new_tsq" "ch_send_offset ?ch = 0"
    using c by (simp_all add: connection_def registered_def idle_def)
  from kern have "\<exists>k. k_read (env_kernel env) fd BUFFER_SIZE (w_kernel w) =
      (case inp (w_kernel w) of [] \<Rightarrow> (Read_Again, k) | c # cs \<Rightarrow> (Bytes c, k)) \<and>
      inp k = tl (inp (w_kernel w)) \<and> out k = out (w_kernel w)"
    unfolding reads_chunks_def by blast
  then obtain k where
    k: "k_read (env_kernel env) fd BUFFER_SIZE (w_kernel w) = (Bytes ?c, k)" "inp k = cs"
      "out k = out (w_kernel w)" unfolding i by auto
  from feed_frames [OF p(3) es, of ?c nb "[]" "env_nb env"] len obtain ch' where
    ch: "feed (env_lib env) (env_nb env) ?c ?ch = Inr (ms, ch')" "waiting [] ch'"
      "ch_send_messages ch' = new_tsq" "ch_fd ch' = fd" "ch_send_offset ch' = 0"
      "ch_compression ch' = ch_compression ?ch" using p by auto
  then obtain rb where rb: "enqueue ?c (ch_read_buffer ?ch) = Inr rb"
    "parse_message (env_lib env) (env_nb env) (?ch\<lparr>ch_read_buffer := rb\<rparr>) = Inr (ms, ch')"
    by (auto simp: feed_def bindE_eq_Inr)
  let ?w1 = "put_channel p ch' (w\<lparr>w_kernel := k\<rparr>)"
  have c1: "connection fd p ?w1" by (rule connection_put) (use c ch in simp_all)
  have t1: "channel_at p ?w1 = ch'" using p by simp
  have w1: "registered fd p ?w1" "idle p ?w1" using c1 by (simp_all add: connection_def)
  have "list_all2 (encodes_to (env_lib env) (ch_compression (channel_at p ?w1))) outs os"
    using os ch(6) by (simp add: t1 connection_type_def)
  moreover have "serve f fd ms (w_app ?w1) = Inr (outs, app)" using s by simp
  ultimately obtain k' where
    k': "run_callbacks env p ms ?w1 = Inr (?w1\<lparr>w_app := app, w_kernel := k'\<rparr>)"
      "out k' = out k @ concat (map (frame_message (env_nb env)) os)" "inp k' = inp k"
    using run_callbacks_sends [OF conjunct1 [OF kern] _ f _ _ w1, of ms outs app os] kern by auto
  let ?w2 = "?w1\<lparr>w_app := app, w_kernel := k'\<rparr>"
  have "read_step env fd (Some p) w = Inr (Read_On, ?w2)"
    using k(1) rb k'(1) p by (simp add: read_step_def deref_def Let_def parse_and_run_def)
  moreover have "connection fd p ?w2" using c1 by (simp only: connection_kernel)
  moreover have "connection_type p ?w2 = connection_type p w"
    using ch(6) t1 by (simp only: connection_kernel) (simp add: connection_type_def)
  ultimately show ?thesis using k k' by (intro exI [of _ ?w2]) simp
qed

text \<open>The end of the input.\<close>

lemma read_step_drained:
  assumes "serves (env_kernel env) fd inp out" and "inp (w_kernel w) = []"
  shows "\<exists>k. read_step env fd ptr w = Inr (Drained, w\<lparr>w_kernel := k\<rparr>) \<and> inp k = [] \<and>
     out k = out (w_kernel w)"
proof -
  from assms(1) have "\<exists>k. k_read (env_kernel env) fd BUFFER_SIZE (w_kernel w) =
      (case inp (w_kernel w) of [] \<Rightarrow> (Read_Again, k) | c # cs \<Rightarrow> (Bytes c, k)) \<and>
      inp k = tl (inp (w_kernel w)) \<and> out k = out (w_kernel w)"
    unfolding serves_def reads_chunks_def by blast
  then obtain k where
    "k_read (env_kernel env) fd BUFFER_SIZE (w_kernel w) = (Read_Again, k)" "inp k = []"
      "out k = out (w_kernel w)" unfolding assms(2) by auto
  then show ?thesis by (intro exI [of _ k]) (simp add: read_step_def)
qed

lemma read_loop_chunks:
  assumes kern: "serves (env_kernel env) fd inp out" and f: "cb_read (env_cbs env) = Some f"
    and "list_all2 (list_all2 (decodes_to (env_lib env))) batches ess"
    and "connection fd p w"
    and "inp (w_kernel w) = map (\<lambda>es. concat (map (frame_message nb) es)) ess"
    and "\<forall>c \<in> set (inp (w_kernel w)). length c \<le> BUFFER_SIZE"
    and "serve f fd (concat batches) (w_app w) = Inr (outs, app)"
    and "list_all2 (encodes_to (env_lib env) (connection_type p w)) outs os"
  shows "\<exists>w'. read_loop env fd (Some p) w = Some (Inr (Drained, w')) \<and> connection fd p w' \<and>
     connection_type p w' = connection_type p w \<and> w_app w' = app \<and> inp (w_kernel w') = [] \<and>
     out (w_kernel w') = out (w_kernel w) @ concat (map (frame_message (env_nb env)) os)"
  using assms(3-8)
proof (induction arbitrary: w outs os rule: list_all2_induct)
  case Nil
  from read_step_drained [OF kern, of w "Some p"] Nil.prems(2) obtain k where
    k: "read_step env fd (Some p) w = Inr (Drained, w\<lparr>w_kernel := k\<rparr>)" "inp k = []"
      "out k = out (w_kernel w)" by auto
  have "read_loop env fd (Some p) w = Some (Inr (Drained, w\<lparr>w_kernel := k\<rparr>))"
    by (subst read_loop.simps) (simp add: k(1))
  with k Nil.prems show ?case by (intro exI [of _ "w\<lparr>w_kernel := k\<rparr>"]) simp
next
  case (Cons ms batches es ess)
  from Cons.prems(4) obtain o1 a1 o2 where
    sv: "serve f fd ms (w_app w) = Inr (o1, a1)" "serve f fd (concat batches) a1 = Inr (o2, app)"
      "outs = o1 @ o2"
    by (auto simp: serve_append bindE_eq_Inr)
  from Cons.prems(5) [unfolded sv(3) list_all2_append1] obtain os1 os2 where
    os: "os = os1 @ os2" "list_all2 (encodes_to (env_lib env) (connection_type p w)) o1 os1"
      "list_all2 (encodes_to (env_lib env) (connection_type p w)) o2 os2" by blast
  have i: "inp (w_kernel w) = concat (map (frame_message nb) es) #
      map (\<lambda>es. concat (map (frame_message nb) es)) ess" using Cons.prems(2) by simp
  have "length (concat (map (frame_message nb) es)) \<le> BUFFER_SIZE" using Cons.prems(3) i by simp
  from read_step_chunk [OF kern f Cons.prems(1) i Cons.hyps(1) this sv(1) os(2)] obtain w1 where
    w1: "read_step env fd (Some p) w = Inr (Read_On, w1)" "connection fd p w1"
      "connection_type p w1 = connection_type p w" "w_app w1 = a1"
      "inp (w_kernel w1) = map (\<lambda>es. concat (map (frame_message nb) es)) ess"
      "out (w_kernel w1) = out (w_kernel w) @ concat (map (frame_message (env_nb env)) os1)" by blast
  have l: "\<forall>c \<in> set (inp (w_kernel w1)). length c \<le> BUFFER_SIZE"
    using Cons.prems(3) i w1(5) by auto
  have "read_loop env fd (Some p) w = read_loop env fd (Some p) w1"
    by (subst read_loop.simps) (simp add: w1(1))
  with Cons.IH [OF w1(2,5) l, of o2 os2] sv(2) os(1,3) w1(3,4,6) show ?case by auto
qed

lemma parse_and_run_nothing:
  assumes "connection fd p w"
  shows "\<exists>w'. parse_and_run env p w = Inr w' \<and> connection fd p w' \<and> w_kernel w' = w_kernel w \<and>
     connection_type p w' = connection_type p w \<and> w_app w' = w_app w"
proof -
  let ?ch = "channel_at p w"
  have p: "p < length (heap (w_server w))" "ch_fd ?ch = fd" "waiting [] ?ch"
    "ch_send_messages ?ch = new_tsq" "ch_send_offset ?ch = 0"
    using assms by (simp_all add: connection_def registered_def idle_def)
  have "parse_loop (env_lib env) (env_nb env) ?ch = Some (Inr ?ch)"
    using p(3) by (intro parse_stops) (simp_all add: waiting_def)
  then have m: "parse_message (env_lib env) (env_nb env) ?ch = Inr ([], ?ch\<lparr>ch_read_messages := new_tsq\<rparr>)"
    using p(3) by (simp add: parse_message_def deliver_all waiting_def)
  let ?ch' = "?ch\<lparr>ch_read_messages := new_tsq\<rparr>"
  have "waiting [] ?ch'"
    using p(3) by (simp add: waiting_def channel_ok_def received_def new_tsq_def)
  then have "connection fd p (put_channel p ?ch' w)"
    using connection_put [OF assms, of ?ch'] p by simp
  moreover have "connection_type p (put_channel p ?ch' w) = connection_type p w"
    using p(1) by (simp add: connection_type_def)
  ultimately show ?thesis using m by (simp add: parse_and_run_def)
qed

lemma read_data_chunks:
  assumes kern: "serves (env_kernel env) fd inp out" and f: "cb_read (env_cbs env) = Some f"
    and es: "list_all2 (list_all2 (decodes_to (env_lib env))) batches ess"
    and c: "connection fd p w"
    and i: "inp (w_kernel w) = map (\<lambda>es. concat (map (frame_message nb) es)) ess"
    and l: "\<forall>c \<in> set (inp (w_kernel w)). length c \<le> BUFFER_SIZE"
    and s: "serve f fd (concat batches) (w_app w) = Inr (outs, app)"
    and os: "list_all2 (encodes_to (env_lib env) (connection_type p w)) outs os"
  shows "\<exists>w'. read_data env fd w = Inr w' \<and> connection fd p w' \<and>
     connection_type p w' = connection_type p w \<and> w_app w' = app \<and> inp (w_kernel w') = [] \<and>
     out (w_kernel w') = out (w_kernel w) @ concat (map (frame_message (env_nb env)) os)"
proof -
  from read_loop_chunks [OF assms] obtain w1 where
    w1: "read_loop env fd (Some p) w = Some (Inr (Drained, w1))" "connection fd p w1"
     "connection_type p w1 = connection_type p w" "w_app w1 = app" "inp (w_kernel w1) = []"
     "out (w_kernel w1) = out (w_kernel w) @ concat (map (frame_message (env_nb env)) os)" by blast
  from parse_and_run_nothing [OF w1(2), of env] obtain w2 where
    w2: "parse_and_run env p w1 = Inr w2" "connection fd p w2" "w_kernel w2 = w_kernel w1"
      "connection_type p w2 = connection_type p w1" "w_app w2 = w_app w1" by blast
  have "channels (w_server w) fd = Some (Some p)" using c by (simp add: connection_def registered_def)
  then have "read_data env fd w = Inr w2"
    using w1(1) w2(1) by (simp add: read_data_def deref_def)
  with w1 w2 show ?thesis by simp
qed

text \<open>A chunk that ends inside a message, behind its header.\<close>

lemma read_data_half:
  assumes "serves (env_kernel env) fd inp out" and c: "connection fd p w"
    and i: "inp (w_kernel w) = take k (frame_message nb e) # cs" and "length e < 2 ^ 31"
    and "HEAD_LENGTH < k" and "k < length (frame_message nb e)" and "k \<le> BUFFER_SIZE"
  shows "read_data env fd w = Inl Hang"
proof -
  let ?c = "take k (frame_message nb e)" and ?ch = "channel_at p w"
  from assms(1) have "\<exists>k'. k_read (env_kernel env) fd BUFFER_SIZE (w_kernel w) =
      (case inp (w_kernel w) of [] \<Rightarrow> (Read_Again, k') | c # cs \<Rightarrow> (Bytes c, k')) \<and>
      inp k' = tl (inp (w_kernel w)) \<and> out k' = out (w_kernel w)"
    unfolding serves_def reads_chunks_def by blast
  then obtain k' where k': "k_read (env_kernel env) fd BUFFER_SIZE (w_kernel w) = (Bytes ?c, k')" unfolding i by auto
  have p: "p < length (heap (w_server w))" "channels (w_server w) fd = Some (Some p)" "waiting [] ?ch"
    using c by (simp_all add: connection_def registered_def)
  have "feed (env_lib env) (env_nb env) ?c ?ch = Inl Hang"
    by (rule feed_partial [OF p(3) _ _ _ assms(4), where part = "take (k - 4) e"])
      (use assms(5-7) in \<open>auto simp: frame_message_eq HEAD_LENGTH_def\<close>)
  then consider "enqueue ?c (ch_read_buffer ?ch) = Inl Hang"
    | rb where "enqueue ?c (ch_read_buffer ?ch) = Inr rb"
        "parse_message (env_lib env) (env_nb env) (?ch\<lparr>ch_read_buffer := rb\<rparr>) = Inl Hang"
    by (cases "enqueue ?c (ch_read_buffer ?ch)") (auto simp: feed_def)
  then have "read_step env fd (Some p) w = Inl Hang"
    using k' p(1) by cases (simp_all add: read_step_def deref_def Let_def parse_and_run_def)
  then have "read_loop env fd (Some p) w = Some (Inl Hang)" by (subst read_loop.simps) simp
  then show ?thesis using p(2) by (simp add: read_data_def)
qed

subsection \<open>Connections come and go\<close>

lemma add_connection_ok:
  assumes "sub_reactors (w_server w) \<noteq> []" and "length arr = BUFFER_SIZE"
    and "\<And>ep. k_epoll_ctl (env_kernel env) ep Ctl_Add fd (EPOLLIN OR EPOLLET) (w_kernel w) = (True, k)"
  shows "\<exists>w'. add_connection env arr fd w = Inr w' \<and> connection fd (length (heap (w_server w))) w' \<and>
     connection_type (length (heap (w_server w))) w' = net_compression (w_server w) \<and>
     w_kernel w' = k \<and>
     w_app w' = notify (cb_connect (env_cbs env)) fd (w_app w)"
proof -
  let ?sv = "w_server w" let ?ch = "Channel.set_compress_algo (net_compression ?sv) (new_channel arr fd)"
  have "waiting [] ?ch"
    using new_channel_waiting [OF assms(2), of fd]
    by (simp add: waiting_def channel_ok_def received_def set_compress_algo_def)
  moreover have "ch_fd ?ch = fd" "ch_send_messages ?ch = new_tsq" "ch_send_offset ?ch = 0"
    "ch_compression ?ch = net_compression ?sv"
    by (simp_all add: set_compress_algo_def new_channel_def)
  moreover have "nat fd mod length (sub_reactors ?sv) < length (sub_reactors ?sv)"
    using assms(1) by simp
  ultimately show ?thesis using assms(1,3)
    by (simp add: add_connection_def Let_def add_fd_def connection_def registered_def idle_def
        channel_at_def connection_type_def nth_append)
qed

lemma close_connection_ok:
  assumes "fd_location (w_server w) fd = Some loc" and "loc < length (sub_reactors (w_server w))"
    and "k_epoll_ctl (env_kernel env) (sub_reactors (w_server w) ! loc) Ctl_Del fd 0 (w_kernel w) = (True, k)"
  shows "\<exists>w'. close_connection env fd w = Inr w' \<and> channels (w_server w') = (channels (w_server w))(fd := None) \<and>
     fd_location (w_server w') = (fd_location (w_server w))(fd := None) \<and>
     heap (w_server w') = heap (w_server w) \<and> sub_reactors (w_server w') = sub_reactors (w_server w) \<and>
     w_kernel w' = k_close (env_kernel env) fd k \<and> w_app w' = notify (cb_disconnect (env_cbs env)) fd (w_app w)"
  using assms by (simp add: close_connection_def locate_def sub_reactor_def remove_fd_def)

lemma read_tasks_filter: "read_tasks es = map fst (filter (\<lambda>(fd, ev). ev AND EPOLLIN \<noteq> 0) es)"
  by (induction es rule: read_tasks.induct) auto

subsection \<open>Properties\<close>

text \<open>
  C12: A conversation. A client's messages arrive in any number of chunks of whole frames:
  \<open>read_data\<close> runs the callback on every message, once and in order, and everything the callbacks
  write goes out on the same connection, framed, complete and in order, however the socket splits
  the writes; afterwards the connection is as before, ready for the next event.
\<close>
theorem server_conversation:
  assumes "serves (env_kernel env) fd inp out" and "cb_read (env_cbs env) = Some f"
    and "list_all2 (list_all2 (decodes_to (env_lib env))) batches ess"
    and "connection fd p w"
    and "inp (w_kernel w) = map (\<lambda>es. concat (map (frame_message nb) es)) ess"
    and "\<forall>c \<in> set (inp (w_kernel w)). length c \<le> BUFFER_SIZE"
    and "serve f fd (concat batches) (w_app w) = Inr (outs, app)"
    and "list_all2 (encodes_to (env_lib env) (connection_type p w)) outs os"
  shows "\<exists>w'. read_data env fd w = Inr w' \<and> connection fd p w' \<and> w_app w' = app \<and>
     inp (w_kernel w') = [] \<and>
     out (w_kernel w') = out (w_kernel w) @ concat (map (frame_message (env_nb env)) os)"
  using read_data_chunks [OF assms] by blast

text \<open>A server that echoes messages and counts them, on a socket that takes three bytes at a time.\<close>

definition echo_env :: "(unit, nat, sim) tcp_env" where
  "echo_env = \<lparr>env_lib = stored_lib, env_nb = False, env_kernel = sim_kernel 3,
     env_cbs = \<lparr>cb_connect = None, cb_disconnect = Some (\<lambda>fd n. 0),
       cb_read = Some (\<lambda>fd m n. Inr ([m], n + 1))\<rparr>\<rparr>"

definition echo_world :: "byte list list \<Rightarrow> (nat, sim) world" where
  "echo_world chunks =
     \<lparr>w_server = \<lparr>net_compression = Comp_None, executor_set = True, srv_stop = False, main_reactor = 0,
        sub_reactors = [1], listen_fd = 3, channels = [7 \<mapsto> Some 0], fd_location = [7 \<mapsto> 0],
        heap = [new_channel (replicate BUFFER_SIZE 0) 7]\<rparr>,
      w_app = 0, w_kernel = \<lparr>sim_in = chunks, sim_out = []\<rparr>\<rparr>"

lemma echo_world_connection:
  "connection 7 0 (echo_world chunks)" "connection_type 0 (echo_world chunks) = Comp_None"
  "registered 7 0 (echo_world chunks)"
proof -
  show c: "connection 7 0 (echo_world chunks)"
    using new_channel_waiting [of "replicate BUFFER_SIZE 0" 7]
    by (simp add: connection_def registered_def idle_def channel_at_def echo_world_def new_channel_def)
  then show "registered 7 0 (echo_world chunks)" by (simp add: connection_def)
  show "connection_type 0 (echo_world chunks) = Comp_None"
    by (simp add: connection_type_def channel_at_def echo_world_def new_channel_def)
qed

theorem server_conversation_witness:
  "\<exists>w'. read_data echo_env 7 (echo_world [[3, 0, 0, 0, 0, 65, 66, 2, 0, 0, 0, 0, 67], [2, 0, 0, 0, 0, 68]])
     = Inr w' \<and> w_app w' = 3 \<and> sim_in (w_kernel w') = [] \<and>
     sim_out (w_kernel w') = [3, 0, 0, 0, 0, 65, 66, 2, 0, 0, 0, 0, 67, 2, 0, 0, 0, 0, 68]"
proof -
  let ?chunks = "[[3, 0, 0, 0, 0, 65, 66, 2, 0, 0, 0, 0, 67], [2, 0, 0, 0, 0, 68]]"
  let ?ess = "[[[0, 65, 66], [0, 67]], [[0, 68]]] :: byte list list list"
  let ?batches = "[[[65, 66], [67]], [[68]]] :: byte list list list"
  have f: "map (\<lambda>es. concat (map (frame_message False) es)) ?ess = ?chunks"
    "concat (map (frame_message False) (concat ?ess)) = concat ?chunks"
    by (simp_all add: frame_message_eq word_bytes_def nat_bytes_4)
  have d: "list_all2 (list_all2 (decodes_to (env_lib echo_env))) ?batches ?ess"
    by (simp add: decodes_to_def decode_string_def)
  have e: "list_all2 (encodes_to (env_lib echo_env) (connection_type 0 (echo_world ?chunks)))
      (concat ?batches) (concat ?ess)"
    by (simp add: encodes_to_def encode_string_def echo_world_connection)
  have s: "serve (\<lambda>fd m n. Inr ([m], n + 1)) 7 (concat ?batches) (w_app (echo_world ?chunks)) =
      Inr (concat ?batches, 3)"
    by (simp add: echo_world_def)
  have i: "sim_in (w_kernel (echo_world ?chunks)) = map (\<lambda>es. concat (map (frame_message False) es)) ?ess"
    unfolding f by (simp add: echo_world_def)
  have l: "\<forall>c \<in> set (sim_in (w_kernel (echo_world ?chunks))). length c \<le> BUFFER_SIZE"
    by (simp add: echo_world_def BUFFER_SIZE_def)
  have k: "serves (env_kernel echo_env) 7 sim_in sim_out"
    using sim_kernel_serves [of 3 7] by (simp add: echo_env_def)
  have cb: "cb_read (env_cbs echo_env) = Some (\<lambda>fd m n. Inr ([m], n + 1))" by (simp add: echo_env_def)
  have nb: "env_nb echo_env = False" "sim_out (w_kernel (echo_world ?chunks)) = []"
    by (simp_all add: echo_env_def echo_world_def)
  from server_conversation [OF k cb d echo_world_connection(1) i l s e] show ?thesis
    unfolding nb f(2) by auto
qed

text \<open>
  \<open>try_send\<close> is complete. Whatever is queued on a channel, and however much of the first
  message went out before, \<open>try_send\<close> ends, and exactly the rest has been sent, in order; the
  queue is empty, the offset is back at zero, and nothing else changes.
\<close>
theorem try_send_complete:
  assumes "serves (env_kernel env) fd inp out" and "registered fd p w"
    and "sendable_queue (tsq_queue q) off"
  shows "\<exists>k'. try_send env p (sending p q off k w) = Inr (sending p new_tsq 0 k' w) \<and>
     out k' = out k @ left_to_send (tsq_queue q) off \<and> inp k' = inp k"
  using try_send_all [OF _ _ assms(2,3)] assms(1) unfolding serves_def by blast

theorem try_send_complete_witness:
  "\<exists>k'. try_send echo_env 0 (sending 0 \<lparr>tsq_queue = [[1, 2, 3, 4, 5], [6]]\<rparr> 2 \<lparr>sim_in = [], sim_out = []\<rparr>
       (echo_world [])) = Inr (sending 0 new_tsq 0 k' (echo_world [])) \<and> sim_out k' = [3, 4, 5, 6]"
proof -
  have "serves (env_kernel echo_env) 7 sim_in sim_out"
    using sim_kernel_serves [of 3 7] by (simp add: echo_env_def)
  from try_send_complete [OF this echo_world_connection(3), of "\<lparr>tsq_queue = [[1, 2, 3, 4, 5], [6]]\<rparr>" 2
      "\<lparr>sim_in = [], sim_out = []\<rparr>" "[]"]
  show ?thesis by auto
qed

text \<open>
  A full socket. When \<open>send\<close> answers \<open>EAGAIN\<close>, \<open>try_send\<close> leaves the rest in the queue and
  returns; the comment says the rest waits for the next \<open>EPOLLOUT\<close>, but the event loop makes no
  task from an event that is not \<open>EPOLLIN\<close>, so that event sends nothing.
\<close>
theorem stalled_send:
  assumes "tsq_queue (ch_send_messages (channel_at p w)) = m # ms"
    and "k_send (env_kernel env) (ch_fd (channel_at p w)) (drop (ch_send_offset (channel_at p w)) m)
           (w_kernel w) = (Send_Again, k)"
  shows "try_send env p w = Inr (w\<lparr>w_kernel := k\<rparr>) \<and> read_tasks [(ch_fd (channel_at p w), EPOLLOUT)] = []"
proof -
  let ?ch = "channel_at p w"
  have "send_step env (ch_fd ?ch) p w = Inr (Given_Up, w\<lparr>w_kernel := k\<rparr>)"
    using assms tsq.front_Cons [OF assms(1)] by (simp add: send_step_def Let_def tsq_empty_def)
  then have "send_loop env (ch_fd ?ch) p w = Some (Inr (Given_Up, w\<lparr>w_kernel := k\<rparr>))"
    by (subst send_loop.simps) simp
  then show ?thesis by (simp add: try_send_def Let_def EPOLLOUT_def EPOLLIN_def)
qed

theorem stalled_send_witness:
  "try_send (echo_env\<lparr>env_kernel := (sim_kernel 3)\<lparr>k_send := (\<lambda>fd bs k. (Send_Again, k))\<rparr>\<rparr>) 0
     (sending 0 \<lparr>tsq_queue = [[1, 2]]\<rparr> 0 \<lparr>sim_in = [], sim_out = []\<rparr> (echo_world []))
   = Inr (sending 0 \<lparr>tsq_queue = [[1, 2]]\<rparr> 0 \<lparr>sim_in = [], sim_out = []\<rparr> (echo_world [])) \<and>
   read_tasks [(7, EPOLLOUT)] = []"
proof -
  let ?env = "echo_env\<lparr>env_kernel := (sim_kernel 3)\<lparr>k_send := (\<lambda>fd bs k. (Send_Again, k))\<rparr>\<rparr>"
  let ?w = "sending 0 \<lparr>tsq_queue = [[1, 2]]\<rparr> 0 \<lparr>sim_in = [], sim_out = []\<rparr> (echo_world [])"
  have p: "0 < length (heap (w_server (echo_world [])))" "ch_fd (channel_at 0 (echo_world [])) = 7"
    using echo_world_connection(3) [of "[]"] by (simp_all add: registered_def)
  from stalled_send [of 0 ?w "[1, 2]" "[]" ?env "\<lparr>sim_in = [], sim_out = []\<rparr>"] p have r: "try_send ?env 0 ?w = Inr ?w" and "EPOLLOUT AND EPOLLIN = 0"
    by (auto simp: sending_kernel EPOLLOUT_def EPOLLIN_def)
  then show ?thesis by simp
qed

text \<open>
  A new connection starts afresh. Whatever connections the server had, also under the same
  descriptor, \<open>handle_new_connections\<close> puts an accepted descriptor into the tables with a channel
  that has received nothing, has nothing to send, and uses the server's compression, and tells the
  application.
\<close>
theorem new_connection_fresh:
  assumes "sub_reactors (w_server w) \<noteq> []" and "length arr = BUFFER_SIZE"
    and "k_accept (env_kernel env) (listen_fd (w_server w)) (w_kernel w) = (Accepted fd, k1)"
    and "\<And>ep. k_epoll_ctl (env_kernel env) ep Ctl_Add fd (EPOLLIN OR EPOLLET) k1 = (True, k2)"
    and "\<And>lfd. k_accept (env_kernel env) lfd k2 = (Accept_Again, k3)"
  shows "\<exists>p w'. handle_new_connections env arr w = Inr w' \<and> connection fd p w' \<and>
     connection_type p w' = net_compression (w_server w) \<and> w_kernel w' = k3 \<and>
     w_app w' = notify (cb_connect (env_cbs env)) fd (w_app w)"
proof -
  from add_connection_ok [of "w\<lparr>w_kernel := k1\<rparr>" arr env fd k2] assms(1,2,4) obtain p w1 where
    w1: "add_connection env arr fd (w\<lparr>w_kernel := k1\<rparr>) = Inr w1" "connection fd p w1"
      "connection_type p w1 = net_compression (w_server w)" "w_kernel w1 = k2"
      "w_app w1 = notify (cb_connect (env_cbs env)) fd (w_app w)"
    by auto
  have "accept_loop env arr w1 = Some (Inr (w1\<lparr>w_kernel := k3\<rparr>))"
    by (subst accept_loop.simps) (simp add: w1(4) assms(5))
  then have "accept_loop env arr w = Some (Inr (w1\<lparr>w_kernel := k3\<rparr>))"
    by (subst accept_loop.simps) (simp add: assms(3) w1(1))
  with w1 show ?thesis
    by (intro exI [of _ p] exI [of _ "w1\<lparr>w_kernel := k3\<rparr>"]) (simp add: handle_new_connections_def)
qed

definition accept_kernel :: "sim kernel" where
  "accept_kernel = (sim_kernel 1)\<lparr>k_accept := (\<lambda>fd k. if sim_in k = [] then (Accept_Again, k)
     else (Accepted 7, k\<lparr>sim_in := []\<rparr>))\<rparr>"

theorem new_connection_fresh_witness:
  "\<exists>p w'. handle_new_connections (echo_env\<lparr>env_kernel := accept_kernel\<rparr>) (replicate BUFFER_SIZE 1)
      (sending 0 \<lparr>tsq_queue = [[1, 2]]\<rparr> 1 \<lparr>sim_in = [[]], sim_out = []\<rparr> (echo_world [])) = Inr w' \<and>
     connection 7 p w'"
proof -
  let ?w = "sending 0 \<lparr>tsq_queue = [[1, 2]]\<rparr> 1 \<lparr>sim_in = [[]], sim_out = []\<rparr> (echo_world [])"
  have "sub_reactors (w_server ?w) \<noteq> []" by (simp add: echo_world_def)
  from new_connection_fresh [OF this, of "replicate BUFFER_SIZE 1" "echo_env\<lparr>env_kernel := accept_kernel\<rparr>" 7
      "\<lparr>sim_in = [], sim_out = []\<rparr>" "\<lparr>sim_in = [], sim_out = []\<rparr>" "\<lparr>sim_in = [], sim_out = []\<rparr>"]
  show ?thesis by (auto simp: accept_kernel_def sim_kernel_def)
qed

text \<open>
  What the system documents of a descriptor after \<open>close\<close>: \<open>read\<close> and \<open>epoll_ctl\<close> fail on it (until
  a new connection gets its number).
\<close>

definition closed_descriptor :: "'k kernel \<Rightarrow> int \<Rightarrow> 'k \<Rightarrow> bool" where
  "closed_descriptor kern fd k \<longleftrightarrow>
     (\<forall>n. \<exists>k'. k_read kern fd n k = (Read_Error EBADF, k') \<and> (\<forall>ep ev. \<not> fst (k_epoll_ctl kern ep Ctl_Del fd ev k')))"

text \<open>
  A second task for a connection that ends. When \<open>read\<close> reports the end, the descriptor leaves both
  tables and epoll, is closed, and the application is told. Another task for it that was already on its
  way to the executor (there is one for every event) then fails to read from the closed descriptor, closes it
  again, and throws out of the task, which ends the process.
\<close>
theorem second_task_throws:
  assumes "registered fd p w"
    and "k_read (env_kernel env) fd BUFFER_SIZE (w_kernel w) = (Eof, k1)"
    and "\<And>ep. k_epoll_ctl (env_kernel env) ep Ctl_Del fd 0 k1 = (True, k2)"
    and "closed_descriptor (env_kernel env) fd (k_close (env_kernel env) fd k2)"
  shows "\<exists>w'. read_data env fd w = Inr w' \<and> channels (w_server w') fd = None \<and>
     fd_location (w_server w') fd = None \<and> w_app w' = notify (cb_disconnect (env_cbs env)) fd (w_app w) \<and>
     read_data env fd w' = Inl (Runtime_Error ''Failed to remove _fd from epoll'')"
proof -
  from assms(1) obtain loc where l: "fd_location (w_server w) fd = Some loc"
    "loc < length (sub_reactors (w_server w))" "channels (w_server w) fd = Some (Some p)"
    by (auto simp: registered_def)
  from close_connection_ok [of "w\<lparr>w_kernel := k1\<rparr>" fd loc env k2] l assms(3) obtain w1 where
    w1: "close_connection env fd (w\<lparr>w_kernel := k1\<rparr>) = Inr w1" "channels (w_server w1) fd = None"
      "fd_location (w_server w1) fd = None" "w_kernel w1 = k_close (env_kernel env) fd k2"
      "w_app w1 = notify (cb_disconnect (env_cbs env)) fd (w_app w)" "sub_reactors (w_server w1) = sub_reactors (w_server w)"
    by auto
  have "read_loop env fd (Some p) w = Some (Inr (Closed, w1))"
    by (subst read_loop.simps) (simp add: read_step_def assms(2) w1(1))
  then have r: "read_data env fd w = Inr w1" by (simp add: read_data_def l(3))
  let ?w1 = "w1\<lparr>w_server := (w_server w1)\<lparr>channels := (channels (w_server w1))(fd \<mapsto> None)\<rparr>\<rparr>"
  from assms(4) obtain k3 where k3: "k_read (env_kernel env) fd BUFFER_SIZE (w_kernel w1) = (Read_Error EBADF, k3)"
    "\<And>ep. \<not> fst (k_epoll_ctl (env_kernel env) ep Ctl_Del fd 0 k3)" unfolding closed_descriptor_def w1(4) by blast
  have "remove_fd (env_kernel env) ep fd k3 = Inl (Runtime_Error ''Failed to remove _fd from epoll'')" for ep
    using k3(2) [of ep] by (cases "k_epoll_ctl (env_kernel env) ep Ctl_Del fd 0 k3") (simp add: remove_fd_def)
  moreover have "0 < length (sub_reactors (w_server w1))" using l(2) w1(6) by auto
  ultimately have "close_connection env fd (?w1\<lparr>w_kernel := k3\<rparr>) =
      Inl (Runtime_Error ''Failed to remove _fd from epoll'')"
    by (simp add: close_connection_def locate_def w1(3) sub_reactor_def)
  then have "read_loop env fd None ?w1 = Some (Inl (Runtime_Error ''Failed to remove _fd from epoll''))"
    by (subst read_loop.simps) (simp add: read_step_def k3(1))
  then have "read_data env fd w1 = Inl (Runtime_Error ''Failed to remove _fd from epoll'')"
    by (simp add: read_data_def w1(2))
  with r w1 show ?thesis by blast
qed

text \<open>A kernel with one connection, whose peer has closed it; \<open>sim_out\<close> is \<open>[1]\<close> once it is closed here.\<close>

definition ended_kernel :: "sim kernel" where
  "ended_kernel = (sim_kernel 3)\<lparr>
     k_read := (\<lambda>fd n k. if sim_out k = [1] then (Read_Error EBADF, k) else (Eof, k)),
     k_epoll_ctl := (\<lambda>ep op fd ev k. (sim_out k \<noteq> [1], k)), k_close := (\<lambda>fd k. k\<lparr>sim_out := [1]\<rparr>)\<rparr>"

theorem second_task_throws_witness:
  "\<exists>w'. read_data (echo_env\<lparr>env_kernel := ended_kernel\<rparr>) 7 (echo_world []) = Inr w' \<and>
     read_data (echo_env\<lparr>env_kernel := ended_kernel\<rparr>) 7 w' = Inl (Runtime_Error ''Failed to remove _fd from epoll'')"
proof -
  let ?env = "echo_env\<lparr>env_kernel := ended_kernel\<rparr>" and ?k = "\<lparr>sim_in = [], sim_out = []\<rparr> :: sim"
  have "k_read (env_kernel ?env) 7 BUFFER_SIZE (w_kernel (echo_world [])) = (Eof, ?k)"
    "\<And>ep. k_epoll_ctl (env_kernel ?env) ep Ctl_Del 7 0 ?k = (True, ?k)"
    "closed_descriptor (env_kernel ?env) 7 (k_close (env_kernel ?env) 7 ?k)"
    by (simp_all add: ended_kernel_def echo_world_def closed_descriptor_def)
  from second_task_throws [OF echo_world_connection(3) this] show ?thesis by blast
qed

text \<open>
  A machine with one processor. \<open>Rpc_Server\<close> makes half as many sub-reactors as there are
  processors; with none, the first connection divides by zero.
\<close>
theorem no_sub_reactors:
  assumes "sub_reactors (w_server w) = []"
    and "k_accept (env_kernel env) (listen_fd (w_server w)) (w_kernel w) = (Accepted fd, k1)"
  shows "handle_new_connections env arr w = Inl (Undefined ''modulo by zero'')"
proof -
  have "add_connection env arr fd (w\<lparr>w_kernel := k1\<rparr>) = Inl (Undefined ''modulo by zero'')"
    using assms(1) by (simp add: add_connection_def Let_def)
  then have "accept_loop env arr w = Some (Inl (Undefined ''modulo by zero''))"
    by (subst accept_loop.simps) (simp add: assms(2))
  then show ?thesis by (simp add: handle_new_connections_def)
qed

theorem no_sub_reactors_witness:
  "\<exists>sv k. new_tcp_server accept_kernel 8080 (1 div 2) \<lparr>sim_in = [[]], sim_out = []\<rparr> = Inr (sv, k) \<and>
     handle_new_connections (echo_env\<lparr>env_kernel := accept_kernel\<rparr>) (replicate BUFFER_SIZE 0)
       \<lparr>w_server = sv, w_app = 0, w_kernel = k\<rparr> = Inl (Undefined ''modulo by zero'')"
proof -
  obtain sv where sv: "new_tcp_server accept_kernel 8080 (1 div 2) \<lparr>sim_in = [[]], sim_out = []\<rparr> =
      Inr (sv, \<lparr>sim_in = [[]], sim_out = []\<rparr>)" "sub_reactors sv = []"
    by (simp add: new_tcp_server_def new_reactor_def create_listen_socket_def add_fd_def
        accept_kernel_def sim_kernel_def)
  from no_sub_reactors [of "\<lparr>w_server = sv, w_app = 0, w_kernel = \<lparr>sim_in = [[]], sim_out = []\<rparr>\<rparr>"
      "echo_env\<lparr>env_kernel := accept_kernel\<rparr>" 7 "\<lparr>sim_in = [], sim_out = []\<rparr>" "replicate BUFFER_SIZE 0"] sv
  show ?thesis by (simp add: accept_kernel_def)
qed

end
