(* ===== verification/Interleaving.thy ===== *)
theory Interleaving
  imports Prelude
begin

text \<open>
  Tasks that work on one state in turns. \<open>step r w\<close> is what a task at position \<open>r\<close> does next with the
  state \<open>w\<close>; a schedule lists whose step is next. A guard may forbid a step; a step that is not \<open>busy\<close>
  changes nothing.
\<close>

fun interleave :: "('r \<Rightarrow> 'w \<Rightarrow> ('r \<times> 'w) result) \<Rightarrow> nat list \<Rightarrow> 'r list \<Rightarrow> 'w \<Rightarrow> ('r list \<times> 'w) result" where
  "interleave step [] rs w = Inr (rs, w)"
| "interleave step (i # is) rs w =
     (if i < length rs
      then bindE (step (rs ! i) w) (\<lambda>(r, w1). interleave step is (rs[i := r]) w1)
      else interleave step is rs w)"

fun guarded :: "('r list \<Rightarrow> nat \<Rightarrow> bool) \<Rightarrow> ('r \<Rightarrow> 'w \<Rightarrow> ('r \<times> 'w) result) \<Rightarrow> nat list \<Rightarrow> 'r list \<Rightarrow> 'w \<Rightarrow> bool"
where
  "guarded may step [] rs w \<longleftrightarrow> True"
| "guarded may step (i # is) rs w \<longleftrightarrow>
     (if i < length rs
      then may rs i \<and> (case step (rs ! i) w of Inl e \<Rightarrow> True | Inr (r, w1) \<Rightarrow> guarded may step is (rs[i := r]) w1)
      else guarded may step is rs w)"

text \<open>The number of busy steps.\<close>

fun effort :: "('r \<Rightarrow> 'w \<Rightarrow> bool) \<Rightarrow> ('r \<Rightarrow> 'w \<Rightarrow> ('r \<times> 'w) result) \<Rightarrow> nat list \<Rightarrow> 'r list \<Rightarrow> 'w \<Rightarrow> nat"
where
  "effort busy step [] rs w = 0"
| "effort busy step (i # is) rs w =
     (if i < length rs
      then (if busy (rs ! i) w then 1 else 0) +
        (case step (rs ! i) w of Inl e \<Rightarrow> 0 | Inr (r, w1) \<Rightarrow> effort busy step is (rs[i := r]) w1)
      else effort busy step is rs w)"

text \<open>
  What the tasks have in hand at their first steps (\<open>xs\<close>, \<open>None\<close> for a task that is past it), in the order in
  which a schedule lets them take these steps.
\<close>

fun first_steps :: "'a option list \<Rightarrow> nat list \<Rightarrow> 'a list" where
  "first_steps xs [] = []"
| "first_steps xs (i # is) =
     (if i < length xs
      then (case xs ! i of None \<Rightarrow> [] | Some a \<Rightarrow> [a]) @ first_steps (xs[i := None]) is
      else first_steps xs is)"

lemma interleave_append:
  "interleave step (is @ is') rs w =
     bindE (interleave step is rs w) (\<lambda>(rs1, w1). interleave step is' rs1 w1)"
proof (induction "is" arbitrary: rs w)
  case (Cons i "is")
  then show ?case by (cases "step (rs ! i) w") auto
qed simp

lemma guarded_append:
  "guarded may step (is @ is') rs w \<longleftrightarrow> guarded may step is rs w \<and>
     (case interleave step is rs w of Inl e \<Rightarrow> True | Inr (rs1, w1) \<Rightarrow> guarded may step is' rs1 w1)"
proof (induction "is" arbitrary: rs w)
  case (Cons i "is")
  then show ?case by (cases "step (rs ! i) w") auto
qed simp

lemma guarded_free: "guarded (\<lambda>_ _. True) step is rs w"
  by (induction "is" arbitrary: rs w) (auto split: sum.splits)

text \<open>
  Contracts of a step: under the guard it does not fail and keeps an invariant; and it makes a measure
  smaller if it is busy.
\<close>

locale kept_by_steps =
  fixes step :: "'r \<Rightarrow> 'w \<Rightarrow> ('r \<times> 'w) result" and may :: "'r list \<Rightarrow> nat \<Rightarrow> bool"
    and inv :: "'r list \<Rightarrow> 'w \<Rightarrow> bool"
  assumes step_kept: "inv rs w \<Longrightarrow> i < length rs \<Longrightarrow> may rs i \<Longrightarrow>
    \<exists>r w'. step (rs ! i) w = Inr (r, w') \<and> inv (rs[i := r]) w'"
begin

lemma interleaved:
  assumes "inv rs w" and "guarded may step is rs w"
  shows "\<exists>rs' w'. interleave step is rs w = Inr (rs', w') \<and> length rs' = length rs \<and> inv rs' w'"
  using assms
proof (induction "is" arbitrary: rs w)
  case (Cons i "is")
  show ?case
  proof (cases "i < length rs")
    case True
    with step_kept [of rs w i] Cons.prems obtain r w1 where
      s: "step (rs ! i) w = Inr (r, w1)" "inv (rs[i := r]) w1" by auto
    from Cons.IH [OF s(2)] Cons.prems(2) s(1) True show ?thesis by simp
  next
    case False
    with Cons show ?thesis by simp
  qed
qed auto

end

locale decreased_by_steps = kept_by_steps step may inv
  for step :: "'r \<Rightarrow> 'w \<Rightarrow> ('r \<times> 'w) result" and may :: "'r list \<Rightarrow> nat \<Rightarrow> bool" and inv :: "'r list \<Rightarrow> 'w \<Rightarrow> bool" +
  fixes busy :: "'r \<Rightarrow> 'w \<Rightarrow> bool" and left :: "'r list \<Rightarrow> 'w \<Rightarrow> nat"
  assumes step_left: "inv rs w \<Longrightarrow> i < length rs \<Longrightarrow> may rs i \<Longrightarrow> step (rs ! i) w = Inr (r, w') \<Longrightarrow>
    left (rs[i := r]) w' + (if busy (rs ! i) w then 1 else 0) \<le> left rs w"
begin

lemma bounded_effort:
  assumes "inv rs w" and "guarded may step is rs w" and "interleave step is rs w = Inr (rs', w')"
  shows "effort busy step is rs w + left rs' w' \<le> left rs w"
  using assms
proof (induction "is" arbitrary: rs w)
  case (Cons i "is")
  show ?case
  proof (cases "i < length rs")
    case True
    with step_kept [of rs w i] Cons.prems(1,2) obtain r w1 where
      s: "step (rs ! i) w = Inr (r, w1)" "inv (rs[i := r]) w1" by auto
    from Cons.IH [OF s(2)] Cons.prems(2,3) s(1) True
    have "effort busy step is (rs[i := r]) w1 + left rs' w' \<le> left (rs[i := r]) w1" by simp
    moreover have "left (rs[i := r]) w1 + (if busy (rs ! i) w then 1 else 0) \<le> left rs w"
      using step_left [OF Cons.prems(1) True _ s(1)] Cons.prems(2) True by simp
    ultimately show ?thesis using s(1) True by simp
  next
    case False
    with Cons show ?thesis by simp
  qed
qed simp

end

text \<open>
  An invariant with the history of the first steps: the steps keep it, and the history is what
  \<open>first_steps\<close> says.
\<close>

locale history_by_steps =
  fixes step :: "'r \<Rightarrow> 'w \<Rightarrow> ('r \<times> 'w) result" and start :: "'r \<Rightarrow> 'a option"
    and inv :: "'a list \<Rightarrow> 'r list \<Rightarrow> 'w \<Rightarrow> bool"
  assumes history_kept: "inv h rs w \<Longrightarrow> i < length rs \<Longrightarrow>
    \<exists>r w'. step (rs ! i) w = Inr (r, w') \<and> start r = None \<and>
      inv (h @ (case start (rs ! i) of None \<Rightarrow> [] | Some a \<Rightarrow> [a])) (rs[i := r]) w'"
begin

lemma with_history:
  assumes "inv h rs w"
  shows "\<exists>rs' w'. interleave step is rs w = Inr (rs', w') \<and> length rs' = length rs \<and>
     inv (h @ first_steps (map start rs) is) rs' w'"
  using assms
proof (induction "is" arbitrary: h rs w)
  case (Cons i "is")
  show ?case
  proof (cases "i < length rs")
    case True
    with history_kept [OF Cons.prems] obtain r w1 where
      s: "step (rs ! i) w = Inr (r, w1)" "start r = None"
        "inv (h @ (case start (rs ! i) of None \<Rightarrow> [] | Some a \<Rightarrow> [a])) (rs[i := r]) w1" by blast
    from Cons.IH [OF s(3)] s(1,2) True show ?thesis by (simp add: map_update)
  next
    case False
    with Cons show ?thesis by simp
  qed
qed auto

end

sublocale history_by_steps \<subseteq> kept: kept_by_steps step "\<lambda>_ _. True" "\<lambda>rs w. \<exists>h. inv h rs w"
  using history_kept by unfold_locales blast

end
