(* ===== verification/Concurrent_Reads.thy ===== *)
theory Concurrent_Reads
  imports Tcp_Server Interleaving
begin

text \<open>
  Several tasks that run \<open>Tcp_Server::read_data\<close> (\<open>Core/Tcp_Server.cpp\<close>) for one descriptor at the same
  time: a sub-reactor commits one for every event, and the events of a descriptor are edge-triggered, so
  a second can start before the first has ended. A task's \<open>read\<close>, its \<open>enqueue\<close> and each of its
  \<open>parse_message\<close> calls are a step; the steps of the tasks interleave. (The code does not protect
  \<open>parse_message\<close> as a whole; that it is one step here is the best that can happen.)

  The theory shows that one task alone is \<open>read_data\<close>, that any number of tasks serve every message once
  and in order as long as no task reads while another one holds bytes that it has not enqueued, and that
  without this condition messages are served in the wrong order.
\<close>

subsection \<open>Steps of a task\<close>

datatype reader = At_Read | Holding "byte list" | At_Parse | At_Last_Parse | Returned

fun reader_step :: "('d, 'a, 'k) tcp_env \<Rightarrow> int \<Rightarrow> nat option \<Rightarrow> reader \<Rightarrow> ('a, 'k) world \<Rightarrow>
    (reader \<times> ('a, 'k) world) result" where
  "reader_step env fd ptr At_Read w =
     (case k_read (env_kernel env) fd BUFFER_SIZE (w_kernel w) of
        (Read_Again, k) \<Rightarrow> Inr (At_Last_Parse, w\<lparr>w_kernel := k\<rparr>)
      | (Read_Error e, k) \<Rightarrow> bindE (close_connection env fd (w\<lparr>w_kernel := k\<rparr>)) (\<lambda>w1. Inr (Returned, w1))
      | (Eof, k) \<Rightarrow> bindE (close_connection env fd (w\<lparr>w_kernel := k\<rparr>)) (\<lambda>w1. Inr (Returned, w1))
      | (Bytes bs, k) \<Rightarrow> Inr (Holding bs, w\<lparr>w_kernel := k\<rparr>))"
| "reader_step env fd ptr (Holding bs) w =
     bindE (deref ptr) (\<lambda>p.
     bindE (enqueue bs (ch_read_buffer (channel_at p w))) (\<lambda>rb.
     Inr (At_Parse, put_channel p ((channel_at p w)\<lparr>ch_read_buffer := rb\<rparr>) w)))"
| "reader_step env fd ptr At_Parse w =
     bindE (deref ptr) (\<lambda>p. bindE (parse_and_run env p w) (\<lambda>w1. Inr (At_Read, w1)))"
| "reader_step env fd ptr At_Last_Parse w =
     bindE (deref ptr) (\<lambda>p. bindE (parse_and_run env p w) (\<lambda>w1. Inr (Returned, w1)))"
| "reader_step env fd ptr Returned w = Inr (Returned, w)"

fun holds :: "reader \<Rightarrow> bool" where
  "holds (Holding bs) \<longleftrightarrow> True"
| "holds r \<longleftrightarrow> False"

text \<open>No task reads while another holds bytes.\<close>

definition reads_alone :: "reader list \<Rightarrow> nat \<Rightarrow> bool" where
  "reads_alone rs i \<longleftrightarrow> (rs ! i = At_Read \<longrightarrow> list_all (\<lambda>r. \<not> holds r) rs)"

subsection \<open>One task alone\<close>

text \<open>A turn of the loop is one step, or three.\<close>

lemma read_step_alone:
  assumes "read_step env fd ptr w = Inr (out, w1)"
  shows "\<exists>n. interleave (reader_step env fd ptr) (replicate n 0) [At_Read] w =
     Inr ([case out of Read_On \<Rightarrow> At_Read | Drained \<Rightarrow> At_Last_Parse | Closed \<Rightarrow> Returned], w1)"
proof -
  obtain r k where r: "k_read (env_kernel env) fd BUFFER_SIZE (w_kernel w) = (r, k)"
    by (cases "k_read (env_kernel env) fd BUFFER_SIZE (w_kernel w)")
  show ?thesis
  proof (cases r)
    case (Bytes bs)
    with assms r have "interleave (reader_step env fd ptr) (replicate 3 0) [At_Read] w = Inr ([At_Read], w1) \<and> out = Read_On"
      by (auto simp: read_step_def Let_def bindE_eq_Inr numeral_3_eq_3 channel_at_def)
    then show ?thesis by auto
  qed (use assms r in \<open>auto simp: read_step_def bindE_eq_Inr intro!: exI [of _ 1]\<close>)
qed

lemma read_loop_alone:
  assumes "read_loop env fd ptr w = Some (Inr (out, w1))"
  shows "\<exists>n. interleave (reader_step env fd ptr) (replicate n 0) [At_Read] w =
     Inr ([if out = Drained then At_Last_Parse else Returned], w1)"
proof -
  have "\<forall>out w1. r = Inr (out, w1) \<longrightarrow> (\<exists>n. interleave (reader_step env fd ptr) (replicate n 0) [At_Read] w =
     Inr ([if out = Drained then At_Last_Parse else Returned], w1))"
    if ret: "read_loop env fd ptr w = Some r" for r
  proof (rule read_loop.raw_induct [where P = "\<lambda>env fd ptr w r. \<forall>out w1. r = Inr (out, w1) \<longrightarrow>
       (\<exists>n. interleave (reader_step env fd ptr) (replicate n 0) [At_Read] w =
          Inr ([if out = Drained then At_Last_Parse else Returned], w1))", OF _ ret])
    fix loop env fd ptr and w :: "('a, 'k) world" and r
    assume IH: "\<And>env fd ptr w r. loop env fd ptr w = Some r \<Longrightarrow>
        \<forall>out w1. r = Inr (out, w1) \<longrightarrow> (\<exists>n. interleave (reader_step env fd ptr) (replicate n 0) [At_Read] w =
          Inr ([if out = Drained then At_Last_Parse else Returned], w1))"
      and eq: "(case read_step env fd ptr w of Inl e \<Rightarrow> Some (Inl e)
        | Inr (out, w1) \<Rightarrow> (if out = Read_On then loop env fd ptr w1 else Some (Inr (out, w1)))) = Some r"
    show "\<forall>out w1. r = Inr (out, w1) \<longrightarrow> (\<exists>n. interleave (reader_step env fd ptr) (replicate n 0) [At_Read] w =
          Inr ([if out = Drained then At_Last_Parse else Returned], w1))"
    proof (cases "read_step env fd ptr w")
      case (Inr s)
      obtain o1 w2 where s: "s = (o1, w2)" by (cases s)
      from read_step_alone [of env fd ptr w o1 w2] Inr s obtain n where
        n: "interleave (reader_step env fd ptr) (replicate n 0) [At_Read] w =
          Inr ([case o1 of Read_On \<Rightarrow> At_Read | Drained \<Rightarrow> At_Last_Parse | Closed \<Rightarrow> Returned], w2)" by blast
      show ?thesis
      proof (cases "o1 = Read_On")
        case True
        with eq Inr s have "loop env fd ptr w2 = Some r" by simp
        note ih = IH [OF this]
        show ?thesis
        proof (intro allI impI)
          fix out w1
          assume "r = Inr (out, w1)"
          with ih obtain n' where "interleave (reader_step env fd ptr) (replicate n' 0) [At_Read] w2 =
              Inr ([if out = Drained then At_Last_Parse else Returned], w1)" by blast
          with n True show "\<exists>n. interleave (reader_step env fd ptr) (replicate n 0) [At_Read] w =
              Inr ([if out = Drained then At_Last_Parse else Returned], w1)"
            by (intro exI [of _ "n + n'"]) (simp add: replicate_add interleave_append)
        qed
      next
        case False
        with eq Inr s n show ?thesis by (cases o1) auto
      qed
    next
      case (Inl e)
      with eq have "r = Inl e" by simp
      then show ?thesis by simp
    qed
  qed
  with assms show ?thesis by blast
qed

lemma read_data_alone:
  assumes "channels (w_server w) fd = Some ptr" and "read_data env fd w = Inr w'"
  shows "\<exists>n. interleave (reader_step env fd ptr) (replicate n 0) [At_Read] w = Inr ([Returned], w')"
proof -
  from assms obtain out w1 where
    l: "read_loop env fd ptr w = Some (Inr (out, w1))"
      "(if out = Drained then bindE (deref ptr) (\<lambda>p. parse_and_run env p w1) else Inr w1) = Inr w'"
    by (auto simp: read_data_def bindE_eq_Inr split: option.splits)
  from read_loop_alone [OF l(1)] obtain n where
    n: "interleave (reader_step env fd ptr) (replicate n 0) [At_Read] w = Inr ([if out = Drained then At_Last_Parse else Returned], w1)"
    by blast
  show ?thesis
  proof (cases "out = Drained")
    case True
    with l(2) have "interleave (reader_step env fd ptr) (replicate 1 0) [At_Last_Parse] w1 = Inr ([Returned], w')"
      by (auto simp: bindE_eq_Inr)
    with n True have "interleave (reader_step env fd ptr) (replicate (n + 1) 0) [At_Read] w = Inr ([Returned], w')"
      unfolding replicate_add interleave_append by simp
    then show ?thesis by blast
  next
    case False
    with n l(2) show ?thesis by auto
  qed
qed

subsection \<open>Whole frames in the buffer\<close>

definition frames :: "bool \<Rightarrow> byte list list \<Rightarrow> byte list" where
  "frames nb es = concat (map (frame_message nb) es)"

lemma frames_append [simp]: "frames nb [] = []" "frames nb (es @ es') = frames nb es @ frames nb es'"
  by (simp_all add: frames_def)

definition buffered :: "bool \<Rightarrow> byte list list \<Rightarrow> int \<Rightarrow> nat \<Rightarrow> ('a, 'k) world \<Rightarrow> bool" where
  "buffered nb es fd p w \<longleftrightarrow> registered fd p w \<and> idle p w \<and> channel_ok (channel_at p w) \<and>
     ch_read_length (channel_at p w) = 0 \<and> tsq_queue (ch_read_messages (channel_at p w)) = [] \<and>
     received (channel_at p w) = frames nb es"

lemma connection_buffered: "connection fd p w = buffered nb [] fd p w"
  by (auto simp: connection_def buffered_def waiting_def)

lemma buffered_kernel [simp]:
  "buffered nb es fd p (w\<lparr>w_kernel := k\<rparr>) = buffered nb es fd p w"
  "buffered nb es fd p (w\<lparr>w_app := a\<rparr>) = buffered nb es fd p w"
  by (simp_all add: buffered_def idle_def)

lemma enqueue_step:
  assumes "buffered nb es fd p w" and "length (frames nb es) + length (frames nb es') \<le> BUFFER_SIZE"
  shows "\<exists>w'. reader_step env fd (Some p) (Holding (frames nb es')) w = Inr (At_Parse, w') \<and>
     buffered nb (es @ es') fd p w' \<and> w_app w' = w_app w \<and> w_kernel w' = w_kernel w \<and>
     connection_type p w' = connection_type p w"
proof -
  let ?ch = "channel_at p w"
  note b = assms(1) [unfolded buffered_def]
  from received_enqueue [of ?ch "frames nb es'"] b assms(2) obtain rb where
    rb: "enqueue (frames nb es') (ch_read_buffer ?ch) = Inr rb" "channel_ok (?ch\<lparr>ch_read_buffer := rb\<rparr>)"
      "received (?ch\<lparr>ch_read_buffer := rb\<rparr>) = frames nb es @ frames nb es'" by auto
  let ?w = "put_channel p (?ch\<lparr>ch_read_buffer := rb\<rparr>) w"
  have p: "p < length (heap (w_server w))" "ch_fd ?ch = fd" using b by (simp_all add: registered_def)
  have "registered fd p ?w" using registered_put [of fd p w "?ch\<lparr>ch_read_buffer := rb\<rparr>"] b p by simp
  then have "buffered nb (es @ es') fd p ?w" using b p rb(2,3) by (simp add: buffered_def idle_def)
  with rb(1) p show ?thesis by (intro exI [of _ ?w]) (simp add: deref_def connection_type_def)
qed

lemma parse_step:
  assumes kern: "serves (env_kernel env) fd inp out" and f: "cb_read (env_cbs env) = Some f"
    and b: "buffered nb es fd p w" and es: "list_all2 (decodes_to (env_lib env)) ms es"
    and s: "serve f fd ms (w_app w) = Inr (outs, app)"
    and os: "list_all2 (encodes_to (env_lib env) (connection_type p w)) outs os"
  shows "\<exists>w'. parse_and_run env p w = Inr w' \<and> buffered nb [] fd p w' \<and> w_app w' = app \<and>
     connection_type p w' = connection_type p w \<and> inp (w_kernel w') = inp (w_kernel w) \<and>
     out (w_kernel w') = out (w_kernel w) @ frames (env_nb env) os"
proof -
  let ?ch = "channel_at p w"
  note kern = kern [unfolded serves_def]
  note b = b [unfolded buffered_def]
  have p: "p < length (heap (w_server w))" "ch_fd ?ch = fd" using b by (simp_all add: registered_def)
  from parse_message_frames [OF es, of ?ch nb "[]" "env_nb env"] b obtain ch' where
    ch: "parse_message (env_lib env) (env_nb env) ?ch = Inr (ms, ch')" "channel_ok ch'" "ch_read_length ch' = 0"
      "received ch' = []" "tsq_queue (ch_read_messages ch') = []" "ch_send_messages ch' = ch_send_messages ?ch"
      "ch_fd ch' = ch_fd ?ch" "ch_compression ch' = ch_compression ?ch" "ch_send_offset ch' = ch_send_offset ?ch"
    by (auto simp: frames_def HEAD_LENGTH_def)
  let ?w1 = "put_channel p ch' w"
  have r: "registered fd p ?w1" using registered_put [of fd p w ch'] b ch(7) p by simp
  have i: "idle p ?w1" using b ch(6,9) p by (simp add: idle_def)
  have "list_all2 (encodes_to (env_lib env) (ch_compression (channel_at p ?w1))) outs os"
    using os ch(8) p by (simp add: connection_type_def)
  moreover have "serve f fd ms (w_app ?w1) = Inr (outs, app)" using s by simp
  ultimately obtain k where
    k: "run_callbacks env p ms ?w1 = Inr (?w1\<lparr>w_app := app, w_kernel := k\<rparr>)"
      "out k = out (w_kernel w) @ concat (map (frame_message (env_nb env)) os)" "inp k = inp (w_kernel w)"
    using run_callbacks_sends [OF conjunct1 [OF kern] _ f _ _ r i, of ms outs app os] kern by auto
  let ?w2 = "?w1\<lparr>w_app := app, w_kernel := k\<rparr>"
  have "buffered nb [] fd p ?w1" using r i ch(2-5) p by (simp add: buffered_def)
  then have "buffered nb [] fd p ?w2" by (simp only: buffered_kernel)
  moreover have "connection_type p ?w2 = connection_type p w"
    using ch(8) p by (simp only: connection_kernel) (simp add: connection_type_def)
  ultimately show ?thesis using ch(1) k
    by (intro exI [of _ ?w2]) (simp add: parse_and_run_def frames_def)
qed

subsection \<open>Exclusive reads\<close>

fun held :: "reader \<Rightarrow> byte list list" where
  "held (Holding bs) = [bs]"
| "held r = []"

text \<open>
  What is still to be served: the frames in the buffer, those a task holds, those to be read. Serving
  them leads to \<open>app\<close> and to the output \<open>sent\<close>.
\<close>

definition left_to_serve :: "('d, 'a, 'k) tcp_env \<Rightarrow> bool \<Rightarrow> int \<Rightarrow> nat \<Rightarrow>
    (int \<Rightarrow> byte list \<Rightarrow> 'a \<Rightarrow> (byte list list \<times> 'a) result) \<Rightarrow> ('k \<Rightarrow> byte list list) \<Rightarrow> ('k \<Rightarrow> byte list) \<Rightarrow>
    'a \<Rightarrow> byte list \<Rightarrow> byte list list list \<Rightarrow> byte list list list \<Rightarrow> byte list list list \<Rightarrow> ('a, 'k) world \<Rightarrow> bool" where
  "left_to_serve env nb fd p f inp out app sent eb eh ei w \<longleftrightarrow>
     (\<exists>batches outs os. list_all2 (list_all2 (decodes_to (env_lib env))) batches (eb @ eh @ ei) \<and>
       serve f fd (concat batches) (w_app w) = Inr (outs, app) \<and>
       list_all2 (encodes_to (env_lib env) (connection_type p w)) outs os \<and>
       out (w_kernel w) @ frames (env_nb env) os = sent) \<and>
     buffered nb (concat eb) fd p w \<and> inp (w_kernel w) = map (frames nb) ei \<and>
     length (frames nb (concat (eb @ eh @ ei))) \<le> BUFFER_SIZE"

lemma left_to_serveI:
  assumes "list_all2 (list_all2 (decodes_to (env_lib env))) batches (eb @ eh @ ei)"
    and "serve f fd (concat batches) (w_app w) = Inr (outs, app)"
    and "list_all2 (encodes_to (env_lib env) (connection_type p w)) outs os"
    and "out (w_kernel w) @ frames (env_nb env) os = sent"
    and "buffered nb (concat eb) fd p w" and "inp (w_kernel w) = map (frames nb) ei"
    and "length (frames nb (concat (eb @ eh @ ei))) \<le> BUFFER_SIZE"
  shows "left_to_serve env nb fd p f inp out app sent eb eh ei w"
  using assms unfolding left_to_serve_def by blast

definition readers_ok :: "bool \<Rightarrow> byte list list list \<Rightarrow> byte list list list \<Rightarrow> byte list list list \<Rightarrow> reader list \<Rightarrow> bool" where
  "readers_ok nb eb eh ei rs \<longleftrightarrow>
     concat (map held rs) = map (frames nb) eh \<and> length eh \<le> 1 \<and>
     (eb \<noteq> [] \<longrightarrow> At_Parse \<in> set rs) \<and> (At_Last_Parse \<in> set rs \<or> Returned \<in> set rs \<longrightarrow> ei = [])"

lemma left_to_serve_parse:
  assumes kern: "serves (env_kernel env) fd inp out" and f: "cb_read (env_cbs env) = Some f"
    and l: "left_to_serve env nb fd p f inp out app sent eb eh ei w"
  shows "\<exists>w'. parse_and_run env p w = Inr w' \<and> left_to_serve env nb fd p f inp out app sent [] eh ei w'"
proof -
  from l obtain batches outs os where
    b: "list_all2 (list_all2 (decodes_to (env_lib env))) batches (eb @ eh @ ei)"
      "serve f fd (concat batches) (w_app w) = Inr (outs, app)"
      "list_all2 (encodes_to (env_lib env) (connection_type p w)) outs os"
      "out (w_kernel w) @ frames (env_nb env) os = sent"
    and w: "buffered nb (concat eb) fd p w" "inp (w_kernel w) = map (frames nb) ei"
      "length (frames nb (concat (eb @ eh @ ei))) \<le> BUFFER_SIZE" by (auto simp: left_to_serve_def)
  from b(1) obtain b1 b2 where bs: "batches = b1 @ b2" "list_all2 (list_all2 (decodes_to (env_lib env))) b1 eb"
    "list_all2 (list_all2 (decodes_to (env_lib env))) b2 (eh @ ei)" by (auto simp: list_all2_append2)
  from bs(2) have d: "list_all2 (decodes_to (env_lib env)) (concat b1) (concat eb)"
    by (induction rule: list_all2_induct) (auto intro: list_all2_appendI)
  from b(2) obtain o1 a1 o2 where s: "serve f fd (concat b1) (w_app w) = Inr (o1, a1)"
    "serve f fd (concat b2) a1 = Inr (o2, app)" "outs = o1 @ o2" by (auto simp: bs(1) serve_append bindE_eq_Inr)
  from b(3) [unfolded s(3) list_all2_append1] obtain os1 os2 where os: "os = os1 @ os2"
    "list_all2 (encodes_to (env_lib env) (connection_type p w)) o1 os1"
    "list_all2 (encodes_to (env_lib env) (connection_type p w)) o2 os2" by blast
  from parse_step [OF kern f w(1) d s(1) os(2)] obtain w' where w': "parse_and_run env p w = Inr w'"
    "buffered nb [] fd p w'" "w_app w' = a1" "connection_type p w' = connection_type p w"
    "inp (w_kernel w') = inp (w_kernel w)" "out (w_kernel w') = out (w_kernel w) @ frames (env_nb env) os1" by blast
  have "left_to_serve env nb fd p f inp out app sent [] eh ei w'"
    by (rule left_to_serveI [where batches = b2 and outs = o2 and os = os2])
      (use bs(3) s(2) os(1,3) w' w(2,3) b(4) in simp_all)
  with w'(1) show ?thesis by blast
qed

lemma kernel_read:
  assumes "serves (env_kernel env) fd inp out"
  shows "\<exists>k. k_read (env_kernel env) fd BUFFER_SIZE (w_kernel w) =
      (case inp (w_kernel w) of [] \<Rightarrow> (Read_Again, k) | c # cs \<Rightarrow> (Bytes c, k)) \<and>
      inp k = tl (inp (w_kernel w)) \<and> out k = out (w_kernel w)"
  using assms unfolding serves_def reads_chunks_def by blast

lemma left_to_serve_read:
  assumes "serves (env_kernel env) fd inp out" and "left_to_serve env nb fd p f inp out app sent eb [] ei w"
  shows "case ei of
      [] \<Rightarrow> \<exists>w'. reader_step env fd ptr At_Read w = Inr (At_Last_Parse, w') \<and>
        left_to_serve env nb fd p f inp out app sent eb [] [] w'
    | e # es \<Rightarrow> \<exists>w'. reader_step env fd ptr At_Read w = Inr (Holding (frames nb e), w') \<and>
        left_to_serve env nb fd p f inp out app sent eb [e] es w'"
proof -
  from kernel_read [OF assms(1), of w] obtain k where
    k: "k_read (env_kernel env) fd BUFFER_SIZE (w_kernel w) =
      (case inp (w_kernel w) of [] \<Rightarrow> (Read_Again, k) | c # cs \<Rightarrow> (Bytes c, k))"
      "inp k = tl (inp (w_kernel w))" "out k = out (w_kernel w)" by blast
  have i: "inp (w_kernel w) = map (frames nb) ei" using assms(2) by (simp add: left_to_serve_def)
  show ?thesis
  proof (cases ei)
    case Nil
    with assms(2) k i show ?thesis by (auto simp: left_to_serve_def)
  next
    case (Cons e es)
    with assms(2) k i show ?thesis by (auto simp: left_to_serve_def)
  qed
qed

lemma left_to_serve_enqueue:
  assumes "left_to_serve env nb fd p f inp out app sent eb [e] ei w"
  shows "\<exists>w'. reader_step env fd (Some p) (Holding (frames nb e)) w = Inr (At_Parse, w') \<and>
     left_to_serve env nb fd p f inp out app sent (eb @ [e]) [] ei w'"
proof -
  have b: "buffered nb (concat eb) fd p w" "length (frames nb (concat eb)) + length (frames nb e) \<le> BUFFER_SIZE"
    using assms by (simp_all add: left_to_serve_def)
  from enqueue_step [OF b] obtain w' where w': "reader_step env fd (Some p) (Holding (frames nb e)) w = Inr (At_Parse, w')"
    "buffered nb (concat eb @ e) fd p w'" "w_app w' = w_app w" "w_kernel w' = w_kernel w"
    "connection_type p w' = connection_type p w" by blast
  with assms have "left_to_serve env nb fd p f inp out app sent (eb @ [e]) [] ei w'" by (simp add: left_to_serve_def)
  with w'(1) show ?thesis by blast
qed

lemma no_holder: "list_all (\<lambda>r. \<not> holds r) rs \<Longrightarrow> concat (map held rs) = []"
proof (induction rs)
  case (Cons r rs)
  then show ?case by (cases r) simp_all
qed simp

lemma readers_step:
  assumes kern: "serves (env_kernel env) fd inp out" and f: "cb_read (env_cbs env) = Some f"
    and l: "left_to_serve env nb fd p f inp out app sent eb eh ei w" and ok: "readers_ok nb eb eh ei rs"
    and i: "i < length rs" and ex: "rs ! i = At_Read \<longrightarrow> list_all (\<lambda>r. \<not> holds r) rs"
  shows "\<exists>r w' eb' eh' ei'. reader_step env fd (Some p) (rs ! i) w = Inr (r, w') \<and>
     left_to_serve env nb fd p f inp out app sent eb' eh' ei' w' \<and> readers_ok nb eb' eh' ei' (rs[i := r])"
proof -
  note ok = ok [unfolded readers_ok_def]
  have last: "ei = [] \<Longrightarrow> At_Last_Parse \<in> set (rs[i := r]) \<or> Returned \<in> set (rs[i := r]) \<longrightarrow> ei = []" for r by simp
  show ?thesis
  proof (cases "rs ! i")
    case At_Read
    with ex have none: "concat (map held rs) = []" using no_holder by blast
    with ok have eh: "eh = []" by simp
    obtain xs ys where xy: "concat (map held rs) = xs @ held (rs ! i) @ ys"
      "\<And>r. concat (map held (rs[i := r])) = xs @ held r @ ys" using concat_map_update [where f = held, OF i] none At_Read by auto
    then have n: "concat (map held (rs[i := r])) = held r" for r using none by simp
    show ?thesis
    proof (cases ei)
      case Nil
      with left_to_serve_read [OF kern, of nb p f app sent eb ei w "Some p"] l eh obtain w' where
        "reader_step env fd (Some p) At_Read w = Inr (At_Last_Parse, w')"
        "left_to_serve env nb fd p f inp out app sent eb [] [] w'" by auto
      moreover have "readers_ok nb eb [] [] (rs[i := At_Last_Parse])"
        using ok n kept_entry [of At_Parse rs i At_Last_Parse] At_Read by (auto simp: readers_ok_def)
      ultimately show ?thesis using At_Read by auto
    next
      case (Cons e es)
      with left_to_serve_read [OF kern, of nb p f app sent eb ei w "Some p"] l eh obtain w' where
        "reader_step env fd (Some p) At_Read w = Inr (Holding (frames nb e), w')"
        "left_to_serve env nb fd p f inp out app sent eb [e] es w'" by auto
      moreover have "readers_ok nb eb [e] es (rs[i := Holding (frames nb e)])"
        using ok n kept_entry [of At_Parse rs i] At_Read Cons updated_entry [of At_Last_Parse rs i]
          updated_entry [of Returned rs i] by (auto simp: readers_ok_def)
      ultimately show ?thesis using At_Read by auto
    qed
  next
    case (Holding c)
    obtain xs ys where xy: "concat (map held rs) = xs @ [c] @ ys" "concat (map held (rs[i := At_Parse])) = xs @ ys"
      using concat_map_update [where f = held, OF i, of At_Parse] Holding by auto
    with ok obtain e where e: "eh = [e]" "c = frames nb e" "xs = []" "ys = []" by (cases eh) (auto simp: append_eq_Cons_conv)
    from left_to_serve_enqueue [of env nb fd p f inp out app sent eb e ei w] l e(1) obtain w' where
      "reader_step env fd (Some p) (Holding (frames nb e)) w = Inr (At_Parse, w')"
      "left_to_serve env nb fd p f inp out app sent (eb @ [e]) [] ei w'" by auto
    moreover have "At_Parse \<in> set (rs[i := At_Parse])" using i by (simp add: set_update_memI)
    then have "readers_ok nb (eb @ [e]) [] ei (rs[i := At_Parse])"
      using ok xy(2) e(3,4) updated_entry [of At_Last_Parse rs i] updated_entry [of Returned rs i] by (auto simp: readers_ok_def)
    ultimately show ?thesis using Holding e(2) by auto
  next
    case At_Parse
    from left_to_serve_parse [OF kern f l] obtain w' where
      w': "parse_and_run env p w = Inr w'" "left_to_serve env nb fd p f inp out app sent [] eh ei w'" by blast
    have "readers_ok nb [] eh ei (rs[i := At_Read])"
      using ok concat_map_update [where f = held, OF i, of At_Read] At_Parse updated_entry [of At_Last_Parse rs i] updated_entry [of Returned rs i]
      by (auto simp: readers_ok_def)
    with w' At_Parse show ?thesis by (fastforce simp: deref_def)
  next
    case At_Last_Parse
    from left_to_serve_parse [OF kern f l] obtain w' where
      w': "parse_and_run env p w = Inr w'" "left_to_serve env nb fd p f inp out app sent [] eh ei w'" by blast
    have "ei = []" using ok At_Last_Parse i by (metis nth_mem)
    then have "readers_ok nb [] eh ei (rs[i := Returned])"
      using ok concat_map_update [where f = held, OF i, of Returned] At_Last_Parse by (auto simp: readers_ok_def)
    with w' At_Last_Parse show ?thesis by (fastforce simp: deref_def)
  next
    case Returned
    then have "rs[i := Returned] = rs" by (metis list_update_id)
    with Returned l assms(4) show ?thesis by (intro exI [of _ Returned] exI [of _ w]) auto
  qed
qed

definition readers_inv :: "('d, 'a, 'k) tcp_env \<Rightarrow> bool \<Rightarrow> int \<Rightarrow> nat \<Rightarrow>
    (int \<Rightarrow> byte list \<Rightarrow> 'a \<Rightarrow> (byte list list \<times> 'a) result) \<Rightarrow> ('k \<Rightarrow> byte list list) \<Rightarrow> ('k \<Rightarrow> byte list) \<Rightarrow>
    'a \<Rightarrow> byte list \<Rightarrow> reader list \<Rightarrow> ('a, 'k) world \<Rightarrow> bool" where
  "readers_inv env nb fd p f inp out app sent rs w \<longleftrightarrow>
     serves (env_kernel env) fd inp out \<and> cb_read (env_cbs env) = Some f \<and>
     (\<exists>eb eh ei. left_to_serve env nb fd p f inp out app sent eb eh ei w \<and> readers_ok nb eb eh ei rs)"

lemma readers_inv_step:
  assumes "readers_inv env nb fd p f inp out app sent rs w" and "i < length rs" and "reads_alone rs i"
  shows "\<exists>r w'. reader_step env fd (Some p) (rs ! i) w = Inr (r, w') \<and>
     readers_inv env nb fd p f inp out app sent (rs[i := r]) w'"
proof -
  from assms(1) obtain eb eh ei where i: "serves (env_kernel env) fd inp out" "cb_read (env_cbs env) = Some f"
    "left_to_serve env nb fd p f inp out app sent eb eh ei w" "readers_ok nb eb eh ei rs"
    unfolding readers_inv_def by blast
  from readers_step [OF i assms(2) assms(3) [unfolded reads_alone_def]] i(1,2) show ?thesis
    unfolding readers_inv_def by blast
qed

interpretation readers: kept_by_steps "reader_step env fd (Some p)" reads_alone
  "readers_inv env nb fd p f inp out app sent" for env nb fd p f inp out app sent
  by unfold_locales (rule readers_inv_step)

lemma all_returned:
  assumes "left_to_serve env nb fd p f inp out app sent eb eh ei w" and "readers_ok nb eb eh ei rs"
    and "rs \<noteq> []" and "list_all (\<lambda>r. r = Returned) rs"
  shows "connection fd p w \<and> w_app w = app \<and> inp (w_kernel w) = [] \<and> out (w_kernel w) = sent"
proof -
  have "Returned \<in> set rs" "At_Parse \<notin> set rs" using assms(3,4) by (cases rs; auto simp: list_all_iff)+
  moreover from assms(4) have "list_all (\<lambda>r. \<not> holds r) rs" by (auto simp: list_all_iff)
  then have "concat (map held rs) = []" by (rule no_holder)
  with assms(2) have "map (frames nb) eh = []" by (simp only: readers_ok_def)
  ultimately have "eb = []" "eh = []" "ei = []" using assms(2) by (auto simp: readers_ok_def)
  with assms(1) show ?thesis by (auto simp: left_to_serve_def connection_buffered [of fd p w nb])
qed

subsection \<open>Properties\<close>

text \<open>
  The steps are those of \<open>read_data\<close>. A task that runs alone, step by step, ends as the whole
  function does, with the same state of the server, the application and the kernel.
\<close>
theorem reader_alone:
  assumes "channels (w_server w) fd = Some ptr" and "read_data env fd w = Inr w'"
  shows "\<exists>n. interleave (reader_step env fd ptr) (replicate n 0) [At_Read] w = Inr ([Returned], w')"
  using read_data_alone [OF assms] .

theorem reader_alone_witness:
  "\<exists>n w'. interleave (reader_step echo_env 7 (Some 0)) (replicate n 0) [At_Read] (echo_world []) = Inr ([Returned], w')"
proof -
  have k: "serves (env_kernel echo_env) 7 sim_in sim_out"
    using sim_kernel_serves [of 3 7] by (simp add: echo_env_def)
  have cb: "cb_read (env_cbs echo_env) = Some (\<lambda>fd m n. Inr ([m], n + 1))" by (simp add: echo_env_def)
  have "w_app (echo_world []) = 0" "sim_in (w_kernel (echo_world [])) = []" by (simp_all add: echo_world_def)
  with read_data_chunks [OF k cb _ echo_world_connection(1), of "[]" "[]" "[]"]
  have "\<exists>w'. read_data echo_env 7 (echo_world []) = Inr w'" by auto
  then obtain w' where "read_data echo_env 7 (echo_world []) = Inr w'" ..
  from reader_alone [OF _ this, of "Some 0"] show ?thesis by (auto simp: echo_world_def)
qed

text \<open>
  Any number of tasks, exclusive reads. Let chunks of whole frames that fit the buffer together wait
  in the socket, and let any positive number of tasks run \<open>read_data\<close> for it in any order of their
  steps, but none read while another holds bytes that it has read and not enqueued. No step fails, and
  when all tasks have returned every message was served, once and in order, every answer is sent, in order,
  and the connection is as before.
\<close>
theorem exclusive_readers_serve:
  assumes "serves (env_kernel env) fd inp out" and "cb_read (env_cbs env) = Some f" and "connection fd p w"
    and "list_all2 (list_all2 (decodes_to (env_lib env))) batches ess"
    and "inp (w_kernel w) = map (frames nb) ess" and "length (frames nb (concat ess)) \<le> BUFFER_SIZE"
    and "serve f fd (concat batches) (w_app w) = Inr (outs, app)"
    and "list_all2 (encodes_to (env_lib env) (connection_type p w)) outs os"
    and "0 < n" and "guarded reads_alone (reader_step env fd (Some p)) is (replicate n At_Read) w"
  shows "\<exists>rs w'. interleave (reader_step env fd (Some p)) is (replicate n At_Read) w = Inr (rs, w') \<and>
     (list_all (\<lambda>r. r = Returned) rs \<longrightarrow> connection fd p w' \<and> w_app w' = app \<and> inp (w_kernel w') = [] \<and>
        out (w_kernel w') = out (w_kernel w) @ frames (env_nb env) os)"
proof -
  have l: "left_to_serve env nb fd p f inp out app (out (w_kernel w) @ frames (env_nb env) os) [] [] ess w"
    by (rule left_to_serveI [where batches = batches and outs = outs and os = os])
      (use assms(3-8) in \<open>simp_all add: connection_buffered [of fd p w nb]\<close>)
  have "concat (map held (replicate n At_Read)) = []" by (induction n) simp_all
  then have "readers_ok nb [] [] ess (replicate n At_Read)" by (simp add: readers_ok_def)
  with l assms(1,2) have
    "readers_inv env nb fd p f inp out app (out (w_kernel w) @ frames (env_nb env) os) (replicate n At_Read) w"
    unfolding readers_inv_def by blast
  from readers.interleaved [OF this assms(10)] obtain rs w' eb eh ei where
    r: "interleave (reader_step env fd (Some p)) is (replicate n At_Read) w = Inr (rs, w')" "length rs = n"
      "left_to_serve env nb fd p f inp out app (out (w_kernel w) @ frames (env_nb env) os) eb eh ei w'"
      "readers_ok nb eb eh ei rs" by (auto simp: readers_inv_def)
  have "rs \<noteq> []" using r(2) assms(9) by auto
  from all_returned [OF r(3,4) this] r(1) show ?thesis by blast
qed

text \<open>The messages of the examples: the frames of \<open>AB\<close> and of \<open>C\<close>, in a chunk each.\<close>

definition two_chunks :: "byte list list" where
  "two_chunks = [[3, 0, 0, 0, 0, 65, 66], [2, 0, 0, 0, 0, 67]]"

lemma two_chunks_facts:
  "map (frames False) [[[0, 65, 66]], [[0, 67]]] = two_chunks"
  "list_all2 (list_all2 (decodes_to (env_lib echo_env))) [[[65, 66]], [[67]]] [[[0, 65, 66]], [[0, 67]]]"
  "list_all2 (encodes_to (env_lib echo_env) (connection_type 0 (echo_world two_chunks))) [[65, 66], [67]] [[0, 65, 66], [0, 67]]"
  "list_all2 (encodes_to (env_lib echo_env) (connection_type 0 (echo_world two_chunks))) [[67], [65, 66]] [[0, 67], [0, 65, 66]]"
  "length (frames False (concat [[[0, 65, 66]], [[0, 67]]])) \<le> BUFFER_SIZE"
  "sim_in (w_kernel (echo_world two_chunks)) = two_chunks" "sim_out (w_kernel (echo_world two_chunks)) = []"
  "w_app (echo_world two_chunks) = 0"
proof -
  show "map (frames False) [[[0, 65, 66]], [[0, 67]]] = two_chunks"
    "length (frames False (concat [[[0, 65, 66]], [[0, 67]]])) \<le> BUFFER_SIZE"
    by (simp_all add: frames_def frame_message_eq word_bytes_def nat_bytes_4 two_chunks_def BUFFER_SIZE_def)
  show "list_all2 (list_all2 (decodes_to (env_lib echo_env))) [[[65, 66]], [[67]]] [[[0, 65, 66]], [[0, 67]]]"
    by (simp add: decodes_to_def decode_string_def)
  show "list_all2 (encodes_to (env_lib echo_env) (connection_type 0 (echo_world two_chunks))) [[65, 66], [67]] [[0, 65, 66], [0, 67]]"
    "list_all2 (encodes_to (env_lib echo_env) (connection_type 0 (echo_world two_chunks))) [[67], [65, 66]] [[0, 67], [0, 65, 66]]"
    by (simp_all add: encodes_to_def encode_string_def echo_world_connection)
  show "sim_in (w_kernel (echo_world two_chunks)) = two_chunks" "sim_out (w_kernel (echo_world two_chunks)) = []"
    "w_app (echo_world two_chunks) = 0" by (simp_all add: echo_world_def)
qed

lemma echo_serves:
  "serves (env_kernel echo_env) 7 sim_in sim_out" "cb_read (env_cbs echo_env) = Some (\<lambda>fd m n. Inr ([m], n + 1))"
  "env_nb echo_env = False"
  using sim_kernel_serves [of 3 7] by (simp_all add: echo_env_def)

theorem exclusive_readers_serve_witness:
  "\<exists>rs w'. interleave (reader_step echo_env 7 (Some 0)) [0, 0, 1] (replicate 2 At_Read) (echo_world two_chunks) = Inr (rs, w')"
proof -
  let ?w = "echo_world two_chunks" and ?c = "[3, 0, 0, 0, 0, 65, 66] :: byte list"
  have c: "frames False [[0, 65, 66]] = ?c" by (simp add: frames_def frame_message_eq word_bytes_def nat_bytes_4)
  have i: "sim_in (w_kernel ?w) = [?c, [2, 0, 0, 0, 0, 67]]" using two_chunks_facts(6) by (simp only: two_chunks_def)
  from kernel_read [OF echo_serves(1), of ?w] obtain k where
    k: "reader_step echo_env 7 (Some 0) At_Read ?w = Inr (Holding ?c, ?w\<lparr>w_kernel := k\<rparr>)"
    by (auto simp: i)
  have "buffered False [] 7 0 (?w\<lparr>w_kernel := k\<rparr>)"
    using echo_world_connection(1) [of two_chunks] by (simp add: connection_buffered [of _ _ _ False])
  from enqueue_step [OF this, of "[[0, 65, 66]]" echo_env] obtain w1 where
    w1: "reader_step echo_env 7 (Some 0) (Holding ?c) (?w\<lparr>w_kernel := k\<rparr>) = Inr (At_Parse, w1)"
    by (auto simp: c BUFFER_SIZE_def)
  have e: "guarded reads_alone (reader_step echo_env 7 (Some 0)) [0, 0, 1] (replicate 2 At_Read) ?w"
    using k w1 by (simp add: numeral_2_eq_2 reads_alone_def del: reader_step.simps split: sum.split)
  have sv: "serve (\<lambda>fd m n. Inr ([m], n + 1)) 7 (concat [[[65, 66]], [[67]]]) (w_app ?w) = Inr ([[65, 66], [67]], 2)"
    by (simp add: two_chunks_facts)
  have n: "sim_in (w_kernel ?w) = map (frames False) [[[0, 65, 66]], [[0, 67]]]" by (simp only: two_chunks_facts(1,6))
  have p: "0 < (2::nat)" by simp
  from exclusive_readers_serve [OF echo_serves(1,2) echo_world_connection(1) two_chunks_facts(2) n two_chunks_facts(5)
      sv two_chunks_facts(3) p e] show ?thesis by (elim exE conjE) (intro exI)
qed

text \<open>
  Two tasks without exclusion. Two chunks of whole frames wait in the socket. If one task reads the
  first and, before it enqueues it, another one reads, enqueues and parses the second, then the messages
  of the second chunk are served, and answered, before those of the first.
\<close>
theorem concurrent_reads_swap:
  assumes "serves (env_kernel env) fd inp out" and "cb_read (env_cbs env) = Some f" and "connection fd p w"
    and "list_all2 (decodes_to (env_lib env)) ms1 es1" "list_all2 (decodes_to (env_lib env)) ms2 es2"
    and "inp (w_kernel w) = [frames nb es1, frames nb es2]"
    and "length (frames nb es1) \<le> BUFFER_SIZE" "length (frames nb es2) \<le> BUFFER_SIZE"
    and "serve f fd (ms2 @ ms1) (w_app w) = Inr (outs, app)"
    and "list_all2 (encodes_to (env_lib env) (connection_type p w)) outs os"
  shows "\<exists>w'. interleave (reader_step env fd (Some p)) [0, 1, 1, 1, 0, 0] [At_Read, At_Read] w = Inr ([At_Read, At_Read], w') \<and>
     connection fd p w' \<and> w_app w' = app \<and> inp (w_kernel w') = [] \<and>
     out (w_kernel w') = out (w_kernel w) @ frames (env_nb env) os"
proof -
  from assms(9) obtain o2 a2 o1 where s: "serve f fd ms2 (w_app w) = Inr (o2, a2)" "serve f fd ms1 a2 = Inr (o1, app)"
    "outs = o2 @ o1" by (auto simp: serve_append bindE_eq_Inr)
  from assms(10) [unfolded s(3) list_all2_append1] obtain os2 os1 where os: "os = os2 @ os1"
    "list_all2 (encodes_to (env_lib env) (connection_type p w)) o2 os2"
    "list_all2 (encodes_to (env_lib env) (connection_type p w)) o1 os1" by blast
  from kernel_read [OF assms(1), of w] assms(6) obtain k1 where
    k1: "reader_step env fd (Some p) At_Read w = Inr (Holding (frames nb es1), w\<lparr>w_kernel := k1\<rparr>)"
      "inp k1 = [frames nb es2]" "out k1 = out (w_kernel w)" by auto
  from kernel_read [OF assms(1), of "w\<lparr>w_kernel := k1\<rparr>"] k1 obtain k2 where
    k2: "reader_step env fd (Some p) At_Read (w\<lparr>w_kernel := k1\<rparr>) = Inr (Holding (frames nb es2), w\<lparr>w_kernel := k2\<rparr>)"
      "inp k2 = []" "out k2 = out (w_kernel w)" by auto
  have b: "buffered nb [] fd p (w\<lparr>w_kernel := k2\<rparr>)" using assms(3) by (simp add: connection_buffered [of fd p w nb])
  from enqueue_step [OF b, of es2 env] assms(8) obtain w3 where
    w3: "reader_step env fd (Some p) (Holding (frames nb es2)) (w\<lparr>w_kernel := k2\<rparr>) = Inr (At_Parse, w3)"
      "buffered nb es2 fd p w3" "w_app w3 = w_app w" "w_kernel w3 = k2" "connection_type p w3 = connection_type p w" by auto
  from parse_step [OF assms(1,2) w3(2) assms(5), of o2 a2 os2] s(1) os(2) w3(3,5) obtain w4 where
    w4: "parse_and_run env p w3 = Inr w4" "buffered nb [] fd p w4" "w_app w4 = a2" "connection_type p w4 = connection_type p w"
      "inp (w_kernel w4) = inp k2" "out (w_kernel w4) = out k2 @ frames (env_nb env) os2" by (auto simp: w3(4))
  from enqueue_step [OF w4(2), of es1 env] assms(7) obtain w5 where
    w5: "reader_step env fd (Some p) (Holding (frames nb es1)) w4 = Inr (At_Parse, w5)"
      "buffered nb es1 fd p w5" "w_app w5 = a2" "w_kernel w5 = w_kernel w4" "connection_type p w5 = connection_type p w"
    using w4(3,4) by auto
  from parse_step [OF assms(1,2) w5(2) assms(4), of o1 app os1] s(2) os(3) w5(3,5) obtain w6 where
    w6: "parse_and_run env p w5 = Inr w6" "buffered nb [] fd p w6" "w_app w6 = app"
      "inp (w_kernel w6) = inp k2" "out (w_kernel w6) = out (w_kernel w) @ frames (env_nb env) os"
    using w4(5,6) k2(3) by (auto simp: w5(4) os(1))
  have "interleave (reader_step env fd (Some p)) [0, 1, 1, 1, 0, 0] [At_Read, At_Read] w = Inr ([At_Read, At_Read], w6)"
    using k1(1) k2(1) w3(1) w4(1) w5(1) w6(1) by (simp add: deref_def del: reader_step.simps(1,2))
  with w6 k2(2) show ?thesis by (auto simp: connection_buffered [of _ _ _ nb])
qed

theorem concurrent_reads_swap_witness:
  "\<exists>w'. interleave (reader_step echo_env 7 (Some 0)) [0, 1, 1, 1, 0, 0] [At_Read, At_Read] (echo_world two_chunks) =
       Inr ([At_Read, At_Read], w') \<and> sim_out (w_kernel w') = [2, 0, 0, 0, 0, 67, 3, 0, 0, 0, 0, 65, 66]"
proof -
  have s: "serve (\<lambda>fd m n. Inr ([m], n + 1)) 7 ([[67]] @ [[65, 66]]) (w_app (echo_world two_chunks)) =
      Inr ([[67], [65, 66]], 2)" by (simp add: two_chunks_facts)
  have d: "list_all2 (decodes_to (env_lib echo_env)) [[65, 66]] [[0, 65, 66]]"
    "list_all2 (decodes_to (env_lib echo_env)) [[67]] [[0, 67]]" using two_chunks_facts(2) by simp_all
  have i: "sim_in (w_kernel (echo_world two_chunks)) = [frames False [[0, 65, 66]], frames False [[0, 67]]]"
    using two_chunks_facts(1,6) by simp
  have l: "length (frames False [[0, 65, 66]]) \<le> BUFFER_SIZE" "length (frames False [[0, 67]]) \<le> BUFFER_SIZE"
    by (simp_all add: frames_def frame_message_eq word_bytes_def nat_bytes_4 BUFFER_SIZE_def)
  have f: "frames False [[0, 67], [0, 65, 66]] = [2, 0, 0, 0, 0, 67, 3, 0, 0, 0, 0, 65, 66]"
    by (simp add: frames_def frame_message_eq word_bytes_def nat_bytes_4)
  from concurrent_reads_swap [OF echo_serves(1,2) echo_world_connection(1) d i l s two_chunks_facts(4)]
  show ?thesis by (auto simp: echo_serves(3) f two_chunks_facts(7))
qed

end
