(* ===== verification/Split_Frames.thy ===== *)
theory Split_Frames
  imports Concurrent_Reads
begin

text \<open>
  \<open>Tcp_Server::read_data\<close> (\<open>Core/Tcp_Server.cpp\<close>) and \<open>Socket_Channel::parse_message\<close>
  (\<open>Core/Channel.cpp\<close>) in smaller steps than in \<open>Concurrent_Reads\<close>: each half of a turn of
  \<open>parse_message\<close>'s loop is a step of its own, so that another task can run in between, and a task
  that waits for the rest of a message spins instead of hanging. (The delivery loop at the end of
  \<open>parse_message\<close> stays one step.)

  The theory shows that a message that arrives in pieces is completed by the other tasks: however a
  stream of frames is cut into chunks, tasks in orderly turns serve every message once and in order, in a
  bounded number of steps, if there are at least as many of them as chunks. Without order between the
  halves of two turns, \<open>parse_message\<close> reads outside a buffer.
\<close>

subsection \<open>Steps of a task\<close>

text \<open>The flag of the later positions is true in the \<open>parse_message\<close> after \<open>EAGAIN\<close>, the last one.\<close>

datatype task = T_Read | T_Holds "byte list" | T_Head bool | T_Body bool | T_Deliver bool | T_Done

fun task_step :: "('d, 'a, 'k) tcp_env \<Rightarrow> int \<Rightarrow> nat option \<Rightarrow> task \<Rightarrow> ('a, 'k) world \<Rightarrow>
    (task \<times> ('a, 'k) world) result" where
  "task_step env fd ptr T_Read w =
     (case k_read (env_kernel env) fd BUFFER_SIZE (w_kernel w) of
        (Read_Again, k) \<Rightarrow> Inr (T_Head True, w\<lparr>w_kernel := k\<rparr>)
      | (Read_Error e, k) \<Rightarrow> bindE (close_connection env fd (w\<lparr>w_kernel := k\<rparr>)) (\<lambda>w1. Inr (T_Done, w1))
      | (Eof, k) \<Rightarrow> bindE (close_connection env fd (w\<lparr>w_kernel := k\<rparr>)) (\<lambda>w1. Inr (T_Done, w1))
      | (Bytes bs, k) \<Rightarrow> Inr (T_Holds bs, w\<lparr>w_kernel := k\<rparr>))"
| "task_step env fd ptr (T_Holds bs) w =
     bindE (deref ptr) (\<lambda>p.
     bindE (enqueue bs (ch_read_buffer (channel_at p w))) (\<lambda>rb.
     Inr (T_Head False, put_channel p ((channel_at p w)\<lparr>ch_read_buffer := rb\<rparr>) w)))"
| "task_step env fd ptr (T_Head l) w =
     bindE (deref ptr) (\<lambda>p.
     bindE (parse_head (env_nb env) (channel_at p w)) (\<lambda>next.
     Inr (case next of None \<Rightarrow> (T_Deliver l, w) | Some ch \<Rightarrow> (T_Body l, put_channel p ch w))))"
| "task_step env fd ptr (T_Body l) w =
     bindE (deref ptr) (\<lambda>p.
     bindE (parse_body (env_lib env) (channel_at p w)) (\<lambda>ch.
     Inr (T_Head l, put_channel p ch w)))"
| "task_step env fd ptr (T_Deliver l) w =
     bindE (deref ptr) (\<lambda>p.
     bindE (deliver (channel_at p w)) (\<lambda>(ms, ch).
     bindE (run_callbacks env p ms (put_channel p ch w)) (\<lambda>w1.
     Inr (if l then T_Done else T_Read, w1))))"
| "task_step env fd ptr T_Done w = Inr (T_Done, w)"

text \<open>A step that makes progress: any but a turn of a loop that finds the message incomplete.\<close>

fun progresses :: "nat \<Rightarrow> task \<Rightarrow> ('a, 'k) world \<Rightarrow> bool" where
  "progresses p (T_Head l) w \<longleftrightarrow> ch_read_length (channel_at p w) = 0"
| "progresses p (T_Body l) w \<longleftrightarrow> ch_read_length (channel_at p w) \<le> buf_size (ch_read_buffer (channel_at p w))"
| "progresses p T_Done w \<longleftrightarrow> False"
| "progresses p t w \<longleftrightarrow> True"

fun carried :: "task \<Rightarrow> byte list list" where
  "carried (T_Holds bs) = [bs]"
| "carried t = []"

fun in_turn :: "task \<Rightarrow> bool" where
  "in_turn (T_Body l) \<longleftrightarrow> True"
| "in_turn t \<longleftrightarrow> False"

text \<open>Order: no step between the halves of another task's turn, no read while another task holds bytes.\<close>

definition orderly :: "task list \<Rightarrow> nat \<Rightarrow> bool" where
  "orderly rs i \<longleftrightarrow> (\<forall>j < length rs. j \<noteq> i \<longrightarrow> \<not> in_turn (rs ! j)) \<and>
     (rs ! i = T_Read \<longrightarrow> concat (map carried rs) = [])"

subsection \<open>One task alone\<close>

text \<open>The loop of \<open>parse_message\<close> is steps of \<open>T_Head\<close> and \<open>T_Body\<close>.\<close>

lemma parse_loop_steps:
  fixes env :: "('d, 'a, 'k) tcp_env" and w :: "('a, 'k) world"
  assumes "parse_loop (env_lib env) (env_nb env) (channel_at p w) = Some (Inr ch)"
    and "p < length (heap (w_server w))"
  shows "\<exists>n. interleave (task_step env fd (Some p)) (replicate n 0) [T_Head l] w =
     Inr ([T_Deliver l], put_channel p ch w)"
proof -
  let ?P = "\<lambda>lib nb c r. \<forall>(w :: ('a, 'k) world) ch. lib = env_lib env \<longrightarrow> nb = env_nb env \<longrightarrow> c = channel_at p w \<longrightarrow>
       p < length (heap (w_server w)) \<longrightarrow> r = Inr ch \<longrightarrow>
       (\<exists>n. interleave (task_step env fd (Some p)) (replicate n 0) [T_Head l] w = Inr ([T_Deliver l], put_channel p ch w))"
  have "?P lib nb c r" if ret: "parse_loop lib nb c = Some r" for lib nb c r
  proof (rule parse_loop.raw_induct [where P = ?P, OF _ ret])
    fix loop lib nb c r
    assume IH: "\<And>lib nb c r. loop lib nb c = Some r \<Longrightarrow> ?P lib nb c r"
      and eq: "(case parse_head nb c of Inl e \<Rightarrow> Some (Inl e)
          | Inr next \<Rightarrow> (case next of None \<Rightarrow> Some (Inr c)
             | Some ch1 \<Rightarrow> (case parse_body lib ch1 of Inl e \<Rightarrow> Some (Inl e) | Inr ch2 \<Rightarrow> loop lib nb ch2))) = Some r"
    show "?P lib nb c r"
    proof (intro allI impI)
      fix w :: "('a, 'k) world" and ch
      assume h: "lib = env_lib env" "nb = env_nb env" "c = channel_at p w" "p < length (heap (w_server w))" "r = Inr ch"
      show "\<exists>n. interleave (task_step env fd (Some p)) (replicate n 0) [T_Head l] w =
          Inr ([T_Deliver l], put_channel p ch w)"
      proof (cases "parse_head nb c")
        case (Inr nxt)
        show ?thesis
        proof (cases nxt)
          case None
          with eq Inr h show ?thesis by (intro exI [of _ 1]) (auto simp: deref_def put_self)
        next
          case (Some ch1)
          with eq Inr h obtain ch2 where b: "parse_body lib ch1 = Inr ch2" "loop lib nb ch2 = Some r"
            by (auto split: sum.splits)
          from IH [OF b(2), rule_format, of "put_channel p ch2 w" ch] h obtain n where
            "interleave (task_step env fd (Some p)) (replicate n 0) [T_Head l] (put_channel p ch2 w) =
              Inr ([T_Deliver l], put_channel p ch w)" by auto
          with Inr Some b h show ?thesis by (intro exI [of _ "Suc (Suc n)"]) (simp add: deref_def)
        qed
      qed (use eq h in simp)
    qed
  qed
  from this [OF assms(1)] assms(2) show ?thesis by blast
qed

text \<open>A task that waits for bytes and has the connection for itself goes on doing so, and changes nothing.\<close>

lemma alone_waits:
  assumes "p < length (heap (w_server w))" and "ch_read_length (channel_at p w) \<noteq> 0"
    and "buf_size (ch_read_buffer (channel_at p w)) < ch_read_length (channel_at p w)" and "t = T_Head b \<or> t = T_Body b"
  shows "\<exists>t'. interleave (task_step env fd (Some p)) (replicate n 0) [t] w = Inr ([t'], w) \<and> (t' = T_Head b \<or> t' = T_Body b)"
  using assms(4)
proof (induction n arbitrary: t)
  case (Suc n)
  have "task_step env fd (Some p) (T_Head b) w = Inr (T_Body b, w)" "task_step env fd (Some p) (T_Body b) w = Inr (T_Head b, w)"
    using assms(2,3) by (simp_all add: deref_def parse_head_def parse_body_def put_self)
  with Suc.prems Suc.IH [of "T_Body b"] Suc.IH [of "T_Head b"] show ?case by (auto simp del: task_step.simps)
qed simp

fun as_task :: "reader \<Rightarrow> task" where
  "as_task At_Read = T_Read"
| "as_task (Holding bs) = T_Holds bs"
| "as_task At_Parse = T_Head False"
| "as_task At_Last_Parse = T_Head True"
| "as_task Returned = T_Done"

text \<open>A step of \<open>Concurrent_Reads\<close> is one or several steps here.\<close>

lemma reader_steps_task:
  assumes "reader_step env fd (Some p) r w = Inr (r', w')" and "p < length (heap (w_server w))"
  shows "\<exists>n. interleave (task_step env fd (Some p)) (replicate n 0) [as_task r] w = Inr ([as_task r'], w')"
proof -
  have parse: "\<exists>n. interleave (task_step env fd (Some p)) (replicate n 0) [T_Head l] w =
      Inr ([if l then T_Done else T_Read], w')" if pr: "parse_and_run env p w = Inr w'" for l
  proof -
    from pr obtain ch ms ch' where c: "parse_loop (env_lib env) (env_nb env) (channel_at p w) = Some (Inr ch)"
      "deliver ch = Inr (ms, ch')" "run_callbacks env p ms (put_channel p ch' w) = Inr w'"
      by (auto simp: parse_and_run_def parse_message_def bindE_eq_Inr split: option.splits)
    from parse_loop_steps [OF c(1) assms(2)] obtain n where
      n: "interleave (task_step env fd (Some p)) (replicate n 0) [T_Head l] w = Inr ([T_Deliver l], put_channel p ch w)"
      by blast
    have "interleave (task_step env fd (Some p)) (replicate (n + 1) 0) [T_Head l] w =
        Inr ([if l then T_Done else T_Read], w')"
      unfolding replicate_add interleave_append using n c(2,3) assms(2) by (simp add: deref_def)
    then show ?thesis by blast
  qed
  show ?thesis
  proof (cases r)
    case At_Read
    with assms(1) show ?thesis
      by (intro exI [of _ 1]) (auto simp: bindE_eq_Inr split: read_result.splits prod.splits)
  next
    case (Holding bs)
    with assms(1) show ?thesis by (intro exI [of _ 1]) (auto simp: bindE_eq_Inr)
  next
    case At_Parse
    with assms(1) parse [of False] show ?thesis by (auto simp: bindE_eq_Inr deref_def)
  next
    case At_Last_Parse
    with assms(1) parse [of True] show ?thesis by (auto simp: bindE_eq_Inr deref_def)
  next
    case Returned
    with assms(1) show ?thesis by (intro exI [of _ 0]) simp
  qed
qed

subsection \<open>The stream of a connection\<close>

text \<open>
  A channel in the middle of a stream: what its buffer holds and what is \<open>ahead\<close> of it are the frames
  \<open>es\<close> that are still to be parsed, the first of which may have lost its header already.
\<close>

definition stream_at :: "bool \<Rightarrow> byte list list \<Rightarrow> byte list \<Rightarrow> channel \<Rightarrow> bool" where
  "stream_at nb es ahead ch \<longleftrightarrow> channel_ok ch \<and> buf_size (ch_read_buffer ch) + length ahead \<le> BUFFER_SIZE \<and>
     (if ch_read_length ch = 0 then received ch @ ahead = frames nb es
      else \<exists>e es'. es = e # es' \<and> ch_read_length ch = length e \<and> received ch @ ahead = e @ frames nb es')"

lemma frames_Cons: "frames nb (e # es) = word_bytes (of_nat (length e) :: int32) @ e @ frames nb es"
  by (simp add: frames_def frame_message_eq)

lemma frames_short: "length (frames nb es) \<le> HEAD_LENGTH \<Longrightarrow> [] \<notin> set es \<Longrightarrow> es = []"
  by (cases es) (auto simp: frames_Cons HEAD_LENGTH_def)

lemma prefix_of_frame:
  assumes "bs @ ahead = xs @ ys" and "length xs \<le> length bs"
  shows "\<exists>rest. bs = xs @ rest \<and> rest @ ahead = ys"
  using assms by (auto simp: append_eq_append_conv2)

text \<open>The first half of a turn: the header, if there is one and it has not been taken.\<close>

lemma stream_head:
  assumes "stream_at nb es ahead ch" and "[] \<notin> set es"
  shows "parse_head nb' ch = Inr None \<and> ch_read_length ch = 0 \<and> buf_size (ch_read_buffer ch) \<le> HEAD_LENGTH \<or>
     (\<exists>rb n. parse_head nb' ch = Inr (Some (ch\<lparr>ch_read_buffer := rb, ch_read_length := n\<rparr>)) \<and> n \<noteq> 0 \<and>
        stream_at nb es ahead (ch\<lparr>ch_read_buffer := rb, ch_read_length := n\<rparr>) \<and>
        (if ch_read_length ch = 0 then buf_size rb < buf_size (ch_read_buffer ch)
         else rb = ch_read_buffer ch \<and> n = ch_read_length ch))"
proof (cases "ch_read_length ch = 0")
  case False
  then have "ch\<lparr>ch_read_buffer := ch_read_buffer ch, ch_read_length := ch_read_length ch\<rparr> = ch" by simp
  with False assms(1) show ?thesis
    by (intro disjI2 exI [of _ "ch_read_buffer ch"] exI [of _ "ch_read_length ch"]) (simp add: parse_head_def)
next
  case True
  note s = assms(1) [unfolded stream_at_def]
  show ?thesis
  proof (cases "buf_size (ch_read_buffer ch) \<le> HEAD_LENGTH")
    case False
    from s True have r: "received ch @ ahead = frames nb es" by simp
    then have "es \<noteq> []" using False by (auto simp flip: length_received)
    then obtain e es' where es: "es = e # es'" by (cases es) auto
    have l: "HEAD_LENGTH < length (received ch)" using False by simp
    from prefix_of_frame [OF r [unfolded es frames_Cons]] l obtain rest where
      rest: "received ch = word_bytes (of_nat (length e) :: int32) @ rest" "rest @ ahead = e @ frames nb es'"
      by (auto simp: HEAD_LENGTH_def)
    have n: "rest \<noteq> []" using l rest(1) by (auto simp: HEAD_LENGTH_def)
    have "length (e @ frames nb es') \<le> BUFFER_SIZE"
      using s arg_cong [OF rest(1), of length] unfolding rest(2) [symmetric] by simp
    then have "length e < 2 ^ 31" by (simp add: BUFFER_SIZE_def)
    from parse_head_length [OF _ True rest(1) n this, of nb'] s obtain rb where
      rb: "parse_head nb' ch = Inr (Some (ch\<lparr>ch_read_buffer := rb, ch_read_length := length e\<rparr>))" "buffer_ok rb"
        "buffer_items rb = rest" "buffer_capacity rb = BUFFER_SIZE" by blast
    have "buf_size rb < buf_size (ch_read_buffer ch)"
      using arg_cong [OF rest(1), of length] arg_cong [OF rb(3), of length] by simp
    moreover have "length e \<noteq> 0" using assms(2) es by auto
    ultimately show ?thesis using rb s rest(2) es
      by (intro disjI2 exI [of _ rb] exI [of _ "length e"]) (simp add: stream_at_def channel_ok_def received_def True)
  qed (use True in \<open>simp add: parse_head_def\<close>)
qed

text \<open>The second half: a message, if all of it is there.\<close>

lemma stream_body:
  assumes "stream_at nb es ahead ch" and "list_all2 (decodes_to lib) ms es" and "ch_read_length ch \<noteq> 0"
  shows "buf_size (ch_read_buffer ch) < ch_read_length ch \<and> parse_body lib ch = Inr ch \<or>
     (\<exists>rb m ms' e es'. ch_read_length ch \<le> buf_size (ch_read_buffer ch) \<and> ms = m # ms' \<and> es = e # es' \<and>
        parse_body lib ch = Inr (ch\<lparr>ch_read_buffer := rb, ch_read_length := 0,
          ch_read_messages := tsq_push m (ch_read_messages ch)\<rparr>) \<and>
        stream_at nb es' ahead (ch\<lparr>ch_read_buffer := rb, ch_read_length := 0,
          ch_read_messages := tsq_push m (ch_read_messages ch)\<rparr>) \<and>
        buf_size rb < buf_size (ch_read_buffer ch))"
proof (cases "buf_size (ch_read_buffer ch) < ch_read_length ch")
  case False
  note s = assms(1) [unfolded stream_at_def]
  from s assms(3) obtain e es' where es: "es = e # es'" "ch_read_length ch = length e"
    "received ch @ ahead = e @ frames nb es'" by auto
  from assms(2) es(1) obtain m ms' where ms: "ms = m # ms'" "decodes_to lib m e" by (auto simp: list_all2_Cons2)
  from prefix_of_frame [OF es(3)] False es(2) obtain rest where
    rest: "received ch = e @ rest" "rest @ ahead = frames nb es'" by auto
  from parse_body_ready [OF _ rest(1) es(2)] ms(2) s obtain rb where
    rb: "parse_body lib ch = Inr (ch\<lparr>ch_read_buffer := rb, ch_read_length := 0,
          ch_read_messages := tsq_push m (ch_read_messages ch)\<rparr>)" "buffer_ok rb" "buffer_items rb = rest"
      "buffer_capacity rb = BUFFER_SIZE" by (auto simp: decodes_to_def)
  have l: "buf_size (ch_read_buffer ch) = length e + buf_size rb" "e \<noteq> []"
    using arg_cong [OF rest(1), of length] arg_cong [OF rb(3), of length] es(2) assms(3) by auto
  then have "buf_size rb < buf_size (ch_read_buffer ch)" by simp
  with rb s rest(2) es ms(1) False l(1) show ?thesis
    by (intro disjI2 exI [of _ rb] exI [of _ m] exI [of _ ms'] exI [of _ e] exI [of _ es'])
      (simp add: stream_at_def channel_ok_def received_def)
qed (simp add: parse_body_def)

text \<open>More bytes.\<close>

lemma stream_enqueue:
  assumes "stream_at nb es (bs @ ahead) ch"
  shows "\<exists>rb. enqueue bs (ch_read_buffer ch) = Inr rb \<and> stream_at nb es ahead (ch\<lparr>ch_read_buffer := rb\<rparr>) \<and>
     buf_size rb = buf_size (ch_read_buffer ch) + length bs"
proof -
  note s = assms [unfolded stream_at_def]
  from received_enqueue [of ch bs] s obtain rb where
    rb: "enqueue bs (ch_read_buffer ch) = Inr rb" "channel_ok (ch\<lparr>ch_read_buffer := rb\<rparr>)"
      "received (ch\<lparr>ch_read_buffer := rb\<rparr>) = received ch @ bs" by auto
  have "buf_size rb = buf_size (ch_read_buffer ch) + length bs" using arg_cong [OF rb(3), of length] by simp
  with rb s show ?thesis by (intro exI [of _ rb]) (simp add: stream_at_def)
qed

text \<open>
  What is left to do for the tasks of a connection: \<open>carry\<close> are the chunks that tasks hold; serving what
  is queued, then what is in the buffer and ahead of it, leads to the final state and output.
\<close>

definition stream_left :: "('d, 'a, 'k) tcp_env \<Rightarrow> bool \<Rightarrow> int \<Rightarrow> nat \<Rightarrow>
    (int \<Rightarrow> byte list \<Rightarrow> 'a \<Rightarrow> (byte list list \<times> 'a) result) \<Rightarrow> ('k \<Rightarrow> byte list list) \<Rightarrow> ('k \<Rightarrow> byte list) \<Rightarrow>
    'a \<Rightarrow> byte list \<Rightarrow> byte list list \<Rightarrow> ('a, 'k) world \<Rightarrow> bool" where
  "stream_left env nb fd p f inp out app sent carry w \<longleftrightarrow> registered fd p w \<and> idle p w \<and>
     (\<exists>ms es outs os. list_all2 (decodes_to (env_lib env)) ms es \<and>
       stream_at nb es (concat carry @ concat (inp (w_kernel w))) (channel_at p w) \<and>
       serve f fd (tsq_queue (ch_read_messages (channel_at p w)) @ ms) (w_app w) = Inr (outs, app) \<and>
       list_all2 (encodes_to (env_lib env) (connection_type p w)) outs os \<and>
       out (w_kernel w) @ frames (env_nb env) os = sent)"

lemma stream_leftI:
  assumes "registered fd p w" "idle p w" "list_all2 (decodes_to (env_lib env)) ms es"
    and "stream_at nb es (concat carry @ concat (inp (w_kernel w))) (channel_at p w)"
    and "serve f fd (tsq_queue (ch_read_messages (channel_at p w)) @ ms) (w_app w) = Inr (outs, app)"
    and "list_all2 (encodes_to (env_lib env) (connection_type p w)) outs os"
    and "out (w_kernel w) @ frames (env_nb env) os = sent"
  shows "stream_left env nb fd p f inp out app sent carry w"
  using assms unfolding stream_left_def by blast

lemma stream_leftE:
  assumes "stream_left env nb fd p f inp out app sent carry w"
  obtains ms es outs os where "registered fd p w" "idle p w" "list_all2 (decodes_to (env_lib env)) ms es" "[] \<notin> set es"
    "stream_at nb es (concat carry @ concat (inp (w_kernel w))) (channel_at p w)"
    "serve f fd (tsq_queue (ch_read_messages (channel_at p w)) @ ms) (w_app w) = Inr (outs, app)"
    "list_all2 (encodes_to (env_lib env) (connection_type p w)) outs os"
    "out (w_kernel w) @ frames (env_nb env) os = sent" "p < length (heap (w_server w))"
proof -
  from assms obtain ms es outs os where h: "registered fd p w" "idle p w" "list_all2 (decodes_to (env_lib env)) ms es"
    "stream_at nb es (concat carry @ concat (inp (w_kernel w))) (channel_at p w)"
    "serve f fd (tsq_queue (ch_read_messages (channel_at p w)) @ ms) (w_app w) = Inr (outs, app)"
    "list_all2 (encodes_to (env_lib env) (connection_type p w)) outs os"
    "out (w_kernel w) @ frames (env_nb env) os = sent" unfolding stream_left_def by blast
  have "[] \<notin> set es" using h(3) by (induction rule: list_all2_induct) (auto simp: decodes_to_def)
  with h that show thesis by (simp add: registered_def)
qed

text \<open>The channel is replaced by one that differs in what concerns receiving only.\<close>

lemma stream_left_put:
  assumes w: "registered fd p w" "idle p w" and "list_all2 (decodes_to (env_lib env)) ms es"
    and "stream_at nb es (concat carry @ concat (inp (w_kernel w))) ch"
    and "serve f fd (tsq_queue (ch_read_messages ch) @ ms) (w_app w) = Inr (outs, app)"
    and "list_all2 (encodes_to (env_lib env) (connection_type p w)) outs os"
    and "out (w_kernel w) @ frames (env_nb env) os = sent"
    and ch: "ch_fd ch = ch_fd (channel_at p w)" "ch_compression ch = ch_compression (channel_at p w)"
      "ch_send_messages ch = ch_send_messages (channel_at p w)" "ch_send_offset ch = ch_send_offset (channel_at p w)"
  shows "stream_left env nb fd p f inp out app sent carry (put_channel p ch w)"
proof -
  have p: "p < length (heap (w_server w))" "ch_fd ch = fd" using w ch(1) by (simp_all add: registered_def)
  have "registered fd p (put_channel p ch w)" by (rule registered_put [OF w(1) p(2)])
  moreover have "idle p (put_channel p ch w)" using w(2) p(1) ch(3,4) by (simp add: idle_def)
  ultimately show ?thesis using assms(3-7) p(1) ch(2)
    by (intro stream_leftI [of _ _ _ _ ms es]) (simp_all add: connection_type_def)
qed

lemma stream_left_kernel:
  assumes "stream_left env nb fd p f inp out app sent carry w" and "out k = out (w_kernel w)"
    and "concat carry' @ concat (inp k) = concat carry @ concat (inp (w_kernel w))"
  shows "stream_left env nb fd p f inp out app sent carry' (w\<lparr>w_kernel := k\<rparr>)"
  using assms(1)
proof (rule stream_leftE)
  fix ms es outs os
  assume h: "registered fd p w" "idle p w" "list_all2 (decodes_to (env_lib env)) ms es"
    "stream_at nb es (concat carry @ concat (inp (w_kernel w))) (channel_at p w)"
    "serve f fd (tsq_queue (ch_read_messages (channel_at p w)) @ ms) (w_app w) = Inr (outs, app)"
    "list_all2 (encodes_to (env_lib env) (connection_type p w)) outs os"
    "out (w_kernel w) @ frames (env_nb env) os = sent"
  have i: "idle p (w\<lparr>w_kernel := k\<rparr>)" using h(2) by (simp add: idle_def)
  show ?thesis by (rule stream_leftI [OF _ i h(3)]) (use h assms(2) in \<open>simp_all add: assms(3)\<close>)
qed

subsection \<open>One step\<close>

lemma step_read:
  assumes "serves (env_kernel env) fd inp out" and "stream_left env nb fd p f inp out app sent [] w"
  shows "\<exists>k. task_step env fd ptr T_Read w =
       Inr (case inp (w_kernel w) of [] \<Rightarrow> T_Head True | c # cs \<Rightarrow> T_Holds c, w\<lparr>w_kernel := k\<rparr>) \<and>
     inp k = tl (inp (w_kernel w)) \<and>
     stream_left env nb fd p f inp out app sent (case inp (w_kernel w) of [] \<Rightarrow> [] | c # cs \<Rightarrow> [c]) (w\<lparr>w_kernel := k\<rparr>)"
proof -
  from kernel_read [OF assms(1), of w] obtain k where
    k: "k_read (env_kernel env) fd BUFFER_SIZE (w_kernel w) =
      (case inp (w_kernel w) of [] \<Rightarrow> (Read_Again, k) | c # cs \<Rightarrow> (Bytes c, k))"
      "inp k = tl (inp (w_kernel w))" "out k = out (w_kernel w)" by blast
  from stream_left_kernel [OF assms(2) k(3), of "case inp (w_kernel w) of [] \<Rightarrow> [] | c # cs \<Rightarrow> [c]"] k(1,2)
  show ?thesis by (intro exI [of _ k]) (auto split: list.splits)
qed

lemma step_holds:
  assumes "stream_left env nb fd p f inp out app sent [bs] w"
  shows "\<exists>w'. task_step env fd (Some p) (T_Holds bs) w = Inr (T_Head False, w') \<and>
     stream_left env nb fd p f inp out app sent [] w' \<and> w_kernel w' = w_kernel w \<and>
     ch_read_length (channel_at p w') = ch_read_length (channel_at p w) \<and>
     ch_read_messages (channel_at p w') = ch_read_messages (channel_at p w) \<and>
     buf_size (ch_read_buffer (channel_at p w')) = buf_size (ch_read_buffer (channel_at p w)) + length bs"
  using assms
proof (rule stream_leftE)
  fix ms es outs os
  assume h: "registered fd p w" "idle p w" "list_all2 (decodes_to (env_lib env)) ms es"
    "stream_at nb es (concat [bs] @ concat (inp (w_kernel w))) (channel_at p w)"
    "serve f fd (tsq_queue (ch_read_messages (channel_at p w)) @ ms) (w_app w) = Inr (outs, app)"
    "list_all2 (encodes_to (env_lib env) (connection_type p w)) outs os"
    "out (w_kernel w) @ frames (env_nb env) os = sent" and p: "p < length (heap (w_server w))"
  from stream_enqueue [of nb es bs "concat (inp (w_kernel w))" "channel_at p w"] h(4) obtain rb where
    rb: "enqueue bs (ch_read_buffer (channel_at p w)) = Inr rb"
      "stream_at nb es (concat (inp (w_kernel w))) ((channel_at p w)\<lparr>ch_read_buffer := rb\<rparr>)"
      "buf_size rb = buf_size (ch_read_buffer (channel_at p w)) + length bs" by auto
  have "stream_left env nb fd p f inp out app sent [] (put_channel p ((channel_at p w)\<lparr>ch_read_buffer := rb\<rparr>) w)"
    by (rule stream_left_put [OF h(1-3) _ _ h(6)]) (use rb(2) h(5,7) in simp_all)
  with rb(1,3) p show ?thesis by (simp add: deref_def)
qed

lemma step_head:
  assumes "stream_left env nb fd p f inp out app sent carry w"
  shows "\<exists>r w'. task_step env fd (Some p) (T_Head l) w = Inr (r, w') \<and>
     stream_left env nb fd p f inp out app sent carry w' \<and> w_kernel w' = w_kernel w \<and>
     ch_read_messages (channel_at p w') = ch_read_messages (channel_at p w) \<and>
     (r = T_Deliver l \<and> w' = w \<and> ch_read_length (channel_at p w) = 0 \<and>
        buf_size (ch_read_buffer (channel_at p w)) \<le> HEAD_LENGTH \<or>
      r = T_Body l \<and> ch_read_length (channel_at p w') \<noteq> 0 \<and>
        (if ch_read_length (channel_at p w) = 0
         then buf_size (ch_read_buffer (channel_at p w')) < buf_size (ch_read_buffer (channel_at p w)) else w' = w))"
  using assms
proof (rule stream_leftE)
  fix ms es outs os
  assume h: "registered fd p w" "idle p w" "list_all2 (decodes_to (env_lib env)) ms es"
    "stream_at nb es (concat carry @ concat (inp (w_kernel w))) (channel_at p w)"
    "serve f fd (tsq_queue (ch_read_messages (channel_at p w)) @ ms) (w_app w) = Inr (outs, app)"
    "list_all2 (encodes_to (env_lib env) (connection_type p w)) outs os"
    "out (w_kernel w) @ frames (env_nb env) os = sent" and p: "p < length (heap (w_server w))" and ne: "[] \<notin> set es"
  show ?thesis
  proof (cases "\<exists>ch. parse_head (env_nb env) (channel_at p w) = Inr (Some ch)")
    case False
    with stream_head [OF h(4) ne, of "env_nb env"] assms show ?thesis by (auto simp: deref_def)
  next
    case True
    with stream_head [OF h(4) ne, of "env_nb env"] obtain rb n where
      rb: "parse_head (env_nb env) (channel_at p w) = Inr (Some ((channel_at p w)\<lparr>ch_read_buffer := rb, ch_read_length := n\<rparr>))"
        "n \<noteq> 0" "stream_at nb es (concat carry @ concat (inp (w_kernel w)))
          ((channel_at p w)\<lparr>ch_read_buffer := rb, ch_read_length := n\<rparr>)"
        "if ch_read_length (channel_at p w) = 0 then buf_size rb < buf_size (ch_read_buffer (channel_at p w))
         else rb = ch_read_buffer (channel_at p w) \<and> n = ch_read_length (channel_at p w)" by auto
    let ?w = "put_channel p ((channel_at p w)\<lparr>ch_read_buffer := rb, ch_read_length := n\<rparr>) w"
    have "stream_left env nb fd p f inp out app sent carry ?w"
      by (rule stream_left_put [OF h(1-3) _ _ h(6)]) (use rb(3) h(5,7) in simp_all)
    moreover have "?w = w" if "ch_read_length (channel_at p w) \<noteq> 0"
    proof -
      have "(channel_at p w)\<lparr>ch_read_buffer := rb, ch_read_length := n\<rparr> = channel_at p w" using rb(4) that by simp
      then show ?thesis by (simp only: put_self)
    qed
    moreover have "task_step env fd (Some p) (T_Head l) w = Inr (T_Body l, ?w)" using rb(1) by (simp add: deref_def)
    ultimately show ?thesis using rb(2,4) p by (intro exI [of _ "T_Body l"] exI [of _ ?w]) (simp split: if_splits)
  qed
qed

lemma step_body:
  assumes "stream_left env nb fd p f inp out app sent carry w" and "ch_read_length (channel_at p w) \<noteq> 0"
  shows "\<exists>w'. task_step env fd (Some p) (T_Body l) w = Inr (T_Head l, w') \<and>
     stream_left env nb fd p f inp out app sent carry w' \<and> w_kernel w' = w_kernel w \<and>
     (if progresses p (T_Body l) w
      then ch_read_length (channel_at p w') = 0 \<and>
        buf_size (ch_read_buffer (channel_at p w')) < buf_size (ch_read_buffer (channel_at p w))
      else w' = w)"
  using assms(1)
proof (rule stream_leftE)
  fix ms es outs os
  assume h: "registered fd p w" "idle p w" "list_all2 (decodes_to (env_lib env)) ms es"
    "stream_at nb es (concat carry @ concat (inp (w_kernel w))) (channel_at p w)"
    "serve f fd (tsq_queue (ch_read_messages (channel_at p w)) @ ms) (w_app w) = Inr (outs, app)"
    "list_all2 (encodes_to (env_lib env) (connection_type p w)) outs os"
    "out (w_kernel w) @ frames (env_nb env) os = sent" and p: "p < length (heap (w_server w))"
  let ?ch = "channel_at p w"
  from stream_body [OF h(4,3) assms(2)] show ?thesis
  proof (elim disjE exE conjE)
    assume "buf_size (ch_read_buffer ?ch) < ch_read_length ?ch" "parse_body (env_lib env) ?ch = Inr ?ch"
    with assms show ?thesis by (simp add: deref_def put_self)
  next
    fix rb m ms' e es'
    assume b: "ch_read_length ?ch \<le> buf_size (ch_read_buffer ?ch)" "ms = m # ms'" "es = e # es'"
      "parse_body (env_lib env) ?ch = Inr (?ch\<lparr>ch_read_buffer := rb, ch_read_length := 0,
          ch_read_messages := tsq_push m (ch_read_messages ?ch)\<rparr>)"
      "stream_at nb es' (concat carry @ concat (inp (w_kernel w))) (?ch\<lparr>ch_read_buffer := rb, ch_read_length := 0,
          ch_read_messages := tsq_push m (ch_read_messages ?ch)\<rparr>)"
      "buf_size rb < buf_size (ch_read_buffer ?ch)"
    have d: "list_all2 (decodes_to (env_lib env)) ms' es'" using h(3) b(2,3) by simp
    have "stream_left env nb fd p f inp out app sent carry (put_channel p (?ch\<lparr>ch_read_buffer := rb, ch_read_length := 0,
          ch_read_messages := tsq_push m (ch_read_messages ?ch)\<rparr>) w)"
      by (rule stream_left_put [OF h(1,2) d _ _ h(6)]) (use b(2,5) h(5,7) in \<open>simp_all add: tsq.elems_push\<close>)
    with b(1,4,6) p show ?thesis by (simp add: deref_def)
  qed
qed

lemma step_deliver:
  assumes kern: "serves (env_kernel env) fd inp out" and f: "cb_read (env_cbs env) = Some f"
    and "stream_left env nb fd p f inp out app sent carry w"
  shows "\<exists>w'. task_step env fd (Some p) (T_Deliver l) w = Inr (if l then T_Done else T_Read, w') \<and>
     stream_left env nb fd p f inp out app sent carry w' \<and> inp (w_kernel w') = inp (w_kernel w) \<and>
     channel_at p w' = (channel_at p w)\<lparr>ch_read_messages := new_tsq\<rparr>"
  using assms(3)
proof (rule stream_leftE)
  fix ms es outs os
  assume h: "registered fd p w" "idle p w" "list_all2 (decodes_to (env_lib env)) ms es"
    "stream_at nb es (concat carry @ concat (inp (w_kernel w))) (channel_at p w)"
    "serve f fd (tsq_queue (ch_read_messages (channel_at p w)) @ ms) (w_app w) = Inr (outs, app)"
    "list_all2 (encodes_to (env_lib env) (connection_type p w)) outs os"
    "out (w_kernel w) @ frames (env_nb env) os = sent" and p: "p < length (heap (w_server w))"
  note kern = kern [unfolded serves_def]
  let ?ch = "channel_at p w"
  let ?c1 = "?ch\<lparr>ch_read_messages := new_tsq\<rparr>" and ?q = "tsq_queue (ch_read_messages ?ch)"
  let ?w1 = "put_channel p ?c1 w"
  from h(5) obtain o1 a1 o2 where s: "serve f fd ?q (w_app w) = Inr (o1, a1)" "serve f fd ms a1 = Inr (o2, app)"
    "outs = o1 @ o2" by (auto simp: serve_append bindE_eq_Inr)
  from h(6) [unfolded s(3) list_all2_append1] obtain os1 os2 where os: "os = os1 @ os2"
    "list_all2 (encodes_to (env_lib env) (connection_type p w)) o1 os1"
    "list_all2 (encodes_to (env_lib env) (connection_type p w)) o2 os2" by blast
  have "ch_fd ?c1 = fd" using h(1) by (simp add: registered_def)
  from registered_put [OF h(1) this] have r: "registered fd p ?w1" .
  have i: "idle p ?w1" using h(2) p by (simp add: idle_def)
  have "list_all2 (encodes_to (env_lib env) (ch_compression (channel_at p ?w1))) o1 os1"
    using os(2) p by (simp add: connection_type_def)
  from run_callbacks_sends [OF conjunct1 [OF kern] _ f _ this r i, of ?q a1] s(1) kern obtain k where
    k: "run_callbacks env p ?q ?w1 = Inr (?w1\<lparr>w_app := a1, w_kernel := k\<rparr>)"
      "out k = out (w_kernel w) @ frames (env_nb env) os1" "inp k = inp (w_kernel w)" by (auto simp: frames_def)
  let ?w2 = "w\<lparr>w_app := a1, w_kernel := k\<rparr>"
  have w2: "?w1\<lparr>w_app := a1, w_kernel := k\<rparr> = put_channel p ?c1 ?w2" "channel_at p ?w2 = ?ch" "connection_type p ?w2 = connection_type p w"
    "idle p ?w2 = idle p w" by (simp_all add: idle_def)
  have at: "stream_at nb es ahead ?c1 = stream_at nb es ahead ?ch" for ahead
    by (simp add: stream_at_def received_def channel_ok_def)
  have "stream_left env nb fd p f inp out app sent carry (put_channel p ?c1 ?w2)"
    by (rule stream_left_put [where ch = ?c1 and w = ?w2 and ms = ms and es = es and outs = o2 and os = os2])
      (use h s(2) os(1,3) k(2,3) w2(2-4) in \<open>simp_all add: at tsq.elems_empty\<close>)
  moreover have "task_step env fd (Some p) (T_Deliver l) w = Inr (if l then T_Done else T_Read, put_channel p ?c1 ?w2)"
    using k(1) by (simp add: deref_def deliver_all w2(1))
  moreover have "channel_at p (put_channel p ?c1 ?w2) = ?c1" using p by simp
  ultimately show ?thesis using k(3) by (intro exI [of _ "put_channel p ?c1 ?w2"]) simp
qed

subsection \<open>Where the tasks are\<close>

fun in_loop :: "task \<Rightarrow> bool" where
  "in_loop (T_Head l) \<longleftrightarrow> True"
| "in_loop (T_Body l) \<longleftrightarrow> True"
| "in_loop t \<longleftrightarrow> False"

fun before_delivery :: "task \<Rightarrow> bool" where
  "before_delivery (T_Deliver l) \<longleftrightarrow> True"
| "before_delivery t \<longleftrightarrow> in_loop t"

fun drained :: "task \<Rightarrow> bool" where
  "drained (T_Head l) \<longleftrightarrow> l"
| "drained (T_Body l) \<longleftrightarrow> l"
| "drained (T_Deliver l) \<longleftrightarrow> l"
| "drained T_Done \<longleftrightarrow> True"
| "drained t \<longleftrightarrow> False"

text \<open>
  At most one task holds a chunk and at most one is inside a turn; whoever is inside has taken a
  header; whatever can be parsed or delivered has a task that will do it; a task that found the socket
  empty was right; and a task that does not read has taken one of the \<open>N\<close> chunks.
\<close>

definition placed :: "nat \<Rightarrow> task list \<Rightarrow> nat \<Rightarrow> nat \<Rightarrow> byte list list \<Rightarrow> byte list list \<Rightarrow> bool" where
  "placed N rs len sz queue inputs \<longleftrightarrow>
     length (concat (map carried rs)) \<le> 1 \<and>
     (\<exists>k. \<forall>j < length rs. in_turn (rs ! j) \<longrightarrow> j = k) \<and>
     (list_ex in_turn rs \<longrightarrow> len \<noteq> 0) \<and>
     (len \<noteq> 0 \<or> HEAD_LENGTH < sz \<longrightarrow> list_ex in_loop rs) \<and>
     (queue \<noteq> [] \<longrightarrow> list_ex before_delivery rs) \<and>
     (list_ex drained rs \<longrightarrow> inputs = [] \<and> concat (map carried rs) = []) \<and>
     (inputs \<noteq> [] \<longrightarrow> length (filter (\<lambda>t. t \<noteq> T_Read) rs) + length inputs \<le> N)"

abbreviation other :: "(task \<Rightarrow> bool) \<Rightarrow> nat \<Rightarrow> task list \<Rightarrow> bool" where
  "other P i rs \<equiv> \<exists>j < length rs. j \<noteq> i \<and> P (rs ! j)"

lemma list_ex_split: "i < length rs \<Longrightarrow> list_ex P rs \<longleftrightarrow> P (rs ! i) \<or> other P i rs"
  by (auto simp: list_ex_length)

lemma list_ex_update: "i < length rs \<Longrightarrow> list_ex P (rs[i := r]) \<longleftrightarrow> P r \<or> other P i rs"
  by (subst list_ex_split [of i]) (auto simp: nth_list_update)

lemma placed_update:
  assumes "placed N rs len sz queue inputs" and i: "i < length rs" and "orderly rs i"
    and "in_turn r \<Longrightarrow> len' \<noteq> 0"
    and "len' \<noteq> 0 \<or> HEAD_LENGTH < sz' \<Longrightarrow> in_loop r \<or> other in_loop i rs"
    and "queue' \<noteq> [] \<Longrightarrow> before_delivery r \<or> other before_delivery i rs"
    and "drained r \<or> other drained i rs \<Longrightarrow> inputs' = [] \<and> concat (map carried (rs[i := r])) = []"
    and "length (concat (map carried (rs[i := r]))) \<le> 1"
    and "inputs' \<noteq> [] \<Longrightarrow> length (filter (\<lambda>t. t \<noteq> T_Read) (rs[i := r])) + length inputs' \<le> N"
  shows "placed N (rs[i := r]) len' sz' queue' inputs'"
proof -
  have "\<not> other in_turn i rs" using assms(3) by (auto simp: orderly_def)
  moreover have "\<forall>j < length (rs[i := r]). in_turn (rs[i := r] ! j) \<longrightarrow> j = i"
  proof (intro allI impI, rule ccontr)
    fix j
    assume "j < length (rs[i := r])" "in_turn (rs[i := r] ! j)" "j \<noteq> i"
    with assms(3) show False by (simp add: orderly_def)
  qed
  ultimately show ?thesis using assms(4-9) unfolding placed_def list_ex_update [OF i] by blast
qed

text \<open>Rank of a position: how many steps a task takes from there until it returns, if it reads nothing more.\<close>

fun rank :: "task \<Rightarrow> nat" where
  "rank T_Read = 3"
| "rank (T_Holds bs) = 6"
| "rank (T_Head l) = (if l then 2 else 5)"
| "rank (T_Body l) = (if l then 2 else 5)"
| "rank (T_Deliver l) = (if l then 1 else 4)"
| "rank T_Done = 0"

definition work_left :: "nat \<Rightarrow> ('k \<Rightarrow> byte list list) \<Rightarrow> task list \<Rightarrow> ('a, 'k) world \<Rightarrow> nat" where
  "work_left p inp rs w = sum_list (map rank rs) + 4 * length (inp (w_kernel w)) +
     buf_size (ch_read_buffer (channel_at p w)) + length (concat (concat (map carried rs))) +
     length (concat (inp (w_kernel w)))"

definition tasks_inv :: "('d, 'a, 'k) tcp_env \<Rightarrow> bool \<Rightarrow> int \<Rightarrow> nat \<Rightarrow>
    (int \<Rightarrow> byte list \<Rightarrow> 'a \<Rightarrow> (byte list list \<times> 'a) result) \<Rightarrow> ('k \<Rightarrow> byte list list) \<Rightarrow> ('k \<Rightarrow> byte list) \<Rightarrow>
    'a \<Rightarrow> byte list \<Rightarrow> nat \<Rightarrow> task list \<Rightarrow> ('a, 'k) world \<Rightarrow> bool" where
  "tasks_inv env nb fd p f inp out app sent N rs w \<longleftrightarrow>
     serves (env_kernel env) fd inp out \<and> cb_read (env_cbs env) = Some f \<and>
     stream_left env nb fd p f inp out app sent (concat (map carried rs)) w \<and>
     placed N rs (ch_read_length (channel_at p w)) (buf_size (ch_read_buffer (channel_at p w)))
       (tsq_queue (ch_read_messages (channel_at p w))) (inp (w_kernel w))"

lemma alone_carried:
  assumes "i < length rs" and "length (concat (map carried rs)) \<le> 1" and "rs ! i = T_Holds bs" and "carried r = []"
  shows "concat (map carried rs) = [bs]" and "concat (map carried (rs[i := r])) = []"
  using concat_map_update [OF assms(1), of carried r] assms(2-4) by auto

lemma same_carried: "carried (rs ! i) = carried r \<Longrightarrow> concat (map carried (rs[i := r])) = concat (map carried rs)"
  by (simp add: map_update_same)

lemma task_step_inv:
  assumes inv: "tasks_inv env nb fd p f inp out app sent N rs w" and i: "i < length rs" and o: "orderly rs i"
  shows "\<exists>r w'. task_step env fd (Some p) (rs ! i) w = Inr (r, w') \<and>
     tasks_inv env nb fd p f inp out app sent N (rs[i := r]) w' \<and>
     work_left p inp (rs[i := r]) w' + (if progresses p (rs ! i) w then 1 else 0) \<le> work_left p inp rs w"
proof -
  have kern: "serves (env_kernel env) fd inp out" and f: "cb_read (env_cbs env) = Some f"
    and l: "stream_left env nb fd p f inp out app sent (concat (map carried rs)) w"
    and pl: "placed N rs (ch_read_length (channel_at p w)) (buf_size (ch_read_buffer (channel_at p w)))
       (tsq_queue (ch_read_messages (channel_at p w))) (inp (w_kernel w))"
    using inv by (simp_all add: tasks_inv_def)
  note pl' = pl [unfolded placed_def list_ex_split [OF i]]
  have pd: "in_turn (rs ! i) \<Longrightarrow> ch_read_length (channel_at p w) \<noteq> 0"
    "ch_read_length (channel_at p w) \<noteq> 0 \<or> HEAD_LENGTH < buf_size (ch_read_buffer (channel_at p w)) \<Longrightarrow>
      in_loop (rs ! i) \<or> other in_loop i rs"
    "tsq_queue (ch_read_messages (channel_at p w)) \<noteq> [] \<Longrightarrow> before_delivery (rs ! i) \<or> other before_delivery i rs"
    "drained (rs ! i) \<or> other drained i rs \<Longrightarrow> inp (w_kernel w) = [] \<and> concat (map carried rs) = []"
    "inp (w_kernel w) \<noteq> [] \<Longrightarrow> length (filter (\<lambda>t. t \<noteq> T_Read) rs) + length (inp (w_kernel w)) \<le> N"
    "length (concat (map carried rs)) \<le> 1"
    using pl' by blast+
  note count = filter_update [OF i, of "\<lambda>t. t \<noteq> T_Read"] and ranks = sum_list_update_nat [OF i, of rank]
  note goal = tasks_inv_def kern f work_left_def
  show ?thesis
  proof (cases "rs ! i")
    case T_Read
    with o have c: "concat (map carried rs) = []" by (simp add: orderly_def)
    from step_read [OF kern l [unfolded c], of "Some p"] obtain k where
      k: "task_step env fd (Some p) T_Read w =
         Inr (case inp (w_kernel w) of [] \<Rightarrow> T_Head True | c # cs \<Rightarrow> T_Holds c, w\<lparr>w_kernel := k\<rparr>)"
        "inp k = tl (inp (w_kernel w))"
        "stream_left env nb fd p f inp out app sent (case inp (w_kernel w) of [] \<Rightarrow> [] | c # cs \<Rightarrow> [c]) (w\<lparr>w_kernel := k\<rparr>)"
      by blast
    show ?thesis
    proof (cases "inp (w_kernel w)")
      case Nil
      have c': "concat (map carried (rs[i := T_Head True])) = []" using same_carried [of rs i "T_Head True"] T_Read c by simp
      have "placed N (rs[i := T_Head True]) (ch_read_length (channel_at p w)) (buf_size (ch_read_buffer (channel_at p w)))
         (tsq_queue (ch_read_messages (channel_at p w))) []"
        by (rule placed_update [OF pl i o]) (simp_all add: c')
      then show ?thesis using k Nil T_Read ranks [of "T_Head True"] by (simp add: goal c c')
    next
      case (Cons d ds)
      from concat_map_update [OF i, of carried "T_Holds d"] T_Read c
      have c': "concat (map carried (rs[i := T_Holds d])) = [d]" by auto
      have "placed N (rs[i := T_Holds d]) (ch_read_length (channel_at p w)) (buf_size (ch_read_buffer (channel_at p w)))
         (tsq_queue (ch_read_messages (channel_at p w))) ds"
        by (rule placed_update [OF pl i o]) (use pd T_Read Cons count [of "T_Holds d"] in \<open>auto simp: c'\<close>)
      then show ?thesis using k Cons T_Read ranks [of "T_Holds d"] by (simp add: goal c c')
    qed
  next
    case (T_Holds bs)
    have c: "concat (map carried rs) = [bs]" "concat (map carried (rs[i := T_Head False])) = []"
      using alone_carried [OF i pd(6) T_Holds, of "T_Head False"] by (simp_all only: carried.simps)
    from step_holds [OF l [unfolded c(1)]] obtain w' where
      w': "task_step env fd (Some p) (T_Holds bs) w = Inr (T_Head False, w')"
        "stream_left env nb fd p f inp out app sent [] w'" "w_kernel w' = w_kernel w"
        "ch_read_length (channel_at p w') = ch_read_length (channel_at p w)"
        "ch_read_messages (channel_at p w') = ch_read_messages (channel_at p w)"
        "buf_size (ch_read_buffer (channel_at p w')) = buf_size (ch_read_buffer (channel_at p w)) + length bs" by blast
    have "placed N (rs[i := T_Head False]) (ch_read_length (channel_at p w'))
       (buf_size (ch_read_buffer (channel_at p w'))) (tsq_queue (ch_read_messages (channel_at p w'))) (inp (w_kernel w'))"
      by (rule placed_update [OF pl i o]) (use pd T_Holds w' count [of "T_Head False"] c in \<open>auto simp del: concat_eq_Nil_conv\<close>)
    then show ?thesis using w' T_Holds ranks [of "T_Head False"] by (simp add: goal c)
  next
    case (T_Head b)
    from step_head [OF l, of b] obtain r w' where
      w': "task_step env fd (Some p) (T_Head b) w = Inr (r, w')"
        "stream_left env nb fd p f inp out app sent (concat (map carried rs)) w'" "w_kernel w' = w_kernel w"
        "ch_read_messages (channel_at p w') = ch_read_messages (channel_at p w)"
        "r = T_Deliver b \<and> w' = w \<and> ch_read_length (channel_at p w) = 0 \<and>
          buf_size (ch_read_buffer (channel_at p w)) \<le> HEAD_LENGTH \<or>
        r = T_Body b \<and> ch_read_length (channel_at p w') \<noteq> 0 \<and>
          (if ch_read_length (channel_at p w) = 0
           then buf_size (ch_read_buffer (channel_at p w')) < buf_size (ch_read_buffer (channel_at p w)) else w' = w)"
      by blast
    have c: "concat (map carried (rs[i := r])) = concat (map carried rs)"
      using same_carried [of rs i r] T_Head w'(5) by auto
    have "placed N (rs[i := r]) (ch_read_length (channel_at p w'))
       (buf_size (ch_read_buffer (channel_at p w'))) (tsq_queue (ch_read_messages (channel_at p w'))) (inp (w_kernel w'))"
      by (rule placed_update [OF pl i o]) (use pd T_Head w'(3-5) count [of r] c in \<open>auto simp del: concat_eq_Nil_conv\<close>)
    then show ?thesis using w' T_Head ranks [of r] by (auto simp: goal c split: if_splits)
  next
    case (T_Body b)
    then have len: "ch_read_length (channel_at p w) \<noteq> 0" using pd by auto
    from step_body [OF l len, of b] obtain w' where
      w': "task_step env fd (Some p) (T_Body b) w = Inr (T_Head b, w')"
        "stream_left env nb fd p f inp out app sent (concat (map carried rs)) w'" "w_kernel w' = w_kernel w"
        "if progresses p (T_Body b) w then ch_read_length (channel_at p w') = 0 \<and>
           buf_size (ch_read_buffer (channel_at p w')) < buf_size (ch_read_buffer (channel_at p w)) else w' = w" by blast
    have c: "concat (map carried (rs[i := T_Head b])) = concat (map carried rs)"
      using same_carried [of rs i "T_Head b"] T_Body by simp
    have "placed N (rs[i := T_Head b]) (ch_read_length (channel_at p w'))
       (buf_size (ch_read_buffer (channel_at p w'))) (tsq_queue (ch_read_messages (channel_at p w'))) (inp (w_kernel w'))"
      by (rule placed_update [OF pl i o]) (use pd T_Body w'(3) count [of "T_Head b"] c in \<open>auto simp del: concat_eq_Nil_conv\<close>)
    then show ?thesis using w' T_Body ranks [of "T_Head b"] by (auto simp: goal c split: if_splits)
  next
    case (T_Deliver b)
    let ?r = "if b then T_Done else T_Read"
    from step_deliver [OF kern f l, of b] obtain w' where
      w': "task_step env fd (Some p) (T_Deliver b) w = Inr (?r, w')"
        "stream_left env nb fd p f inp out app sent (concat (map carried rs)) w'" "inp (w_kernel w') = inp (w_kernel w)"
        "channel_at p w' = (channel_at p w)\<lparr>ch_read_messages := new_tsq\<rparr>" by blast
    have c: "concat (map carried (rs[i := ?r])) = concat (map carried rs)"
      using same_carried [of rs i ?r] T_Deliver by simp
    have "placed N (rs[i := ?r]) (ch_read_length (channel_at p w'))
       (buf_size (ch_read_buffer (channel_at p w'))) (tsq_queue (ch_read_messages (channel_at p w'))) (inp (w_kernel w'))"
      by (rule placed_update [OF pl i o])
        (use pd T_Deliver w'(3,4) count [of ?r] c in \<open>auto simp: tsq.elems_empty simp del: concat_eq_Nil_conv split: if_splits\<close>)
    then show ?thesis using w' T_Deliver ranks [of ?r] by (auto simp: goal c split: if_splits)
  next
    case T_Done
    then have "rs[i := T_Done] = rs" by (metis list_update_id)
    with T_Done inv show ?thesis by (intro exI [of _ T_Done] exI [of _ w]) simp
  qed
qed

interpretation tasks: decreased_by_steps "task_step env fd (Some p)" orderly
  "tasks_inv env nb fd p f inp out app sent N" "progresses p" "work_left p inp" for env nb fd p f inp out app sent N
proof unfold_locales
  fix rs w i
  assume h: "tasks_inv env nb fd p f inp out app sent N rs w" "i < length rs" "orderly rs i"
  from task_step_inv [OF h] show "\<exists>r w'. task_step env fd (Some p) (rs ! i) w = Inr (r, w') \<and>
      tasks_inv env nb fd p f inp out app sent N (rs[i := r]) w'" by blast
  fix r w'
  assume "task_step env fd (Some p) (rs ! i) w = Inr (r, w')"
  with task_step_inv [OF h] show "work_left p inp (rs[i := r]) w' + (if progresses p (rs ! i) w then 1 else 0) \<le>
      work_left p inp rs w" by auto
qed

subsection \<open>Beginning, end, and what is in between\<close>

lemma tasks_begin:
  assumes "serves (env_kernel env) fd inp out" and "cb_read (env_cbs env) = Some f" and "connection fd p w"
    and "list_all2 (decodes_to (env_lib env)) ms es" and "concat (inp (w_kernel w)) = frames nb es"
    and "length (frames nb es) \<le> BUFFER_SIZE" and "serve f fd ms (w_app w) = Inr (outs, app)"
    and "list_all2 (encodes_to (env_lib env) (connection_type p w)) outs os"
  shows "tasks_inv env nb fd p f inp out app (out (w_kernel w) @ frames (env_nb env) os) (length (inp (w_kernel w)))
     (replicate n T_Read) w"
proof -
  have c: "concat (map carried (replicate n T_Read)) = []" by (induction n) simp_all
  have w: "registered fd p w" "idle p w" "channel_ok (channel_at p w)" "ch_read_length (channel_at p w) = 0"
    "received (channel_at p w) = []" "tsq_queue (ch_read_messages (channel_at p w)) = []"
    using assms(3) by (simp_all add: connection_def waiting_def)
  have b: "buf_size (ch_read_buffer (channel_at p w)) = 0" using arg_cong [OF w(5), of length] by simp
  have "stream_left env nb fd p f inp out app (out (w_kernel w) @ frames (env_nb env) os) [] w"
    by (rule stream_leftI [OF w(1,2) assms(4)]) (use assms(5-8) w b in \<open>simp_all add: stream_at_def\<close>)
  moreover have "placed (length inputs) (replicate n T_Read) 0 0 [] inputs" for inputs
    using c by (auto simp: placed_def list_ex_iff)
  ultimately show ?thesis using assms(1,2) w(4,6) b by (simp add: tasks_inv_def c)
qed

lemma tasks_end:
  assumes inv: "tasks_inv env nb fd p f inp out app sent N rs w" and "rs \<noteq> []" and d: "list_all (\<lambda>t. t = T_Done) rs"
  shows "connection fd p w \<and> w_app w = app \<and> inp (w_kernel w) = [] \<and> out (w_kernel w) = sent"
proof -
  have "\<not> list_ex in_loop rs" "\<not> list_ex before_delivery rs" "list_ex drained rs"
    using assms(2) d by (cases rs; auto simp: list_all_iff list_ex_iff)+
  with inv have pl: "ch_read_length (channel_at p w) = 0" "buf_size (ch_read_buffer (channel_at p w)) \<le> HEAD_LENGTH"
    "tsq_queue (ch_read_messages (channel_at p w)) = []" "inp (w_kernel w) = []" "concat (map carried rs) = []"
    and l: "stream_left env nb fd p f inp out app sent (concat (map carried rs)) w"
    by (auto simp: tasks_inv_def placed_def)
  from l [unfolded pl(5)] show ?thesis
  proof (rule stream_leftE)
    fix ms es outs os
    assume h: "registered fd p w" "idle p w" "list_all2 (decodes_to (env_lib env)) ms es" "[] \<notin> set es"
      "stream_at nb es (concat [] @ concat (inp (w_kernel w))) (channel_at p w)"
      "serve f fd (tsq_queue (ch_read_messages (channel_at p w)) @ ms) (w_app w) = Inr (outs, app)"
      "list_all2 (encodes_to (env_lib env) (connection_type p w)) outs os"
      "out (w_kernel w) @ frames (env_nb env) os = sent"
    have r: "received (channel_at p w) = frames nb es" using h(5) pl(1,4) by (simp add: stream_at_def)
    then have "length (frames nb es) \<le> HEAD_LENGTH" using pl(2) by (simp flip: r)
    then have es: "es = []" using h(4) by (rule frames_short)
    with h(3) have "ms = []" by simp
    with h(6,7) pl(3) have o: "app = w_app w" "os = []" by auto
    have "waiting [] (channel_at p w)" using h(5) pl(1,3) r es by (simp add: waiting_def stream_at_def)
    with h(1,2,8) o pl(4) show ?thesis by (simp add: connection_def)
  qed
qed

lemma one_step_progress:
  assumes "i < length rs" and "orderly rs i" and "progresses p (rs ! i) w"
  shows "guarded orderly (task_step env fd (Some p)) [i] rs w \<and>
     0 < effort (progresses p) (task_step env fd (Some p)) [i] rs w"
  using assms by (simp split: sum.split)

lemma first_step:
  assumes "i < length rs" and "orderly rs i" and "task_step env fd (Some p) (rs ! i) w = Inr (r, w')"
    and "guarded orderly (task_step env fd (Some p)) is (rs[i := r]) w'"
    and "0 < effort (progresses p) (task_step env fd (Some p)) is (rs[i := r]) w'"
  shows "guarded orderly (task_step env fd (Some p)) (i # is) rs w \<and>
     0 < effort (progresses p) (task_step env fd (Some p)) (i # is) rs w"
  using assms by simp

lemma spinning_complete:
  assumes "stream_left env nb fd p f inp out app sent [] w" and "inp (w_kernel w) = []"
    and "ch_read_length (channel_at p w) \<noteq> 0"
  shows "ch_read_length (channel_at p w) \<le> buf_size (ch_read_buffer (channel_at p w))"
  using assms(1)
proof (rule stream_leftE)
  fix ms es outs os
  assume "stream_at nb es (concat [] @ concat (inp (w_kernel w))) (channel_at p w)"
  with assms(2,3) obtain e es' where "ch_read_length (channel_at p w) = length e"
    "received (channel_at p w) = e @ frames nb es'" by (auto simp: stream_at_def)
  then have "length (received (channel_at p w)) = ch_read_length (channel_at p w) + length (frames nb es')" by simp
  then show ?thesis by simp
qed

lemma between_turns_progress:
  assumes inv: "tasks_inv env nb fd p f inp out app sent N rs w" and n: "N \<le> length rs"
    and t: "\<not> list_ex in_turn rs" and d: "\<not> list_all (\<lambda>t. t = T_Done) rs"
  shows "\<exists>is. length is \<le> 2 \<and> guarded orderly (task_step env fd (Some p)) is rs w \<and>
     0 < effort (progresses p) (task_step env fd (Some p)) is rs w"
proof -
  let ?Q = "\<lambda>t. case t of T_Head l \<Rightarrow> True | T_Done \<Rightarrow> True | _ \<Rightarrow> False"
  have pl: "length (concat (map carried rs)) \<le> 1"
    "inp (w_kernel w) \<noteq> [] \<Longrightarrow> length (filter (\<lambda>t. t \<noteq> T_Read) rs) + length (inp (w_kernel w)) \<le> N"
    and l: "stream_left env nb fd p f inp out app sent (concat (map carried rs)) w"
    using inv by (simp_all add: tasks_inv_def placed_def)
  have single: "?thesis" if "i < length rs" "progresses p (rs ! i) w" "rs ! i = T_Read \<longrightarrow> concat (map carried rs) = []" for i
  proof -
    have "orderly rs i" using that t by (auto simp: orderly_def list_ex_length)
    from one_step_progress [OF that(1) this that(2), of env fd] show ?thesis by (intro exI [of _ "[i]"]) simp
  qed
  show ?thesis
  proof (cases "list_all ?Q rs")
    case False
    then obtain i where i: "i < length rs" "\<not> ?Q (rs ! i)" by (auto simp: list_all_length)
    show ?thesis
    proof (cases "list_ex (\<lambda>t. carried t \<noteq> []) rs")
      case True
      then obtain j where "j < length rs" "carried (rs ! j) \<noteq> []" by (auto simp: list_ex_length)
      then show ?thesis by (intro single [of j]) (cases "rs ! j"; simp)+
    next
      case False
      then have "concat (map carried rs) = []" by (auto simp: list_ex_iff)
      moreover have "progresses p (rs ! i) w"
        using i t False by (cases "rs ! i") (auto simp: list_ex_length)
      ultimately show ?thesis using i(1) by (intro single [of i]) simp_all
    qed
  next
    case True
    then have q: "\<And>t. t \<in> set rs \<Longrightarrow> ?Q t" by (simp add: list_all_iff)
    have "carried t = []" if "t \<in> set rs" for t using q [OF that] by (cases t) simp_all
    then have c: "concat (map carried rs) = []" by simp
    from d obtain i where i: "i < length rs" "rs ! i \<noteq> T_Done" by (auto simp: list_all_length)
    then obtain b where b: "rs ! i = T_Head b" using q [OF nth_mem [OF i(1)]] by (cases "rs ! i") simp_all
    show ?thesis
    proof (cases "ch_read_length (channel_at p w) = 0")
      case True
      with i(1) b show ?thesis by (intro single [of i]) simp_all
    next
      case False
      have "T_Read \<notin> set rs" using q [of T_Read] by auto
      then have "filter (\<lambda>t. t \<noteq> T_Read) rs = rs" by (auto simp: filter_id_conv)
      then have e: "inp (w_kernel w) = []" using pl(2) n by (cases "inp (w_kernel w)") auto
      from step_head [OF l, of b] False have h: "task_step env fd (Some p) (T_Head b) w = Inr (T_Body b, w)" by auto
      have o: "orderly rs i" "orderly (rs[i := T_Body b]) i"
        using t b i(1) by (auto simp: orderly_def list_ex_length)
      have "progresses p (rs[i := T_Body b] ! i) w"
        using spinning_complete [OF l [unfolded c] e False] i(1) by simp
      from one_step_progress [OF _ o(2) this, of env fd] i(1)
      have "guarded orderly (task_step env fd (Some p)) [i] (rs[i := T_Body b]) w"
        "0 < effort (progresses p) (task_step env fd (Some p)) [i] (rs[i := T_Body b]) w" by auto
      note twice = first_step [OF i(1) o(1) h [folded b] this]
      have "length [i, i] \<le> 2" by simp
      with twice show ?thesis by blast
    qed
  qed
qed

lemma always_progress:
  assumes inv: "tasks_inv env nb fd p f inp out app sent N rs w" and n: "N \<le> length rs"
    and d: "\<not> list_all (\<lambda>t. t = T_Done) rs"
  shows "\<exists>is. length is \<le> 3 \<and> guarded orderly (task_step env fd (Some p)) is rs w \<and>
     0 < effort (progresses p) (task_step env fd (Some p)) is rs w"
proof (cases "list_ex in_turn rs")
  case False
  from between_turns_progress [OF inv n False d] show ?thesis by force
next
  case True
  then obtain i where i: "i < length rs" "in_turn (rs ! i)" by (auto simp: list_ex_length)
  then obtain b where b: "rs ! i = T_Body b" by (cases "rs ! i") simp_all
  have pl: "\<exists>k. \<forall>j < length rs. in_turn (rs ! j) \<longrightarrow> j = k" "ch_read_length (channel_at p w) \<noteq> 0"
    and l: "stream_left env nb fd p f inp out app sent (concat (map carried rs)) w"
    using inv True by (simp_all add: tasks_inv_def placed_def)
  have alone: "\<not> in_turn (rs ! j)" if "j < length rs" "j \<noteq> i" for j using pl(1) i that by blast
  then have o: "orderly rs i" using b by (simp add: orderly_def)
  show ?thesis
  proof (cases "progresses p (rs ! i) w")
    case True
    from one_step_progress [OF i(1) o True, of env fd] show ?thesis by (intro exI [of _ "[i]"]) simp
  next
    case False
    from step_body [OF l pl(2), of b] False b have s: "task_step env fd (Some p) (rs ! i) w = Inr (T_Head b, w)" by auto
    from task_step_inv [OF inv i(1) o] s have inv': "tasks_inv env nb fd p f inp out app sent N (rs[i := T_Head b]) w"
      by auto
    have t: "\<not> list_ex in_turn (rs[i := T_Head b])" using alone by (auto simp: list_ex_update [OF i(1)])
    have d': "\<not> list_all (\<lambda>t. t = T_Done) (rs[i := T_Head b])"
      using i(1) by (auto simp: list_all_length intro!: exI [of _ i])
    from between_turns_progress [OF inv' _ t d'] n obtain "is" where
      h: "length is \<le> 2" "guarded orderly (task_step env fd (Some p)) is (rs[i := T_Head b]) w"
        "0 < effort (progresses p) (task_step env fd (Some p)) is (rs[i := T_Head b]) w" by auto
    from first_step [OF i(1) o s h(2,3)] h(1) show ?thesis by (intro exI [of _ "i # is"]) simp
  qed
qed

lemma tasks_can_finish:
  assumes "tasks_inv env nb fd p f inp out app sent N rs w" and "N \<le> length rs"
  shows "\<exists>is rs' w'. guarded orderly (task_step env fd (Some p)) is rs w \<and>
     interleave (task_step env fd (Some p)) is rs w = Inr (rs', w') \<and> list_all (\<lambda>t. t = T_Done) rs'"
  using assms
proof (induction "work_left p inp rs w" arbitrary: rs w rule: less_induct)
  case less
  show ?case
  proof (cases "list_all (\<lambda>t. t = T_Done) rs")
    case True
    then show ?thesis by (intro exI [of _ "[]"] exI [of _ rs] exI [of _ w]) simp
  next
    case False
    from always_progress [OF less.prems False] obtain "is" where
      i: "guarded orderly (task_step env fd (Some p)) is rs w"
        "0 < effort (progresses p) (task_step env fd (Some p)) is rs w" by blast
    from tasks.interleaved [OF less.prems(1) i(1)] obtain rs1 w1 where
      r: "interleave (task_step env fd (Some p)) is rs w = Inr (rs1, w1)" "length rs1 = length rs"
        "tasks_inv env nb fd p f inp out app sent N rs1 w1" by blast
    have "work_left p inp rs1 w1 < work_left p inp rs w"
      using tasks.bounded_effort [OF less.prems(1) i(1) r(1)] i(2) by simp
    from less.hyps [OF this r(3)] r(2) less.prems(2) obtain is' rs' w' where
      "guarded orderly (task_step env fd (Some p)) is' rs1 w1"
      "interleave (task_step env fd (Some p)) is' rs1 w1 = Inr (rs', w')" "list_all (\<lambda>t. t = T_Done) rs'" by auto
    with i(1) r(1) show ?thesis
      by (intro exI [of _ "is @ is'"]) (simp add: guarded_append interleave_append)
  qed
qed

subsection \<open>Properties\<close>

text \<open>
  The two step relations agree. Every step of a reader of \<open>Concurrent_Reads\<close>, a whole
  \<open>parse_message\<close> included, is a number of steps of a task here, with the same result.
\<close>
theorem reader_as_task:
  assumes "reader_step env fd (Some p) r w = Inr (r', w')" and "p < length (heap (w_server w))"
  shows "\<exists>n. interleave (task_step env fd (Some p)) (replicate n 0) [as_task r] w = Inr ([as_task r'], w')"
  using assms by (rule reader_steps_task)

theorem reader_as_task_witness:
  "\<exists>n w'. interleave (task_step echo_env 7 (Some 0)) (replicate n 0) [T_Read] (echo_world two_chunks) =
     Inr ([T_Holds [3, 0, 0, 0, 0, 65, 66]], w')"
proof -
  let ?w = "echo_world two_chunks"
  have i: "sim_in (w_kernel ?w) = [[3, 0, 0, 0, 0, 65, 66], [2, 0, 0, 0, 0, 67]]"
    using two_chunks_facts(6) by (simp only: two_chunks_def)
  from kernel_read [OF echo_serves(1), of ?w] obtain k where
    "reader_step echo_env 7 (Some 0) At_Read ?w = Inr (Holding [3, 0, 0, 0, 0, 65, 66], ?w\<lparr>w_kernel := k\<rparr>)"
    by (auto simp: i)
  moreover have "0 < length (heap (w_server ?w))" by (simp add: echo_world_def)
  ultimately show ?thesis using reader_as_task by fastforce
qed

text \<open>
  C6: Messages in pieces. Let the bytes of whole frames, together no more than the ring buffer holds, be
  cut into chunks at any places, and let any number of tasks run \<open>read_data\<close> for them in any orderly
  interleaving. No step fails, and once all tasks have returned every message was served, once and in
  order, every answer is sent, in order, and the connection is as before.
\<close>
theorem split_frames_served:
  assumes "serves (env_kernel env) fd inp out" and "cb_read (env_cbs env) = Some f" and "connection fd p w"
    and "list_all2 (decodes_to (env_lib env)) ms es" and "concat (inp (w_kernel w)) = frames nb es"
    and "length (frames nb es) \<le> BUFFER_SIZE" and "serve f fd ms (w_app w) = Inr (outs, app)"
    and "list_all2 (encodes_to (env_lib env) (connection_type p w)) outs os"
    and "guarded orderly (task_step env fd (Some p)) is (replicate n T_Read) w"
  shows "\<exists>rs w'. interleave (task_step env fd (Some p)) is (replicate n T_Read) w = Inr (rs, w') \<and>
     (0 < n \<and> list_all (\<lambda>t. t = T_Done) rs \<longrightarrow> connection fd p w' \<and> w_app w' = app \<and> inp (w_kernel w') = [] \<and>
        out (w_kernel w') = out (w_kernel w) @ frames (env_nb env) os)"
proof -
  from tasks.interleaved [OF tasks_begin [OF assms(1-8), of n] assms(9)] obtain rs w' where
    r: "interleave (task_step env fd (Some p)) is (replicate n T_Read) w = Inr (rs, w')" "length rs = n"
      "tasks_inv env nb fd p f inp out app (out (w_kernel w) @ frames (env_nb env) os) (length (inp (w_kernel w))) rs w'"
    by auto
  from tasks_end [OF r(3)] r(1,2) show ?thesis by auto
qed

text \<open>The frame of \<open>AB\<close>, cut inside its body.\<close>

definition cut_chunks :: "byte list list" where
  "cut_chunks = [[3, 0, 0, 0, 0, 65], [66]]"

lemma cut_facts:
  "list_all2 (decodes_to (env_lib echo_env)) [[65, 66]] [[0, 65, 66]]"
  "concat (sim_in (w_kernel (echo_world cut_chunks))) = frames False [[0, 65, 66]]"
  "length (frames False [[0, 65, 66]]) \<le> BUFFER_SIZE"
  "serve (\<lambda>fd m n. Inr ([m], n + 1)) 7 [[65, 66]] (w_app (echo_world cut_chunks)) = Inr ([[65, 66]], 1)"
  "list_all2 (encodes_to (env_lib echo_env) (connection_type 0 (echo_world cut_chunks))) [[65, 66]] [[0, 65, 66]]"
  "sim_in (w_kernel (echo_world cut_chunks)) = [[3, 0, 0, 0, 0, 65], [66]]"
proof -
  show i: "sim_in (w_kernel (echo_world cut_chunks)) = [[3, 0, 0, 0, 0, 65], [66]]"
    by (simp add: echo_world_def cut_chunks_def)
  show "concat (sim_in (w_kernel (echo_world cut_chunks))) = frames False [[0, 65, 66]]"
    unfolding i by (simp add: frames_def frame_message_eq word_bytes_def nat_bytes_4)
  show "length (frames False [[0, 65, 66]]) \<le> BUFFER_SIZE"
    by (simp add: frames_def frame_message_eq word_bytes_def nat_bytes_4 BUFFER_SIZE_def)
  show "list_all2 (decodes_to (env_lib echo_env)) [[65, 66]] [[0, 65, 66]]"
    by (simp add: decodes_to_def decode_string_def)
  show "list_all2 (encodes_to (env_lib echo_env) (connection_type 0 (echo_world cut_chunks))) [[65, 66]] [[0, 65, 66]]"
    by (simp add: encodes_to_def encode_string_def echo_world_connection)
  show "serve (\<lambda>fd m n. Inr ([m], n + 1)) 7 [[65, 66]] (w_app (echo_world cut_chunks)) = Inr ([[65, 66]], 1)"
    by (simp add: echo_world_def)
qed

theorem split_frames_served_witness:
  "\<exists>is rs w'. interleave (task_step echo_env 7 (Some 0)) is (replicate 2 T_Read) (echo_world cut_chunks) = Inr (rs, w') \<and>
     list_all (\<lambda>t. t = T_Done) rs \<and> sim_out (w_kernel w') = [3, 0, 0, 0, 0, 65, 66]"
proof -
  let ?w = "echo_world cut_chunks" and ?step = "task_step echo_env 7 (Some 0)"
  have n: "length (sim_in (w_kernel ?w)) \<le> length (replicate 2 T_Read)" unfolding cut_facts(6) by simp
  from tasks_can_finish [OF tasks_begin [OF echo_serves(1,2) echo_world_connection(1) cut_facts(1-5)] n]
  obtain "is" rs w' where g: "guarded orderly ?step is (replicate 2 T_Read) ?w"
    "interleave ?step is (replicate 2 T_Read) ?w = Inr (rs, w')" "list_all (\<lambda>t. t = T_Done) rs" by blast
  have o: "sim_out (w_kernel ?w) = []" by (simp add: echo_world_def)
  have fr: "frames False [[0, 65, 66]] = [3, 0, 0, 0, 0, 65, 66]"
    by (simp add: frames_def frame_message_eq word_bytes_def nat_bytes_4)
  from split_frames_served [OF echo_serves(1,2) echo_world_connection(1) cut_facts(1-5) g(1)] g(2,3)
  have "sim_out (w_kernel w') = [3, 0, 0, 0, 0, 65, 66]" unfolding o echo_serves(3) fr by auto
  with g(2,3) show ?thesis by blast
qed

text \<open>
  C31: They come to an end. In the same situation, with as many tasks as chunks at least, the tasks make a
  bounded number of steps other than turns that wait for bytes, and as long as not all have returned such a
  step is at most three steps away, in whatever state the interleaving has led to.
\<close>
theorem split_frames_finish:
  assumes "serves (env_kernel env) fd inp out" and "cb_read (env_cbs env) = Some f" and "connection fd p w"
    and "list_all2 (decodes_to (env_lib env)) ms es" and "concat (inp (w_kernel w)) = frames nb es"
    and "length (frames nb es) \<le> BUFFER_SIZE" and "serve f fd ms (w_app w) = Inr (outs, app)"
    and "list_all2 (encodes_to (env_lib env) (connection_type p w)) outs os"
    and "guarded orderly (task_step env fd (Some p)) is (replicate n T_Read) w" and "length (inp (w_kernel w)) \<le> n"
  shows "\<exists>rs w'. interleave (task_step env fd (Some p)) is (replicate n T_Read) w = Inr (rs, w') \<and>
     effort (progresses p) (task_step env fd (Some p)) is (replicate n T_Read) w \<le>
       3 * n + 4 * length (inp (w_kernel w)) + length (frames nb es) \<and>
     (list_all (\<lambda>t. t = T_Done) rs \<or>
      (\<exists>is'. length is' \<le> 3 \<and> guarded orderly (task_step env fd (Some p)) is' rs w' \<and>
         0 < effort (progresses p) (task_step env fd (Some p)) is' rs w'))"
proof -
  note b = tasks_begin [OF assms(1-8), of n]
  from tasks.interleaved [OF b assms(9)] obtain rs w' where
    r: "interleave (task_step env fd (Some p)) is (replicate n T_Read) w = Inr (rs, w')" "length rs = n"
      "tasks_inv env nb fd p f inp out app (out (w_kernel w) @ frames (env_nb env) os) (length (inp (w_kernel w))) rs w'"
    by auto
  have "buf_size (ch_read_buffer (channel_at p w)) = 0"
    using assms(3) by (simp add: connection_def waiting_def flip: length_received)
  moreover have "concat (map carried (replicate n T_Read)) = []" by (induction n) simp_all
  ultimately have "work_left p inp (replicate n T_Read) w = 3 * n + 4 * length (inp (w_kernel w)) + length (frames nb es)"
    by (simp add: work_left_def assms(5) sum_list_replicate)
  with tasks.bounded_effort [OF b assms(9) r(1)] always_progress [OF r(3)] r(1,2) assms(10) show ?thesis by auto
qed

theorem split_frames_finish_witness:
  "\<exists>rs w'. interleave (task_step echo_env 7 (Some 0)) [0] (replicate 2 T_Read) (echo_world cut_chunks) = Inr (rs, w') \<and>
     effort (progresses 0) (task_step echo_env 7 (Some 0)) [0] (replicate 2 T_Read) (echo_world cut_chunks) \<le> 21"
proof -
  have g: "guarded orderly (task_step echo_env 7 (Some 0)) [0] (replicate 2 T_Read) (echo_world cut_chunks)"
    by (simp add: numeral_2_eq_2 orderly_def less_Suc_eq split: sum.split)
  have l: "length (sim_in (w_kernel (echo_world cut_chunks))) \<le> 2" unfolding cut_facts(6) by simp
  have "3 * 2 + 4 * length (sim_in (w_kernel (echo_world cut_chunks))) + length (frames False [[0, 65, 66]]) = 21"
    unfolding cut_facts(6) by (simp add: frames_def frame_message_eq word_bytes_def nat_bytes_4)
  with split_frames_finish [OF echo_serves(1,2) echo_world_connection(1) cut_facts(1-5) g l] show ?thesis
    by (elim exE conjE) (intro exI conjI, assumption, simp only:)
qed

text \<open>
  C36: A turn that another task interrupts. A single chunk of whole frames waits, and two tasks run for it.
  If the second one finds the socket empty and goes through a turn of \<open>parse_message\<close> after the first has
  taken the header and before it takes the body, then the first takes a body of no bytes, and reads the
  compression byte outside it.
\<close>
theorem interrupted_turn:
  assumes "serves (env_kernel env) fd inp out" and "connection fd p w" and "decodes_to (env_lib env) m e"
    and "inp (w_kernel w) = [frames nb (e # es)]" and "length (frames nb (e # es)) \<le> BUFFER_SIZE"
  shows "interleave (task_step env fd (Some p)) [0, 0, 1, 0, 1, 1, 0] [T_Read, T_Read] w =
     Inl (Undefined ''read outside the span'')"
proof -
  let ?step = "task_step env fd (Some p)"
  from kernel_read [OF assms(1), of w] assms(4) obtain k1 where
    k1: "?step T_Read w = Inr (T_Holds (frames nb (e # es)), w\<lparr>w_kernel := k1\<rparr>)" "inp k1 = []" by auto
  have "buffered nb [] fd p (w\<lparr>w_kernel := k1\<rparr>)" using assms(2) by (simp add: connection_buffered [of fd p w nb])
  from enqueue_step [OF this, of "e # es" env] assms(5) obtain w2 where
    w2: "?step (T_Holds (frames nb (e # es))) (w\<lparr>w_kernel := k1\<rparr>) = Inr (T_Head False, w2)" "buffered nb (e # es) fd p w2"
      "w_kernel w2 = k1" by (auto simp: bindE_eq_Inr)
  from kernel_read [OF assms(1), of w2] w2(3) k1(2) obtain k3 where
    k3: "?step T_Read w2 = Inr (T_Head True, w2\<lparr>w_kernel := k3\<rparr>)" by auto
  let ?w3 = "w2\<lparr>w_kernel := k3\<rparr>" and ?ch = "channel_at p w2"
  note b = w2(2) [unfolded buffered_def]
  have p: "p < length (heap (w_server w2))" using b by (simp add: registered_def)
  have e: "e \<noteq> []" "decode_string (env_lib env) e = Inr m" using assms(3) by (simp_all add: decodes_to_def)
  have l: "length e < 2 ^ 31" using assms(5) by (simp add: frames_Cons BUFFER_SIZE_def)
  have "received ?ch = word_bytes (of_nat (length e) :: int32) @ e @ frames nb es" using b by (simp add: frames_Cons)
  from parse_head_length [OF _ _ this _ l, of "env_nb env"] b e(1) obtain rb where
    h: "parse_head (env_nb env) ?ch = Inr (Some (?ch\<lparr>ch_read_buffer := rb, ch_read_length := length e\<rparr>))"
      "buffer_ok rb" "buffer_items rb = e @ frames nb es" "buffer_capacity rb = BUFFER_SIZE" by auto
  let ?c1 = "?ch\<lparr>ch_read_buffer := rb, ch_read_length := length e\<rparr>"
  have c1: "channel_ok ?c1" "received ?c1 = e @ frames nb es" using h by (simp_all add: channel_ok_def received_def)
  have again: "parse_head (env_nb env) ?c1 = Inr (Some ?c1)" using e(1) by (simp add: parse_head_def)
  from parse_body_ready [OF c1 _ e(2)] obtain rb2 where
    h2: "parse_body (env_lib env) ?c1 = Inr (?c1\<lparr>ch_read_buffer := rb2, ch_read_length := 0,
        ch_read_messages := tsq_push m (ch_read_messages ?c1)\<rparr>)" "buffer_ok rb2" by auto
  let ?c2 = "?c1\<lparr>ch_read_buffer := rb2, ch_read_length := 0, ch_read_messages := tsq_push m (ch_read_messages ?c1)\<rparr>"
  from dequeue_fits [OF h2(2), of 0] have bad: "parse_body (env_lib env) ?c2 = Inl (Undefined ''read outside the span'')"
    by (simp add: parse_body_def decode_string_def)
  have s4: "?step (T_Head False) ?w3 = Inr (T_Body False, put_channel p ?c1 ?w3)" using h(1) by (simp add: deref_def)
  have s5: "?step (T_Head True) (put_channel p ?c1 ?w3) = Inr (T_Body True, put_channel p ?c1 ?w3)"
    using again p by (simp add: deref_def)
  have s6: "?step (T_Body True) (put_channel p ?c1 ?w3) = Inr (T_Head True, put_channel p ?c2 ?w3)"
    using h2(1) p by (simp add: deref_def)
  have s7: "?step (T_Body False) (put_channel p ?c2 ?w3) = Inl (Undefined ''read outside the span'')"
    using bad p by (simp add: deref_def)
  show ?thesis using k1(1) w2(1) k3 s4 s5 s6 s7 by (simp del: task_step.simps)
qed

theorem interrupted_turn_witness:
  "interleave (task_step echo_env 7 (Some 0)) [0, 0, 1, 0, 1, 1, 0] [T_Read, T_Read]
     (echo_world [[3, 0, 0, 0, 0, 65, 66]]) = Inl (Undefined ''read outside the span'')"
proof -
  have d: "decodes_to (env_lib echo_env) [65, 66] [0, 65, 66]" by (simp add: decodes_to_def decode_string_def)
  have i: "sim_in (w_kernel (echo_world [[3, 0, 0, 0, 0, 65, 66]])) = [frames False [[0, 65, 66]]]"
    by (simp add: echo_world_def frames_def frame_message_eq word_bytes_def nat_bytes_4)
  from interrupted_turn [OF echo_serves(1) echo_world_connection(1) d i cut_facts(3)] show ?thesis .
qed

end
