(* ===== verification/Rpc_Package.thy ===== *)
theory Rpc_Package
  imports Codec_Laws
begin

text \<open>
  The two messages of the protocol, \<open>RPCRequest\<close> and \<open>RPCResponse\<close> (\<open>RPC/Rpc_Package.h\<close>),
  classes with \<open>SERIALIZE\<close>, and how a message is built and taken apart as bytes. \<open>what\<close> gives
  the text of the exceptions a handler can end in.
\<close>

text \<open>The bytes of a C++ string literal.\<close>

definition ascii :: "string \<Rightarrow> byte list" where
  "ascii s = map of_char s"

subsection \<open>The messages\<close>

record rpc_request =
  req_id :: "byte list"
  req_method :: "byte list"
  req_params :: data_stream

record rpc_response =
  resp_result :: data_stream
  resp_error :: "byte list"
  resp_id :: "byte list"

definition new_request :: "bool \<Rightarrow> rpc_request" where
  "new_request nb = \<lparr>req_id = [], req_method = [], req_params = new_stream nb\<rparr>"

definition new_response :: "bool \<Rightarrow> rpc_response" where
  "new_response nb = \<lparr>resp_result = new_stream nb, resp_error = [], resp_id = []\<rparr>"

text \<open>\<open>SERIALIZE(method, params, id)\<close> and \<open>SERIALIZE(result, error, id)\<close>.\<close>

definition request_type :: ctype where
  "request_type = TCustom [TString, TStream, TString]"

definition request_val :: "rpc_request \<Rightarrow> cval" where
  "request_val r = VCustom [VString (req_method r), VStream (req_params r), VString (req_id r)]"

definition response_type :: ctype where
  "response_type = TCustom [TStream, TString, TString]"

definition response_val :: "rpc_response \<Rightarrow> cval" where
  "response_val r = VCustom [VStream (resp_result r), VString (resp_error r), VString (resp_id r)]"

text \<open>
  The object behind the fields. A read keeps the kinds of the fields it is given, so the second
  equation is not used on what \<open>read_value\<close> returns.
\<close>

fun val_request :: "bool \<Rightarrow> cval \<Rightarrow> rpc_request" where
  "val_request nb (VCustom [VString m, VStream p, VString i]) =
     \<lparr>req_id = i, req_method = m, req_params = p\<rparr>"
| "val_request nb _ = new_request nb"

fun val_response :: "bool \<Rightarrow> cval \<Rightarrow> rpc_response" where
  "val_response nb (VCustom [VStream r, VString e, VString i]) =
     \<lparr>resp_result = r, resp_error = e, resp_id = i\<rparr>"
| "val_response nb _ = new_response nb"

text \<open>\<open>stream << message\<close>, then \<open>data()\<close>; and \<open>load\<close>, then \<open>stream >> message\<close>.\<close>

definition message_bytes :: "bool \<Rightarrow> cval \<Rightarrow> byte list result" where
  "message_bytes nb v = bindE (stream_out nb v (new_stream nb)) (\<lambda>s. known (ds_data s))"

definition read_request :: "bool \<Rightarrow> byte list \<Rightarrow> rpc_request result" where
  "read_request nb data =
     bindE (load data (new_stream nb)) (\<lambda>s.
     bindE (stream_in nb request_type (request_val (new_request nb)) s) (\<lambda>(v, s'). Inr (val_request nb v)))"

definition read_response :: "bool \<Rightarrow> byte list \<Rightarrow> rpc_response result" where
  "read_response nb data =
     bindE (load data (new_stream nb)) (\<lambda>s.
     bindE (stream_in nb response_type (response_val (new_response nb)) s) (\<lambda>(v, s'). Inr (val_response nb v)))"

subsection \<open>Exceptions\<close>

text \<open>
  \<open>what()\<close> of a caught \<open>std::exception\<close>: the text it was made with, where the code (or the
  application) made it; \<open>lib_what\<close> for the two the standard library words itself. Undefined
  behaviour and a loop without end are not caught.
\<close>

definition what :: "(error \<Rightarrow> byte list) \<Rightarrow> error \<Rightarrow> byte list option" where
  "what lib_what e =
     (case e of
        Runtime_Error s \<Rightarrow> Some (ascii s)
      | Out_Of_Range s \<Rightarrow> Some (ascii s)
      | System_Error n s \<Rightarrow> Some (lib_what e)
      | Length_Error \<Rightarrow> Some (lib_what e)
      | Undefined s \<Rightarrow> None
      | Hang \<Rightarrow> None)"

subsection \<open>Round trips of the messages\<close>

lemma request_is_value: "compact (req_params r) \<Longrightarrow> is_value (request_val r) request_type"
  by (simp add: request_val_def request_type_def)

lemma response_is_value: "compact (resp_result r) \<Longrightarrow> is_value (response_val r) response_type"
  by (simp add: response_val_def response_type_def)

lemma default_request: "request_val (new_request nb) = default_val nb request_type"
  by (simp add: request_val_def new_request_def request_type_def)

lemma default_response: "response_val (new_response nb) = default_val nb response_type"
  by (simp add: response_val_def new_response_def response_type_def)

lemma val_request_val: "val_request nb (request_val r) = r"
  by (simp add: request_val_def)

lemma val_response_val: "val_response nb (response_val r) = r"
  by (simp add: response_val_def)

lemma message_bytes_ok:
  assumes "is_value v t" and "length (enc False v) < 2 ^ 31"
  shows "message_bytes nb v = Inr (enc False v)"
proof -
  obtain s where "write_value nb v (new_stream nb) = Inr s" "ds_data s = map Some (enc False v)"
    using write_fresh [OF assms] appended_new(1) by metis
  then show ?thesis by (simp add: message_bytes_def stream_out_def)
qed

lemma read_request_ok:
  assumes "compact (req_params r)" and "length (enc False (request_val r)) < 2 ^ 31"
  shows "read_request nb (enc False (request_val r)) = Inr r"
proof -
  obtain s s' where "load (enc False (request_val r)) (new_stream nb) = Inr s"
    "read_value nb request_type (default_val nb request_type) s = Inr (True, request_val r, s')"
    using read_loaded [OF request_is_value [OF assms(1)] assms(2), of nb] by blast
  then show ?thesis by (simp add: read_request_def stream_in_def default_request val_request_val)
qed

lemma read_response_ok:
  assumes "compact (resp_result r)" and "length (enc False (response_val r)) < 2 ^ 31"
  shows "read_response nb (enc False (response_val r)) = Inr r"
proof -
  obtain s s' where "load (enc False (response_val r)) (new_stream nb) = Inr s"
    "read_value nb response_type (default_val nb response_type) s = Inr (True, response_val r, s')"
    using read_loaded [OF response_is_value [OF assms(1)] assms(2), of nb] by blast
  then show ?thesis by (simp add: read_response_def stream_in_def default_response val_response_val)
qed

lemma length_enc_stream: "length (enc_stream x t) = 14 + 2 * length (stream_bytes t)"
  by (simp add: enc_stream_def enc_bool_def length_enc_seq length_enc_chars)

lemma length_enc_request:
  "length (enc x (request_val r)) =
     27 + length (req_method r) + length (req_id r) + 2 * length (stream_bytes (req_params r))"
  by (simp add: request_val_def length_enc_stream)

lemma length_enc_response:
  "length (enc x (response_val r)) =
     27 + length (resp_error r) + length (resp_id r) + 2 * length (stream_bytes (resp_result r))"
  by (simp add: response_val_def length_enc_stream)

text \<open>The kinds of the fields stay, whatever the bytes are.\<close>

lemma read_string_kind:
  "read_value nb TString (VString b) s = Inr (ok, v, s') \<Longrightarrow> \<exists>b'. v = VString b'"
  by (auto simp: outcome_def bindE_eq_Inr split: option.splits)

lemma read_stream_kind:
  "read_value nb TStream (VStream b) s = Inr (ok, v, s') \<Longrightarrow> \<exists>b'. v = VStream b'"
  by (auto simp: bindE_eq_Inr)

lemma read_request_kind:
  assumes "read_value nb request_type (request_val r) s = Inr (ok, v, s')"
  shows "\<exists>r'. v = request_val r'"
proof -
  have mk: "\<exists>r' :: rpc_request. m = req_method r' \<and> p = req_params r' \<and> i = req_id r'" for m p i
    by (rule exI [of _ "\<lparr>req_id = i, req_method = m, req_params = p\<rparr>"]) simp
  show ?thesis
    using assms unfolding request_val_def request_type_def
    by (auto simp: bindE_eq_Inr mk split: if_splits
        dest!: read_string_kind read_stream_kind simp del: read_value.simps(7,15))
qed

end
