(* ===== verification/User_Manager.thy ===== *)
theory User_Manager
  imports Prelude "HOL-Library.AList"
begin

text \<open>
  \<open>Rpc_User\<close> (\<open>RPC/Rpc_User.h\<close>, \<open>RPC/Rpc_User.cpp\<close>) and \<open>Rpc_User_Manager\<close>
  (\<open>RPC/Rpc_User_Manager.h\<close>, \<open>RPC/Rpc_User_Manager.cpp\<close>), with the constants of
  \<open>Common/prg_cfg.hpp\<close>: which clients are connected and when each was last heard of. Every
  method of the manager holds its mutex, so it is one step. A time point is an \<open>int\<close>, in
  nanoseconds; \<open>now\<close> is what the clock returns in the call.

  The theory shows that \<open>check_invalid_user\<close> reports exactly the connected clients that were
  silent for more than \<open>HEARTBEAT_TIMEOUT\<close> seconds, and that a client that keeps the heartbeat
  period is never reported.
\<close>

subsection \<open>Constants\<close>

definition HEARTBEAT_REPEAT_TIME :: int where
  "HEARTBEAT_REPEAT_TIME = 5"

definition HEARTBEAT_TIMEOUT :: int where
  "HEARTBEAT_TIMEOUT = 15"

text \<open>\<open>std::chrono::seconds\<close>, in nanoseconds.\<close>

definition seconds :: "int \<Rightarrow> int" where
  "seconds s = s * 1000000000"

subsection \<open>Rpc_User\<close>

record rpc_user =
  user_fd :: int
  last_update_time :: int

text \<open>The constructor leaves \<open>last_update_time\<close> at the clock's epoch.\<close>

definition new_user :: "int \<Rightarrow> rpc_user" where
  "new_user fd = \<lparr>user_fd = fd, last_update_time = 0\<rparr>"

definition get_ID :: "rpc_user \<Rightarrow> int" where
  "get_ID u = user_fd u"

definition user_update_heartbeat :: "int \<Rightarrow> rpc_user \<Rightarrow> rpc_user" where
  "user_update_heartbeat now u = u\<lparr>last_update_time := now\<rparr>"

definition is_active :: "int \<Rightarrow> rpc_user \<Rightarrow> bool" where
  "is_active now u \<longleftrightarrow> now - last_update_time u \<le> seconds HEARTBEAT_TIMEOUT"

subsection \<open>Rpc_User_Manager\<close>

text \<open>
  The \<open>unordered_map\<close> is an association list with one entry per key, in iteration order (which
  the standard leaves open: a new key goes to the end here).
\<close>

type_synonym user_store = "(int \<times> rpc_user) list"

definition create_user :: "int \<Rightarrow> int \<Rightarrow> user_store \<Rightarrow> user_store" where
  "create_user fd now store = AList.update fd (user_update_heartbeat now (new_user fd)) store"

text \<open>For an unknown \<open>fd\<close>, \<open>operator[]\<close> makes a null pointer, which is then dereferenced.\<close>

definition update_heartbeat :: "int \<Rightarrow> int \<Rightarrow> user_store \<Rightarrow> user_store result" where
  "update_heartbeat fd now store =
     (case map_of store fd of
        None \<Rightarrow> Inl (Undefined ''null user'')
      | Some u \<Rightarrow> Inr (AList.update fd (user_update_heartbeat now u) store))"

fun check_invalid_user :: "int \<Rightarrow> user_store \<Rightarrow> int list" where
  "check_invalid_user now [] = []"
| "check_invalid_user now ((fd, u) # store) =
     (if \<not> is_active now u then fd # check_invalid_user now store else check_invalid_user now store)"

definition remove_user :: "int \<Rightarrow> user_store \<Rightarrow> user_store" where
  "remove_user fd store = (if map_of store fd \<noteq> None then AList.delete fd store else store)"

subsection \<open>The interface: a registry of sessions\<close>

text \<open>
  What the server relies on: a session exists from its creation to its removal, carries the time
  it was last touched, and touching a session that does not exist fails.
\<close>

locale session_registry =
  fixes init :: 's
    and create :: "int \<Rightarrow> int \<Rightarrow> 's \<Rightarrow> 's"
    and touch :: "int \<Rightarrow> int \<Rightarrow> 's \<Rightarrow> 's result"
    and remove :: "int \<Rightarrow> 's \<Rightarrow> 's"
    and seen :: "'s \<Rightarrow> int \<Rightarrow> int option"
    and ok :: "'s \<Rightarrow> bool"
  assumes init: "ok init" "seen init = Map.empty"
    and create: "ok s \<Longrightarrow> ok (create fd t s)" "ok s \<Longrightarrow> seen (create fd t s) = (seen s)(fd \<mapsto> t)"
    and touch: "ok s \<Longrightarrow> seen s fd \<noteq> None \<Longrightarrow>
          \<exists>s'. touch fd t s = Inr s' \<and> ok s' \<and> seen s' = (seen s)(fd \<mapsto> t)"
    and touch_unknown: "ok s \<Longrightarrow> seen s fd = None \<Longrightarrow> \<exists>e. touch fd t s = Inl e"
    and remove: "ok s \<Longrightarrow> ok (remove fd s)" "ok s \<Longrightarrow> seen (remove fd s) = (seen s)(fd := None)"
begin

lemma touch_created: "ok s \<Longrightarrow> \<exists>s'. touch fd t' (create fd t s) = Inr s' \<and> ok s' \<and> seen s' fd = Some t'"
  using touch [of "create fd t s" fd t'] create by auto

lemma touch_removed: "ok s \<Longrightarrow> \<exists>e. touch fd t (remove fd s) = Inl e"
  using touch_unknown [of "remove fd s" fd t] remove by auto

lemma touch_Inr:
  "ok s \<Longrightarrow> touch fd t s = Inr s' \<Longrightarrow> seen s fd \<noteq> None \<and> ok s' \<and> seen s' = (seen s)(fd \<mapsto> t)"
  using touch [of s fd t] touch_unknown [of s fd t] by force

end

definition store_ok :: "user_store \<Rightarrow> bool" where
  "store_ok store \<longleftrightarrow> distinct (map fst store)"

definition last_of :: "user_store \<Rightarrow> int \<Rightarrow> int option" where
  "last_of store fd = map_option last_update_time (map_of store fd)"

interpretation users: session_registry "[]" create_user update_heartbeat remove_user last_of store_ok
proof unfold_locales
  fix s :: user_store and fd t
  assume ok: "store_ok s"
  show "store_ok (create_user fd t s)"
    using ok by (simp add: store_ok_def create_user_def distinct_update)
  show "last_of (create_user fd t s) = (last_of s)(fd \<mapsto> t)"
    by (simp add: fun_eq_iff last_of_def create_user_def user_update_heartbeat_def update_conv)
  show "store_ok (remove_user fd s)"
    using ok by (simp add: store_ok_def remove_user_def distinct_delete)
  show "last_of (remove_user fd s) = (last_of s)(fd := None)"
    by (auto simp: fun_eq_iff last_of_def remove_user_def delete_conv')
  show "\<exists>s'. update_heartbeat fd t s = Inr s' \<and> store_ok s' \<and> last_of s' = (last_of s)(fd \<mapsto> t)"
    if "last_of s fd \<noteq> None"
    using that ok
    by (auto simp: fun_eq_iff last_of_def update_heartbeat_def user_update_heartbeat_def update_conv
        store_ok_def distinct_update)
  show "\<exists>e. update_heartbeat fd t s = Inl e" if "last_of s fd = None"
    using that by (simp add: last_of_def update_heartbeat_def)
qed (simp_all add: store_ok_def last_of_def fun_eq_iff)

subsection \<open>What is reported\<close>

lemma check_invalid_user_filter:
  "check_invalid_user now store = map fst (filter (\<lambda>(fd, u). \<not> is_active now u) store)"
  by (induction store rule: check_invalid_user.induct) auto

lemma check_invalid_user_iff:
  assumes "store_ok store"
  shows "fd \<in> set (check_invalid_user now store) \<longleftrightarrow>
     (\<exists>t. last_of store fd = Some t \<and> seconds HEARTBEAT_TIMEOUT < now - t)"
  using assms
  by (force simp: check_invalid_user_filter last_of_def is_active_def store_ok_def)

lemma check_invalid_user_distinct: "store_ok store \<Longrightarrow> distinct (check_invalid_user now store)"
  by (simp add: check_invalid_user_filter store_ok_def distinct_map_filter)

subsection \<open>Histories\<close>

datatype user_event = Connect int int | Heard int int | Disconnect int

fun users_step :: "user_event \<Rightarrow> user_store \<Rightarrow> user_store result" where
  "users_step (Connect fd t) s = Inr (create_user fd t s)"
| "users_step (Heard fd t) s = update_heartbeat fd t s"
| "users_step (Disconnect fd) s = Inr (remove_user fd s)"

fun users_run :: "user_event list \<Rightarrow> user_store \<Rightarrow> user_store result" where
  "users_run [] s = Inr s"
| "users_run (e # es) s = bindE (users_step e s) (users_run es)"

text \<open>What the history alone says: the time a connected client was last heard of.\<close>

fun heard_last :: "user_event list \<Rightarrow> (int \<Rightarrow> int option) \<Rightarrow> int \<Rightarrow> int option" where
  "heard_last [] h = h"
| "heard_last (Connect fd t # es) h = heard_last es (h(fd \<mapsto> t))"
| "heard_last (Heard fd t # es) h = heard_last es (h(fd \<mapsto> t))"
| "heard_last (Disconnect fd # es) h = heard_last es (h(fd := None))"

lemma users_run_history:
  "store_ok s \<Longrightarrow> users_run es s = Inr s' \<Longrightarrow> store_ok s' \<and> last_of s' = heard_last es (last_of s)"
proof (induction es arbitrary: s)
  case (Cons e es)
  then obtain s1 where s1: "users_step e s = Inr s1" "users_run es s1 = Inr s'"
    by (auto simp: bindE_eq_Inr)
  have "store_ok s1 \<and> heard_last (e # es) (last_of s) = heard_last es (last_of s1)"
    using s1(1) Cons.prems(1) users.create users.remove users.touch_Inr by (cases e) auto
  with Cons.IH [of s1] s1(2) show ?case by (cases e) auto
qed simp

text \<open>A run never touches a client that is not connected, as long as the history does not.\<close>

fun heard_connected :: "user_event list \<Rightarrow> int set \<Rightarrow> bool" where
  "heard_connected [] A = True"
| "heard_connected (Connect fd t # es) A = heard_connected es (insert fd A)"
| "heard_connected (Heard fd t # es) A = (fd \<in> A \<and> heard_connected es A)"
| "heard_connected (Disconnect fd # es) A = heard_connected es (A - {fd})"

lemma users_run_succeeds:
  "store_ok s \<Longrightarrow> A \<subseteq> dom (last_of s) \<Longrightarrow> heard_connected es A \<Longrightarrow> \<exists>s'. users_run es s = Inr s'"
proof (induction es arbitrary: s A)
  case (Cons e es)
  show ?case
  proof (cases e)
    case (Connect fd t)
    have "insert fd A \<subseteq> dom (last_of (create_user fd t s))"
      using Cons.prems(2) users.create(2) [OF Cons.prems(1)] by auto
    with Cons.IH [OF users.create(1) [OF Cons.prems(1)] this] Cons.prems(3) Connect
    show ?thesis by simp
  next
    case (Heard fd t)
    from users.touch [OF Cons.prems(1), of fd t] Heard Cons.prems(2,3) obtain s1 where
      s1: "update_heartbeat fd t s = Inr s1" "store_ok s1" "last_of s1 = (last_of s)(fd \<mapsto> t)"
      by auto
    have "A \<subseteq> dom (last_of s1)" using Cons.prems(2) s1(3) by auto
    with Cons.IH [OF s1(2)] s1(1) Cons.prems(3) Heard show ?thesis by simp
  next
    case (Disconnect fd)
    have "A - {fd} \<subseteq> dom (last_of (remove_user fd s))"
      using Cons.prems(2) users.remove(2) [OF Cons.prems(1)] by auto
    with Cons.IH [OF users.remove(1) [OF Cons.prems(1)] this] Cons.prems(3) Disconnect
    show ?thesis by simp
  qed
qed simp

subsection \<open>Properties\<close>

text \<open>
  C18: Who is timed out. Whatever sequence of connections, messages and disconnections the
  manager has seen, \<open>check_invalid_user\<close> returns, each once, exactly the clients that are
  connected and were last heard of more than 15 seconds ago; a client heard of within the last
  three heartbeat periods is not among them.
\<close>
theorem check_invalid_user_exact:
  assumes "users_run es [] = Inr store"
  shows "set (check_invalid_user now store) =
       {fd. \<exists>t. heard_last es Map.empty fd = Some t \<and> seconds 15 < now - t} \<and>
     distinct (check_invalid_user now store) \<and>
     (\<nexists>fd t. fd \<in> set (check_invalid_user now store) \<and> heard_last es Map.empty fd = Some t \<and>
        now \<le> t + 3 * seconds HEARTBEAT_REPEAT_TIME)"
proof -
  have h: "store_ok store" "last_of store = heard_last es Map.empty"
    using users_run_history [OF users.init(1) assms] by (simp_all add: users.init(2))
  show ?thesis
    using check_invalid_user_iff [OF h(1), of _ now] check_invalid_user_distinct [OF h(1)]
    by (auto simp: h(2) HEARTBEAT_TIMEOUT_def HEARTBEAT_REPEAT_TIME_def seconds_def)
qed

theorem check_invalid_user_exact_witness:
  "users_run [Connect 4 0, Connect 5 0, Heard 5 (seconds 5), Connect 6 0, Disconnect 6] [] =
     Inr [(4, \<lparr>user_fd = 4, last_update_time = 0\<rparr>), (5, \<lparr>user_fd = 5, last_update_time = seconds 5\<rparr>)] \<and>
   set (check_invalid_user (seconds 17)
     [(4, \<lparr>user_fd = 4, last_update_time = 0\<rparr>), (5, \<lparr>user_fd = 5, last_update_time = seconds 5\<rparr>)]) = {4}"
proof -
  have run: "users_run [Connect 4 0, Connect 5 0, Heard 5 (seconds 5), Connect 6 0, Disconnect 6] [] =
     Inr [(4, \<lparr>user_fd = 4, last_update_time = 0\<rparr>), (5, \<lparr>user_fd = 5, last_update_time = seconds 5\<rparr>)]"
    by (simp add: create_user_def update_heartbeat_def remove_user_def user_update_heartbeat_def
        new_user_def)
  have "{fd. \<exists>t. heard_last [Connect 4 0, Connect 5 0, Heard 5 (seconds 5), Connect 6 0, Disconnect 6]
      Map.empty fd = Some t \<and> seconds 15 < seconds 17 - t} = {4}"
    by (auto simp: seconds_def split: if_splits)
  with check_invalid_user_exact [OF run, of "seconds 17"] run show ?thesis by simp
qed

end
