(* ===== verification/Rpc_Server.thy ===== *)
theory Rpc_Server
  imports Compression Function_Handler Rpc_Package User_Manager
begin

text \<open>
  \<open>Rpc_Server\<close> (\<open>RPC/Rpc_Server.h\<close>, \<open>RPC/Rpc_Server.cpp\<close>): the table of methods, the
  connected users, and the callbacks the constructor installs: on a new connection, on a lost
  one, on a message, and the periodic check for silent users. The messages to and from a callback
  are bytes; the layers that carry them are in other theories.

  The lemmas show which response each request gets, on every branch of the callback.
\<close>

subsection \<open>State and setup\<close>

text \<open>
  What the compiler and the machine choose: the byte order, the order in which the arguments of a
  call are evaluated, and the texts of the exceptions of the standard library.
\<close>

record machine =
  big_endian :: bool
  arg_order :: "nat \<Rightarrow> nat list"
  lib_what :: "error \<Rightarrow> byte list"

text \<open>\<open>srv_app\<close> is the state of the application that registered the methods.\<close>

record 'u rpc_server =
  srv_compression :: compression_type
  srv_manager :: "'u handlers"
  srv_users :: user_store
  srv_app :: 'u

definition HEARTBEAT_SIG :: "byte list" where
  "HEARTBEAT_SIG = ascii ''HEARTBEAT''"

definition register_method :: "byte list \<Rightarrow> 'u handler \<Rightarrow> 'u rpc_server \<Rightarrow> 'u rpc_server" where
  "register_method name h sv = sv\<lparr>srv_manager := register_handler name h (srv_manager sv)\<rparr>"

text \<open>\<open>handle_heartbeat_signal\<close> only writes a log line.\<close>

definition heartbeat_handler :: "'u handler" where
  "heartbeat_handler = \<lparr>ret = None, arg_types = [], func = (\<lambda>args u. (Inr VUninit, u))\<rparr>"

definition new_rpc_server :: "'u \<Rightarrow> 'u rpc_server" where
  "new_rpc_server app =
     register_method HEARTBEAT_SIG heartbeat_handler
       \<lparr>srv_compression = Comp_None, srv_manager = Map.empty, srv_users = [], srv_app = app\<rparr>"

definition server_set_compress_algo :: "compression_type \<Rightarrow> 'u rpc_server \<Rightarrow> 'u rpc_server" where
  "server_set_compress_algo type sv = sv\<lparr>srv_compression := type\<rparr>"

subsection \<open>The callbacks\<close>

definition on_new_connection :: "int \<Rightarrow> int \<Rightarrow> 'u rpc_server \<Rightarrow> 'u rpc_server" where
  "on_new_connection now fd sv = sv\<lparr>srv_users := create_user fd now (srv_users sv)\<rparr>"

definition on_disconnect :: "int \<Rightarrow> 'u rpc_server \<Rightarrow> 'u rpc_server" where
  "on_disconnect fd sv = sv\<lparr>srv_users := remove_user fd (srv_users sv)\<rparr>"

text \<open>The \<open>try\<close> block of the message callback, from the call to the response it fills in.\<close>

definition answer :: "machine \<Rightarrow> rpc_request \<Rightarrow> 'u rpc_server \<Rightarrow> rpc_response result \<times> 'u" where
  "answer m request sv =
     (let response = (new_response (big_endian m))\<lparr>resp_id := req_id request\<rparr> in
      case manager_call (big_endian m) (arg_order m) (srv_manager sv) (req_method request)
             (copy_stream (req_params request)) (srv_app sv) of
        (Inr (Some result), app) \<Rightarrow> (Inr (response\<lparr>resp_result := copy_stream result\<rparr>), app)
      | (Inr None, app) \<Rightarrow>
          (Inr (response\<lparr>resp_error := req_method request @ ascii '' method not found''\<rparr>), app)
      | (Inl e, app) \<Rightarrow>
          (case what (lib_what m) e of
             None \<Rightarrow> (Inl e, app)
           | Some text \<Rightarrow> (Inr (response\<lparr>resp_error := text\<rparr>), app)))"

text \<open>
  The message callback, up to \<open>write_data\<close> of the bytes it returns. An error here is undefined
  behaviour or an exception that leaves the callback.
\<close>

definition on_request :: "machine \<Rightarrow> int \<Rightarrow> int \<Rightarrow> byte list \<Rightarrow> 'u rpc_server \<Rightarrow>
    (byte list \<times> 'u rpc_server) result" where
  "on_request m now fd data sv =
     bindE (read_request (big_endian m) data) (\<lambda>request.
     bindE (update_heartbeat fd now (srv_users sv)) (\<lambda>users.
     case answer m request (sv\<lparr>srv_users := users\<rparr>) of (r, app) \<Rightarrow>
       bindE r (\<lambda>response.
       bindE (message_bytes (big_endian m) (response_val response)) (\<lambda>bytes.
       Inr (bytes, sv\<lparr>srv_users := users, srv_app := app\<rparr>)))))"

text \<open>
  The periodic callback: every reported user's connection is closed (by \<open>close_connection\<close> of
  the TCP server, which calls \<open>on_disconnect\<close>). The result lists the closed descriptors.
\<close>

definition check_users :: "int \<Rightarrow> 'u rpc_server \<Rightarrow> int list \<times> 'u rpc_server" where
  "check_users now sv =
     (let invalid = check_invalid_user now (srv_users sv)
      in (invalid, fold on_disconnect invalid sv))"

subsection \<open>Parameter streams\<close>

definition holds_args :: "bool \<Rightarrow> data_stream \<Rightarrow> cval list \<Rightarrow> bool" where
  "holds_args nb p vs \<longleftrightarrow>
     compact p \<and> stored p = map Some (enc_args False vs) \<and> is_big_endian p = nb \<and> ds_pos p = 0 \<and>
     length (enc_args False vs) < 2 ^ 31"

lemma copy_compact: "compact p \<Longrightarrow> copy_stream p = p"
  by (simp add: compact_def copy_stream_def stored_def)

lemma holds_args_ready:
  assumes "holds_args nb p vs"
  shows "ready p (enc_args (foreign nb p) vs @ [])" and "copy_stream p = p"
proof -
  have "foreign nb p = False" "buf_mem p = map Some (enc_args False vs)" "ds_pos p = 0"
    "length (enc_args False vs) < 2 ^ 31"
    using assms compact_stored [of p] by (auto simp: holds_args_def foreign_def)
  then show "ready p (enc_args (foreign nb p) vs @ [])" by (simp add: ready_def)
  show "copy_stream p = p" using assms by (simp add: holds_args_def copy_compact)
qed

text \<open>A written stream, copied, holds what was written.\<close>

lemma written_holds:
  assumes "appended (new_stream nb) (enc_args False vs) s" and "length (enc_args False vs) < 2 ^ 31"
  shows "holds_args nb (copy_stream s) vs"
  using copy_appended_new [OF assms] assms(2) by (simp add: holds_args_def)

lemma new_stream_holds: "holds_args nb (new_stream nb) []"
  by (simp add: holds_args_def compact_def new_stream_def stored_def enc_args_def)

subsection \<open>What is answered\<close>

text \<open>The response to a request, by the outcome of the registered function.\<close>

definition good_response :: "bool \<Rightarrow> byte list \<Rightarrow> cval list \<Rightarrow> rpc_response \<Rightarrow> bool" where
  "good_response nb i vs r \<longleftrightarrow> resp_id r = i \<and> resp_error r = [] \<and> holds_args nb (resp_result r) vs"

lemma enc_args_single: "enc_args x [v] = enc x v"
  by (simp add: enc_args_def)

lemma answer_value:
  assumes "srv_manager sv (req_method request) = Some h" and "complete_order (arg_order m)"
    and "list_all2 is_value vs (arg_types h)"
    and "holds_args (big_endian m) (req_params request) (permuted (arg_order m) vs)"
    and "func h vs (srv_app sv) = (Inr v, app)" and "ret h = Some t"
    and "is_value v t" and "length (enc False v) < 2 ^ 31"
  shows "\<exists>r. answer m request sv = (Inr r, app) \<and> good_response (big_endian m) (req_id request) [v] r"
proof -
  note p = holds_args_ready [OF assms(4)]
  obtain s where s: "write_value (big_endian m) v (new_stream (big_endian m)) = Inr s"
    "appended (new_stream (big_endian m)) (enc_args False [v]) s"
    using write_fresh [OF assms(7,8)] by (auto simp: enc_args_single)
  have c: "handler_call (big_endian m) (arg_order m) h (req_params request) (srv_app sv) = (Inr s, app)"
    using handler_call_ok [OF assms(2,3) p(1), of "srv_app sv"] assms(5,6) s(1) by simp
  have "holds_args (big_endian m) (copy_stream s) [v]"
    using written_holds [OF s(2)] assms(8) by (simp add: enc_args_single)
  then show ?thesis
    by (simp add: answer_def Let_def manager_call_def assms(1) p(2) c good_response_def new_response_def)
qed

lemma answer_void:
  assumes "srv_manager sv (req_method request) = Some h" and "complete_order (arg_order m)"
    and "list_all2 is_value vs (arg_types h)"
    and "holds_args (big_endian m) (req_params request) (permuted (arg_order m) vs)"
    and "func h vs (srv_app sv) = (Inr v, app)" and "ret h = None"
  shows "\<exists>r. answer m request sv = (Inr r, app) \<and> good_response (big_endian m) (req_id request) [] r"
proof -
  note p = holds_args_ready [OF assms(4)]
  have c: "handler_call (big_endian m) (arg_order m) h (req_params request) (srv_app sv) =
      (Inr (new_stream (big_endian m)), app)"
    using handler_call_ok [OF assms(2,3) p(1), of "srv_app sv"] assms(5,6) by simp
  have "copy_stream (new_stream (big_endian m)) = new_stream (big_endian m)"
    by (simp add: copy_stream_def new_stream_def stored_def)
  then show ?thesis using new_stream_holds
    by (simp add: answer_def Let_def manager_call_def assms(1) p(2) c good_response_def new_response_def)
qed

lemma answer_throws:
  assumes "srv_manager sv (req_method request) = Some h" and "complete_order (arg_order m)"
    and "list_all2 is_value vs (arg_types h)"
    and "holds_args (big_endian m) (req_params request) (permuted (arg_order m) vs)"
    and "func h vs (srv_app sv) = (Inl e, app)" and "what (lib_what m) e = Some text"
  shows "answer m request sv =
     (Inr ((new_response (big_endian m))\<lparr>resp_id := req_id request, resp_error := text\<rparr>), app)"
proof -
  note p = holds_args_ready [OF assms(4)]
  have c: "handler_call (big_endian m) (arg_order m) h (req_params request) (srv_app sv) = (Inl e, app)"
    using handler_call_ok [OF assms(2,3) p(1), of "srv_app sv"] assms(5) by simp
  then show ?thesis
    by (simp add: answer_def Let_def manager_call_def assms(1,6) p(2))
qed

lemma answer_unknown:
  assumes "srv_manager sv (req_method request) = None"
  shows "answer m request sv =
     (Inr ((new_response (big_endian m))\<lparr>resp_id := req_id request,
        resp_error := ascii ''Handler not found''\<rparr>), srv_app sv)"
  by (simp add: answer_def Let_def manager_call_def assms what_def)

text \<open>From the answer to the bytes.\<close>

lemma on_request_bytes:
  assumes "compact (req_params request)" and "length (enc False (request_val request)) < 2 ^ 31"
    and "store_ok (srv_users sv)" and "last_of (srv_users sv) fd \<noteq> None"
    and "answer m request sv = (Inr response, app)"
    and "compact (resp_result response)" and "length (enc False (response_val response)) < 2 ^ 31"
  shows "\<exists>users. on_request m now fd (enc False (request_val request)) sv =
       Inr (enc False (response_val response), sv\<lparr>srv_users := users, srv_app := app\<rparr>) \<and>
     store_ok users \<and> last_of users = (last_of (srv_users sv))(fd \<mapsto> now)"
proof -
  from users.touch [OF assms(3,4), of now] obtain users where
    u: "update_heartbeat fd now (srv_users sv) = Inr users" "store_ok users"
      "last_of users = (last_of (srv_users sv))(fd \<mapsto> now)" by blast
  have "answer m request (sv\<lparr>srv_users := users\<rparr>) = answer m request sv" by (simp add: answer_def)
  with u assms(5) message_bytes_ok [OF response_is_value [OF assms(6)] assms(7)]
    read_request_ok [OF assms(1,2)] show ?thesis
    by (intro exI [of _ users]) (simp add: on_request_def)
qed

subsection \<open>The periodic check\<close>

lemma fold_on_disconnect:
  "fold on_disconnect fds sv = sv\<lparr>srv_users := fold remove_user fds (srv_users sv)\<rparr>"
  by (induction fds arbitrary: sv) (simp_all add: on_disconnect_def)

lemma fold_remove_user:
  "store_ok s \<Longrightarrow> store_ok (fold remove_user fds s) \<and>
     last_of (fold remove_user fds s) = (\<lambda>fd. if fd \<in> set fds then None else last_of s fd)"
proof (induction fds arbitrary: s)
  case (Cons fd fds)
  with Cons.IH [OF users.remove(1) [OF Cons.prems]] users.remove(2) [OF Cons.prems, of fd]
  show ?case by (auto simp: fun_eq_iff)
qed simp

subsection \<open>The contract of a call\<close>

text \<open>
  What a correct client sends to a registered method: arguments of its types, packed in the
  order in which the server takes them; and what the method does with them: it returns a value
  of its result type, or throws an exception with a text.
\<close>

definition callable :: "machine \<Rightarrow> 'u rpc_server \<Rightarrow> rpc_request \<Rightarrow> cval list \<Rightarrow> bool" where
  "callable m sv request vs \<longleftrightarrow>
     (case srv_manager sv (req_method request) of
        None \<Rightarrow> True
      | Some h \<Rightarrow>
          list_all2 is_value vs (arg_types h) \<and>
          holds_args (big_endian m) (req_params request) (permuted (arg_order m) vs) \<and>
          (case fst (func h vs (srv_app sv)) of
             Inl e \<Rightarrow> (\<exists>msg. what (lib_what m) e = Some msg \<and> length msg < 2 ^ 28)
           | Inr v \<Rightarrow>
               (case ret h of None \<Rightarrow> True | Some t \<Rightarrow> is_value v t \<and> length (enc False v) < 2 ^ 28)))"

text \<open>What comes back: by method, by outcome.\<close>

definition answered :: "machine \<Rightarrow> 'u rpc_server \<Rightarrow> rpc_request \<Rightarrow> cval list \<Rightarrow> rpc_response \<Rightarrow> 'u \<Rightarrow>
    bool" where
  "answered m sv request vs response app \<longleftrightarrow>
     resp_id response = req_id request \<and>
     (case srv_manager sv (req_method request) of
        None \<Rightarrow> resp_error response = ascii ''Handler not found'' \<and>
          resp_result response = new_stream (big_endian m) \<and> app = srv_app sv
      | Some h \<Rightarrow> app = snd (func h vs (srv_app sv)) \<and>
          (case fst (func h vs (srv_app sv)) of
             Inl e \<Rightarrow> what (lib_what m) e = Some (resp_error response) \<and>
               resp_result response = new_stream (big_endian m)
           | Inr v \<Rightarrow> resp_error response = [] \<and>
               holds_args (big_endian m) (resp_result response) (if ret h = None then [] else [v])))"

definition sendable :: "rpc_response \<Rightarrow> bool" where
  "sendable response \<longleftrightarrow>
     compact (resp_result response) \<and> length (enc False (response_val response)) < 2 ^ 31"

lemma error_sendable:
  "length e < 2 ^ 28 \<Longrightarrow> length i < 2 ^ 28 \<Longrightarrow>
   sendable ((new_response nb)\<lparr>resp_id := i, resp_error := e\<rparr>)"
  by (simp add: sendable_def length_enc_response new_response_def compact_def new_stream_def
      stream_bytes_def stored_def)

lemma good_sendable:
  assumes "good_response nb i vs r" and "length (enc_args False vs) < 2 ^ 28" and "length i < 2 ^ 28"
  shows "sendable r"
proof -
  have "stream_bytes (resp_result r) = enc_args False vs"
    using assms(1) by (simp add: good_response_def holds_args_def stream_bytes_def)
  with assms show ?thesis
    by (simp add: sendable_def length_enc_response good_response_def holds_args_def)
qed

lemma answer_registered_value:
  assumes c: "callable m sv request vs" and o: "complete_order (arg_order m)"
    and h: "srv_manager sv (req_method request) = Some h"
    and f: "func h vs (srv_app sv) = (Inr v, app)"
    and i: "length (req_id request) < 2 ^ 28"
  shows "\<exists>response. answer m request sv = (Inr response, app) \<and> sendable response \<and>
    answered m sv request vs response app"
proof -
  define vs' where "vs' = (if ret h = None then [] else [v])"
  have a: "list_all2 is_value vs (arg_types h)"
    "holds_args (big_endian m) (req_params request) (permuted (arg_order m) vs)"
    "case ret h of None \<Rightarrow> True | Some t \<Rightarrow> is_value v t \<and> length (enc False v) < 2 ^ 28"
    using c h f by (simp_all add: callable_def)
  have "\<exists>r. answer m request sv = (Inr r, app) \<and> good_response (big_endian m) (req_id request) vs' r"
  proof (cases "ret h")
    case None
    with answer_void [OF h o a(1,2) f None] show ?thesis by (simp add: vs'_def)
  next
    case (Some t)
    with answer_value [OF h o a(1,2) f Some] a(3) show ?thesis by (simp add: vs'_def)
  qed
  then obtain r where r: "answer m request sv = (Inr r, app)"
    "good_response (big_endian m) (req_id request) vs' r" by blast
  have "length (enc_args False vs') < 2 ^ 28"
    using a(3) by (auto simp: vs'_def enc_args_def split: option.splits)
  from good_sendable [OF r(2) this i] have "sendable r" .
  with r h f show ?thesis
    by (intro exI [of _ r]) (simp add: answered_def good_response_def vs'_def)
qed

lemma answer_callable:
  assumes c: "callable m sv request vs" and o: "complete_order (arg_order m)"
    and i: "length (req_id request) < 2 ^ 28"
  shows "\<exists>response app. answer m request sv = (Inr response, app) \<and> sendable response \<and>
    answered m sv request vs response app"
proof (cases "srv_manager sv (req_method request)")
  case None
  then show ?thesis using answer_unknown [OF None, of m] i error_sendable
    by (simp add: answered_def ascii_def new_response_def)
next
  case (Some h)
  obtain r app where f: "func h vs (srv_app sv) = (r, app)" by (cases "func h vs (srv_app sv)")
  show ?thesis
  proof (cases r)
    case (Inr v)
    with answer_registered_value [OF c o Some _ i, of v app] f show ?thesis by blast
  next
    case (Inl e)
    then obtain msg where t: "what (lib_what m) e = Some msg" "length msg < 2 ^ 28"
      and a: "list_all2 is_value vs (arg_types h)"
      "holds_args (big_endian m) (req_params request) (permuted (arg_order m) vs)"
      using c Some f by (auto simp: callable_def)
    have "answer m request sv = (Inr ((new_response (big_endian m))\<lparr>resp_id := req_id request,
        resp_error := msg\<rparr>), app)"
      using answer_throws [OF Some o a _ t(1)] f Inl by simp
    with error_sendable [OF t(2) i] Some f Inl t(1) show ?thesis
      by (simp add: answered_def new_response_def)
  qed
qed

lemma on_request_answered:
  assumes "compact (req_params request)" and "length (enc False (request_val request)) < 2 ^ 31"
    and "store_ok (srv_users sv)" and "last_of (srv_users sv) fd \<noteq> None"
    and "complete_order (arg_order m)" and "callable m sv request vs"
    and "length (req_id request) < 2 ^ 28"
  shows "\<exists>response users app.
     on_request m now fd (enc False (request_val request)) sv =
       Inr (enc False (response_val response), sv\<lparr>srv_users := users, srv_app := app\<rparr>) \<and>
     sendable response \<and> answered m sv request vs response app \<and>
     store_ok users \<and> last_of users = (last_of (srv_users sv))(fd \<mapsto> now)"
proof -
  from answer_callable [OF assms(6,5,7)] obtain response app where
    a: "answer m request sv = (Inr response, app)" "sendable response"
      "answered m sv request vs response app" by blast
  then have "compact (resp_result response)" "length (enc False (response_val response)) < 2 ^ 31"
    by (simp_all add: sendable_def)
  from on_request_bytes [OF assms(1-4) a(1) this, of now] a(2,3) show ?thesis by blast
qed

subsection \<open>Properties\<close>

text \<open>
  C10: A request is answered. For every well-formed request of a connected client the callback
  returns exactly one response: to a registered method the function's value, or its exception's
  text; to an unknown method the text \<open>Handler not found\<close> (and not \<open>... method not found\<close>, as the
  branch behind the call would have it, which is never reached). The response carries the
  request's id, the client's heartbeat is updated, and the application's state is the one the
  function left, or the old one if none ran.
\<close>
theorem request_answered:
  assumes "compact (req_params request)" and "length (enc False (request_val request)) < 2 ^ 31"
    and "store_ok (srv_users sv)" and "last_of (srv_users sv) fd \<noteq> None"
    and "complete_order (arg_order m)" and "callable m sv request vs"
    and "length (req_id request) < 2 ^ 28"
  shows "\<exists>response users app.
     on_request m now fd (enc False (request_val request)) sv =
       Inr (enc False (response_val response), sv\<lparr>srv_users := users, srv_app := app\<rparr>) \<and>
     answered m sv request vs response app \<and>
     last_of users = (last_of (srv_users sv))(fd \<mapsto> now)"
  using on_request_answered [OF assms] by blast

text \<open>
  A server whose \<open>count\<close> method adds its argument to a counter and fails on zero, used as the
  example of the witnesses.
\<close>

definition counter_handler :: "int32 handler" where
  "counter_handler = \<lparr>ret = Some TInt32, arg_types = [TInt32],
     func = (\<lambda>args u. case args of
        [VInt32 k] \<Rightarrow> if k = 0 then (Inl (Runtime_Error ''zero''), u) else (Inr (VInt32 (u + k)), u + k)
      | _ \<Rightarrow> (Inl (Runtime_Error ''bad call''), u))\<rparr>"

definition counter_server :: "int32 rpc_server" where
  "counter_server = register_method (ascii ''count'') counter_handler
     (on_new_connection 0 4 (new_rpc_server 10))"

definition gcc_x86 :: machine where
  "gcc_x86 = \<lparr>big_endian = False, arg_order = right_to_left, lib_what = (\<lambda>_. [])\<rparr>"

lemma counter_server_users:
  "store_ok (srv_users counter_server)" "last_of (srv_users counter_server) 4 = Some 0"
  "srv_app counter_server = 10"
  "srv_manager counter_server (ascii ''count'') = Some counter_handler"
  by (simp_all add: counter_server_def register_method_def on_new_connection_def new_rpc_server_def
      create_user_def store_ok_def last_of_def user_update_heartbeat_def register_handler_def)

definition count_params :: "int32 \<Rightarrow> data_stream" where
  "count_params k = \<lparr>is_big_endian = False, buf_mem = map Some (enc_word DT_INT32 False k),
     buf_len = 5, ds_pos = 0\<rparr>"

definition count_request :: "int32 \<Rightarrow> rpc_request" where
  "count_request k = \<lparr>req_id = [1], req_method = ascii ''count'', req_params = count_params k\<rparr>"

lemma count_params_holds:
  "compact (count_params k)" "holds_args False (count_params k) [VInt32 k]"
  by (auto simp: compact_def count_params_def holds_args_def stored_def enc_args_def)

lemma count_request_ok:
  "length (enc False (request_val (count_request k))) < 2 ^ 31"
  "length (req_id (count_request k)) < 2 ^ 28"
  by (simp_all add: length_enc_request count_request_def count_params_def stream_bytes_def stored_def
      ascii_def)

theorem request_answered_witness:
  "\<exists>response users app.
     on_request gcc_x86 7 4 (enc False (request_val (count_request 5))) counter_server =
       Inr (enc False (response_val response), counter_server\<lparr>srv_users := users, srv_app := app\<rparr>) \<and>
     resp_id response = [1] \<and> resp_error response = [] \<and> app = 15 \<and>
     holds_args False (resp_result response) [VInt32 15]"
proof -
  have c: "callable gcc_x86 counter_server (count_request 5) [VInt32 5]"
    using count_params_holds(2) [of 5]
    by (simp add: callable_def count_request_def counter_server_users gcc_x86_def counter_handler_def
        permuted_right_to_left)
  have l: "last_of (srv_users counter_server) 4 \<noteq> None" by (simp add: counter_server_users)
  have p: "compact (req_params (count_request 5))"
    by (simp add: count_request_def count_params_holds)
  have o: "complete_order (arg_order gcc_x86)" by (simp add: gcc_x86_def complete_orders)
  from request_answered [OF p count_request_ok(1) counter_server_users(1) l o c count_request_ok(2), of 7]
  show ?thesis
    by (auto simp: answered_def count_request_def counter_server_users counter_handler_def gcc_x86_def)
qed

text \<open>
  The periodic check. It closes exactly the connections of the clients last heard of more than
  15 seconds ago, and afterwards the server knows the other clients as before and those no more.
\<close>
theorem check_users_closes_silent:
  assumes "store_ok (srv_users sv)"
  shows "set (fst (check_users now sv)) =
       {fd. \<exists>t. last_of (srv_users sv) fd = Some t \<and> seconds 15 < now - t} \<and>
     last_of (srv_users (snd (check_users now sv))) =
       (\<lambda>fd. if fd \<in> set (fst (check_users now sv)) then None else last_of (srv_users sv) fd) \<and>
     store_ok (srv_users (snd (check_users now sv))) \<and> srv_app (snd (check_users now sv)) = srv_app sv"
proof -
  have "set (check_invalid_user now (srv_users sv)) =
      {fd. \<exists>t. last_of (srv_users sv) fd = Some t \<and> seconds 15 < now - t}"
    using check_invalid_user_iff [OF assms, of _ now] by (auto simp: HEARTBEAT_TIMEOUT_def)
  with fold_remove_user [OF assms, of "check_invalid_user now (srv_users sv)"] show ?thesis
    by (simp add: check_users_def Let_def fold_on_disconnect)
qed

theorem check_users_closes_silent_witness:
  "set (fst (check_users (seconds 16) counter_server)) = {4} \<and>
   last_of (srv_users (snd (check_users (seconds 16) counter_server))) 4 = None"
proof -
  have l: "last_of (srv_users counter_server) = [4 \<mapsto> 0]"
    by (auto simp: counter_server_def register_method_def on_new_connection_def new_rpc_server_def
        create_user_def last_of_def user_update_heartbeat_def)
  have "{fd. \<exists>t. last_of (srv_users counter_server) fd = Some t \<and> seconds 15 < seconds 16 - t} = {4}"
    by (auto simp: l seconds_def split: if_splits)
  with check_users_closes_silent [OF counter_server_users(1), of "seconds 16"] show ?thesis by simp
qed

text \<open>
  A request of a client that was removed meanwhile. When the connection was closed between the
  arrival of the bytes and the callback, the callback dereferences a null pointer instead of
  dropping the request.
\<close>
theorem request_after_disconnect:
  assumes "compact (req_params request)" and "length (enc False (request_val request)) < 2 ^ 31"
    and "store_ok (srv_users sv)"
  shows "on_request m now fd (enc False (request_val request)) (on_disconnect fd sv) =
     Inl (Undefined ''null user'')"
proof -
  have "last_of (remove_user fd (srv_users sv)) fd = None"
    using users.remove(2) [OF assms(3), of fd] by simp
  then have "map_of (remove_user fd (srv_users sv)) fd = None" by (simp add: last_of_def)
  then show ?thesis using read_request_ok [OF assms(1,2)]
    by (simp add: on_request_def on_disconnect_def update_heartbeat_def)
qed

theorem request_after_disconnect_witness:
  "on_request gcc_x86 7 4 (enc False (request_val (count_request 5))) (on_disconnect 4 counter_server) =
     Inl (Undefined ''null user'')"
  by (rule request_after_disconnect [OF _ count_request_ok(1) counter_server_users(1)])
     (simp add: count_request_def count_params_holds)

text \<open>
  Bytes that are no request. When a message does not start with the tag of a class, reading
  the request fails, the failure is ignored, and the client gets a response with an empty id and
  the text \<open>Handler not found\<close> (if no method has the empty name).
\<close>
theorem garbage_answered:
  assumes "b \<noteq> tag DT_CUSTOM" and "length (b # bs) < 2 ^ 31"
    and "store_ok (srv_users sv)" and "last_of (srv_users sv) fd \<noteq> None"
    and "srv_manager sv [] = None"
  shows "\<exists>users. on_request m now fd (b # bs) sv =
     Inr (enc False (response_val ((new_response (big_endian m))\<lparr>resp_error := ascii ''Handler not found''\<rparr>)),
          sv\<lparr>srv_users := users\<rparr>)"
proof -
  let ?nb = "big_endian m"
  let ?r = "(new_response ?nb)\<lparr>resp_error := ascii ''Handler not found''\<rparr>"
  obtain s where s: "load (b # bs) (new_stream ?nb) = Inr s" "ready s (b # bs)"
    using load_fresh [OF assms(2)] by blast
  have "read_request ?nb (b # bs) = Inr (new_request ?nb)"
    using read_value_tag_miss_class [OF s(2) assms(1), of ?nb "[TString, TStream, TString]"
        "request_val (new_request ?nb)"] s(1)
    by (simp add: read_request_def stream_in_def request_type_def [symmetric] val_request_val)
  moreover obtain us where "update_heartbeat fd now (srv_users sv) = Inr us"
    using users.touch [OF assms(3,4)] by blast
  moreover have "answer m (new_request ?nb) (sv\<lparr>srv_users := us\<rparr>) = (Inr ?r, srv_app sv)"
    using answer_unknown [of "sv\<lparr>srv_users := us\<rparr>" "new_request ?nb" m] assms(5)
    by (simp add: new_request_def new_response_def)
  moreover have "sendable ?r"
    using error_sendable [of "ascii ''Handler not found''" "[]" ?nb]
    by (simp add: ascii_def new_response_def)
  then have "message_bytes ?nb (response_val ?r) = Inr (enc False (response_val ?r))"
    unfolding sendable_def using message_bytes_ok [OF response_is_value] by blast
  ultimately show ?thesis by (intro exI [of _ us]) (simp add: on_request_def)
qed

theorem garbage_answered_witness:
  "\<exists>users. on_request gcc_x86 7 4 [71, 69, 84] counter_server =
     Inr (enc False (response_val ((new_response False)\<lparr>resp_error := ascii ''Handler not found''\<rparr>)),
          counter_server\<lparr>srv_users := users\<rparr>)"
proof -
  have "srv_manager counter_server [] = None"
    by (simp add: counter_server_def register_method_def on_new_connection_def new_rpc_server_def
        register_handler_def HEARTBEAT_SIG_def ascii_def)
  then show ?thesis
    using garbage_answered [of 71 "[69, 84]" counter_server 4 gcc_x86 7] counter_server_users
    by (simp add: tag.simps gcc_x86_def)
qed

end
