(* ===== verification/Rpc_Client.thy ===== *)
theory Rpc_Client
  imports Compression Function_Handler Rpc_Package
begin

text \<open>
  \<open>Rpc_Client\<close> (\<open>RPC/Rpc_Client.h\<close>, \<open>RPC/Rpc_Client.cpp\<close>): a call packs its arguments, registers
  a promise under a fresh id, sends the request and waits for the promise; the message callback
  completes the promise whose id a response carries. \<open>generate_uuid\<close> is a parameter: the id is an
  argument of the call.

  The theory shows that responses complete the promises of their own calls, in whatever order
  they arrive, and what a call returns for each response.
\<close>

subsection \<open>State\<close>

text \<open>
  A promise, by what its future would see: nothing yet, the result stream, a
  \<open>std::runtime_error\<close> with a text, or the end of the promise without a value.
\<close>

datatype promise = Waiting | Value data_stream | Failed "byte list" | Broken

text \<open>\<open>cl_promises\<close> has one promise per call, in the order of the calls.\<close>

record rpc_client =
  cl_compression :: compression_type
  cl_pending :: "byte list \<rightharpoonup> nat"
  cl_promises :: "promise list"

definition new_rpc_client :: rpc_client where
  "new_rpc_client = \<lparr>cl_compression = Comp_None, cl_pending = Map.empty, cl_promises = []\<rparr>"

definition client_set_compress_algo :: "compression_type \<Rightarrow> rpc_client \<Rightarrow> rpc_client" where
  "client_set_compress_algo type cl = cl\<lparr>cl_compression := type\<rparr>"

subsection \<open>The call, up to the wait\<close>

text \<open>\<open>write_args(std::get<size - 1 - Is>(tuple))\<close> for every \<open>Is\<close>: the last argument first.\<close>

definition write_params :: "bool \<Rightarrow> cval list \<Rightarrow> data_stream result" where
  "write_params nb args = write_seq nb (rev args) (new_stream nb)"

definition make_request :: "bool \<Rightarrow> byte list \<Rightarrow> cval list \<Rightarrow> byte list \<Rightarrow> rpc_request result" where
  "make_request nb method args uuid =
     bindE (write_params nb args) (\<lambda>ds.
       Inr \<lparr>req_id = uuid, req_method = method, req_params = copy_stream ds\<rparr>)"

text \<open>
  Assigning to \<open>_pending_request[id]\<close> destroys a promise that was there. The result: the bytes
  for \<open>send_message\<close>, and the call's future.
\<close>

definition start_call :: "bool \<Rightarrow> byte list \<Rightarrow> cval list \<Rightarrow> byte list \<Rightarrow> rpc_client \<Rightarrow>
    (byte list \<times> nat \<times> rpc_client) result" where
  "start_call nb method args uuid cl =
     bindE (make_request nb method args uuid) (\<lambda>request.
     bindE (message_bytes nb (request_val request)) (\<lambda>bytes.
       let k = length (cl_promises cl);
           old = (case cl_pending cl uuid of
                    None \<Rightarrow> cl_promises cl | Some j \<Rightarrow> (cl_promises cl)[j := Broken])
       in Inr (bytes, k, cl\<lparr>cl_pending := (cl_pending cl)(uuid \<mapsto> k), cl_promises := old @ [Waiting]\<rparr>)))"

subsection \<open>The message callback\<close>

definition complete_with :: "rpc_response \<Rightarrow> promise" where
  "complete_with response =
     (if resp_error response \<noteq> [] then Failed (resp_error response)
      else Value (copy_stream (resp_result response)))"

definition on_response :: "bool \<Rightarrow> byte list \<Rightarrow> rpc_client \<Rightarrow> rpc_client result" where
  "on_response nb data cl =
     bindE (read_response nb data) (\<lambda>response.
       case cl_pending cl (resp_id response) of
         None \<Rightarrow> Inr cl
       | Some k \<Rightarrow> Inr (cl\<lparr>cl_promises := (cl_promises cl)[k := complete_with response],
                         cl_pending := (cl_pending cl)(resp_id response := None)\<rparr>))"

subsection \<open>The rest of the call\<close>

text \<open>
  \<open>future.get()\<close> and the read of the result. \<open>Bad\<close> is undefined behaviour, or an exception of the read
  or of \<open>send_message\<close>, which comes before.
\<close>

datatype call_outcome = Blocked | Returned cval | Returned_Void | Thrown "byte list"
  | Broken_Promise | Bad error

definition finish_call :: "bool \<Rightarrow> ctype option \<Rightarrow> promise \<Rightarrow> call_outcome" where
  "finish_call nb t p =
     (case p of
        Waiting \<Rightarrow> Blocked
      | Failed e \<Rightarrow> Thrown e
      | Broken \<Rightarrow> Broken_Promise
      | Value result_buf \<Rightarrow>
          (case t of
             None \<Rightarrow> Returned_Void
           | Some t' \<Rightarrow> (case get nb t' result_buf of Inl e \<Rightarrow> Bad e | Inr (v, s) \<Rightarrow> Returned v)))"

text \<open>The periodic heartbeat is a call of a \<open>void\<close> method without arguments.\<close>

definition heartbeat_signal :: "bool \<Rightarrow> byte list \<Rightarrow> rpc_client \<Rightarrow> (byte list \<times> nat \<times> rpc_client) result"
  where
  "heartbeat_signal nb uuid cl = start_call nb (ascii ''HEARTBEAT'') [] uuid cl"

text \<open>
  \<open>Rpc_Status\<close>, which the client holds and does not use yet. \<open>clientID\<close> is indeterminate until it is
  assigned.
\<close>

record rpc_status =
  clientID :: "int32 option"
  status_token :: "byte list"

definition status_type :: ctype where
  "status_type = TCustom [TInt32, TString]"

definition status_val :: "rpc_status \<Rightarrow> cval" where
  "status_val s = VCustom [case clientID s of None \<Rightarrow> VUninit | Some i \<Rightarrow> VInt32 i, VString (status_token s)]"

text \<open>An assigned status crosses the wire; one that is not assigned cannot be written.\<close>

lemma status_message:
  assumes "clientID s = Some i" and "length (enc False (status_val s)) < 2 ^ 31"
  shows "message_bytes nb (status_val s) = Inr (enc False (status_val s)) \<and>
     (\<exists>ds ds'. load (enc False (status_val s)) (new_stream nb) = Inr ds \<and>
        read_value nb status_type (default_val nb status_type) ds = Inr (True, status_val s, ds'))"
proof -
  have "is_value (status_val s) status_type" using assms(1) by (simp add: status_val_def status_type_def)
  from message_bytes_ok [OF this assms(2)] read_loaded [OF this assms(2), of nb] show ?thesis by blast
qed

lemma status_unassigned:
  assumes "clientID s = None"
  shows "message_bytes nb (status_val s) \<noteq> Inr bytes"
  using assms by (auto simp: message_bytes_def stream_out_def status_val_def bindE_eq_Inr)

subsection \<open>Requests\<close>

lemma write_params_appends:
  assumes vs: "list_all2 is_value vs ts" and n: "length (enc_args False (rev vs)) < 2 ^ 31"
  shows "\<exists>s. write_params nb vs = Inr s \<and> appended (new_stream nb) (enc_args False (rev vs)) s"
proof -
  have "\<forall>v \<in> set (rev vs). writes nb False v"
    using vs by (induction rule: list_all2_induct) (auto intro: write_value_appends)
  then show ?thesis
    using write_seq_appends [of "rev vs" nb False "new_stream nb"] n new_stream_ok
    by (simp add: write_params_def enc_args_def appends_def new_stream_def foreign_def)
qed

lemma make_request_ok:
  assumes "list_all2 is_value vs ts" and "length (enc_args False (rev vs)) < 2 ^ 31"
  shows "\<exists>p. make_request nb method vs uuid =
       Inr \<lparr>req_id = uuid, req_method = method, req_params = p\<rparr> \<and> compact p \<and>
     stored p = map Some (enc_args False (rev vs)) \<and> is_big_endian p = nb \<and> ds_pos p = 0 \<and>
     stream_bytes p = enc_args False (rev vs)"
proof -
  from write_params_appends [OF assms] obtain s where
    s: "write_params nb vs = Inr s" "appended (new_stream nb) (enc_args False (rev vs)) s" by blast
  from copy_appended_new [OF s(2) assms(2)] s(1) show ?thesis by (simp add: make_request_def)
qed

definition small_call :: "byte list \<Rightarrow> cval list \<Rightarrow> byte list \<Rightarrow> bool" where
  "small_call method vs uuid \<longleftrightarrow>
     length method < 2 ^ 28 \<and> length uuid < 2 ^ 28 \<and> length (enc_args False (rev vs)) < 2 ^ 28"

lemma start_call_ok:
  assumes "list_all2 is_value vs ts" and "small_call method vs uuid"
    and "cl_pending cl uuid = None"
  shows "\<exists>p. start_call nb method vs uuid cl =
       Inr (enc False (request_val \<lparr>req_id = uuid, req_method = method, req_params = p\<rparr>),
            length (cl_promises cl),
            cl\<lparr>cl_pending := (cl_pending cl)(uuid \<mapsto> length (cl_promises cl)),
               cl_promises := cl_promises cl @ [Waiting]\<rparr>) \<and>
     compact p \<and> stored p = map Some (enc_args False (rev vs)) \<and> is_big_endian p = nb \<and>
     ds_pos p = 0 \<and>
     length (enc False (request_val \<lparr>req_id = uuid, req_method = method, req_params = p\<rparr>)) < 2 ^ 31"
proof -
  have n: "length (enc_args False (rev vs)) < 2 ^ 31" using assms(2) by (simp add: small_call_def)
  from make_request_ok [OF assms(1) this] obtain p where
    p: "make_request nb method vs uuid = Inr \<lparr>req_id = uuid, req_method = method, req_params = p\<rparr>"
      "compact p" "stored p = map Some (enc_args False (rev vs))" "is_big_endian p = nb" "ds_pos p = 0"
      "stream_bytes p = enc_args False (rev vs)"
    by blast
  let ?r = "\<lparr>req_id = uuid, req_method = method, req_params = p\<rparr>"
  have l: "length (enc False (request_val ?r)) < 2 ^ 31"
    using assms(2) p(6) by (simp add: length_enc_request small_call_def)
  have "message_bytes nb (request_val ?r) = Inr (enc False (request_val ?r))"
    using message_bytes_ok [OF request_is_value l] p(2) by simp
  with p l assms(3) show ?thesis by (intro exI [of _ p]) (simp add: start_call_def Let_def)
qed

subsection \<open>The table of pending calls\<close>

text \<open>Every id in the table leads to a waiting promise of its own, and every waiting promise has one.\<close>

definition client_ok :: "rpc_client \<Rightarrow> bool" where
  "client_ok cl \<longleftrightarrow>
     inj_on (cl_pending cl) (dom (cl_pending cl)) \<and>
     (\<forall>k. (\<exists>i. cl_pending cl i = Some k) \<longleftrightarrow> (k < length (cl_promises cl) \<and> cl_promises cl ! k = Waiting))"

lemma new_rpc_client_ok: "client_ok new_rpc_client"
  by (simp add: client_ok_def new_rpc_client_def)

lemma pending_inj:
  "client_ok cl \<Longrightarrow> cl_pending cl i = Some k \<Longrightarrow> cl_pending cl j = Some k \<Longrightarrow> i = j"
  by (auto simp: client_ok_def inj_on_def dom_def)

lemma pending_bound:
  "client_ok cl \<Longrightarrow> cl_pending cl i = Some k \<Longrightarrow> k < length (cl_promises cl)"
  by (auto simp: client_ok_def)

lemma start_call_keeps_ok:
  assumes ok: "client_ok cl" and s: "start_call nb method vs uuid cl = Inr (bytes, k, cl')"
  shows "client_ok cl' \<and> cl_promises cl' ! k = Waiting \<and> cl_pending cl' uuid = Some k"
proof -
  define old where "old = (case cl_pending cl uuid of
      None \<Rightarrow> cl_promises cl | Some j \<Rightarrow> (cl_promises cl)[j := Broken])"
  have c: "k = length (cl_promises cl)"
    "cl' = cl\<lparr>cl_pending := (cl_pending cl)(uuid \<mapsto> k), cl_promises := old @ [Waiting]\<rparr>"
    using s by (auto simp: start_call_def bindE_eq_Inr Let_def old_def)
  have l: "length old = k" by (simp add: old_def c(1) split: option.splits)
  have fresh: "cl_pending cl i \<noteq> Some k" for i
    using pending_bound [OF ok, of i k] c(1) by auto
  have inj: "inj_on (cl_pending cl') (dom (cl_pending cl'))"
    using ok fresh by (auto simp: client_ok_def c(2) inj_on_def dom_def)
  have "(\<exists>i. cl_pending cl' i = Some n) \<longleftrightarrow>
      (n < length (cl_promises cl') \<and> cl_promises cl' ! n = Waiting)" for n
  proof (cases "n < k")
    case True
    have "(\<exists>i. cl_pending cl' i = Some n) \<longleftrightarrow> (\<exists>i. i \<noteq> uuid \<and> cl_pending cl i = Some n)"
      using True by (auto simp: c(2))
    also have "\<dots> \<longleftrightarrow> old ! n = Waiting"
    proof (cases "cl_pending cl uuid")
      case None
      then have "(\<exists>i. i \<noteq> uuid \<and> cl_pending cl i = Some n) \<longleftrightarrow> (\<exists>i. cl_pending cl i = Some n)"
        by (metis option.distinct(1))
      with None ok True show ?thesis by (simp add: client_ok_def old_def c(1))
    next
      case (Some j)
      show ?thesis
      proof (cases "n = j")
        case True
        then have "\<not> (\<exists>i. i \<noteq> uuid \<and> cl_pending cl i = Some n)"
          using pending_inj [OF ok Some] by blast
        moreover have "old ! n = Broken"
          using True pending_bound [OF ok Some] Some by (simp add: old_def)
        ultimately show ?thesis by simp
      next
        case False
        with Some have "(\<exists>i. i \<noteq> uuid \<and> cl_pending cl i = Some n) \<longleftrightarrow> (\<exists>i. cl_pending cl i = Some n)"
          by (metis option.inject)
        with Some False ok \<open>n < k\<close> show ?thesis by (simp add: client_ok_def old_def c(1))
      qed
    qed
    finally show ?thesis using True l by (simp add: c(2) nth_append)
  next
    case False
    have "cl_pending cl i \<noteq> Some n" for i
      using False pending_bound [OF ok, of i n] c(1) by auto
    then have "(\<exists>i. cl_pending cl' i = Some n) \<longleftrightarrow> n = k" by (auto simp: c(2))
    with False l show ?thesis by (auto simp: c(2) nth_append)
  qed
  with inj l show ?thesis by (simp add: client_ok_def c(2) nth_append)
qed

text \<open>One response: its promise, and nothing else.\<close>

definition delivered :: "rpc_response \<Rightarrow> rpc_client \<Rightarrow> rpc_client" where
  "delivered r cl =
     (case cl_pending cl (resp_id r) of
        None \<Rightarrow> cl
      | Some k \<Rightarrow> cl\<lparr>cl_promises := (cl_promises cl)[k := complete_with r],
                    cl_pending := (cl_pending cl)(resp_id r := None)\<rparr>)"

definition readable :: "rpc_response \<Rightarrow> bool" where
  "readable r \<longleftrightarrow> compact (resp_result r) \<and> length (enc False (response_val r)) < 2 ^ 31"

lemma on_response_delivers:
  "readable r \<Longrightarrow> on_response nb (enc False (response_val r)) cl = Inr (delivered r cl)"
  using read_response_ok [of r nb]
  by (auto simp: readable_def on_response_def delivered_def split: option.splits)

lemma complete_not_waiting [simp]: "complete_with r \<noteq> Waiting"
  by (simp add: complete_with_def)

lemma delivered_ok:
  assumes ok: "client_ok cl"
  shows "client_ok (delivered r cl)"
proof (cases "cl_pending cl (resp_id r)")
  case None
  with ok show ?thesis by (simp add: delivered_def)
next
  case (Some k)
  have b: "k < length (cl_promises cl)" using pending_bound [OF ok Some] .
  have "(\<exists>i. i \<noteq> resp_id r \<and> cl_pending cl i = Some n) \<longleftrightarrow>
      (n < length (cl_promises cl) \<and> (cl_promises cl)[k := complete_with r] ! n = Waiting)" for n
  proof (cases "n = k")
    case True
    with b pending_inj [OF ok Some] show ?thesis by auto
  next
    case False
    then have "(\<exists>i. i \<noteq> resp_id r \<and> cl_pending cl i = Some n) \<longleftrightarrow> (\<exists>i. cl_pending cl i = Some n)"
      using Some by (metis option.inject)
    with ok False show ?thesis by (simp add: client_ok_def)
  qed
  moreover have "(\<exists>i. ((cl_pending cl)(resp_id r := None)) i = Some n) \<longleftrightarrow>
      (\<exists>i. i \<noteq> resp_id r \<and> cl_pending cl i = Some n)" for n by auto
  moreover have "inj_on ((cl_pending cl)(resp_id r := None)) (dom ((cl_pending cl)(resp_id r := None)))"
    using ok by (auto simp: client_ok_def inj_on_def dom_def)
  ultimately show ?thesis using Some by (simp add: client_ok_def delivered_def)
qed

lemma delivered_other:
  assumes ok: "client_ok cl" and "cl_pending cl i = Some k" and "i \<noteq> resp_id r"
  shows "cl_pending (delivered r cl) i = Some k \<and>
    cl_promises (delivered r cl) ! k = cl_promises cl ! k"
proof (cases "cl_pending cl (resp_id r)")
  case (Some j)
  with assms(2,3) pending_inj [OF ok assms(2), of "resp_id r"] have "j \<noteq> k" by auto
  with Some assms(2,3) show ?thesis by (simp add: delivered_def)
qed (use assms(2) in \<open>simp add: delivered_def\<close>)

lemma delivered_own:
  assumes "client_ok cl" and "cl_pending cl (resp_id r) = Some k"
  shows "cl_pending (delivered r cl) (resp_id r) = None \<and>
    cl_promises (delivered r cl) ! k = complete_with r"
  using assms pending_bound [OF assms] by (simp add: delivered_def)

lemma delivered_done:
  assumes ok: "client_ok cl" and "k < length (cl_promises cl)" and "cl_promises cl ! k \<noteq> Waiting"
  shows "cl_promises (delivered r cl) ! k = cl_promises cl ! k \<and>
    length (cl_promises (delivered r cl)) = length (cl_promises cl)"
proof (cases "cl_pending cl (resp_id r)")
  case (Some j)
  then have "cl_promises cl ! j = Waiting" using ok by (auto simp: client_ok_def)
  then have "j \<noteq> k" using assms(3) by auto
  with Some show ?thesis by (simp add: delivered_def)
qed (simp add: delivered_def)

subsection \<open>Responses in any order\<close>

fun on_responses :: "bool \<Rightarrow> byte list list \<Rightarrow> rpc_client \<Rightarrow> rpc_client result" where
  "on_responses nb [] cl = Inr cl"
| "on_responses nb (d # ds) cl = bindE (on_response nb d cl) (on_responses nb ds)"

lemma on_responses_done:
  assumes "list_all readable rs" and "client_ok cl"
    and "k < length (cl_promises cl)" and "cl_promises cl ! k \<noteq> Waiting"
  shows "\<exists>cl'. on_responses nb (map (\<lambda>r. enc False (response_val r)) rs) cl = Inr cl' \<and>
    client_ok cl' \<and> cl_promises cl' ! k = cl_promises cl ! k"
  using assms
proof (induction rs arbitrary: cl)
  case (Cons r rs)
  have d: "cl_promises (delivered r cl) ! k = cl_promises cl ! k"
    "length (cl_promises (delivered r cl)) = length (cl_promises cl)"
    using delivered_done [OF Cons.prems(2-4)] by simp_all
  have "list_all readable rs" "k < length (cl_promises (delivered r cl))"
    "cl_promises (delivered r cl) ! k \<noteq> Waiting"
    using Cons.prems(1,3,4) d by simp_all
  from Cons.IH [OF this(1) delivered_ok [OF Cons.prems(2)] this(2,3)] d Cons.prems(1) show ?case
    by (simp add: on_response_delivers)
qed simp

lemma on_responses_routed:
  assumes "list_all readable rs" and "client_ok cl" and "distinct (map resp_id rs)"
    and "cl_pending cl i = Some k"
  shows "\<exists>cl'. on_responses nb (map (\<lambda>r. enc False (response_val r)) rs) cl = Inr cl' \<and>
    client_ok cl' \<and>
    cl_promises cl' ! k = (case map_of (map (\<lambda>r. (resp_id r, r)) rs) i of
       None \<Rightarrow> Waiting | Some r \<Rightarrow> complete_with r)"
  using assms
proof (induction rs arbitrary: cl)
  case Nil
  then show ?case by (auto simp: client_ok_def)
next
  case (Cons r rs)
  have step: "on_responses nb (map (\<lambda>r. enc False (response_val r)) (r # rs)) cl =
      on_responses nb (map (\<lambda>r. enc False (response_val r)) rs) (delivered r cl)"
    using Cons.prems(1) by (simp add: on_response_delivers)
  show ?case
  proof (cases "resp_id r = i")
    case True
    have own: "cl_promises (delivered r cl) ! k = complete_with r"
      using delivered_own [of cl r k] Cons.prems True by simp
    have "k < length (cl_promises (delivered r cl))"
      using pending_bound [OF Cons.prems(2,4)] by (simp add: delivered_def split: option.splits)
    with on_responses_done [of rs "delivered r cl" k nb] own Cons.prems(1) delivered_ok [OF Cons.prems(2)]
    show ?thesis unfolding step using True by auto
  next
    case False
    then have "cl_pending (delivered r cl) i = Some k"
      using delivered_other [OF Cons.prems(2,4)] by auto
    from Cons.IH [OF _ delivered_ok [OF Cons.prems(2)] _ this] Cons.prems(1,3) False
    show ?thesis unfolding step by simp
  qed
qed

subsection \<open>Results\<close>

lemma finish_value:
  assumes "is_value v t" and "ready s (enc (foreign nb s) v @ bs)"
  shows "finish_call nb (Some t) (Value s) = Returned v"
  using get_ok [OF assms] by (simp add: finish_call_def)

subsection \<open>Properties\<close>

lemma on_response_ok: "client_ok cl \<Longrightarrow> on_response nb data cl = Inr cl' \<Longrightarrow> client_ok cl'"
  unfolding on_response_def bindE_eq_Inr
  by (metis (no_types, lifting) delivered_def delivered_ok option.case_eq_if sum.inject(2))

text \<open>
  C13: Responses find their calls. Any number of outstanding calls, and any sequence of responses
  with pairwise different ids, in whatever order the server answered: afterwards every call that
  was answered has exactly the response with its id, and the others wait on.
\<close>
theorem responses_routed:
  assumes "list_all readable rs" and "client_ok cl" and "distinct (map resp_id rs)"
    and "cl_pending cl i = Some k"
  shows "\<exists>cl'. on_responses nb (map (\<lambda>r. enc False (response_val r)) rs) cl = Inr cl' \<and>
    client_ok cl' \<and>
    cl_promises cl' ! k = (case map_of (map (\<lambda>r. (resp_id r, r)) rs) i of
       None \<Rightarrow> Waiting | Some r \<Rightarrow> complete_with r)"
  using assms by (rule on_responses_routed)

theorem responses_routed_witness:
  "\<exists>cl'. on_responses False (map (\<lambda>r. enc False (response_val r))
      [(new_response False)\<lparr>resp_id := [2], resp_error := [101]\<rparr>, (new_response False)\<lparr>resp_id := [1]\<rparr>])
      \<lparr>cl_compression = Comp_None, cl_pending = [[1] \<mapsto> 0, [2] \<mapsto> 1], cl_promises = [Waiting, Waiting]\<rparr>
    = Inr cl' \<and> cl_promises cl' ! 1 = Failed [101]"
proof -
  let ?cl = "\<lparr>cl_compression = Comp_None, cl_pending = [[1] \<mapsto> 0, [2] \<mapsto> 1], cl_promises = [Waiting, Waiting]\<rparr>"
  let ?rs = "[(new_response False)\<lparr>resp_id := [2], resp_error := [101]\<rparr>, (new_response False)\<lparr>resp_id := [1]\<rparr>]"
  let ?m = "[[1 :: byte] \<mapsto> 0 :: nat, [2] \<mapsto> 1]"
  have "(\<exists>i. ?m i = Some k) \<longleftrightarrow> k < 2 \<and> [Waiting, Waiting] ! k = Waiting" for k
  proof (cases "k = 0 \<or> k = 1")
    case True
    then have "?m (if k = 0 then [1] else [2]) = Some k" by auto
    then have "\<exists>i. ?m i = Some k" by (rule exI)
    with True show ?thesis by auto
  qed auto
  moreover have "inj_on ?m (dom ?m)" by (simp add: inj_on_def)
  ultimately have "client_ok ?cl" by (simp add: client_ok_def numeral_2_eq_2)
  moreover have "list_all readable ?rs"
    by (simp add: readable_def length_enc_response new_response_def compact_def new_stream_def
        stream_bytes_def stored_def)
  moreover have "distinct (map resp_id ?rs)" "cl_pending ?cl [2] = Some 1"
    by (simp_all add: new_response_def)
  ultimately obtain cl' where
    "on_responses False (map (\<lambda>r. enc False (response_val r)) ?rs) ?cl = Inr cl'"
    and "cl_promises cl' ! 1 = (case map_of (map (\<lambda>r. (resp_id r, r)) ?rs) [2] of
       None \<Rightarrow> Waiting | Some r \<Rightarrow> complete_with r)"
    using responses_routed [of ?rs ?cl "[2]" 1 False] by blast
  moreover have "(case map_of (map (\<lambda>r. (resp_id r, r)) ?rs) [2] of
       None \<Rightarrow> Waiting | Some r \<Rightarrow> complete_with r) = Failed [101]"
    by (simp add: complete_with_def)
  ultimately show ?thesis by metis
qed

text \<open>
  The table of calls. Starting a call keeps every id in the table tied to a waiting promise of
  its own, and gives the new call a promise that waits; whatever bytes arrive as a
  response, the callback keeps this too.
\<close>
theorem client_invariant:
  assumes "client_ok cl" and "start_call nb method vs uuid cl = Inr (bytes, k, cl')"
  shows "client_ok cl' \<and> cl_pending cl' uuid = Some k \<and> cl_promises cl' ! k = Waiting \<and>
     (\<forall>nb' data cl''. on_response nb' data cl' = Inr cl'' \<longrightarrow> client_ok cl'')"
  using start_call_keeps_ok [OF assms] on_response_ok by blast

theorem client_invariant_witness:
  "\<exists>bytes k cl'. heartbeat_signal False [7] new_rpc_client = Inr (bytes, k, cl') \<and> client_ok cl' \<and>
     cl_promises cl' ! k = Waiting"
proof -
  have "small_call (ascii ''HEARTBEAT'') [] [7]" by (simp add: small_call_def ascii_def enc_args_def)
  from start_call_ok [OF _ this, of "[]" new_rpc_client False] obtain bytes k cl' where
    "start_call False (ascii ''HEARTBEAT'') [] [7] new_rpc_client = Inr (bytes, k, cl')"
    by (auto simp: new_rpc_client_def)
  with client_invariant [OF new_rpc_client_ok this] show ?thesis by (auto simp: heartbeat_signal_def)
qed

text \<open>
  A response without a result is taken for one. When a function throws an exception with an
  empty text, or a method is \<open>void\<close> on the server and not on the client, the response has an empty
  error and an empty stream: a \<open>void\<close> call then returns as if it had succeeded, and any other one
  reads outside the stream.
\<close>
theorem empty_response_result:
  "complete_with ((new_response nb)\<lparr>resp_id := i\<rparr>) = Value (new_stream nb) \<and>
   finish_call nb' None (Value (new_stream nb)) = Returned_Void \<and>
   finish_call nb' (Some t) (Value (new_stream nb)) = Bad (Undefined ''read outside the block'')"
  using read_value_empty [of nb' t "default_val nb' t" nb]
  by (simp add: complete_with_def new_response_def copy_stream_def new_stream_def stored_def
      finish_call_def get_def)

end
