(* ===== verification/Tcp_Client.thy ===== *)
theory Tcp_Client
  imports Network
begin

text \<open>
  \<open>Tcp_Client\<close> (\<open>Core/Tcp_Client.h\<close>, \<open>Core/Tcp_Client.cpp\<close>): connecting, sending a message, the
  loop that reads. The loop polls a non-blocking socket for as long as the client runs.

  The lemmas show that messages are sent whole when the socket takes each at once and what is lost
  when it does not, and that the loop hands every message of whole frames to the callback, as long
  as \<open>errno\<close> stays what the last failed \<open>read\<close> left there.
\<close>

subsection \<open>State\<close>

record tcp_client = network +
  tc_fd :: int
  tc_ip :: "byte list"
  tc_port :: int
  tc_channel :: "channel option"
  tc_running :: bool

record ('a, 'k) cworld =
  c_client :: tcp_client
  c_app :: 'a
  c_kernel :: 'k

text \<open>The constructor; \<open>_fd\<close> is indeterminate until \<open>run\<close> (\<open>fd0\<close>), \<open>_channel\<close> is null.\<close>

definition new_tcp_client :: "int \<Rightarrow> byte list \<Rightarrow> int \<Rightarrow> tcp_client" where
  "new_tcp_client fd0 addr port =
     \<lparr>net_compression = Comp_None, tc_fd = fd0, tc_ip = addr, tc_port = port, tc_channel = None,
      tc_running = False\<rparr>"

subsection \<open>Connecting\<close>

text \<open>
  \<open>run\<close>, up to the task for the executor. The state is returned on failure too: a descriptor that
  was made stays open.
\<close>

definition client_run :: "'k kernel \<Rightarrow> byte list \<Rightarrow> ('a, 'k) cworld \<Rightarrow> unit result \<times> ('a, 'k) cworld"
  where
  "client_run kern arr w =
     (let c = c_client w in
      case k_socket kern (c_kernel w) of
        (Inl e, k1) \<Rightarrow> (Inl (System_Error e ''Failed to create socket''),
                        w\<lparr>c_client := c\<lparr>tc_fd := - 1\<rparr>, c_kernel := k1\<rparr>)
      | (Inr fd, k1) \<Rightarrow>
          let w1 = w\<lparr>c_client := c\<lparr>tc_fd := fd\<rparr>, c_kernel := k1\<rparr> in
          if \<not> k_inet_pton kern (tc_ip c) then (Inl (Runtime_Error ''Invalid address''), w1)
          else
            (case k_connect kern fd (tc_ip c) (tc_port c) k1 of (r, k2) \<Rightarrow>
             (case r of
                Some e \<Rightarrow>
                  if e \<noteq> EINPROGRESS
                  then (Inl (System_Error e ''Failed to connect''), w1\<lparr>c_kernel := k2\<rparr>)
                  else (Inr (), w1\<lparr>c_kernel := snd (k_setsockopt kern fd k2),
                     c_client := (c_client w1)\<lparr>tc_running := True, tc_channel :=
                       Some (Channel.set_compress_algo (net_compression c) (new_channel arr fd))\<rparr>\<rparr>)
              | None \<Rightarrow> (Inr (), w1\<lparr>c_kernel := snd (k_setsockopt kern fd k2),
                     c_client := (c_client w1)\<lparr>tc_running := True, tc_channel :=
                       Some (Channel.set_compress_algo (net_compression c) (new_channel arr fd))\<rparr>\<rparr>))))"

text \<open>\<open>disconnect\<close>: what it does to the members, and the \<open>close\<close>.\<close>

definition tcp_disconnect :: "tcp_client \<Rightarrow> tcp_client" where
  "tcp_disconnect c = (if tc_fd c \<noteq> - 1 then c\<lparr>tc_fd := - 1\<rparr> else c)\<lparr>tc_running := False\<rparr>"

definition disconnect :: "'k kernel \<Rightarrow> ('a, 'k) cworld \<Rightarrow> ('a, 'k) cworld" where
  "disconnect kern w =
     w\<lparr>c_client := tcp_disconnect (c_client w),
       c_kernel := (if tc_fd (c_client w) \<noteq> - 1 then k_close kern (tc_fd (c_client w)) (c_kernel w) else c_kernel w)\<rparr>"

definition client_stop :: "('a, 'k) cworld \<Rightarrow> ('a, 'k) cworld" where
  "client_stop w = w\<lparr>c_client := (c_client w)\<lparr>tc_running := False\<rparr>\<rparr>"

subsection \<open>Sending\<close>

text \<open>The loop of the send callback. The number of bytes \<open>send\<close> took is only compared with -1.\<close>

function send_queued :: "'k kernel \<Rightarrow> int \<Rightarrow> byte list tsq \<Rightarrow> 'k \<Rightarrow> unit result \<times> byte list tsq \<times> 'k"
where
  "send_queued kern fd q k =
     (if tsq_size q = 0 then (Inr (), q, k)
      else
        case tsq_front_pop q of
          Inl e \<Rightarrow> (Inl e, q, k)
        | Inr (message, q1) \<Rightarrow>
            (case k_send kern fd message k of
               (Sent n, k1) \<Rightarrow> send_queued kern fd q1 k1
             | (Send_Again, k1) \<Rightarrow> (Inl (System_Error EAGAIN ''Failed to send data''), q1, k1)
             | (Send_Error e, k1) \<Rightarrow> (Inl (System_Error e ''Failed to send data''), q1, k1)))"
  by pat_completeness auto
termination
  by (relation "measure (\<lambda>(kern, fd, q, k). tsq_size q)")
     (auto simp: tsq_size_def tsq_front_pop_def tsq_front_def tsq_pop_def split: list.splits)

declare send_queued.simps [simp del]

definition client_on_send :: "'k kernel \<Rightarrow> channel \<Rightarrow> ('a, 'k) cworld \<Rightarrow> unit result \<times> ('a, 'k) cworld" where
  "client_on_send kern ch w =
     (if \<not> tc_running (c_client w)
      then (Inl (Runtime_Error ''Client is not connected''),
            w\<lparr>c_client := (c_client w)\<lparr>tc_channel := Some ch\<rparr>\<rparr>)
      else
        case send_queued kern (tc_fd (c_client w)) (ch_send_messages ch) (c_kernel w) of (r, q, k) \<Rightarrow>
          (r, w\<lparr>c_client := (c_client w)\<lparr>tc_channel := Some (ch\<lparr>ch_send_messages := q\<rparr>)\<rparr>, c_kernel := k\<rparr>))"

text \<open>\<open>send_message\<close>: \<open>write_data\<close> of the channel, with that callback.\<close>

definition send_message :: "('d, 'a, 'k) tcp_env \<Rightarrow> byte list \<Rightarrow> ('a, 'k) cworld \<Rightarrow>
    unit result \<times> ('a, 'k) cworld" where
  "send_message env data w =
     (case tc_channel (c_client w) of
        None \<Rightarrow> (Inl (Undefined ''null channel''), w)
      | Some ch \<Rightarrow>
          (case enqueue_message (env_lib env) (env_nb env) data ch of
             Inl e \<Rightarrow> (Inl e, w)
           | Inr ch1 \<Rightarrow> client_on_send (env_kernel env) ch1 w))"

subsection \<open>Reading\<close>

text \<open>The calls of the read callback for one chunk, with what they write.\<close>

fun send_messages :: "('d, 'a, 'k) tcp_env \<Rightarrow> byte list list \<Rightarrow> ('a, 'k) cworld \<Rightarrow> ('a, 'k) cworld result"
where
  "send_messages env [] w = Inr w"
| "send_messages env (d # ds) w =
     (case send_message env d w of (r, w1) \<Rightarrow> bindE r (\<lambda>_. send_messages env ds w1))"

fun client_callbacks :: "('d, 'a, 'k) tcp_env \<Rightarrow> int \<Rightarrow> byte list list \<Rightarrow> ('a, 'k) cworld \<Rightarrow>
    ('a, 'k) cworld result" where
  "client_callbacks env fd [] w = Inr w"
| "client_callbacks env fd (m # ms) w =
     (case cb_read (env_cbs env) of
        None \<Rightarrow> client_callbacks env fd ms w
      | Some f \<Rightarrow>
          bindE (f fd m (c_app w)) (\<lambda>(outs, app).
          bindE (send_messages env outs (w\<lparr>c_app := app\<rparr>)) (client_callbacks env fd ms)))"

text \<open>
  One turn of the loop, and whether it goes on. The branch on \<open>errno\<close> comes before the one on a
  positive count: after a \<open>read\<close> that succeeded, \<open>errno\<close> is what an earlier call left.
\<close>

definition client_read_step :: "('d, 'a, 'k) tcp_env \<Rightarrow> ('a, 'k) cworld \<Rightarrow> (bool \<times> ('a, 'k) cworld) result"
  where
  "client_read_step env w =
     (case tc_channel (c_client w) of
        None \<Rightarrow> Inl (Undefined ''null channel'')
      | Some ch \<Rightarrow>
          (case k_read (env_kernel env) (ch_fd ch) BUFFER_SIZE (c_kernel w) of (r, k) \<Rightarrow>
           let w1 = w\<lparr>c_kernel := k\<rparr>;
               errno = (case r of Read_Again \<Rightarrow> EAGAIN | Read_Error e \<Rightarrow> e | _ \<Rightarrow> k_errno (env_kernel env) k)
           in if r = Eof then Inr (False, disconnect (env_kernel env) w1)
              else if errno \<noteq> EAGAIN then Inr (False, disconnect (env_kernel env) w1)
              else
                (case r of
                   Bytes bs \<Rightarrow>
                     bindE (enqueue bs (ch_read_buffer ch)) (\<lambda>rb.
                     bindE (parse_message (env_lib env) (env_nb env) (ch\<lparr>ch_read_buffer := rb\<rparr>)) (\<lambda>(ms, ch1).
                     bindE (client_callbacks env (ch_fd ch) ms
                              (w1\<lparr>c_client := (c_client w1)\<lparr>tc_channel := Some ch1\<rparr>\<rparr>)) (\<lambda>w2.
                     Inr (True, w2))))
                 | _ \<Rightarrow> Inr (True, w1))))"

partial_function (option) client_read_loop :: "('d, 'a, 'k) tcp_env \<Rightarrow> ('a, 'k) cworld \<Rightarrow>
    ('a, 'k) cworld result option" where
  "client_read_loop env w =
     (if \<not> tc_running (c_client w) then Some (Inr w)
      else
        (case client_read_step env w of
           Inl e \<Rightarrow> Some (Inl e)
         | Inr (go_on, w1) \<Rightarrow> (if go_on then client_read_loop env w1 else Some (Inr w1))))"

text \<open>The first turns of the loop: at most \<open>n\<close> of them.\<close>

fun client_turns :: "('d, 'a, 'k) tcp_env \<Rightarrow> nat \<Rightarrow> ('a, 'k) cworld \<Rightarrow> ('a, 'k) cworld result" where
  "client_turns env 0 w = Inr w"
| "client_turns env (Suc n) w =
     (if \<not> tc_running (c_client w) then Inr w
      else bindE (client_read_step env w) (\<lambda>(go_on, w1). if go_on then client_turns env n w1 else Inr w1))"

lemma client_stops: "client_read_step env w = Inr (False, w1) \<Longrightarrow> \<not> tc_running (c_client w1)"
  by (auto simp: client_read_step_def disconnect_def tcp_disconnect_def Let_def bindE_eq_Inr split: option.splits prod.splits if_splits
      read_result.splits)

lemma client_turns_loop:
  assumes "client_turns env n w = Inr w'" and "tc_running (c_client w')"
  shows "client_read_loop env w = client_read_loop env w'"
  using assms(1)
proof (induction n arbitrary: w)
  case (Suc n)
  show ?case
  proof (cases "tc_running (c_client w)")
    case True
    with Suc.prems obtain go_on w1 where s: "client_read_step env w = Inr (go_on, w1)"
      "(if go_on then client_turns env n w1 else Inr w1) = Inr w'" by (auto simp: bindE_eq_Inr)
    then have "go_on" using assms(2) client_stops by (cases go_on) auto
    with s Suc.IH [of w1] True show ?thesis by (subst client_read_loop.simps) simp
  qed (use Suc.prems in simp)
qed simp

subsection \<open>What is sent\<close>

text \<open>\<open>take_all\<close>: the socket takes each message at once.\<close>

definition take_all :: "'k kernel \<Rightarrow> int \<Rightarrow> ('k \<Rightarrow> byte list) \<Rightarrow> bool" where
  "take_all kern fd out \<longleftrightarrow>
     (\<forall>bs k. \<exists>k'. k_send kern fd bs k = (Sent (length bs), k') \<and> out k' = out k @ bs)"

lemma send_queued_all:
  assumes "take_all kern fd out"
  shows "\<exists>k'. send_queued kern fd q k = (Inr (), new_tsq, k') \<and> out k' = out k @ concat (tsq_queue q)"
proof (induction "tsq_queue q" arbitrary: q k)
  case Nil
  then have "q = new_tsq" by (cases q) (simp add: new_tsq_def)
  then show ?case by (simp add: send_queued.simps [of kern fd "\<lparr>tsq_queue = []\<rparr>"] tsq_size_def new_tsq_def)
next
  case (Cons m ms)
  from tsq.front_pop_Cons [OF Cons.hyps(2) [symmetric]] obtain q1 where
    q1: "tsq_front_pop q = Inr (m, q1)" "tsq_queue q1 = ms" by blast
  from assms obtain k1 where k1: "k_send kern fd m k = (Sent (length m), k1)" "out k1 = out k @ m"
    unfolding take_all_def by blast
  from Cons.hyps(1) [of q1 k1] q1(2) obtain k' where
    "send_queued kern fd q1 k1 = (Inr (), new_tsq, k')" "out k' = out k1 @ concat ms" by auto
  moreover have "concat (tsq_queue q) = m @ concat ms" by (simp add: Cons.hyps(2) [symmetric])
  moreover have "send_queued kern fd q k = send_queued kern fd q1 k1"
    using q1(1) k1(1) Cons.hyps(2) [symmetric] by (simp add: send_queued.simps [of kern fd q] tsq_size_def)
  ultimately show ?case using k1(2) by simp
qed

text \<open>Sending does not touch what will be read.\<close>

definition sends_apart :: "'k kernel \<Rightarrow> ('k \<Rightarrow> 'r) \<Rightarrow> bool" where
  "sends_apart kern inp \<longleftrightarrow> (\<forall>fd bs k. inp (snd (k_send kern fd bs k)) = inp k)"

lemma send_queued_apart:
  "sends_apart kern inp \<Longrightarrow> inp (snd (snd (send_queued kern fd q k))) = inp k"
proof (induction kern fd q k rule: send_queued.induct)
  case (1 kern fd q k)
  have s: "inp (snd (k_send kern fd m k)) = inp k" for m using 1(2) by (simp add: sends_apart_def)
  show ?case
  proof (cases "tsq_size q = 0")
    case False
    show ?thesis
    proof (cases "tsq_front_pop q")
      case (Inr r)
      obtain m q1 where r: "r = (m, q1)" by (cases r)
      obtain res k1 where k1: "k_send kern fd m k = (res, k1)" by (cases "k_send kern fd m k")
      with s [of m] have i: "inp k1 = inp k" by simp
      have "res = Sent n \<Longrightarrow> inp (snd (snd (send_queued kern fd q1 k1))) = inp k1" for n
        using 1(1) [OF False Inr r [symmetric] k1 [symmetric] _ 1(2)] by simp
      then show ?thesis using False Inr r k1 i
        by (subst send_queued.simps) (simp split: send_result.splits)
    qed (use False in \<open>simp add: send_queued.simps [of kern fd q]\<close>)
  qed (simp add: send_queued.simps [of kern fd q])
qed

lemma send_message_apart:
  assumes "sends_apart (env_kernel env) inp"
  shows "inp (c_kernel (snd (send_message env data w))) = inp (c_kernel w)"
  using send_queued_apart [OF assms]
  by (auto simp: send_message_def client_on_send_def split: option.splits sum.splits prod.splits) (metis snd_conv)+

definition connected :: "channel \<Rightarrow> ('a, 'k) cworld \<Rightarrow> bool" where
  "connected ch w \<longleftrightarrow> tc_running (c_client w) \<and> tc_channel (c_client w) = Some ch"

lemma queue_of_push: "tsq_queue q = [] \<Longrightarrow> tsq_push m q = \<lparr>tsq_queue = [m]\<rparr>"
  by (cases q) (simp add: tsq_push_def)

lemma send_message_whole:
  assumes "take_all (env_kernel env) (tc_fd (c_client w)) out" and "connected ch w"
    and "encode_string (env_lib env) (ch_compression ch) data = Inr e"
  shows "\<exists>w'. send_message env data w = (Inr (), w') \<and>
     connected (ch\<lparr>ch_send_messages := new_tsq\<rparr>) w' \<and> tc_fd (c_client w') = tc_fd (c_client w) \<and>
     out (c_kernel w') =
       out (c_kernel w) @ concat (tsq_queue (ch_send_messages ch)) @ frame_message (env_nb env) e \<and>
     c_app w' = c_app w"
  using send_queued_all [OF assms(1), of "tsq_push (frame_message (env_nb env) e) (ch_send_messages ch)"
      "c_kernel w"] assms(2,3)
  by (auto simp: send_message_def connected_def enqueue_message_def client_on_send_def tsq.elems_push)

subsection \<open>What is received\<close>

text \<open>
  \<open>inp\<close> is what the next calls of \<open>read\<close> return before the end of the connection, and \<open>errno\<close>
  stays at the \<open>EAGAIN\<close> of an earlier \<open>read\<close>.
\<close>

definition client_feed :: "'k kernel \<Rightarrow> int \<Rightarrow> ('k \<Rightarrow> read_result list) \<Rightarrow> bool" where
  "client_feed kern fd inp \<longleftrightarrow>
     (\<forall>k n. \<exists>k'. k_read kern fd n k = (case inp k of [] \<Rightarrow> (Eof, k') | r # rs \<Rightarrow> (r, k')) \<and>
        inp k' = tl (inp k) \<and> k_errno kern k' = EAGAIN)"

fun chunks_of :: "read_result list \<Rightarrow> byte list list" where
  "chunks_of [] = []"
| "chunks_of (Bytes c # rs) = c # chunks_of rs"
| "chunks_of (r # rs) = chunks_of rs"

lemma client_feedD:
  assumes "client_feed kern fd inp" and "inp k = rs"
  shows "\<exists>k'. k_read kern fd n k = (case rs of [] \<Rightarrow> (Eof, k') | r # rs \<Rightarrow> (r, k')) \<and> inp k' = tl rs \<and>
     k_errno kern k' = EAGAIN"
  using assms unfolding client_feed_def by blast

lemma client_callbacks_silent:
  assumes f: "cb_read (env_cbs env) = Some f" and "serve f fd ms (c_app w) = Inr ([], app)"
  shows "client_callbacks env fd ms w = Inr (w\<lparr>c_app := app\<rparr>)"
  using assms(2)
proof (induction ms arbitrary: w)
  case (Cons m ms)
  then obtain a1 where "f fd m (c_app w) = Inr ([], a1)" "serve f fd ms a1 = Inr ([], app)"
    by (auto simp: bindE_eq_Inr)
  with Cons.IH [of "w\<lparr>c_app := a1\<rparr>"] f show ?case by simp
qed simp

lemma client_turn_again:
  assumes "client_feed (env_kernel env) (ch_fd ch) inp" and "connected ch w"
    and "inp (c_kernel w) = Read_Again # rs"
  shows "\<exists>k. client_read_step env w = Inr (True, w\<lparr>c_kernel := k\<rparr>) \<and> inp k = rs"
proof -
  from client_feedD [OF assms(1,3), of BUFFER_SIZE] obtain k where
    "k_read (env_kernel env) (ch_fd ch) BUFFER_SIZE (c_kernel w) = (Read_Again, k)" "inp k = rs" by auto
  with assms(2) show ?thesis
    by (intro exI [of _ k]) (simp add: connected_def client_read_step_def Let_def)
qed

lemma client_step_again:
  assumes "client_feed (env_kernel env) (ch_fd ch) inp" and "connected ch w"
    and "inp (c_kernel w) = Read_Again # rs"
  shows "\<exists>k. client_read_loop env w = client_read_loop env (w\<lparr>c_kernel := k\<rparr>) \<and> inp k = rs"
proof -
  from client_turn_again [OF assms] obtain k where
    "client_read_step env w = Inr (True, w\<lparr>c_kernel := k\<rparr>)" "inp k = rs" by blast
  with assms(2) show ?thesis
    by (intro exI [of _ k], subst client_read_loop.simps) (simp add: connected_def)
qed

lemma client_turn_chunk:
  assumes feed: "client_feed (env_kernel env) (ch_fd ch) inp" and c: "connected ch w" "waiting [] ch"
    and i: "inp (c_kernel w) = Bytes (concat (map (frame_message nb) es)) # rs"
    and es: "list_all2 (decodes_to (env_lib env)) ms es"
    and l: "length (concat (map (frame_message nb) es)) \<le> BUFFER_SIZE"
    and f: "cb_read (env_cbs env) = Some f" and s: "serve f (ch_fd ch) ms (c_app w) = Inr ([], app)"
  shows "\<exists>ch' w'. client_read_step env w = Inr (True, w') \<and> connected ch' w' \<and> waiting [] ch' \<and>
     ch_fd ch' = ch_fd ch \<and> c_app w' = app \<and> inp (c_kernel w') = rs \<and>
     ch_send_messages ch' = ch_send_messages ch \<and> ch_compression ch' = ch_compression ch \<and>
     tc_fd (c_client w') = tc_fd (c_client w)"
proof -
  let ?c = "concat (map (frame_message nb) es)"
  from client_feedD [OF feed i, of BUFFER_SIZE] obtain k where
    k: "k_read (env_kernel env) (ch_fd ch) BUFFER_SIZE (c_kernel w) = (Bytes ?c, k)" "inp k = rs"
      "k_errno (env_kernel env) k = EAGAIN" by auto
  from feed_frames [OF c(2) es, of ?c nb "[]" "env_nb env"] l obtain ch' where
    ch: "feed (env_lib env) (env_nb env) ?c ch = Inr (ms, ch')" "waiting [] ch'" "ch_fd ch' = ch_fd ch"
      "ch_send_messages ch' = ch_send_messages ch" "ch_compression ch' = ch_compression ch"
    by auto
  then obtain rb where rb: "enqueue ?c (ch_read_buffer ch) = Inr rb"
    "parse_message (env_lib env) (env_nb env) (ch\<lparr>ch_read_buffer := rb\<rparr>) = Inr (ms, ch')"
    by (auto simp: feed_def bindE_eq_Inr)
  let ?w = "w\<lparr>c_kernel := k, c_client := (c_client w)\<lparr>tc_channel := Some ch'\<rparr>\<rparr>"
  have "client_callbacks env (ch_fd ch) ms ?w = Inr (?w\<lparr>c_app := app\<rparr>)"
    using s by (intro client_callbacks_silent [OF f]) simp
  then have "client_read_step env w = Inr (True, ?w\<lparr>c_app := app\<rparr>)"
    using c(1) k rb by (simp add: client_read_step_def connected_def Let_def)
  with c(1) ch k(2) show ?thesis
    by (intro exI [of _ ch'] exI [of _ "?w\<lparr>c_app := app\<rparr>"]) (simp add: connected_def)
qed

lemma client_step_chunk:
  assumes "client_feed (env_kernel env) (ch_fd ch) inp" and "connected ch w" "waiting [] ch"
    and "inp (c_kernel w) = Bytes (concat (map (frame_message nb) es)) # rs"
    and "list_all2 (decodes_to (env_lib env)) ms es"
    and "length (concat (map (frame_message nb) es)) \<le> BUFFER_SIZE"
    and "cb_read (env_cbs env) = Some f" and "serve f (ch_fd ch) ms (c_app w) = Inr ([], app)"
  shows "\<exists>ch' w'. client_read_loop env w = client_read_loop env w' \<and> connected ch' w' \<and> waiting [] ch' \<and>
     ch_fd ch' = ch_fd ch \<and> c_app w' = app \<and> inp (c_kernel w') = rs"
proof -
  from client_turn_chunk [OF assms] obtain ch' w' where
    w': "client_read_step env w = Inr (True, w')" "connected ch' w'" "waiting [] ch'" "ch_fd ch' = ch_fd ch"
      "c_app w' = app" "inp (c_kernel w') = rs" by blast
  then have "client_read_loop env w = client_read_loop env w'"
    using assms(2) by (subst client_read_loop.simps) (simp add: connected_def)
  with w' show ?thesis by blast
qed

text \<open>A chunk of whole frames after any number of empty polls.\<close>

lemma client_turns_chunk:
  assumes feed: "client_feed (env_kernel env) (ch_fd ch) inp" and "connected ch w" and "waiting [] ch"
    and "inp (c_kernel w) = replicate j Read_Again @ [Bytes (concat (map (frame_message nb) es))]"
    and "list_all2 (decodes_to (env_lib env)) ms es"
    and "length (concat (map (frame_message nb) es)) \<le> BUFFER_SIZE"
    and "cb_read (env_cbs env) = Some f" and "serve f (ch_fd ch) ms (c_app w) = Inr ([], app)"
  shows "\<exists>ch' w'. client_turns env (Suc j) w = Inr w' \<and> connected ch' w' \<and> waiting [] ch' \<and>
     ch_fd ch' = ch_fd ch \<and> c_app w' = app \<and> inp (c_kernel w') = [] \<and>
     ch_send_messages ch' = ch_send_messages ch \<and> ch_compression ch' = ch_compression ch \<and>
     tc_fd (c_client w') = tc_fd (c_client w)"
  using assms(2,4,8)
proof (induction j arbitrary: w)
  case 0
  from client_turn_chunk [OF feed 0(1) assms(3) _ assms(5-7) 0(3), of "[]"] 0(1,2) show ?case
    by (fastforce simp: connected_def)
next
  case (Suc j)
  from client_turn_again [OF feed Suc.prems(1)] Suc.prems(2) obtain k where
    k: "client_read_step env w = Inr (True, w\<lparr>c_kernel := k\<rparr>)"
      "inp k = replicate j Read_Again @ [Bytes (concat (map (frame_message nb) es))]" by auto
  have c: "connected ch (w\<lparr>c_kernel := k\<rparr>)" using Suc.prems(1) by (simp add: connected_def)
  have "client_turns env (Suc (Suc j)) w = client_turns env (Suc j) (w\<lparr>c_kernel := k\<rparr>)"
    using Suc.prems(1) k(1) by (simp add: connected_def del: client_turns.simps(2)) (simp add: connected_def)
  with Suc.IH [OF c] k(2) Suc.prems(3) show ?case by simp
qed

lemma client_step_eof:
  assumes "client_feed (env_kernel env) (ch_fd ch) inp" and "connected ch w" and "inp (c_kernel w) = []"
  shows "\<exists>w'. client_read_loop env w = Some (Inr w') \<and> c_app w' = c_app w \<and>
     \<not> tc_running (c_client w') \<and> tc_fd (c_client w') = - 1"
proof -
  from client_feedD [OF assms(1,3), of BUFFER_SIZE] obtain k where
    "k_read (env_kernel env) (ch_fd ch) BUFFER_SIZE (c_kernel w) = (Eof, k)" by auto
  then have "client_read_loop env w = Some (Inr (disconnect (env_kernel env) (w\<lparr>c_kernel := k\<rparr>)))"
    using assms(2)
    by (subst client_read_loop.simps) (simp add: connected_def client_read_step_def Let_def)
  then show ?thesis by (simp add: disconnect_def tcp_disconnect_def Let_def)
qed

lemma client_receives_all:
  assumes feed: "\<And>fd. client_feed (env_kernel env) fd inp" and f: "cb_read (env_cbs env) = Some f"
    and "connected ch w" and "waiting [] ch" and "inp (c_kernel w) = rs"
    and "list_all (\<lambda>r. r = Read_Again \<or> (\<exists>c. r = Bytes c \<and> length c \<le> BUFFER_SIZE)) rs"
    and "chunks_of rs = map (\<lambda>es. concat (map (frame_message nb) es)) ess"
    and "list_all2 (list_all2 (decodes_to (env_lib env))) batches ess"
    and "serve f (ch_fd ch) (concat batches) (c_app w) = Inr ([], app)"
  shows "\<exists>w'. client_read_loop env w = Some (Inr w') \<and> c_app w' = app \<and> \<not> tc_running (c_client w') \<and>
     tc_fd (c_client w') = - 1"
  using assms(3-9)
proof (induction rs arbitrary: ch w batches ess)
  case Nil
  with client_step_eof [OF feed, of ch w] show ?case by simp
next
  case (Cons r rs)
  show ?case
  proof (cases "r = Read_Again")
    case True
    with client_step_again [OF feed Cons.prems(1)] Cons.prems(3) obtain k where
      k: "client_read_loop env w = client_read_loop env (w\<lparr>c_kernel := k\<rparr>)" "inp k = rs" by blast
    have "connected ch (w\<lparr>c_kernel := k\<rparr>)" using Cons.prems(1) by (simp add: connected_def)
    from Cons.IH [OF this Cons.prems(2)] Cons.prems(4-7) True k show ?thesis by simp
  next
    case False
    with Cons.prems(4) obtain c where c: "r = Bytes c" "length c \<le> BUFFER_SIZE" by auto
    with Cons.prems(5) obtain es ess' where ess: "ess = es # ess'"
      "c = concat (map (frame_message nb) es)"
      "chunks_of rs = map (\<lambda>es. concat (map (frame_message nb) es)) ess'" by auto
    with Cons.prems(6) obtain ms batches' where b: "batches = ms # batches'"
      "list_all2 (decodes_to (env_lib env)) ms es"
      "list_all2 (list_all2 (decodes_to (env_lib env))) batches' ess'" by (auto simp: list_all2_Cons2)
    from Cons.prems(7) b(1) obtain a1 where
      s: "serve f (ch_fd ch) ms (c_app w) = Inr ([], a1)"
        "serve f (ch_fd ch) (concat batches') a1 = Inr ([], app)"
      by (auto simp: serve_append bindE_eq_Inr)
    from client_step_chunk [OF feed Cons.prems(1,2) _ b(2) _ f s(1)] Cons.prems(3) c ess(2) obtain ch' w' where
      w': "client_read_loop env w = client_read_loop env w'" "connected ch' w'" "waiting [] ch'"
        "ch_fd ch' = ch_fd ch" "c_app w' = a1" "inp (c_kernel w') = rs" by blast
    from Cons.IH [OF w'(2,3,6) _ ess(3) b(3)] Cons.prems(4) s(2) w'(1,4,5) show ?thesis by simp
  qed
qed

text \<open>A chunk that ends inside a message.\<close>

lemma client_step_partial:
  assumes "client_feed (env_kernel env) (ch_fd ch) inp" and c: "connected ch w" "waiting [] ch"
    and "inp (c_kernel w) = Bytes chunk # rs" and "feed (env_lib env) (env_nb env) chunk ch = Inl Hang"
  shows "client_read_loop env w = Some (Inl Hang)"
proof -
  from client_feedD [OF assms(1,4), of BUFFER_SIZE] obtain k where
    k: "k_read (env_kernel env) (ch_fd ch) BUFFER_SIZE (c_kernel w) = (Bytes chunk, k)"
      "k_errno (env_kernel env) k = EAGAIN" by auto
  from assms(5) consider "enqueue chunk (ch_read_buffer ch) = Inl Hang"
    | rb where "enqueue chunk (ch_read_buffer ch) = Inr rb"
        "parse_message (env_lib env) (env_nb env) (ch\<lparr>ch_read_buffer := rb\<rparr>) = Inl Hang"
    by (cases "enqueue chunk (ch_read_buffer ch)") (auto simp: feed_def)
  then show ?thesis using c(1) k
    by cases (subst client_read_loop.simps, simp add: client_read_step_def connected_def Let_def)+
qed

lemma client_polls:
  assumes "client_feed (env_kernel env) (ch_fd ch) inp" and "connected ch w"
    and "inp (c_kernel w) = replicate j Read_Again @ rs"
  shows "\<exists>k. client_read_loop env w = client_read_loop env (w\<lparr>c_kernel := k\<rparr>) \<and> inp k = rs"
  using assms(2,3)
proof (induction j arbitrary: w)
  case 0
  then show ?case by (intro exI [of _ "c_kernel w"]) simp
next
  case (Suc j)
  with client_step_again [OF assms(1) Suc.prems(1), of "replicate j Read_Again @ rs"] obtain k where
    k: "client_read_loop env w = client_read_loop env (w\<lparr>c_kernel := k\<rparr>)" "inp k = replicate j Read_Again @ rs" by auto
  have "connected ch (w\<lparr>c_kernel := k\<rparr>)" using Suc.prems(1) by (simp add: connected_def)
  from Suc.IH [OF this] k show ?case by auto
qed

subsection \<open>Properties\<close>

text \<open>
  Messages are received. Whatever chunks of whole frames arrive, with any number of polls in
  between that find nothing, the loop hands every message to the callback, once and in order, and
  when the server closes the connection it ends and the client is disconnected. (\<open>errno\<close> has to
  stay at \<open>EAGAIN\<close>, and the callback sends nothing, as the one of \<open>Rpc_Client\<close>.)
\<close>
theorem client_receives:
  assumes "\<And>fd. client_feed (env_kernel env) fd inp" and "cb_read (env_cbs env) = Some f"
    and "connected ch w" and "waiting [] ch" and "inp (c_kernel w) = rs"
    and "list_all (\<lambda>r. r = Read_Again \<or> (\<exists>c. r = Bytes c \<and> length c \<le> BUFFER_SIZE)) rs"
    and "chunks_of rs = map (\<lambda>es. concat (map (frame_message nb) es)) ess"
    and "list_all2 (list_all2 (decodes_to (env_lib env))) batches ess"
    and "serve f (ch_fd ch) (concat batches) (c_app w) = Inr ([], app)"
  shows "\<exists>w'. client_read_loop env w = Some (Inr w') \<and> c_app w' = app \<and> \<not> tc_running (c_client w') \<and>
     tc_fd (c_client w') = - 1"
  using client_receives_all [OF assms] .

text \<open>A client that collects messages; the state of its kernel is what will be read, and what was sent.\<close>

definition poll_kernel :: "(read_result list \<times> byte list) kernel" where
  "poll_kernel =
     \<lparr>k_read = (\<lambda>fd n k. case fst k of [] \<Rightarrow> (Eof, k) | r # rs \<Rightarrow> (r, (rs, snd k))),
      k_send = (\<lambda>fd bs k. (Sent (length bs), (fst k, snd k @ bs))),
      k_accept = (\<lambda>fd k. (Accept_Again, k)), k_epoll_ctl = (\<lambda>ep op fd ev k. (True, k)),
      k_close = (\<lambda>fd k. k), k_socket = (\<lambda>k. (Inr 3, k)), k_setsockopt = (\<lambda>fd k. (True, k)),
      k_bind = (\<lambda>fd port k. (True, k)), k_listen = (\<lambda>fd k. (True, k)),
      k_inet_pton = (\<lambda>ip. True), k_connect = (\<lambda>fd ip port k. (Some EINPROGRESS, k)),
      k_epoll_create = (\<lambda>k. (Some 0, k)), k_epoll_wait = (\<lambda>ep timeout k. (Some [], k)),
      k_errno = (\<lambda>k. EAGAIN)\<rparr>"

definition poll_env :: "(unit, byte list list, read_result list \<times> byte list) tcp_env" where
  "poll_env = \<lparr>env_lib = stored_lib, env_nb = False, env_kernel = poll_kernel,
     env_cbs = \<lparr>cb_connect = None, cb_disconnect = None, cb_read = Some (\<lambda>fd m a. Inr ([], a @ [m]))\<rparr>\<rparr>"

definition poll_world :: "read_result list \<Rightarrow> (byte list list, read_result list \<times> byte list) cworld" where
  "poll_world rs =
     snd (client_run poll_kernel (replicate BUFFER_SIZE 0)
       \<lparr>c_client = new_tcp_client 0 [] 8080, c_app = [], c_kernel = (rs, [])\<rparr>)"

lemma poll_world_connected:
  "connected (new_channel (replicate BUFFER_SIZE 0) 3) (poll_world rs)"
  "c_app (poll_world rs) = []" "c_kernel (poll_world rs) = (rs, [])" "tc_fd (c_client (poll_world rs)) = 3"
  by (simp_all add: poll_world_def client_run_def poll_kernel_def new_tcp_client_def connected_def
      Channel.set_compress_algo_def new_channel_def EINPROGRESS_def)

lemma poll_kernel_ok:
  "client_feed poll_kernel fd fst" "take_all poll_kernel fd snd"
  by (auto simp: client_feed_def take_all_def poll_kernel_def split: list.splits)

theorem client_receives_witness:
  "\<exists>w'. client_read_loop poll_env
      (poll_world [Read_Again, Bytes [2, 0, 0, 0, 0, 65, 2, 0, 0, 0, 0, 66], Read_Again, Bytes [2, 0, 0, 0, 0, 67]])
     = Some (Inr w') \<and> c_app w' = [[65], [66], [67]]"
proof -
  let ?rs = "[Read_Again, Bytes [2, 0, 0, 0, 0, 65, 2, 0, 0, 0, 0, 66], Read_Again, Bytes [2, 0, 0, 0, 0, 67]]"
  let ?ch = "new_channel (replicate BUFFER_SIZE 0) 3"
  have "waiting [] ?ch" by (rule new_channel_waiting) simp
  moreover have "list_all (\<lambda>r. r = Read_Again \<or> (\<exists>c. r = Bytes c \<and> length c \<le> BUFFER_SIZE)) ?rs"
    by (simp add: BUFFER_SIZE_def)
  moreover have "chunks_of ?rs = map (\<lambda>es. concat (map (frame_message False) es)) [[[0, 65], [0, 66]], [[0, 67]]]"
    by (simp add: frame_message_eq word_bytes_def nat_bytes_4)
  moreover have "list_all2 (list_all2 (decodes_to (env_lib poll_env))) [[[65], [66]], [[67]]]
      [[[0, 65], [0, 66]], [[0, 67]]]" by (simp add: decodes_to_def decode_string_def)
  moreover have "serve (\<lambda>fd m a. Inr ([], a @ [m])) (ch_fd ?ch) (concat [[[65], [66]], [[67]]])
      (c_app (poll_world ?rs)) = Inr ([], [[65], [66], [67]])"
    by (simp add: poll_world_connected)
  moreover have "fst (c_kernel (poll_world ?rs)) = ?rs" by (simp add: poll_world_connected)
  moreover have "cb_read (env_cbs poll_env) = Some (\<lambda>fd m a. Inr ([], a @ [m]))"
    "\<And>fd. client_feed (env_kernel poll_env) fd fst"
    using poll_kernel_ok by (simp_all add: poll_env_def)
  ultimately show ?thesis
    using client_receives [of poll_env fst "\<lambda>fd m a. Inr ([], a @ [m])" ?ch "poll_world ?rs" ?rs False
        "[[[0, 65], [0, 66]], [[0, 67]]]" "[[[65], [66]], [[67]]]" "[[65], [66], [67]]"]
      poll_world_connected(1) by blast
qed

text \<open>
  C39: A response in pieces. The client has one reader. When a chunk, after any number of empty
  polls, ends inside a message (behind its header), \<open>read_data\<close> never returns to \<open>read\<close>, whatever the
  socket has to give afterwards: the rest of the message, and every later one, is never received. A
  response longer than a segment of the network is enough.
\<close>
theorem split_response_hangs:
  assumes "client_feed (env_kernel env) (ch_fd ch) inp" and "connected ch w" and "waiting [] ch"
    and "inp (c_kernel w) = replicate j Read_Again @ Bytes (take k (frame_message nb e)) # rs"
    and "length e < 2 ^ 31" and "HEAD_LENGTH < k" and "k < length (frame_message nb e)" and "k \<le> BUFFER_SIZE"
  shows "client_read_loop env w = Some (Inl Hang)"
proof -
  from client_polls [OF assms(1,2,4)] obtain kern where
    k: "client_read_loop env w = client_read_loop env (w\<lparr>c_kernel := kern\<rparr>)"
      "inp kern = Bytes (take k (frame_message nb e)) # rs" by blast
  have c: "connected ch (w\<lparr>c_kernel := kern\<rparr>)" using assms(2) by (simp add: connected_def)
  have "feed (env_lib env) (env_nb env) (take k (frame_message nb e)) ch = Inl Hang"
    by (rule feed_partial [OF assms(3) _ _ _ assms(5), where part = "take (k - 4) e"])
      (use assms(6-8) in \<open>auto simp: frame_message_eq HEAD_LENGTH_def\<close>)
  from client_step_partial [OF assms(1) c assms(3) _ this] k show ?thesis by simp
qed

theorem split_response_hangs_witness:
  "client_read_loop poll_env (poll_world [Read_Again, Bytes [3, 0, 0, 0, 0], Bytes [65, 66]]) = Some (Inl Hang)"
proof -
  let ?rs = "[Read_Again, Bytes [3, 0, 0, 0, 0], Bytes [65, 66]]" and ?ch = "new_channel (replicate BUFFER_SIZE 0) 3"
  have w: "waiting [] ?ch" by (rule new_channel_waiting) simp
  have f: "client_feed (env_kernel poll_env) (ch_fd ?ch) fst" using poll_kernel_ok by (simp add: poll_env_def)
  have i: "fst (c_kernel (poll_world ?rs)) =
      replicate 1 Read_Again @ Bytes (take 5 (frame_message False [0, 65, 66])) # [Bytes [65, 66]]"
    by (simp add: poll_world_connected frame_message_eq word_bytes_def nat_bytes_4)
  show ?thesis
    by (rule split_response_hangs [OF f poll_world_connected(1) w i])
      (simp_all add: HEAD_LENGTH_def BUFFER_SIZE_def frame_message_eq)
qed

text \<open>
  A stale \<open>errno\<close>. The test of \<open>errno\<close> also runs after a \<open>read\<close> that succeeded: when the
  thread's \<open>errno\<close> is not \<open>EAGAIN\<close> then (data is there at the very first poll, or another call has
  failed in between), the client disconnects and the bytes that were read are dropped.
\<close>
theorem stale_errno_disconnects:
  assumes "connected ch w"
    and "k_read (env_kernel env) (ch_fd ch) BUFFER_SIZE (c_kernel w) = (Bytes bs, k)"
    and "k_errno (env_kernel env) k \<noteq> EAGAIN"
  shows "\<exists>w'. client_read_loop env w = Some (Inr w') \<and> \<not> tc_running (c_client w') \<and>
     tc_channel (c_client w') = Some ch \<and> c_app w' = c_app w"
  using assms
  by (subst client_read_loop.simps)
     (auto simp: connected_def client_read_step_def Let_def disconnect_def tcp_disconnect_def)

theorem stale_errno_disconnects_witness:
  "\<exists>w'. client_read_loop (poll_env\<lparr>env_kernel := poll_kernel\<lparr>k_errno := (\<lambda>k. 0)\<rparr>\<rparr>)
      (poll_world [Bytes [2, 0, 0, 0, 0, 65]]) = Some (Inr w') \<and> \<not> tc_running (c_client w') \<and> c_app w' = []"
  using stale_errno_disconnects [OF poll_world_connected(1) [of "[Bytes [2, 0, 0, 0, 0, 65]]"],
      of "poll_env\<lparr>env_kernel := poll_kernel\<lparr>k_errno := (\<lambda>k. 0)\<rparr>\<rparr>" "[2, 0, 0, 0, 0, 65]" "([], [])"]
  by (auto simp: poll_world_connected poll_kernel_def new_channel_def EAGAIN_def)

text \<open>
  Sending a message. On a socket that takes a message at once, \<open>send_message\<close> sends everything
  queued and the new frame after it, and the queue is empty. On a socket that takes only a part of
  it, \<open>send_message\<close> returns normally as well, and the rest of the frame is gone.
\<close>
theorem send_message_sends:
  assumes "connected ch w" and "encode_string (env_lib env) (ch_compression ch) data = Inr e"
    and "take_all (env_kernel env) (tc_fd (c_client w)) out"
    and "tsq_queue (ch_send_messages ch) = []"
    and "k_send kern (tc_fd (c_client w)) (frame_message (env_nb env) e) (c_kernel w) = (Sent n, k')"
  shows "(\<exists>w'. send_message env data w = (Inr (), w') \<and>
       connected (ch\<lparr>ch_send_messages := new_tsq\<rparr>) w' \<and>
       out (c_kernel w') = out (c_kernel w) @ frame_message (env_nb env) e) \<and>
     (\<exists>w'. send_message (env\<lparr>env_kernel := kern\<rparr>) data w = (Inr (), w') \<and>
       connected (ch\<lparr>ch_send_messages := new_tsq\<rparr>) w' \<and> c_kernel w' = k')"
proof
  show "\<exists>w'. send_message env data w = (Inr (), w') \<and>
       connected (ch\<lparr>ch_send_messages := new_tsq\<rparr>) w' \<and>
       out (c_kernel w') = out (c_kernel w) @ frame_message (env_nb env) e"
    using send_message_whole [OF assms(3,1,2)] assms(4) by auto
  let ?f = "frame_message (env_nb env) e"
  have "send_queued kern (tc_fd (c_client w)) \<lparr>tsq_queue = [?f]\<rparr> (c_kernel w) = (Inr (), new_tsq, k')"
    using assms(5)
    by (simp add: send_queued.simps [of kern _ "\<lparr>tsq_queue = [?f]\<rparr>"] send_queued.simps [of kern _ new_tsq]
        tsq_size_def tsq_front_pop_def tsq_front_def tsq_pop_def new_tsq_def
        send_queued.simps [of kern _ "\<lparr>tsq_queue = []\<rparr>"])
  then show "\<exists>w'. send_message (env\<lparr>env_kernel := kern\<rparr>) data w = (Inr (), w') \<and>
       connected (ch\<lparr>ch_send_messages := new_tsq\<rparr>) w' \<and> c_kernel w' = k'"
    using assms(1,2)
    by (simp add: send_message_def connected_def enqueue_message_def client_on_send_def
        queue_of_push [OF assms(4)])
qed

definition short_kernel :: "(read_result list \<times> byte list) kernel" where
  "short_kernel = poll_kernel\<lparr>k_send := (\<lambda>fd bs k. (Sent 2, (fst k, snd k @ take 2 bs)))\<rparr>"

theorem send_message_sends_witness:
  "(\<exists>w'. send_message poll_env [65, 66] (poll_world []) = (Inr (), w') \<and>
      snd (c_kernel w') = [3, 0, 0, 0, 0, 65, 66]) \<and>
   (\<exists>w'. send_message (poll_env\<lparr>env_kernel := short_kernel\<rparr>) [65, 66] (poll_world []) = (Inr (), w') \<and>
      c_kernel w' = ([], [3, 0]))"
proof -
  let ?ch = "new_channel (replicate BUFFER_SIZE 0) 3"
  have "encode_string (env_lib poll_env) (ch_compression ?ch) [65, 66] = Inr [0, 65, 66]"
    by (simp add: encode_string_def new_channel_def)
  from send_message_sends [OF poll_world_connected(1) this, where out = snd and kern = short_kernel
      and n = 2 and k' = "([], [3, 0])"]
  show ?thesis using poll_kernel_ok(2)
    by (auto simp: poll_env_def poll_world_connected short_kernel_def frame_message_eq word_bytes_def nat_bytes_4)
qed

text \<open>
  A socket that would block. \<open>send_message\<close> throws, and the message it had taken off the queue is
  lost; without a connection it throws as well, but there the message stays queued.
\<close>
theorem send_message_loses:
  assumes "tc_channel (c_client w) = Some ch"
    and "encode_string (env_lib env) (ch_compression ch) data = Inr e"
    and "tsq_queue (ch_send_messages ch) = []"
    and "k_send (env_kernel env) (tc_fd (c_client w)) (frame_message (env_nb env) e) (c_kernel w) = (Send_Again, k')"
  shows "send_message env data w =
     (if tc_running (c_client w)
      then (Inl (System_Error EAGAIN ''Failed to send data''),
            w\<lparr>c_client := (c_client w)\<lparr>tc_channel := Some (ch\<lparr>ch_send_messages := new_tsq\<rparr>)\<rparr>, c_kernel := k'\<rparr>)
      else (Inl (Runtime_Error ''Client is not connected''),
            w\<lparr>c_client := (c_client w)\<lparr>tc_channel := Some (ch\<lparr>ch_send_messages :=
               \<lparr>tsq_queue = [frame_message (env_nb env) e]\<rparr>\<rparr>)\<rparr>\<rparr>))"
proof -
  let ?f = "frame_message (env_nb env) e"
  have "send_queued (env_kernel env) (tc_fd (c_client w)) \<lparr>tsq_queue = [?f]\<rparr> (c_kernel w) =
      (Inl (System_Error EAGAIN ''Failed to send data''), new_tsq, k')"
    using assms(4)
    by (simp add: send_queued.simps [of "env_kernel env" _ "\<lparr>tsq_queue = [?f]\<rparr>"]
        tsq_size_def tsq_front_pop_def tsq_front_def tsq_pop_def new_tsq_def)
  then show ?thesis using assms(1,2)
    by (simp add: send_message_def enqueue_message_def client_on_send_def queue_of_push [OF assms(3)])
qed

theorem send_message_loses_witness:
  "fst (send_message (poll_env\<lparr>env_kernel := poll_kernel\<lparr>k_send := (\<lambda>fd bs k. (Send_Again, k))\<rparr>\<rparr>) [65]
      (poll_world [])) = Inl (System_Error 11 ''Failed to send data'')"
proof -
  let ?ch = "new_channel (replicate BUFFER_SIZE 0) 3"
  let ?env = "poll_env\<lparr>env_kernel := poll_kernel\<lparr>k_send := (\<lambda>fd bs k. (Send_Again, k))\<rparr>\<rparr>"
  have c: "tc_channel (c_client (poll_world [])) = Some ?ch" "tc_running (c_client (poll_world []))"
    using poll_world_connected(1) by (simp_all add: connected_def)
  have "encode_string (env_lib ?env) (ch_compression ?ch) [65] = Inr [0, 65]"
    by (simp add: encode_string_def new_channel_def)
  from send_message_loses [OF c(1) this] c(2) show ?thesis by (simp add: EAGAIN_def)
qed

end
