(* ===== verification/Rpc_System.thy ===== *)
theory Rpc_System
  imports Rpc_Server Rpc_Client Tcp_Server Tcp_Client
begin

text \<open>
  The layers together: the callbacks that \<open>Rpc_Server::Rpc_Server\<close> and \<open>Rpc_Client::Rpc_Client\<close>
  install in the TCP classes (\<open>RPC/Rpc_Server.cpp\<close>, \<open>RPC/Rpc_Client.cpp\<close>), and one remote call
  from its arguments to its result, through serialization, framing, the sockets, the dispatch and
  the promise.

  The theory shows that a call returns what the registered function returns and throws what it
  throws, and how this depends on the order in which the server's compiler evaluates arguments.
\<close>

subsection \<open>The callbacks\<close>

text \<open>
  The server's state behind its callbacks, with the clock: \<open>rpc_clock n\<close> is its \<open>n\<close>-th reading.
\<close>

record 'u rpc_app =
  rpc_clock :: "nat \<Rightarrow> int"
  rpc_ticks :: nat
  rpc_server :: "'u rpc_server"

definition server_connect :: "int \<Rightarrow> 'u rpc_app \<Rightarrow> 'u rpc_app" where
  "server_connect fd a =
     a\<lparr>rpc_server := on_new_connection (rpc_clock a (rpc_ticks a)) fd (rpc_server a),
       rpc_ticks := Suc (rpc_ticks a)\<rparr>"

definition server_disconnect :: "int \<Rightarrow> 'u rpc_app \<Rightarrow> 'u rpc_app" where
  "server_disconnect fd a = a\<lparr>rpc_server := on_disconnect fd (rpc_server a)\<rparr>"

definition server_read :: "machine \<Rightarrow> int \<Rightarrow> byte list \<Rightarrow> 'u rpc_app \<Rightarrow> (byte list list \<times> 'u rpc_app) result"
  where
  "server_read m fd data a =
     bindE (on_request m (rpc_clock a (rpc_ticks a)) fd data (rpc_server a)) (\<lambda>(bytes, sv).
       Inr ([bytes], a\<lparr>rpc_server := sv, rpc_ticks := Suc (rpc_ticks a)\<rparr>))"

definition server_callbacks :: "machine \<Rightarrow> 'u rpc_app callbacks" where
  "server_callbacks m =
     set_read_message_callback (server_read m)
       (set_disconnect_callback server_disconnect (set_new_connection_callback server_connect no_callbacks))"

definition client_read :: "bool \<Rightarrow> int \<Rightarrow> byte list \<Rightarrow> rpc_client \<Rightarrow> (byte list list \<times> rpc_client) result"
  where
  "client_read nb fd data cl = bindE (on_response nb data cl) (\<lambda>cl'. Inr ([], cl'))"

definition rpc_client_callbacks :: "bool \<Rightarrow> rpc_client callbacks" where
  "rpc_client_callbacks nb =
     set_read_message_callback (client_read nb) no_callbacks"

subsection \<open>One call\<close>

text \<open>
  The two ends of a connection outside the program: what the server's and the client's kernel were given
  to send, and how bytes get into the server's socket and what \<open>read\<close> finds into the client's.
\<close>

record ('k, 'ck) link =
  server_out :: "'k \<Rightarrow> byte list"
  request_arrives :: "byte list \<Rightarrow> 'k \<Rightarrow> 'k"
  client_out :: "'ck \<Rightarrow> byte list"
  response_arrives :: "read_result list \<Rightarrow> 'ck \<Rightarrow> 'ck"

text \<open>
  A call from end to end: \<open>start_call\<close>; \<open>send_message\<close>, which may throw; the server's \<open>read_data\<close> on the bytes
  that the client has sent; the client's loop, which polls \<open>j\<close> times in vain and then reads what the server
  has sent, its parser and callback; and the end of the call. The request and the response each arrive at
  once. If \<open>send_message\<close> throws, so does the call, and the promise stays in the table.
\<close>

definition remote_call :: "('d, 'u rpc_app, 'k) tcp_env \<Rightarrow> ('d, rpc_client, 'ck) tcp_env \<Rightarrow> ('k, 'ck) link \<Rightarrow>
    int \<Rightarrow> nat \<Rightarrow> ctype option \<Rightarrow> byte list \<Rightarrow> cval list \<Rightarrow> byte list \<Rightarrow> (rpc_client, 'ck) cworld \<Rightarrow>
    ('u rpc_app, 'k) world \<Rightarrow> (call_outcome \<times> (rpc_client, 'ck) cworld \<times> ('u rpc_app, 'k) world) result" where
  "remote_call env cenv link fd j t method args uuid cw sw =
     bindE (start_call (env_nb cenv) method args uuid (c_app cw)) (\<lambda>(bytes, k, cl).
     case send_message cenv bytes (cw\<lparr>c_app := cl\<rparr>) of (r, cw1) \<Rightarrow>
     let sent = drop (length (client_out link (c_kernel cw))) (client_out link (c_kernel cw1));
         sw1 = (if sent = [] then sw else sw\<lparr>w_kernel := request_arrives link sent (w_kernel sw)\<rparr>)
     in case r of
          Inl e \<Rightarrow> Inr (Bad e, cw1, sw1)
        | Inr _ \<Rightarrow>
            bindE (read_data env fd sw1) (\<lambda>sw2.
            let answer = drop (length (server_out link (w_kernel sw1))) (server_out link (w_kernel sw2));
                polls = replicate j Read_Again @ (if answer = [] then [] else [Bytes answer])
            in bindE (client_turns cenv (length polls) (cw1\<lparr>c_kernel := response_arrives link polls (c_kernel cw1)\<rparr>))
                 (\<lambda>cw2. Inr (finish_call (env_nb cenv) t (cl_promises (c_app cw2) ! k), cw2, sw2))))"

text \<open>What a local call of the function would do.\<close>

definition local_outcome :: "machine \<Rightarrow> 'u handler \<Rightarrow> cval list \<Rightarrow> 'u \<Rightarrow> call_outcome" where
  "local_outcome m h args u =
     (case fst (func h args u) of
        Inl e \<Rightarrow> (case what (lib_what m) e of None \<Rightarrow> Bad e | Some msg \<Rightarrow> Thrown msg)
      | Inr v \<Rightarrow> (case ret h of None \<Rightarrow> Returned_Void | Some t \<Rightarrow> Returned v))"

text \<open>A message of at most \<open>n\<close> bytes makes a frame that fits the peer's ring buffer.\<close>

definition fits :: "'d brotli \<Rightarrow> compression_type \<Rightarrow> nat \<Rightarrow> bool" where
  "fits lib type n \<longleftrightarrow>
     (\<forall>m e. length m \<le> n \<longrightarrow> encode_string lib type m = Inr e \<longrightarrow> length e + HEAD_LENGTH \<le> BUFFER_SIZE)"

lemma fits_plain: "fits lib Comp_None (BUFFER_SIZE - HEAD_LENGTH - 1)"
  by (auto simp: fits_def encode_string_def BUFFER_SIZE_def HEAD_LENGTH_def)

lemma encoded_fits:
  assumes "brotli_contract lib" and "fits lib type n" and "length m \<le> n" and "n \<le> BUFFER_SIZE"
  shows "\<exists>e. encode_string lib type m = Inr e \<and> encodes_to lib type m e \<and> decodes_to lib m e \<and>
     length (frame_message nb e) \<le> BUFFER_SIZE"
proof -
  have l: "length m < 2 ^ 60" using assms(3,4) by (simp add: BUFFER_SIZE_def)
  obtain e where e: "encode_string lib type m = Inr e" "e \<noteq> []" "decode_string lib e = Inr m"
    using message_codec.dec_enc [OF brotli_codec [OF assms(1)]] l by blast
  have "length e + HEAD_LENGTH \<le> BUFFER_SIZE" using assms(2,3) e(1) unfolding fits_def by blast
  then show ?thesis using e
    by (simp add: encodes_to_def decodes_to_def frame_message_eq HEAD_LENGTH_def BUFFER_SIZE_def)
qed

subsection \<open>The server's part\<close>

text \<open>A kernel in which bytes can arrive on \<open>fd\<close>.\<close>

definition arrives :: "(byte list \<Rightarrow> 'k \<Rightarrow> 'k) \<Rightarrow> ('k \<Rightarrow> byte list list) \<Rightarrow> ('k \<Rightarrow> byte list) \<Rightarrow> bool" where
  "arrives arrive inp out \<longleftrightarrow> (\<forall>c k. inp (arrive c k) = inp k @ [c] \<and> out (arrive c k) = out k)"

text \<open>The server is ready for requests of \<open>fd\<close>, with nothing left to read or send.\<close>

definition server_ready :: "('d, 'u rpc_app, 'k) tcp_env \<Rightarrow> machine \<Rightarrow> ('k \<Rightarrow> byte list list) \<Rightarrow>
    ('k \<Rightarrow> byte list) \<Rightarrow> int \<Rightarrow> nat \<Rightarrow> ('u rpc_app, 'k) world \<Rightarrow> bool" where
  "server_ready env m inp out fd p sw \<longleftrightarrow>
     serves (env_kernel env) fd inp out \<and> env_cbs env = server_callbacks m \<and> env_nb env = big_endian m \<and>
     connection fd p sw \<and> inp (w_kernel sw) = [] \<and> complete_order (arg_order m) \<and>
     store_ok (srv_users (rpc_server (w_app sw))) \<and>
     last_of (srv_users (rpc_server (w_app sw))) fd \<noteq> None"

lemma server_answers:
  assumes lib: "brotli_contract (env_lib env)" and rdy: "server_ready env m inp out fd p sw"
    and arr: "arrives arrive inp out"
    and req: "compact (req_params request)" "length (enc False (request_val request)) < 2 ^ 31"
      "callable m (rpc_server (w_app sw)) request vs" "length (req_id request) < 2 ^ 28"
    and e: "decodes_to (env_lib env) (enc False (request_val request)) e"
      "length (frame_message (env_nb env) e) \<le> BUFFER_SIZE"
    and fit: "fits (env_lib env) (connection_type p sw) n" "n \<le> BUFFER_SIZE"
    and small: "\<And>r app. answered m (rpc_server (w_app sw)) request vs r app \<Longrightarrow> sendable r \<Longrightarrow>
       length (enc False (response_val r)) \<le> n"
  shows "\<exists>sw' response app e'.
     read_data env fd (sw\<lparr>w_kernel := arrive (frame_message (env_nb env) e) (w_kernel sw)\<rparr>) = Inr sw' \<and>
     out (w_kernel sw') = out (w_kernel sw) @ frame_message (env_nb env) e' \<and>
     decodes_to (env_lib env) (enc False (response_val response)) e' \<and>
     length (frame_message (env_nb env) e') \<le> BUFFER_SIZE \<and>
     answered m (rpc_server (w_app sw)) request vs response app \<and> sendable response \<and>
     srv_app (rpc_server (w_app sw')) = app \<and> server_ready env m inp out fd p sw' \<and>
     connection_type p sw' = connection_type p sw"
proof -
  let ?a = "w_app sw" let ?sv = "rpc_server ?a" let ?now = "rpc_clock ?a (rpc_ticks ?a)"
  let ?w = "sw\<lparr>w_kernel := arrive (frame_message (env_nb env) e) (w_kernel sw)\<rparr>"
  note r = rdy [unfolded server_ready_def]
  from on_request_answered [OF req(1,2), of ?sv fd m vs ?now] r req(3,4) obtain response users app where
    a: "on_request m ?now fd (enc False (request_val request)) ?sv =
       Inr (enc False (response_val response), ?sv\<lparr>srv_users := users, srv_app := app\<rparr>)"
      "sendable response" "answered m ?sv request vs response app" "store_ok users"
      "last_of users = (last_of (srv_users ?sv))(fd \<mapsto> ?now)" by blast
  let ?a' = "?a\<lparr>rpc_server := ?sv\<lparr>srv_users := users, srv_app := app\<rparr>, rpc_ticks := Suc (rpc_ticks ?a)\<rparr>"
  have s: "serve (server_read m) fd (concat [[enc False (request_val request)]]) (w_app ?w) =
      Inr ([enc False (response_val response)], ?a')"
    using a(1) by (simp add: server_read_def)
  from encoded_fits [OF lib fit(1) small [OF a(3,2)] fit(2), of "env_nb env"] obtain e' where
    e': "encodes_to (env_lib env) (connection_type p sw) (enc False (response_val response)) e'"
      "decodes_to (env_lib env) (enc False (response_val response)) e'"
      "length (frame_message (env_nb env) e') \<le> BUFFER_SIZE" by blast
  have i: "inp (w_kernel ?w) = map (\<lambda>es. concat (map (frame_message (env_nb env)) es)) [[e]]"
    and o: "out (w_kernel ?w) = out (w_kernel sw)"
    using arr r by (simp_all add: arrives_def)
  have c: "connection fd p ?w" "connection_type p ?w = connection_type p sw"
    and k: "serves (env_kernel env) fd inp out" and f: "cb_read (env_cbs env) = Some (server_read m)"
    using r by (simp_all add: server_callbacks_def callback_defs)
  have d: "list_all2 (list_all2 (decodes_to (env_lib env))) [[enc False (request_val request)]] [[e]]"
    using e(1) by simp
  have l: "\<forall>c \<in> set (inp (w_kernel ?w)). length c \<le> BUFFER_SIZE" unfolding i using e(2) by simp
  have os: "list_all2 (encodes_to (env_lib env) (connection_type p ?w))
      [enc False (response_val response)] [e']" using e'(1) c(2) by simp
  from read_data_chunks [OF k f d c(1) i l s os] obtain sw' where
    sw': "read_data env fd ?w = Inr sw'" "connection fd p sw'" "w_app sw' = ?a'" "inp (w_kernel sw') = []"
      "out (w_kernel sw') = out (w_kernel sw) @ frame_message (env_nb env) e'"
      "connection_type p sw' = connection_type p sw"
    unfolding o c(2) by auto
  have "server_ready env m inp out fd p sw'"
    using r sw'(2-4) a(4,5) by (simp add: server_ready_def)
  with sw' e' a(2,3) show ?thesis by (intro exI [of _ sw'] exI [of _ response] exI [of _ app] exI [of _ e']) simp
qed

subsection \<open>The client's part\<close>

text \<open>What the caller sees of an answer.\<close>

definition seen_outcome :: "machine \<Rightarrow> 'u rpc_server \<Rightarrow> byte list \<Rightarrow> cval list \<Rightarrow> call_outcome" where
  "seen_outcome m sv method vs =
     (case srv_manager sv method of
        None \<Rightarrow> Thrown (ascii ''Handler not found'')
      | Some h \<Rightarrow> local_outcome m h vs (srv_app sv))"

text \<open>
  The arguments have the types of the method, the outcome has a text or a value of the method's
  type, and what comes back has at most \<open>n\<close> bytes.
\<close>

definition well_behaved :: "machine \<Rightarrow> 'u rpc_server \<Rightarrow> byte list \<Rightarrow> ctype option \<Rightarrow> cval list \<Rightarrow> nat \<Rightarrow> bool"
  where
  "well_behaved m sv method t vs n \<longleftrightarrow>
     (case srv_manager sv method of
        None \<Rightarrow> length (ascii ''Handler not found'') \<le> n
      | Some h \<Rightarrow>
          list_all2 is_value vs (arg_types h) \<and> t = ret h \<and>
          (case fst (func h vs (srv_app sv)) of
             Inl e \<Rightarrow> (\<exists>msg. what (lib_what m) e = Some msg \<and> msg \<noteq> [] \<and> length msg \<le> n)
           | Inr v \<Rightarrow> (case t of None \<Rightarrow> True | Some t' \<Rightarrow> is_value v t' \<and> 2 * length (enc False v) \<le> n)))"

lemma finish_answer:
  assumes "well_behaved m sv (req_method request) t vs n" and "answered m sv request vs response app"
  shows "finish_call (big_endian m) t (complete_with response) = seen_outcome m sv (req_method request) vs"
proof (cases "srv_manager sv (req_method request)")
  case None
  with assms show ?thesis
    by (auto simp: answered_def complete_with_def finish_call_def seen_outcome_def ascii_def)
next
  case (Some h)
  show ?thesis
  proof (cases "fst (func h vs (srv_app sv))")
    case (Inl e)
    with assms Some show ?thesis
      by (auto simp: answered_def complete_with_def finish_call_def seen_outcome_def well_behaved_def
          local_outcome_def)
  next
    case (Inr v)
    with assms Some have r: "resp_error response = []" "t = ret h"
      "holds_args (big_endian m) (resp_result response) (if ret h = None then [] else [v])"
      by (auto simp: answered_def well_behaved_def)
    note c = holds_args_ready [OF r(3)]
    show ?thesis
    proof (cases t)
      case None
      with r Inr Some show ?thesis
        by (simp add: complete_with_def finish_call_def seen_outcome_def local_outcome_def)
    next
      case (Some t')
      have rh: "ret h = Some t'" using r(2) Some by simp
      from Some have "is_value v t'" "enc_args (foreign (big_endian m) (resp_result response)) [v] =
          enc (foreign (big_endian m) (resp_result response)) v"
        using assms(1) Inr \<open>srv_manager sv (req_method request) = Some h\<close>
        by (auto simp: well_behaved_def enc_args_def)
      with finish_value [of v t' "resp_result response" "big_endian m" "[]"] c Some r have
        "finish_call (big_endian m) t (Value (copy_stream (resp_result response))) = Returned v" by auto
      then show ?thesis
        using r(1) rh Inr \<open>srv_manager sv (req_method request) = Some h\<close>
        by (simp add: complete_with_def seen_outcome_def local_outcome_def)
    qed
  qed
qed

lemma answer_small:
  assumes "well_behaved m sv (req_method request) t vs n" and "answered m sv request vs response app"
  shows "length (enc False (response_val response)) \<le> 27 + length (req_id request) + n"
proof -
  have empty: "stream_bytes (new_stream (big_endian m)) = []"
    by (simp add: stream_bytes_def new_stream_def stored_def)
  have "length (resp_error response) + 2 * length (stream_bytes (resp_result response)) \<le> n"
  proof (cases "srv_manager sv (req_method request)")
    case None
    with assms show ?thesis by (simp add: answered_def well_behaved_def empty)
  next
    case (Some h)
    show ?thesis
    proof (cases "fst (func h vs (srv_app sv))")
      case (Inl e)
      with assms Some show ?thesis by (auto simp: answered_def well_behaved_def empty)
    next
      case (Inr v)
      with assms Some have r: "t = ret h" "resp_error response = []"
        "holds_args (big_endian m) (resp_result response) (if ret h = None then [] else [v])"
        by (auto simp: answered_def well_behaved_def)
      then have "stream_bytes (resp_result response) = enc_args False (if ret h = None then [] else [v])"
        by (simp add: holds_args_def stream_bytes_def)
      moreover have "2 * length (enc_args False (if ret h = None then [] else [v])) \<le> n"
        using assms(1) Some Inr r(1) by (auto simp: well_behaved_def enc_args_def)
      ultimately show ?thesis using r(2) by simp
    qed
  qed
  moreover have "resp_id response = req_id request" using assms(2) by (simp add: answered_def)
  ultimately show ?thesis by (simp add: length_enc_response)
qed

subsection \<open>End to end\<close>

text \<open>
  A socket of the client that takes each message at once, and whose \<open>read\<close> gets what arrives. (\<open>client_feed\<close>:
  \<open>errno\<close> stays at the \<open>EAGAIN\<close> of an earlier \<open>read\<close>.)
\<close>

definition client_socket :: "'ck kernel \<Rightarrow> int \<Rightarrow> ('k, 'ck) link \<Rightarrow> ('ck \<Rightarrow> read_result list) \<Rightarrow> bool" where
  "client_socket kern fd link inp \<longleftrightarrow>
     take_all kern fd (client_out link) \<and> sends_apart kern inp \<and> client_feed kern fd inp \<and>
     (\<forall>rs k. inp (response_arrives link rs k) = inp k @ rs)"

text \<open>
  The client is ready for a call with an id that is not in its table: it is connected, with nothing to
  read or to send, and its table of calls is in order.
\<close>

definition client_ready :: "('d, rpc_client, 'ck) tcp_env \<Rightarrow> ('k, 'ck) link \<Rightarrow> ('ck \<Rightarrow> read_result list) \<Rightarrow>
    byte list \<Rightarrow> channel \<Rightarrow> (rpc_client, 'ck) cworld \<Rightarrow> bool" where
  "client_ready cenv link inp uuid ch cw \<longleftrightarrow>
     client_socket (env_kernel cenv) (ch_fd ch) link inp \<and> env_cbs cenv = rpc_client_callbacks (env_nb cenv) \<and>
     connected ch cw \<and> tc_fd (c_client cw) = ch_fd ch \<and> waiting [] ch \<and> inp (c_kernel cw) = [] \<and>
     tsq_queue (ch_send_messages ch) = [] \<and> client_ok (c_app cw) \<and> cl_pending (c_app cw) uuid = None"

lemma client_sends_request:
  assumes r: "client_ready cenv link inp uuid ch cw"
    and e: "encode_string (env_lib cenv) (ch_compression ch) data = Inr e"
  shows "\<exists>cw'. send_message cenv data (cw\<lparr>c_app := cl\<rparr>) = (Inr (), cw') \<and>
     connected (ch\<lparr>ch_send_messages := new_tsq\<rparr>) cw' \<and> tc_fd (c_client cw') = ch_fd ch \<and> c_app cw' = cl \<and>
     client_out link (c_kernel cw') = client_out link (c_kernel cw) @ frame_message (env_nb cenv) e \<and>
     inp (c_kernel cw') = []"
proof -
  note r = r [unfolded client_ready_def client_socket_def]
  have "take_all (env_kernel cenv) (tc_fd (c_client (cw\<lparr>c_app := cl\<rparr>))) (client_out link)"
    "connected ch (cw\<lparr>c_app := cl\<rparr>)" using r by (simp_all add: connected_def)
  from send_message_whole [OF this e] obtain cw' where
    s: "send_message cenv data (cw\<lparr>c_app := cl\<rparr>) = (Inr (), cw')" "connected (ch\<lparr>ch_send_messages := new_tsq\<rparr>) cw'"
      "tc_fd (c_client cw') = ch_fd ch" "c_app cw' = cl"
      "client_out link (c_kernel cw') = client_out link (c_kernel cw) @ frame_message (env_nb cenv) e"
    using r by auto
  moreover have "inp (c_kernel cw') = []" using send_message_apart [of cenv inp data "cw\<lparr>c_app := cl\<rparr>"] r s(1) by simp
  ultimately show ?thesis by blast
qed

lemma client_takes_answer:
  assumes f: "client_feed (env_kernel cenv) (ch_fd ch) inp" and cb: "env_cbs cenv = rpc_client_callbacks (env_nb cenv)"
    and c: "connected ch cw" "waiting [] ch" "client_ok (c_app cw)" "cl_pending (c_app cw) (resp_id r) = Some k"
    and i: "inp (c_kernel cw) = replicate j Read_Again @ [Bytes (frame_message nb e)]"
    and e: "decodes_to (env_lib cenv) (enc False (response_val r)) e" "length (frame_message nb e) \<le> BUFFER_SIZE"
    and r: "sendable r"
  shows "\<exists>ch' cw'. client_turns cenv (Suc j) cw = Inr cw' \<and> connected ch' cw' \<and> waiting [] ch' \<and>
     ch_fd ch' = ch_fd ch \<and> inp (c_kernel cw') = [] \<and> ch_send_messages ch' = ch_send_messages ch \<and>
     ch_compression ch' = ch_compression ch \<and> tc_fd (c_client cw') = tc_fd (c_client cw) \<and>
     client_ok (c_app cw') \<and> cl_promises (c_app cw') ! k = complete_with r \<and>
     cl_pending (c_app cw') = (cl_pending (c_app cw))(resp_id r := None)"
proof -
  have "on_response (env_nb cenv) (enc False (response_val r)) (c_app cw) = Inr (delivered r (c_app cw))"
    using r by (intro on_response_delivers) (simp add: readable_def sendable_def)
  then have s: "serve (client_read (env_nb cenv)) (ch_fd ch) [enc False (response_val r)] (c_app cw) =
      Inr ([], delivered r (c_app cw))" by (simp add: client_read_def)
  have d: "list_all2 (decodes_to (env_lib cenv)) [enc False (response_val r)] [e]" using e(1) by simp
  have b: "cb_read (env_cbs cenv) = Some (client_read (env_nb cenv))"
    by (simp add: cb rpc_client_callbacks_def callback_defs)
  have l: "length (concat (map (frame_message nb) [e])) \<le> BUFFER_SIZE" using e(2) by simp
  from i have i: "inp (c_kernel cw) = replicate j Read_Again @ [Bytes (concat (map (frame_message nb) [e]))]" by simp
  have "cl_pending (delivered r (c_app cw)) = (cl_pending (c_app cw))(resp_id r := None)"
    using c(4) by (simp add: delivered_def)
  with client_turns_chunk [OF f c(1,2) i d l b s] delivered_ok [OF c(3), of r] delivered_own [OF c(3,4)]
  show ?thesis by metis
qed

lemma remote_call_outcome:
  assumes lib: "brotli_contract (env_lib env)" and same: "env_lib cenv = env_lib env" "env_nb cenv = env_nb env"
    and srv: "server_ready env m inp (server_out link) fd p sw"
    and arr: "arrives (request_arrives link) inp (server_out link)" and cl: "client_ready cenv link cinp uuid ch cw"
    and vs: "list_all2 is_value vs ts"
    and perm: "permuted (arg_order m) args = rev vs"
    and wb: "well_behaved m (rpc_server (w_app sw)) method t args (n - 27 - length uuid)"
    and fit: "fits (env_lib env) (ch_compression ch) n" "fits (env_lib env) (connection_type p sw) n"
      "n \<le> BUFFER_SIZE"
    and size: "27 + length method + length uuid + 2 * length (enc_args False (rev vs)) \<le> n"
  shows "\<exists>ch' cw' sw'. remote_call env cenv link fd j t method vs uuid cw sw =
       Inr (seen_outcome m (rpc_server (w_app sw)) method args, cw', sw') \<and>
     srv_app (rpc_server (w_app sw')) =
       (case srv_manager (rpc_server (w_app sw)) method of
          None \<Rightarrow> srv_app (rpc_server (w_app sw))
        | Some h \<Rightarrow> snd (func h args (srv_app (rpc_server (w_app sw))))) \<and>
     server_ready env m inp (server_out link) fd p sw' \<and> connection_type p sw' = connection_type p sw \<and>
     client_ready cenv link cinp uuid ch' cw' \<and> ch_compression ch' = ch_compression ch \<and>
     cl_pending (c_app cw') = cl_pending (c_app cw)"
proof -
  let ?nb = "env_nb env" let ?sv = "rpc_server (w_app sw)" let ?cl = "c_app cw" let ?k = "length (cl_promises ?cl)"
  note c = cl [unfolded client_ready_def client_socket_def]
  have nb: "?nb = big_endian m" using srv by (simp add: server_ready_def)
  have big: "n < 2 ^ 15" using fit(3) by (simp add: BUFFER_SIZE_def)
  have sm: "small_call method vs uuid" using size big by (simp add: small_call_def)
  have un: "cl_pending ?cl uuid = None" using c by blast
  from start_call_ok [OF vs sm un, of ?nb] obtain pr where
    sc: "start_call ?nb method vs uuid ?cl =
       Inr (enc False (request_val \<lparr>req_id = uuid, req_method = method, req_params = pr\<rparr>), ?k,
            ?cl\<lparr>cl_pending := (cl_pending ?cl)(uuid \<mapsto> ?k), cl_promises := cl_promises ?cl @ [Waiting]\<rparr>)"
    and pr: "compact pr" "stored pr = map Some (enc_args False (rev vs))" "is_big_endian pr = ?nb"
      "ds_pos pr = 0" by blast
  let ?req = "\<lparr>req_id = uuid, req_method = method, req_params = pr\<rparr>"
  let ?cl1 = "?cl\<lparr>cl_pending := (cl_pending ?cl)(uuid \<mapsto> ?k), cl_promises := cl_promises ?cl @ [Waiting]\<rparr>"
  have "stream_bytes pr = enc_args False (rev vs)" using pr(2) by (simp add: stream_bytes_def)
  then have len: "length (enc False (request_val ?req)) \<le> n" using size by (simp add: length_enc_request)
  from encoded_fits [OF lib fit(1) len fit(3), of ?nb] obtain e where
    e: "encode_string (env_lib env) (ch_compression ch) (enc False (request_val ?req)) = Inr e"
      "decodes_to (env_lib env) (enc False (request_val ?req)) e"
      "length (frame_message ?nb e) \<le> BUFFER_SIZE" by blast
  from client_sends_request [OF cl, of "enc False (request_val ?req)" e ?cl1] e(1) obtain cw1 where
    cw1: "send_message cenv (enc False (request_val ?req)) (cw\<lparr>c_app := ?cl1\<rparr>) = (Inr (), cw1)"
      "connected (ch\<lparr>ch_send_messages := new_tsq\<rparr>) cw1" "tc_fd (c_client cw1) = ch_fd ch" "c_app cw1 = ?cl1"
      "client_out link (c_kernel cw1) = client_out link (c_kernel cw) @ frame_message ?nb e"
      "cinp (c_kernel cw1) = []" unfolding same by auto
  have ne: "frame_message ?nb x \<noteq> []" for x by (simp add: frame_message_eq flip: length_0_conv)
  have sent: "drop (length o1) (o1 @ o2) = o2" for o1 o2 :: "byte list" by simp
  have ha: "holds_args (big_endian m) pr (permuted (arg_order m) args)"
    using pr nb size big by (simp add: holds_args_def perm)
  have wb': "well_behaved m ?sv (req_method ?req) t args (n - 27 - length uuid)" using wb by simp
  have small: "length (enc False (response_val r)) \<le> n" if "answered m ?sv ?req args r app" for r app
    using answer_small [OF wb' that] size by simp
  have "callable m ?sv ?req args"
    using wb ha big by (fastforce simp: callable_def well_behaved_def split: option.splits sum.splits)
  moreover have "length (enc False (request_val ?req)) < 2 ^ 31" "length (req_id ?req) < 2 ^ 28"
    using len big size by simp_all
  ultimately obtain sw' r app e' where s:
     "read_data env fd (sw\<lparr>w_kernel := request_arrives link (frame_message ?nb e) (w_kernel sw)\<rparr>) = Inr sw'"
     "server_out link (w_kernel sw') = server_out link (w_kernel sw) @ frame_message ?nb e'"
     "decodes_to (env_lib env) (enc False (response_val r)) e'"
     "length (frame_message ?nb e') \<le> BUFFER_SIZE" "answered m ?sv ?req args r app" "sendable r"
     "srv_app (rpc_server (w_app sw')) = app" "server_ready env m inp (server_out link) fd p sw'"
     "connection_type p sw' = connection_type p sw"
    using server_answers [OF lib srv arr, of ?req args e n] pr(1) e(2,3) fit(2,3) small by auto
  have out: "server_out link (request_arrives link x (w_kernel sw)) = server_out link (w_kernel sw)" for x
    using arr by (simp add: arrives_def)
  have id: "resp_id r = uuid" using s(5) by (simp add: answered_def)
  let ?polls = "replicate j Read_Again @ [Bytes (frame_message ?nb e')]"
  let ?cw = "cw1\<lparr>c_kernel := response_arrives link ?polls (c_kernel cw1)\<rparr>"
  let ?ch = "ch\<lparr>ch_send_messages := new_tsq\<rparr>"
  have ok1: "client_ok ?cl1" using start_call_keeps_ok [OF _ sc] c by simp
  have "waiting [] ?ch" using c by (simp add: waiting_def channel_ok_def received_def)
  moreover have "connected ?ch ?cw" "client_ok (c_app ?cw)" "cl_pending (c_app ?cw) (resp_id r) = Some ?k"
    "cinp (c_kernel ?cw) = ?polls" "client_feed (env_kernel cenv) (ch_fd ?ch) cinp"
    "env_cbs cenv = rpc_client_callbacks (env_nb cenv)"
    using cw1 ok1 c id by (simp_all add: connected_def)
  ultimately obtain ch' cw' where t:
     "client_turns cenv (Suc j) ?cw = Inr cw'" "connected ch' cw'" "waiting [] ch'" "ch_fd ch' = ch_fd ch"
     "cinp (c_kernel cw') = []" "ch_send_messages ch' = new_tsq" "ch_compression ch' = ch_compression ch"
     "tc_fd (c_client cw') = ch_fd ch" "client_ok (c_app cw')" "cl_promises (c_app cw') ! ?k = complete_with r"
     "cl_pending (c_app cw') = (cl_pending (c_app ?cw))(resp_id r := None)"
    using client_takes_answer [of cenv ?ch cinp ?cw r ?k j ?nb e'] s(3,4,6) cw1(3) unfolding same by auto
  have pend: "cl_pending (c_app cw') = cl_pending ?cl" using t(11) cw1(4) id un by auto
  have polls: "length (replicate j Read_Again @ [Bytes x]) = Suc j" for x by simp
  have wk: "w_kernel (sw\<lparr>w_kernel := x\<rparr>) = x" for x by simp
  have "remote_call env cenv link fd j t method vs uuid cw sw =
      Inr (finish_call ?nb t (complete_with r), cw', sw')"
    unfolding remote_call_def same Let_def
    by (simp only: sc cw1(1,5) s(1,2) t(1,10) out sent ne polls wk if_False bindE_simps prod.case sum.case)
  moreover have "finish_call ?nb t (complete_with r) = seen_outcome m ?sv method args"
    using finish_answer [OF wb' s(5)] nb by simp
  moreover have "app = (case srv_manager ?sv method of None \<Rightarrow> srv_app ?sv
      | Some h \<Rightarrow> snd (func h args (srv_app ?sv)))"
    using s(5) by (auto simp: answered_def split: option.splits)
  moreover have "client_ready cenv link cinp uuid ch' cw'"
    using c t(2-9) pend by (simp add: client_ready_def client_socket_def new_tsq_def)
  ultimately show ?thesis using s(7-9) t(7) pend by auto
qed

subsection \<open>Properties\<close>


text \<open>
  A call on a client that is not connected: it throws, nothing is sent, and the promise and the message
  stay where they are.
\<close>

lemma remote_call_unconnected:
  assumes "list_all2 is_value vs ts" and "small_call method vs uuid" and "cl_pending (c_app cw) uuid = None"
    and "\<not> tc_running (c_client cw)" and "tc_channel (c_client cw) = Some ch"
    and "\<And>d. \<exists>e. encode_string (env_lib cenv) (ch_compression ch) d = Inr e"
  shows "\<exists>cw'. remote_call env cenv link fd j t method vs uuid cw sw =
       Inr (Bad (Runtime_Error ''Client is not connected''), cw', sw) \<and>
     cl_pending (c_app cw') = (cl_pending (c_app cw))(uuid \<mapsto> length (cl_promises (c_app cw))) \<and>
     cl_promises (c_app cw') = cl_promises (c_app cw) @ [Waiting] \<and> c_kernel cw' = c_kernel cw"
proof -
  from start_call_ok [OF assms(1-3), of "env_nb cenv"] obtain d where
    s: "start_call (env_nb cenv) method vs uuid (c_app cw) = Inr (d, length (cl_promises (c_app cw)),
       (c_app cw)\<lparr>cl_pending := (cl_pending (c_app cw))(uuid \<mapsto> length (cl_promises (c_app cw))),
          cl_promises := cl_promises (c_app cw) @ [Waiting]\<rparr>)" by blast
  from assms(6) obtain e where "encode_string (env_lib cenv) (ch_compression ch) d = Inr e" by blast
  with s assms(4,5) show ?thesis
    by (simp add: remote_call_def send_message_def enqueue_message_def client_on_send_def Let_def)
qed

text \<open>
  A server with a method \<open>sub\<close> that subtracts its second argument from its first and counts its
  calls, reached through a socket that takes three bytes at a time.
\<close>

definition sub_handler :: "nat handler" where
  "sub_handler = \<lparr>ret = Some TInt32, arg_types = [TInt32, TInt32],
     func = (\<lambda>args u. case args of
        [VInt32 a, VInt32 b] \<Rightarrow> (Inr (VInt32 (a - b)), u + 1)
      | _ \<Rightarrow> (Inl (Runtime_Error ''bad call''), u))\<rparr>"

definition sub_server :: "nat rpc_server" where
  "sub_server = register_method (ascii ''sub'') sub_handler (on_new_connection 0 7 (new_rpc_server 0))"

definition sub_env :: "machine \<Rightarrow> (unit, nat rpc_app, sim) tcp_env" where
  "sub_env m = \<lparr>env_lib = stored_lib, env_nb = big_endian m, env_kernel = sim_kernel 3,
     env_cbs = server_callbacks m\<rparr>"

definition sub_world :: "(nat rpc_app, sim) world" where
  "sub_world =
     \<lparr>w_server = \<lparr>net_compression = Comp_None, executor_set = True, srv_stop = False, main_reactor = 0,
        sub_reactors = [1], listen_fd = 3, channels = [7 \<mapsto> Some 0], fd_location = [7 \<mapsto> 0],
        heap = [new_channel (replicate BUFFER_SIZE 0) 7]\<rparr>,
      w_app = \<lparr>rpc_clock = int, rpc_ticks = 0, rpc_server = sub_server\<rparr>,
      w_kernel = \<lparr>sim_in = [], sim_out = []\<rparr>\<rparr>"

text \<open>The client, whose kernel is that of \<open>poll_world\<close>.\<close>

definition sub_client_env :: "machine \<Rightarrow> (unit, rpc_client, read_result list \<times> byte list) tcp_env" where
  "sub_client_env m = \<lparr>env_lib = stored_lib, env_nb = big_endian m, env_kernel = poll_kernel,
     env_cbs = rpc_client_callbacks (big_endian m)\<rparr>"

definition sub_client :: "(rpc_client, read_result list \<times> byte list) cworld" where
  "sub_client =
     snd (client_run poll_kernel (replicate BUFFER_SIZE 0)
       \<lparr>c_client = new_tcp_client 0 [] 8080, c_app = new_rpc_client, c_kernel = ([], [])\<rparr>)"

definition sim_arrive :: "byte list \<Rightarrow> sim \<Rightarrow> sim" where
  "sim_arrive c k = k\<lparr>sim_in := sim_in k @ [c]\<rparr>"

definition sub_link :: "(sim, read_result list \<times> byte list) link" where
  "sub_link = \<lparr>server_out = sim_out, request_arrives = sim_arrive, client_out = snd,
     response_arrives = (\<lambda>rs k. (fst k @ rs, snd k))\<rparr>"

definition clang_x86 :: machine where
  "clang_x86 = gcc_x86\<lparr>arg_order := left_to_right\<rparr>"

lemma sub_server_simps [simp]:
  "srv_manager sub_server (ascii ''sub'') = Some sub_handler" "srv_app sub_server = 0"
  "store_ok (srv_users sub_server)" "last_of (srv_users sub_server) 7 = Some 0"
  by (simp_all add: sub_server_def register_method_def on_new_connection_def new_rpc_server_def
      create_user_def store_ok_def last_of_def user_update_heartbeat_def register_handler_def)

lemma sub_world_simps [simp]:
  "rpc_server (w_app sub_world) = sub_server" "connection_type 0 sub_world = Comp_None"
  "sim_in (w_kernel sub_world) = []" "sim_out (w_kernel sub_world) = []"
  by (simp_all add: sub_world_def connection_type_def channel_at_def new_channel_def)

lemma sub_ready:
  assumes "complete_order (arg_order m)"
  shows "server_ready (sub_env m) m sim_in (server_out sub_link) 7 0 sub_world"
proof -
  have "connection 7 0 sub_world"
    using new_channel_waiting [of "replicate BUFFER_SIZE 0" 7]
    by (simp add: connection_def registered_def idle_def channel_at_def sub_world_def new_channel_def)
  then show ?thesis using assms sim_kernel_serves [of 3 7]
    by (simp add: server_ready_def sub_env_def sub_link_def)
qed

lemma sub_client_ready:
  "client_ready (sub_client_env m) sub_link fst [9] (new_channel (replicate BUFFER_SIZE 0) 3) sub_client"
proof -
  have "sends_apart poll_kernel fst" by (simp add: sends_apart_def poll_kernel_def)
  then have "client_socket poll_kernel 3 sub_link fst"
    using poll_kernel_ok by (simp add: client_socket_def sub_link_def)
  moreover have "connected (new_channel (replicate BUFFER_SIZE 0) 3) sub_client" "c_app sub_client = new_rpc_client"
    "c_kernel sub_client = ([], [])" "tc_fd (c_client sub_client) = 3"
    by (simp_all add: sub_client_def client_run_def poll_kernel_def new_tcp_client_def connected_def
        Channel.set_compress_algo_def new_channel_def EINPROGRESS_def)
  ultimately show ?thesis
    using new_channel_waiting [of "replicate BUFFER_SIZE 0" 3] new_rpc_client_ok
    by (simp add: client_ready_def sub_client_env_def) (simp add: new_rpc_client_def new_channel_def new_tsq_def)
qed

lemma sub_arrives: "arrives (request_arrives sub_link) sim_in (server_out sub_link)"
  by (simp add: arrives_def sim_arrive_def sub_link_def)

lemma sub_well_behaved:
  "17 \<le> n \<Longrightarrow> well_behaved m sub_server (ascii ''sub'') (Some TInt32) [VInt32 a, VInt32 b] n"
  by (simp add: well_behaved_def sub_handler_def)

lemma sub_outcome:
  "seen_outcome m sub_server (ascii ''sub'') [VInt32 a, VInt32 b] = Returned (VInt32 (a - b))"
  by (simp add: seen_outcome_def local_outcome_def sub_handler_def)

lemma sub_sides:
  "brotli_contract (env_lib (sub_env m))" "env_lib (sub_client_env m) = env_lib (sub_env m)"
  "env_nb (sub_client_env m) = env_nb (sub_env m)"
  "list_all2 is_value [VInt32 a, VInt32 b] [TInt32, TInt32]"
  "fits (env_lib (sub_env m)) (ch_compression (new_channel (replicate BUFFER_SIZE 0) 3)) 16387"
  "fits (env_lib (sub_env m)) (connection_type 0 sub_world) 16387" "16387 \<le> BUFFER_SIZE"
  "27 + length (ascii ''sub'') + length [9 :: byte] +
     2 * length (enc_args False (rev [VInt32 a, VInt32 b])) \<le> 16387"
  using stored_lib_contract fits_plain [of stored_lib]
  by (simp_all add: sub_env_def sub_client_env_def new_channel_def BUFFER_SIZE_def HEAD_LENGTH_def enc_args_def ascii_def)




end
