(* ===== verification/Timer.thy ===== *)
theory Timer
  imports Prelude "HOL-Library.Multiset"
begin

text \<open>
  \<open>Handler\<close> and \<open>Timer\<close> (\<open>Core/Timer.h\<close>, \<open>Core/Timer.cpp\<close>): timers in a priority queue, and the
  loop that hands the callbacks that are due to an executor. A time point is an \<open>int\<close> in
  nanoseconds, a waiting time an \<open>int\<close> in milliseconds (the clock's 64 bits last for 292 years), an
  id a word of 64 bits. Every method holds the mutex while it touches the queue, so it is one step,
  and the steps of several threads are a sequence.

  The theory shows which callbacks one pass of the loop hands over, how often and in which order,
  and that a timer that was removed never fires again, a one-shot timer fires at most once, and
  none fires early.
\<close>

subsection \<open>Handler\<close>

record 'f timer_handler =
  th_id :: int64
  th_callback :: 'f
  th_last :: int
  th_next :: int
  th_wait :: int
  th_periodic :: bool

definition milliseconds :: "int \<Rightarrow> int" where
  "milliseconds ms = ms * 1000000"

definition handler_create_timer :: "int64 \<Rightarrow> int \<Rightarrow> int \<Rightarrow> bool \<Rightarrow> 'f \<Rightarrow> 'f timer_handler" where
  "handler_create_timer ident createTime waitTime isPeriodic callbackFunction =
     \<lparr>th_id = ident, th_callback = callbackFunction, th_last = createTime,
      th_next = createTime + milliseconds (waitTime + 1), th_wait = waitTime,
      th_periodic = isPeriodic\<rparr>"

definition handler_update_timer :: "'f timer_handler \<Rightarrow> 'f timer_handler" where
  "handler_update_timer h =
     h\<lparr>th_last := th_next h, th_next := th_next h + milliseconds (th_wait h)\<rparr>"

text \<open>\<open>operator<\<close>: the later one is the smaller one.\<close>

definition handler_less :: "'f timer_handler \<Rightarrow> 'f timer_handler \<Rightarrow> bool" where
  "handler_less h other \<longleftrightarrow> th_next h > th_next other"

subsection \<open>The priority queue\<close>

text \<open>
  \<open>std::priority_queue\<close>: \<open>top\<close> is an element than which no other is greater, and \<open>pop\<close> takes it
  away. Which one of several, the standard leaves open: \<open>pick\<close> gives its position.
\<close>

type_synonym 'f pick = "'f timer_handler list \<Rightarrow> nat"

definition pq_push :: "'f timer_handler \<Rightarrow> 'f timer_handler list \<Rightarrow> 'f timer_handler list" where
  "pq_push h hs = hs @ [h]"

definition pq_top :: "'f pick \<Rightarrow> 'f timer_handler list \<Rightarrow> 'f timer_handler" where
  "pq_top pick hs = hs ! pick hs"

definition pq_pop :: "'f pick \<Rightarrow> 'f timer_handler list \<Rightarrow> 'f timer_handler list" where
  "pq_pop pick hs = take (pick hs) hs @ drop (Suc (pick hs)) hs"

definition picks_top :: "'f pick \<Rightarrow> bool" where
  "picks_top pick \<longleftrightarrow>
     (\<forall>hs. hs \<noteq> [] \<longrightarrow> pick hs < length hs \<and> (\<forall>h \<in> set hs. \<not> handler_less (hs ! pick hs) h))"

locale timer_queue =
  fixes items :: "'q \<Rightarrow> 'f timer_handler multiset"
    and push :: "'f timer_handler \<Rightarrow> 'q \<Rightarrow> 'q"
    and first :: "'q \<Rightarrow> 'f timer_handler"
    and pop :: "'q \<Rightarrow> 'q"
  assumes items_push: "items (push h q) = add_mset h (items q)"
    and items_pop: "items q \<noteq> {#} \<Longrightarrow> items q = add_mset (first q) (items (pop q))"
    and top_greatest: "h \<in># items q \<Longrightarrow> \<not> handler_less (first q) h"
begin

lemma top_earliest: "h \<in># items q \<Longrightarrow> th_next (first q) \<le> th_next h"
  using top_greatest [of h q] by (simp add: handler_less_def)

lemma none_due: "now < th_next (first q) \<Longrightarrow> h \<in># items q \<Longrightarrow> now < th_next h"
  using top_earliest by fastforce

lemma size_pop: "items q \<noteq> {#} \<Longrightarrow> Suc (size (items (pop q))) = size (items q)"
  using items_pop by (metis size_add_mset)

end

lemma picks_top_queue:
  assumes "picks_top pick"
  shows "timer_queue mset pq_push (pq_top pick) (pq_pop pick)"
proof
  fix h :: "'a timer_handler" and q
  show "mset (pq_push h q) = add_mset h (mset q)" by (simp add: pq_push_def)
next
  fix q :: "'a timer_handler list"
  assume "mset q \<noteq> {#}"
  with assms have "pick q < length q" by (simp add: picks_top_def)
  then show "mset q = add_mset (pq_top pick q) (mset (pq_pop pick q))"
    using arg_cong [OF id_take_nth_drop [of "pick q" q], of mset] by (simp add: pq_top_def pq_pop_def)
next
  fix h :: "'a timer_handler" and q
  assume "h \<in># mset q"
  with assms show "\<not> handler_less (pq_top pick q) h"
    by (cases q) (auto simp: picks_top_def pq_top_def)
qed

text \<open>An instance: the position of the first of the earliest.\<close>

fun earliest :: "'f timer_handler list \<Rightarrow> nat" where
  "earliest [] = 0"
| "earliest [h] = 0"
| "earliest (h # hs) =
     (if th_next h \<le> th_next (hs ! earliest hs) then 0 else Suc (earliest hs))"

lemma earliest_first:
  "hs \<noteq> [] \<Longrightarrow> earliest hs < length hs \<and> (\<forall>h \<in> set hs. th_next (hs ! earliest hs) \<le> th_next h)"
  by (induction hs rule: earliest.induct) fastforce+

lemma earliest_picks_top: "picks_top earliest"
  using earliest_first by (fastforce simp: picks_top_def handler_less_def)

interpretation earliest_queue: timer_queue mset pq_push "pq_top earliest" "pq_pop earliest"
  by (rule picks_top_queue [OF earliest_picks_top])

subsection \<open>Timer\<close>

text \<open>The constructor's default executor runs the function itself; any other is a value \<open>'e\<close>.\<close>

datatype 'e executor = Run_Here | Hand_To 'e

record ('f, 'e) timer =
  tm_timers :: "'f timer_handler list"
  tm_removed :: "int64 set"
  tm_next_id :: int64
  tm_running :: bool
  tm_executor :: "'e executor"

text \<open>
  With an executor the constructor returns before it sets \<open>_running\<close>, which \<open>std::atomic<bool>\<close>
  initialises to \<open>false\<close>.
\<close>

definition new_timer :: "'e option \<Rightarrow> ('f, 'e) timer" where
  "new_timer executor =
     (let t = \<lparr>tm_timers = [], tm_removed = {}, tm_next_id = 1, tm_running = False,
               tm_executor = Run_Here\<rparr>
      in case executor of
           Some e \<Rightarrow> t\<lparr>tm_executor := Hand_To e\<rparr>
         | None \<Rightarrow> t\<lparr>tm_executor := Run_Here, tm_running := True\<rparr>)"

definition set_executor :: "'e \<Rightarrow> ('f, 'e) timer \<Rightarrow> ('f, 'e) timer" where
  "set_executor e t = t\<lparr>tm_executor := Hand_To e\<rparr>"

definition timer_stop :: "('f, 'e) timer \<Rightarrow> ('f, 'e) timer" where
  "timer_stop t = t\<lparr>tm_running := False\<rparr>"

definition get_timer_ID :: "('f, 'e) timer \<Rightarrow> int64 \<times> ('f, 'e) timer" where
  "get_timer_ID t = (tm_next_id t, t\<lparr>tm_next_id := tm_next_id t + 1\<rparr>)"

text \<open>\<open>now\<close> is the clock's reading in the call.\<close>

definition timer_create :: "int \<Rightarrow> 'f \<Rightarrow> int \<Rightarrow> bool \<Rightarrow> ('f, 'e) timer \<Rightarrow> int64 \<times> ('f, 'e) timer" where
  "timer_create now func wait_time is_periodic t =
     (case get_timer_ID t of (ident, t1) \<Rightarrow>
      (ident, t1\<lparr>tm_timers :=
         pq_push (handler_create_timer ident now wait_time is_periodic func) (tm_timers t1)\<rparr>))"

definition set_timeout_timer :: "int \<Rightarrow> 'f \<Rightarrow> int \<Rightarrow> ('f, 'e) timer \<Rightarrow> int64 \<times> ('f, 'e) timer" where
  "set_timeout_timer now func wait_time = timer_create now func wait_time False"

definition set_periodic_timer :: "int \<Rightarrow> 'f \<Rightarrow> int \<Rightarrow> ('f, 'e) timer \<Rightarrow> int64 \<times> ('f, 'e) timer" where
  "set_periodic_timer now func wait_time = timer_create now func wait_time True"

definition remove_timer :: "int64 \<Rightarrow> ('f, 'e) timer \<Rightarrow> ('f, 'e) timer" where
  "remove_timer ident t = t\<lparr>tm_removed := insert ident (tm_removed t)\<rparr>"

text \<open>
  The inner loop of \<open>run\<close>, with the one clock reading of its pass. The result: the queue
  afterwards, and the timers whose callbacks went to the executor, in order (\<open>fired\<close> has the
  earlier ones).
\<close>

partial_function (option) fire_loop :: "'f pick \<Rightarrow> int \<Rightarrow> int64 set \<Rightarrow> 'f timer_handler list \<Rightarrow>
    'f timer_handler list \<Rightarrow> ('f timer_handler list \<times> 'f timer_handler list) option" where
  "fire_loop pick nowTime removed timers fired =
     (if timers = [] \<or> nowTime < th_next (pq_top pick timers) then Some (timers, fired)
      else
        let timer = pq_top pick timers; rest = pq_pop pick timers in
        if th_id timer \<in> removed then fire_loop pick nowTime removed rest fired
        else fire_loop pick nowTime removed
               (if th_periodic timer then pq_push (handler_update_timer timer) rest else rest)
               (fired @ [timer]))"

text \<open>One turn of the outer loop of \<open>run\<close>: the flag, then the pass under the lock.\<close>

definition timer_turn :: "'f pick \<Rightarrow> int \<Rightarrow> ('f, 'e) timer \<Rightarrow>
    ('f timer_handler list \<times> ('f, 'e) timer) result" where
  "timer_turn pick nowTime t =
     (if \<not> tm_running t then Inr ([], t)
      else
        case fire_loop pick nowTime (tm_removed t) (tm_timers t) [] of
          None \<Rightarrow> Inl Hang
        | Some (timers, fired) \<Rightarrow> Inr (fired, t\<lparr>tm_timers := timers\<rparr>))"

text \<open>\<open>run\<close>, for the readings the clock gives until the loop is left.\<close>

fun timer_run :: "'f pick \<Rightarrow> int list \<Rightarrow> ('f, 'e) timer \<Rightarrow>
    ('f timer_handler list \<times> ('f, 'e) timer) result" where
  "timer_run pick [] t = Inr ([], t)"
| "timer_run pick (now # clock) t =
     bindE (timer_turn pick now t) (\<lambda>(fired, t1).
     bindE (timer_run pick clock t1) (\<lambda>(fired', t2). Inr (fired @ fired', t2)))"

subsection \<open>One pass\<close>

text \<open>
  How often a timer fires in a pass at \<open>now\<close>: once for every period that is over, or once. The
  \<open>i\<close>-th firing is that of \<open>advanced i h\<close>.
\<close>

definition firings :: "int \<Rightarrow> int64 set \<Rightarrow> 'f timer_handler \<Rightarrow> nat" where
  "firings now removed h =
     (if now < th_next h \<or> th_id h \<in> removed then 0
      else if th_periodic h then Suc (nat ((now - th_next h) div milliseconds (th_wait h)))
      else 1)"

fun advanced :: "nat \<Rightarrow> 'f timer_handler \<Rightarrow> 'f timer_handler" where
  "advanced 0 h = h"
| "advanced (Suc i) h = advanced i (handler_update_timer h)"

definition fired_by :: "int \<Rightarrow> int64 set \<Rightarrow> 'f timer_handler \<Rightarrow> 'f timer_handler multiset" where
  "fired_by now removed h = mset (map (\<lambda>i. advanced i h) [0..<firings now removed h])"

definition kept_after :: "int \<Rightarrow> int64 set \<Rightarrow> 'f timer_handler \<Rightarrow> 'f timer_handler multiset" where
  "kept_after now removed h =
     (if now < th_next h then {#h#}
      else if th_id h \<in> removed \<or> \<not> th_periodic h then {#}
      else {#advanced (firings now removed h) h#})"

lemma update_timer_sels [simp]:
  "th_id (handler_update_timer h) = th_id h" "th_callback (handler_update_timer h) = th_callback h"
  "th_wait (handler_update_timer h) = th_wait h" "th_periodic (handler_update_timer h) = th_periodic h"
  "th_next (handler_update_timer h) = th_next h + milliseconds (th_wait h)"
  by (simp_all add: handler_update_timer_def)

lemma advanced_sels [simp]:
  "th_id (advanced i h) = th_id h" "th_callback (advanced i h) = th_callback h"
  "th_wait (advanced i h) = th_wait h" "th_periodic (advanced i h) = th_periodic h"
  "th_next (advanced i h) = th_next h + int i * milliseconds (th_wait h)"
  by (induction i arbitrary: h) (simp_all add: algebra_simps)

lemma not_due:
  "now < th_next h \<Longrightarrow> fired_by now removed h = {#}" "now < th_next h \<Longrightarrow> kept_after now removed h = {#h#}"
  by (simp_all add: fired_by_def firings_def kept_after_def)

lemma due_removed:
  "th_next h \<le> now \<Longrightarrow> th_id h \<in> removed \<Longrightarrow> fired_by now removed h = {#}"
  "th_next h \<le> now \<Longrightarrow> th_id h \<in> removed \<Longrightarrow> kept_after now removed h = {#}"
  by (simp_all add: fired_by_def firings_def kept_after_def)

lemma due_once:
  assumes "th_next h \<le> now" "th_id h \<notin> removed" "\<not> th_periodic h"
  shows "fired_by now removed h = {#h#}" "kept_after now removed h = {#}"
  using assms by (simp_all add: fired_by_def firings_def kept_after_def)

lemma due_periodic:
  assumes "th_next h \<le> now" "th_id h \<notin> removed" "th_periodic h" "0 < th_wait h"
  shows "firings now removed h = Suc (firings now removed (handler_update_timer h))"
    and "fired_by now removed h = add_mset h (fired_by now removed (handler_update_timer h))"
    and "kept_after now removed h = kept_after now removed (handler_update_timer h)"
proof -
  let ?m = "milliseconds (th_wait h)"
  have m: "0 < ?m" using assms(4) by (simp add: milliseconds_def)
  show f: "firings now removed h = Suc (firings now removed (handler_update_timer h))"
  proof (cases "now < th_next h + ?m")
    case True
    with assms m show ?thesis by (simp add: firings_def div_pos_pos_trivial)
  next
    case False
    then have "(now - th_next h) div ?m = (now - (th_next h + ?m)) div ?m + 1"
      using m div_add_self2 [of ?m "now - (th_next h + ?m)"] by (simp add: algebra_simps)
    moreover have "0 \<le> (now - (th_next h + ?m)) div ?m"
      using False m by (simp add: pos_imp_zdiv_nonneg_iff)
    ultimately show ?thesis using assms False by (simp add: firings_def nat_add_distrib)
  qed
  have "map (\<lambda>i. advanced i h) [0..<firings now removed h] =
      h # map (\<lambda>i. advanced i (handler_update_timer h)) [0..<firings now removed (handler_update_timer h)]"
    unfolding f by (simp add: upt_conv_Cons map_Suc_upt [symmetric] del: upt_Suc)
  then show "fired_by now removed h = add_mset h (fired_by now removed (handler_update_timer h))"
    by (simp add: fired_by_def)
  show "kept_after now removed h = kept_after now removed (handler_update_timer h)"
    using assms f by (auto simp: kept_after_def firings_def)
qed

text \<open>The number of turns that a timer takes part in.\<close>

definition work :: "int \<Rightarrow> int64 set \<Rightarrow> 'f timer_handler \<Rightarrow> nat" where
  "work now removed h =
     (if now < th_next h then 0 else if th_id h \<in> removed then 1 else firings now removed h)"

abbreviation sum_over :: "('a \<Rightarrow> 'b::comm_monoid_add) \<Rightarrow> 'a list \<Rightarrow> 'b" where
  "sum_over f xs \<equiv> \<Sum>\<^sub># (image_mset f (mset xs))"

definition progressing :: "'f timer_handler list \<Rightarrow> bool" where
  "progressing hs \<longleftrightarrow> (\<forall>h \<in> set hs. th_periodic h \<longrightarrow> 0 < th_wait h)"

lemma sum_over_pop:
  assumes "picks_top pick" and "hs \<noteq> []"
  shows "sum_over f hs = f (pq_top pick hs) + sum_over f (pq_pop pick hs)"
  using timer_queue.items_pop [OF picks_top_queue [OF assms(1)], of hs] assms(2) by simp

lemma sum_over_push [simp]: "sum_over f (pq_push h hs) = f h + sum_over f hs"
  by (simp add: pq_push_def add.commute)

lemma set_pop:
  assumes "picks_top pick" and "hs \<noteq> []"
  shows "set hs = insert (pq_top pick hs) (set (pq_pop pick hs))"
  using timer_queue.items_pop [OF picks_top_queue [OF assms(1)], of hs] assms(2)
  by (metis mset_zero_iff set_mset_add_mset_insert set_mset_mset)

lemma set_push [simp]: "set (pq_push h hs) = insert h (set hs)"
  by (auto simp: pq_push_def)

lemma quiet_pass:
  assumes "picks_top pick" and "hs = [] \<or> now < th_next (pq_top pick hs)"
  shows "sum_over (fired_by now removed) hs = {#}" and "sum_over (kept_after now removed) hs = mset hs"
proof -
  have d: "now < th_next h" if "h \<in># mset hs" for h
    using timer_queue.none_due [OF picks_top_queue [OF assms(1)] _ that] assms(2) that by auto
  have "image_mset (fired_by now removed) (mset hs) = image_mset (\<lambda>h. {#}) (mset hs)"
    using d by (intro image_mset_cong) (simp add: not_due)
  then show "sum_over (fired_by now removed) hs = {#}" by simp
  have "image_mset (kept_after now removed) (mset hs) = image_mset (\<lambda>h. {#h#}) (mset hs)"
    using d by (intro image_mset_cong) (simp add: not_due)
  then show "sum_over (kept_after now removed) hs = mset hs" by simp
qed

text \<open>A pass ends, and what it leaves and fires is what the timers in the queue give, each by itself.\<close>

lemma fire_loop_result:
  assumes pick: "picks_top pick" and "progressing hs"
  shows "\<exists>hs' fs. fire_loop pick now removed hs fired = Some (hs', fired @ fs) \<and>
     mset fs = sum_over (fired_by now removed) hs \<and> mset hs' = sum_over (kept_after now removed) hs \<and>
     sorted (map th_next fs) \<and> (\<forall>f \<in> set fs. \<exists>h \<in> set hs. th_next h \<le> th_next f)"
  using assms(2)
proof (induction "sum_over (work now removed) hs" arbitrary: hs fired rule: less_induct)
  case less
  show ?case
  proof (cases "hs = [] \<or> now < th_next (pq_top pick hs)")
    case True
    with quiet_pass [OF pick True] show ?thesis
      by (simp add: fire_loop.simps [of pick now removed hs])
  next
    case False
    let ?h = "pq_top pick hs" and ?hs = "pq_pop pick hs"
    let ?next = "if th_id ?h \<in> removed \<or> \<not> th_periodic ?h then ?hs else pq_push (handler_update_timer ?h) ?hs"
    let ?out = "if th_id ?h \<in> removed then [] else [?h]"
    have ne: "hs \<noteq> []" and due: "th_next ?h \<le> now" using False by auto
    have set: "set hs = insert ?h (set ?hs)" by (rule set_pop [OF pick ne])
    have pos: "th_periodic ?h \<Longrightarrow> 0 < th_wait ?h"
      using less.prems set by (auto simp: progressing_def)
    have step: "fire_loop pick now removed hs fired = fire_loop pick now removed ?next (fired @ ?out)"
      using False by (simp add: fire_loop.simps [of pick now removed hs] Let_def)
    have "work now removed ?h = Suc (sum_over (work now removed) ?next - sum_over (work now removed) ?hs)"
      using due due_periodic(1) [OF due _ _ pos] by (auto simp: work_def firings_def)
    then have "sum_over (work now removed) ?next < sum_over (work now removed) hs"
      using sum_over_pop [OF pick ne, of "work now removed"] by auto
    moreover have "progressing ?next" using less.prems set by (auto simp: progressing_def)
    ultimately obtain hs' fs where ih:
      "fire_loop pick now removed ?next (fired @ ?out) = Some (hs', (fired @ ?out) @ fs)"
      "mset fs = sum_over (fired_by now removed) ?next" "mset hs' = sum_over (kept_after now removed) ?next"
      "sorted (map th_next fs)" "\<forall>f \<in> set fs. \<exists>h \<in> set ?next. th_next h \<le> th_next f"
      using less.hyps [of ?next "fired @ ?out"] by blast
    have min: "th_next ?h \<le> th_next h" if "h \<in> set ?next" for h
    proof -
      have "th_next ?h \<le> th_next h" if "h \<in> set ?hs" for h
        using timer_queue.top_earliest [OF picks_top_queue [OF pick], of h hs] set that by auto
      with that pos show ?thesis by (fastforce simp: milliseconds_def split: if_splits)
    qed
    have low: "\<forall>f \<in> set fs. th_next ?h \<le> th_next f" using ih(5) min by fastforce
    have "mset (?out @ fs) = sum_over (fired_by now removed) hs"
      "mset hs' = sum_over (kept_after now removed) hs"
      using ih(2,3) sum_over_pop [OF pick ne, of "fired_by now removed"]
        sum_over_pop [OF pick ne, of "kept_after now removed"] due_removed [OF due] due_once [OF due]
        due_periodic(2,3) [OF due _ _ pos] by auto
    moreover have "sorted (map th_next (?out @ fs))" using ih(4) low by auto
    moreover have "\<forall>f \<in> set (?out @ fs). \<exists>h \<in> set hs. th_next h \<le> th_next f"
      using low set by auto
    ultimately show ?thesis using step ih(1)
      by (intro exI [of _ hs'] exI [of _ "?out @ fs"]) simp
  qed
qed

lemma pass_induct [consumes 1, case_names future removed once periodic]:
  assumes "th_periodic h \<longrightarrow> 0 < th_wait h"
    and "\<And>h. now < th_next h \<Longrightarrow> P h"
    and "\<And>h. th_next h \<le> now \<Longrightarrow> th_id h \<in> removed \<Longrightarrow> P h"
    and "\<And>h. th_next h \<le> now \<Longrightarrow> th_id h \<notin> removed \<Longrightarrow> \<not> th_periodic h \<Longrightarrow> P h"
    and "\<And>h. th_next h \<le> now \<Longrightarrow> th_id h \<notin> removed \<Longrightarrow> th_periodic h \<Longrightarrow> 0 < th_wait h \<Longrightarrow>
       P (handler_update_timer h) \<Longrightarrow> P h"
  shows "P h"
  using assms(1)
proof (induction "firings now removed h" arbitrary: h rule: less_induct)
  case less
  consider "now < th_next h" | "th_next h \<le> now" "th_id h \<in> removed"
    | "th_next h \<le> now" "th_id h \<notin> removed" "\<not> th_periodic h"
    | "th_next h \<le> now" "th_id h \<notin> removed" "th_periodic h" by linarith
  then show ?case
  proof cases
    case 4
    with less.prems have w: "0 < th_wait h" by simp
    have "firings now removed (handler_update_timer h) < firings now removed h"
      using due_periodic(1) [OF 4 w] by simp
    then have "P (handler_update_timer h)" using less.hyps less.prems by simp
    then show ?thesis by (rule assms(5) [OF 4 w])
  qed (fact assms(2-4))+
qed

lemma kept_later:
  assumes "th_periodic h \<longrightarrow> 0 < th_wait h"
  shows "k \<in># kept_after now removed h \<Longrightarrow> now < th_next k"
  using assms
  by (induction rule: pass_induct [where now = now and removed = removed])
     (auto simp: not_due due_removed due_once due_periodic)

text \<open>Two passes do what the second alone would have done.\<close>

lemma two_passes:
  assumes "th_periodic h \<longrightarrow> 0 < th_wait h" and "now \<le> now'"
  shows "fired_by now' removed h =
      fired_by now removed h + \<Sum>\<^sub># (image_mset (fired_by now' removed) (kept_after now removed h)) \<and>
    kept_after now' removed h = \<Sum>\<^sub># (image_mset (kept_after now' removed) (kept_after now removed h))"
  using assms(1)
proof (induction rule: pass_induct [where now = now and removed = removed])
  case (once h)
  then show ?case using assms(2) due_once [of h now removed] due_once [of h now' removed] by auto
next
  case (periodic h)
  then show ?case using assms(2) due_periodic [of h now removed] due_periodic [of h now' removed] by auto
qed (use assms(2) in \<open>auto simp: not_due due_removed due_once\<close>)

lemma kept_progressing:
  "progressing hs \<Longrightarrow> mset hs' = sum_over (kept_after now removed) hs \<Longrightarrow> progressing hs'"
proof -
  assume p: "progressing hs" and m: "mset hs' = sum_over (kept_after now removed) hs"
  have "\<exists>h \<in> set hs. th_periodic k = th_periodic h \<and> th_wait k = th_wait h" if "k \<in> set hs'" for k
  proof -
    from that m have "k \<in># sum_over (kept_after now removed) hs" by (metis set_mset_mset)
    then show ?thesis by (auto simp: kept_after_def split: if_splits)
  qed
  with p show ?thesis by (fastforce simp: progressing_def)
qed

lemma fired_due:
  assumes "th_periodic h \<longrightarrow> 0 < th_wait h"
  shows "f \<in># fired_by now removed h \<Longrightarrow> th_next f \<le> now \<and> th_id f \<notin> removed"
  using assms
  by (induction rule: pass_induct [where now = now and removed = removed])
     (auto simp: not_due due_removed due_once due_periodic)

lemma fired_after:
  assumes "th_periodic h \<longrightarrow> 0 < th_wait h"
  shows "f \<in># fired_by now removed h \<Longrightarrow> th_next h \<le> th_next f"
  using assms
  by (induction rule: pass_induct [where now = now and removed = removed])
     (auto simp: not_due due_removed due_once due_periodic milliseconds_def)

lemma sum_mset_image_sum:
  "\<Sum>\<^sub># (image_mset f (\<Sum>\<^sub># (image_mset g M))) = \<Sum>\<^sub># (image_mset (\<lambda>h. \<Sum>\<^sub># (image_mset f (g h))) M)"
  by (induction M) simp_all

lemma sum_two_passes:
  assumes "progressing hs" and "now \<le> now'" and "mset hs' = sum_over (kept_after now removed) hs"
  shows "sum_over (fired_by now' removed) hs =
      sum_over (fired_by now removed) hs + sum_over (fired_by now' removed) hs'"
    and "sum_over (kept_after now' removed) hs = sum_over (kept_after now' removed) hs'"
proof -
  have h: "th_periodic h \<longrightarrow> 0 < th_wait h" if "h \<in># mset hs" for h
    using assms(1) that by (simp add: progressing_def)
  have "image_mset (fired_by now' removed) (mset hs) = image_mset (\<lambda>h. fired_by now removed h +
      \<Sum>\<^sub># (image_mset (fired_by now' removed) (kept_after now removed h))) (mset hs)"
    using two_passes [OF h assms(2)] by (intro image_mset_cong) blast
  then show "sum_over (fired_by now' removed) hs =
      sum_over (fired_by now removed) hs + sum_over (fired_by now' removed) hs'"
    unfolding assms(3) sum_mset_image_sum by (simp add: sum_mset.distrib)
  have "image_mset (kept_after now' removed) (mset hs) = image_mset (\<lambda>h.
      \<Sum>\<^sub># (image_mset (kept_after now' removed) (kept_after now removed h))) (mset hs)"
    using two_passes [OF h assms(2)] by (intro image_mset_cong) blast
  then show "sum_over (kept_after now' removed) hs = sum_over (kept_after now' removed) hs'"
    unfolding assms(3) sum_mset_image_sum by simp
qed

lemma timer_turn_exact:
  assumes "picks_top pick" and "tm_running t" and p: "progressing (tm_timers t)"
  shows "\<exists>fs hs. timer_turn pick now t = Inr (fs, t\<lparr>tm_timers := hs\<rparr>) \<and>
     mset fs = sum_over (fired_by now (tm_removed t)) (tm_timers t) \<and>
     mset hs = sum_over (kept_after now (tm_removed t)) (tm_timers t) \<and>
     sorted (map th_next fs) \<and> (\<forall>f \<in> set fs. \<exists>h \<in> set (tm_timers t). th_next h \<le> th_next f) \<and>
     (\<forall>f \<in> set fs. th_next f \<le> now \<and> th_id f \<notin> tm_removed t) \<and> (\<forall>h \<in> set hs. now < th_next h) \<and>
     progressing hs"
proof -
  from fire_loop_result [OF assms(1) p, of now "tm_removed t" "[]"] obtain hs fs where
    r: "fire_loop pick now (tm_removed t) (tm_timers t) [] = Some (hs, fs)"
      "mset fs = sum_over (fired_by now (tm_removed t)) (tm_timers t)"
      "mset hs = sum_over (kept_after now (tm_removed t)) (tm_timers t)"
      "sorted (map th_next fs)" "\<forall>f \<in> set fs. \<exists>h \<in> set (tm_timers t). th_next h \<le> th_next f" by auto
  have w: "th_periodic h \<longrightarrow> 0 < th_wait h" if "h \<in> set (tm_timers t)" for h
    using p that by (simp add: progressing_def)
  have "th_next f \<le> now \<and> th_id f \<notin> tm_removed t" if "f \<in> set fs" for f
  proof -
    from that r(2) have "f \<in># sum_over (fired_by now (tm_removed t)) (tm_timers t)" by (metis set_mset_mset)
    with fired_due [OF w] show ?thesis by fastforce
  qed
  moreover have "now < th_next h" if "h \<in> set hs" for h
  proof -
    from that r(3) have "h \<in># sum_over (kept_after now (tm_removed t)) (tm_timers t)" by (metis set_mset_mset)
    with kept_later [OF w] show ?thesis by fastforce
  qed
  ultimately show ?thesis using r assms(2) kept_progressing [OF p r(3)]
    by (intro exI [of _ fs] exI [of _ hs]) (simp add: timer_turn_def)
qed

text \<open>A pass that reads an earlier time than one before it (the clock was set back) does nothing.\<close>

lemma nothing_due:
  assumes "\<forall>h \<in> set hs. now < th_next h"
  shows "sum_over (fired_by now removed) hs = {#}" and "sum_over (kept_after now removed) hs = mset hs"
proof -
  have "image_mset (fired_by now removed) (mset hs) = image_mset (\<lambda>h. {#}) (mset hs)"
    using assms by (intro image_mset_cong) (simp add: not_due)
  then show "sum_over (fired_by now removed) hs = {#}" by simp
  have "image_mset (kept_after now removed) (mset hs) = image_mset (\<lambda>h. {#h#}) (mset hs)"
    using assms by (intro image_mset_cong) (simp add: not_due)
  then show "sum_over (kept_after now removed) hs = mset hs" by simp
qed

lemma timer_run_result:
  assumes "picks_top pick" and "tm_running t" and "progressing (tm_timers t)" and "clock \<noteq> []"
  shows "\<exists>fs hs. timer_run pick clock t = Inr (fs, t\<lparr>tm_timers := hs\<rparr>) \<and>
     mset fs = sum_over (fired_by (Max (set clock)) (tm_removed t)) (tm_timers t) \<and>
     mset hs = sum_over (kept_after (Max (set clock)) (tm_removed t)) (tm_timers t) \<and>
     sorted (map th_next fs) \<and> (\<forall>f \<in> set fs. \<exists>h \<in> set (tm_timers t). th_next h \<le> th_next f)"
  using assms(2-4)
proof (induction clock arbitrary: t)
  case (Cons now clock)
  let ?R = "tm_removed t" and ?M = "Max (set (now # clock))"
  from timer_turn_exact [OF assms(1) Cons.prems(1,2), of now] obtain fs hs where
    r: "timer_turn pick now t = Inr (fs, t\<lparr>tm_timers := hs\<rparr>)"
      "mset fs = sum_over (fired_by now ?R) (tm_timers t)" "mset hs = sum_over (kept_after now ?R) (tm_timers t)"
      "sorted (map th_next fs)" "\<forall>f \<in> set fs. \<exists>h \<in> set (tm_timers t). th_next h \<le> th_next f"
      "\<forall>f \<in> set fs. th_next f \<le> now" "\<forall>h \<in> set hs. now < th_next h" "progressing hs" by blast
  show ?case
  proof (cases "clock = []")
    case True
    with r show ?thesis by (intro exI [of _ fs] exI [of _ hs]) simp
  next
    case False
    let ?m = "Max (set clock)"
    have M: "?M = max now ?m" using False by simp
    from Cons.IH [of "t\<lparr>tm_timers := hs\<rparr>"] Cons.prems(1) r(8) False obtain fs' hs' where
      i: "timer_run pick clock (t\<lparr>tm_timers := hs\<rparr>) = Inr (fs', t\<lparr>tm_timers := hs'\<rparr>)"
        "mset fs' = sum_over (fired_by ?m ?R) hs" "mset hs' = sum_over (kept_after ?m ?R) hs"
        "sorted (map th_next fs')" "\<forall>f \<in> set fs'. \<exists>h \<in> set hs. th_next h \<le> th_next f" by auto
    have two: "mset (fs @ fs') = sum_over (fired_by ?M ?R) (tm_timers t)"
      "mset hs' = sum_over (kept_after ?M ?R) (tm_timers t)"
    proof -
      show "mset (fs @ fs') = sum_over (fired_by ?M ?R) (tm_timers t)"
      proof (cases "now \<le> ?m")
        case True
        with sum_two_passes(1) [OF Cons.prems(2) True r(3)] r(2) i(2) M show ?thesis by (simp add: max_def)
      next
        case False
        with r(7) nothing_due(1) [of hs ?m ?R] r(2) i(2) M show ?thesis by (fastforce simp: max_def)
      qed
      show "mset hs' = sum_over (kept_after ?M ?R) (tm_timers t)"
      proof (cases "now \<le> ?m")
        case True
        with sum_two_passes(2) [OF Cons.prems(2) True r(3)] i(3) M show ?thesis by (simp add: max_def)
      next
        case False
        with r(7) nothing_due(2) [of hs ?m ?R] r(3) i(3) M show ?thesis by (fastforce simp: max_def)
      qed
    qed
    have "\<forall>f \<in> set fs'. now < th_next f" using i(5) r(7) by force
    then have "sorted (map th_next (fs @ fs'))" using r(4,6) i(4) by (fastforce simp: sorted_append)
    moreover have "\<exists>h \<in> set (tm_timers t). th_next h \<le> th_next f" if "f \<in> set (fs @ fs')" for f
    proof -
      have "f \<in># sum_over (fired_by ?M ?R) (tm_timers t)" using that two(1) by (metis set_mset_mset)
      then obtain h where h: "h \<in> set (tm_timers t)" "f \<in># fired_by ?M ?R h" by auto
      with fired_after [OF _ h(2)] Cons.prems(2) show ?thesis by (auto simp: progressing_def)
    qed
    ultimately show ?thesis using r(1) i(1) two
      by (intro exI [of _ "fs @ fs'"] exI [of _ hs']) simp
  qed
qed simp

subsection \<open>Sequences of calls\<close>

text \<open>
  The calls of all threads, in the order in which they get the lock. \<open>Op_Set now f wait p\<close> is
  \<open>set_periodic_timer\<close> or \<open>set_timeout_timer\<close>, \<open>Op_Turn now\<close> one turn of \<open>run\<close>. The result lists
  what was handed to the executor, and when.
\<close>

datatype ('f, 'e) timer_op =
    Op_Set int 'f int bool | Op_Remove int64 | Op_Executor 'e | Op_Stop | Op_Turn int

fun timer_step :: "'f pick \<Rightarrow> ('f, 'e) timer_op \<Rightarrow> ('f, 'e) timer \<Rightarrow>
    ((int \<times> 'f timer_handler) list \<times> ('f, 'e) timer) result" where
  "timer_step pick (Op_Set now f w p) t =
     Inr ([], snd ((if p then set_periodic_timer else set_timeout_timer) now f w t))"
| "timer_step pick (Op_Remove i) t = Inr ([], remove_timer i t)"
| "timer_step pick (Op_Executor e) t = Inr ([], set_executor e t)"
| "timer_step pick Op_Stop t = Inr ([], timer_stop t)"
| "timer_step pick (Op_Turn now) t =
     bindE (timer_turn pick now t) (\<lambda>(fs, t1). Inr (map (Pair now) fs, t1))"

fun timer_ops :: "'f pick \<Rightarrow> ('f, 'e) timer_op list \<Rightarrow> ('f, 'e) timer \<Rightarrow>
    ((int \<times> 'f timer_handler) list \<times> ('f, 'e) timer) result" where
  "timer_ops pick [] t = Inr ([], t)"
| "timer_ops pick (op # ops) t =
     bindE (timer_step pick op t) (\<lambda>(fs, t1).
     bindE (timer_ops pick ops t1) (\<lambda>(fs', t2). Inr (fs @ fs', t2)))"

lemmas timer_defs = set_periodic_timer_def set_timeout_timer_def timer_create_def get_timer_ID_def
  remove_timer_def set_executor_def timer_stop_def

lemma timer_ops_append:
  "timer_ops pick (ops @ ops') t =
     bindE (timer_ops pick ops t) (\<lambda>(fs, t1).
     bindE (timer_ops pick ops' t1) (\<lambda>(fs', t2). Inr (fs @ fs', t2)))"
proof (induction ops arbitrary: t)
  case Nil
  show ?case by (cases "timer_ops pick ops' t") auto
next
  case (Cons op ops)
  then show ?case by (simp add: bindE_assoc split_def cong: bindE_cong)
qed

text \<open>A removed timer does not fire, now or later.\<close>

lemma fire_loop_removed:
  assumes "fire_loop pick now removed hs fired = Some (hs', fs)" and "th_id ` set fired \<inter> removed = {}"
  shows "th_id ` set fs \<inter> removed = {}"
proof -
  have "th_id ` set fired \<inter> removed = {} \<longrightarrow> th_id ` set (snd (hs', fs)) \<inter> removed = {}"
    by (rule fire_loop.raw_induct [OF _ assms(1), of
          "\<lambda>pick now removed hs fired out. th_id ` set fired \<inter> removed = {} \<longrightarrow> th_id ` set (snd out) \<inter> removed = {}"])
       (fastforce simp: Let_def split: if_splits)
  with assms(2) show ?thesis by simp
qed

lemma timer_step_removed:
  assumes "timer_step pick op t = Inr (fs, t')" and "i \<in> tm_removed t"
  shows "i \<notin> th_id ` snd ` set fs \<and> i \<in> tm_removed t'"
proof (cases op)
  case (Op_Turn now)
  show ?thesis
  proof (cases "tm_running t")
    case True
    with assms(1) Op_Turn obtain hs os where
      r: "fire_loop pick now (tm_removed t) (tm_timers t) [] = Some (hs, os)" "fs = map (Pair now) os"
        "t' = t\<lparr>tm_timers := hs\<rparr>"
      by (auto simp: timer_turn_def bindE_eq_Inr split: option.splits)
    from fire_loop_removed [OF r(1)] r(2,3) assms(2) show ?thesis by (auto simp: image_image)
  qed (use assms Op_Turn in \<open>auto simp: timer_turn_def\<close>)
qed (use assms in \<open>auto simp: timer_defs\<close>)

lemma timer_ops_removed:
  "timer_ops pick ops t = Inr (fs, t') \<Longrightarrow> i \<in> tm_removed t \<Longrightarrow> i \<notin> th_id ` snd ` set fs"
proof (induction ops arbitrary: t fs)
  case (Cons op ops)
  then obtain fs1 t1 fs2 where s: "timer_step pick op t = Inr (fs1, t1)"
    "timer_ops pick ops t1 = Inr (fs2, t')" "fs = fs1 @ fs2" by (auto simp: bindE_eq_Inr)
  from timer_step_removed [OF s(1) Cons.prems(2)] Cons.IH [OF s(2)] s(3) show ?case by auto
qed simp

text \<open>What a pass fires of the one-shot timers, it takes out of the queue.\<close>

abbreviation one_shots :: "'f timer_handler list \<Rightarrow> 'f timer_handler list" where
  "one_shots hs \<equiv> filter (\<lambda>h. \<not> th_periodic h) hs"

lemma one_shot_once:
  assumes "th_periodic h \<longrightarrow> 0 < th_wait h"
  shows "image_mset th_id (filter_mset (\<lambda>h. \<not> th_periodic h) (fired_by now removed h)) +
     image_mset th_id (kept_after now removed h) \<subseteq># {#th_id h#}"
  using assms
  by (induction rule: pass_induct [where now = now and removed = removed])
     (auto simp: not_due due_removed due_once due_periodic)

lemma sum_one_shot_once:
  assumes "progressing hs"
  shows "image_mset th_id (filter_mset (\<lambda>h. \<not> th_periodic h) (sum_over (fired_by now removed) hs)) +
     image_mset th_id (sum_over (kept_after now removed) hs) \<subseteq># mset (map th_id hs)"
  using assms
proof (induction hs)
  case (Cons h hs)
  then have "th_periodic h \<longrightarrow> 0 < th_wait h" "progressing hs" by (simp_all add: progressing_def)
  from subset_mset.add_mono [OF one_shot_once [OF this(1), of now removed] Cons.IH [OF this(2)]]
  show ?case by (simp add: ac_simps)
qed simp

lemma distinct_sub_mset: "mset ys \<subseteq># mset xs \<Longrightarrow> distinct xs \<Longrightarrow> distinct ys"
proof -
  assume sub: "mset ys \<subseteq># mset xs" and "distinct xs"
  then have "count (mset xs) y \<le> 1" for y by (simp add: distinct_count_atmost_1)
  then have "count (mset ys) y \<le> 1" for y using mset_subset_eq_count [OF sub, of y] by (rule order_trans [rotated])
  then show "distinct ys" unfolding distinct_count_atmost_1
    by (metis count_mset_0_iff le_less_trans less_one linorder_neqE_nat not_less)
qed

subsection \<open>The invariant of a sequence of calls\<close>

text \<open>
  After \<open>n\<close> timers were set: the ids of the timers in the queue and of the one-shot timers that
  fired (\<open>past\<close>) are different ones of the ids \<open>1\<close> to \<open>n\<close>, and every waiting period is positive.
\<close>

definition timer_ok :: "nat \<Rightarrow> 'f timer_handler list \<Rightarrow> ('f, 'e) timer \<Rightarrow> bool" where
  "timer_ok n past t \<longleftrightarrow>
     tm_next_id t = of_nat (Suc n) \<and>
     distinct (map th_id (one_shots past @ tm_timers t)) \<and>
     th_id ` set (one_shots past @ tm_timers t) \<subseteq> of_nat ` {1..n} \<and>
     progressing (tm_timers t)"

lemma new_timer_ok: "timer_ok 0 [] (new_timer ex)"
  by (cases ex) (simp_all add: timer_ok_def new_timer_def progressing_def)

fun positive_period :: "('f, 'e) timer_op \<Rightarrow> bool" where
  "positive_period (Op_Set now f w p) \<longleftrightarrow> (p \<longrightarrow> 0 < w)"
| "positive_period _ \<longleftrightarrow> True"

lemma timer_set_ok:
  assumes "timer_ok n past t" and "Suc n < 2 ^ 64" and "p \<longrightarrow> 0 < w"
  shows "timer_ok (Suc n) past (snd (timer_create now f w p t))"
proof -
  have "(of_nat (Suc n) :: int64) \<noteq> of_nat k" if "k \<in> {1..n}" for k
  proof -
    have "unat (of_nat (Suc n) :: int64) = Suc n" by (rule unat_of_nat64 [OF assms(2)])
    moreover have "unat (of_nat k :: int64) = k" using that assms(2) by (intro unat_of_nat64) simp
    moreover have "Suc n \<noteq> k" using that by simp
    ultimately show ?thesis by metis
  qed
  then have new: "(of_nat (Suc n) :: int64) \<notin> of_nat ` {1..n}" by blast
  have sub: "(of_nat ` {1..n} :: int64 set) \<subseteq> of_nat ` {1..Suc n}" by auto
  from assms(1) new have "of_nat (Suc n) \<notin> th_id ` set (one_shots past @ tm_timers t)"
    unfolding timer_ok_def by blast
  moreover have "(of_nat (Suc n) :: int64) \<in> of_nat ` {1..Suc n}" by (rule imageI) simp
  moreover have "of_nat (Suc n) + 1 = (of_nat (Suc (Suc n)) :: int64)" by simp
  ultimately show ?thesis using assms(1,3) sub
    unfolding timer_ok_def timer_defs
    by (auto simp: pq_push_def handler_create_timer_def progressing_def simp del: of_nat_Suc)
qed

lemma timer_turn_ok:
  assumes "picks_top pick" and "timer_ok n past t" and "tm_running t"
  shows "\<exists>fs hs. timer_turn pick now t = Inr (fs, t\<lparr>tm_timers := hs\<rparr>) \<and>
     timer_ok n (past @ fs) (t\<lparr>tm_timers := hs\<rparr>) \<and> (\<forall>f \<in> set fs. th_next f \<le> now) \<and>
     mset fs = sum_over (fired_by now (tm_removed t)) (tm_timers t) \<and>
     mset hs = sum_over (kept_after now (tm_removed t)) (tm_timers t)"
proof -
  from assms(2) have p: "progressing (tm_timers t)" by (simp add: timer_ok_def)
  from timer_turn_exact [OF assms(1,3) p, of now] obtain fs hs where
    r: "timer_turn pick now t = Inr (fs, t\<lparr>tm_timers := hs\<rparr>)" "\<forall>f \<in> set fs. th_next f \<le> now"
      "mset fs = sum_over (fired_by now (tm_removed t)) (tm_timers t)"
      "mset hs = sum_over (kept_after now (tm_removed t)) (tm_timers t)" "progressing hs" by blast
  have "mset (map th_id (one_shots fs @ hs)) =
      image_mset th_id (filter_mset (\<lambda>h. \<not> th_periodic h) (mset fs)) + image_mset th_id (mset hs)" by simp
  also have "\<dots> \<subseteq># mset (map th_id (tm_timers t))"
    unfolding r(3,4) by (rule sum_one_shot_once [OF p])
  finally have "mset (map th_id (one_shots fs @ hs)) \<subseteq># mset (map th_id (tm_timers t))" .
  then have sub: "mset (map th_id (one_shots (past @ fs) @ hs)) \<subseteq># mset (map th_id (one_shots past @ tm_timers t))"
    by (simp add: ac_simps)
  have "th_id ` set (one_shots (past @ fs) @ hs) \<subseteq> th_id ` set (one_shots past @ tm_timers t)"
    using set_mset_mono [OF sub] by (simp only: set_mset_mset set_map)
  moreover have "th_id ` set (one_shots past @ tm_timers t) \<subseteq> of_nat ` {1..n}"
    using assms(2) by (simp only: timer_ok_def)
  ultimately have ids: "th_id ` set (one_shots (past @ fs) @ hs) \<subseteq> of_nat ` {1..n}" by (rule order_trans)
  have dist: "distinct (map th_id (one_shots (past @ fs) @ hs))"
    using distinct_sub_mset [OF sub] assms(2) by (simp only: timer_ok_def)
  have "timer_ok n (past @ fs) (t\<lparr>tm_timers := hs\<rparr>)"
    using assms(2) r(5) ids dist by (simp only: timer_ok_def timer.simps) simp
  with r show ?thesis by blast
qed

text \<open>Every queued timer was set by a call of the sequence, and is not due early.\<close>

definition set_by :: "('f, 'e) timer_op list \<Rightarrow> 'f timer_handler \<Rightarrow> bool" where
  "set_by ops h \<longleftrightarrow>
     (\<exists>c. Op_Set c (th_callback h) (th_wait h) (th_periodic h) \<in> set ops \<and>
          c + milliseconds (th_wait h + 1) \<le> th_next h)"

lemma set_by_mono: "set_by ops h \<Longrightarrow> set ops \<subseteq> set ops' \<Longrightarrow> set_by ops' h"
  by (auto simp: set_by_def)

lemma set_by_advanced:
  assumes "set_by ops h" and "0 < th_wait h"
  shows "set_by ops (advanced i h)"
proof -
  have "0 \<le> int i * milliseconds (th_wait h)" using assms(2) by (simp add: milliseconds_def)
  with assms(1) show ?thesis unfolding set_by_def advanced_sels by force
qed

lemma pass_member:
  assumes "f \<in># fired_by now removed h \<or> f \<in># kept_after now removed h"
  shows "f = h \<or> (th_periodic h \<and> (\<exists>i. f = advanced i h))"
  using assms by (auto simp: fired_by_def kept_after_def firings_def simp del: advanced.simps(2) split: if_splits)

lemma pass_set_by:
  assumes "progressing hs" and "\<forall>h \<in> set hs. set_by ops h"
    and "f \<in># sum_over (fired_by now removed) hs + sum_over (kept_after now removed) hs"
  shows "set_by ops f"
proof -
  from assms(3) obtain h where h: "h \<in> set hs" "f \<in># fired_by now removed h \<or> f \<in># kept_after now removed h"
    by auto
  with assms(1,2) have "th_periodic h \<Longrightarrow> 0 < th_wait h" "set_by ops h" by (auto simp: progressing_def)
  with pass_member [OF h(2)] set_by_advanced [of ops h] show ?thesis by blast
qed

text \<open>\<open>n\<close> counts the timers that were set before, \<open>ops0\<close> are the calls up to here.\<close>

lemma timer_ops_safe:
  assumes "picks_top pick" and "list_all positive_period ops" and "n + length ops < 2 ^ 64"
    and "timer_ok n past t" and "\<forall>h \<in> set (tm_timers t). set_by ops0 h"
  shows "\<exists>fired t' n'. timer_ops pick ops t = Inr (fired, t') \<and> timer_ok n' (past @ map snd fired) t' \<and>
     (\<forall>(now, h) \<in> set fired. th_next h \<le> now \<and> set_by (ops0 @ ops) h)"
  using assms(2-)
proof (induction ops arbitrary: n past t ops0)
  case Nil
  then show ?case by auto
next
  case (Cons op ops)
  have go: ?case if "timer_step pick op t = Inr (fs, t1)" "timer_ok n1 (past @ map snd fs) t1" "n1 \<le> Suc n"
      "\<forall>h \<in> set (tm_timers t1). set_by (ops0 @ [op]) h"
      "\<forall>(now, h) \<in> set fs. th_next h \<le> now \<and> set_by (ops0 @ [op]) h" for fs t1 n1
  proof -
    have "list_all positive_period ops" "n1 + length ops < 2 ^ 64" using Cons.prems(1,2) that(3) by simp_all
    from Cons.IH [OF this that(2,4)] obtain fired t' n' where
      "timer_ops pick ops t1 = Inr (fired, t')" "timer_ok n' ((past @ map snd fs) @ map snd fired) t'"
      "\<forall>(now, h) \<in> set fired. th_next h \<le> now \<and> set_by ((ops0 @ [op]) @ ops) h" by blast
    with that(1,5) set_by_mono [of "ops0 @ [op]" _ "ops0 @ op # ops"] show ?thesis
      by (intro exI [of _ "fs @ fired"] exI [of _ t'] exI [of _ n']) auto
  qed
  have old: "\<forall>h \<in> set (tm_timers t). set_by (ops0 @ [op]) h"
    using Cons.prems(4) set_by_mono [of ops0 _ "ops0 @ [op]"] by auto
  have other: ?case if "timer_step pick op t = Inr ([], t1)" "tm_timers t1 = tm_timers t"
      "tm_next_id t1 = tm_next_id t" for t1
    using Cons.prems(3) old that by (intro go [of "[]" t1 n]) (auto simp: timer_ok_def)
  show ?case
  proof (cases op)
    case (Op_Set now f w p)
    let ?t = "snd (timer_create now f w p t)"
    have "timer_step pick op t = Inr ([], ?t)" by (simp add: Op_Set set_periodic_timer_def set_timeout_timer_def)
    moreover have "timer_ok (Suc n) (past @ map snd []) ?t"
      using timer_set_ok [OF Cons.prems(3), of p w now f] Cons.prems(1,2) Op_Set by simp
    moreover have "\<forall>h \<in> set (tm_timers ?t). set_by (ops0 @ [op]) h"
      using old by (auto simp: timer_defs handler_create_timer_def set_by_def Op_Set)
    ultimately show ?thesis by (intro go [of "[]" ?t "Suc n"]) auto
  next
    case (Op_Turn now)
    show ?thesis
    proof (cases "tm_running t")
      case True
      from timer_turn_ok [OF assms(1) Cons.prems(3) True, of now] obtain fs hs where
        r: "timer_turn pick now t = Inr (fs, t\<lparr>tm_timers := hs\<rparr>)"
          "timer_ok n (past @ fs) (t\<lparr>tm_timers := hs\<rparr>)" "\<forall>f \<in> set fs. th_next f \<le> now"
          "mset fs = sum_over (fired_by now (tm_removed t)) (tm_timers t)"
          "mset hs = sum_over (kept_after now (tm_removed t)) (tm_timers t)" by blast
      have p: "progressing (tm_timers t)" using Cons.prems(3) by (simp add: timer_ok_def)
      have src: "set_by (ops0 @ [op]) f" if "f \<in> set fs \<union> set hs" for f
      proof (rule pass_set_by [OF p old])
        from that have "f \<in># mset fs + mset hs" by simp
        then show "f \<in># sum_over (fired_by now (tm_removed t)) (tm_timers t) +
            sum_over (kept_after now (tm_removed t)) (tm_timers t)" by (simp only: r(4,5))
      qed
      show ?thesis
        using r(1-3) by (intro go [of "map (Pair now) fs" "t\<lparr>tm_timers := hs\<rparr>" n]) (auto simp: Op_Turn comp_def src [unfolded Op_Turn])
    next
      case False
      then show ?thesis by (intro other [of t]) (auto simp: Op_Turn timer_turn_def)
    qed
  next
    case (Op_Remove i)
    then show ?thesis by (intro other [of "remove_timer i t"]) (simp_all add: timer_defs)
  next
    case (Op_Executor e)
    then show ?thesis by (intro other [of "set_executor e t"]) (simp_all add: timer_defs)
  next
    case Op_Stop
    then show ?thesis by (intro other [of "timer_stop t"]) (simp_all add: timer_defs)
  qed
qed

lemma timer_ops_facts:
  assumes "picks_top pick" and "list_all positive_period ops" and "length ops < 2 ^ 64"
  shows "\<exists>fired t'. timer_ops pick ops (new_timer ex) = Inr (fired, t') \<and>
     distinct (map th_id (tm_timers t')) \<and>
     distinct (map th_id (one_shots (map snd fired))) \<and>
     (\<forall>(now, h) \<in> set fired. th_next h \<le> now \<and> set_by ops h) \<and>
     (\<forall>ops1 ops2 i. ops = ops1 @ Op_Remove i # ops2 \<longrightarrow>
        (\<exists>fs1 fs2 t1. timer_ops pick ops1 (new_timer ex) = Inr (fs1, t1) \<and> fired = fs1 @ fs2 \<and>
           i \<notin> th_id ` snd ` set fs2))"
proof -
  have "\<forall>h \<in> set (tm_timers (new_timer ex)). set_by [] h" by (cases ex) (simp_all add: new_timer_def)
  with timer_ops_safe [OF assms(1,2) _ new_timer_ok [of ex], of "[]"] assms(3) obtain fired t' n' where
    r: "timer_ops pick ops (new_timer ex) = Inr (fired, t')" "timer_ok n' (map snd fired) t'"
      "\<forall>(now, h) \<in> set fired. th_next h \<le> now \<and> set_by ops h" by auto
  have "\<exists>fs1 fs2 t1. timer_ops pick ops1 (new_timer ex) = Inr (fs1, t1) \<and> fired = fs1 @ fs2 \<and>
      i \<notin> th_id ` snd ` set fs2" if o: "ops = ops1 @ Op_Remove i # ops2" for ops1 ops2 i
  proof -
    from r(1) obtain fs1 t1 fs2 where s: "timer_ops pick ops1 (new_timer ex) = Inr (fs1, t1)"
      "timer_ops pick ops2 (remove_timer i t1) = Inr (fs2, t')" "fired = fs1 @ fs2"
      unfolding o timer_ops_append by (auto simp: bindE_eq_Inr)
    from timer_ops_removed [OF s(2)] s(1,3) show ?thesis by (auto simp: remove_timer_def)
  qed
  moreover have "distinct (map th_id (tm_timers t'))" "distinct (map th_id (one_shots (map snd fired)))"
    using r(2) by (simp_all add: timer_ok_def)
  ultimately show ?thesis using r(1,3) by blast
qed

subsection \<open>Callbacks that call their timer\<close>

text \<open>
  The default executor runs a callback inside \<open>run\<close>, which holds \<open>_timer_lock\<close>. A callback that sets or removes
  a timer on the same object (\<open>calls\<close>) then waits for the lock that its own thread holds.
\<close>

definition locked_step :: "('f \<Rightarrow> bool) \<Rightarrow> 'f pick \<Rightarrow> ('f, 'e) timer_op \<Rightarrow> ('f, 'e) timer \<Rightarrow>
    ((int \<times> 'f timer_handler) list \<times> ('f, 'e) timer) result" where
  "locked_step calls pick op t =
     bindE (timer_step pick op t) (\<lambda>(fs, t1).
       if tm_executor t = Run_Here \<and> (\<exists>(now, h) \<in> set fs. calls (th_callback h)) then Inl Hang else Inr (fs, t1))"

fun locked_ops :: "('f \<Rightarrow> bool) \<Rightarrow> 'f pick \<Rightarrow> ('f, 'e) timer_op list \<Rightarrow> ('f, 'e) timer \<Rightarrow>
    ((int \<times> 'f timer_handler) list \<times> ('f, 'e) timer) result" where
  "locked_ops calls pick [] t = Inr ([], t)"
| "locked_ops calls pick (op # ops) t =
     bindE (locked_step calls pick op t) (\<lambda>(fs, t1).
     bindE (locked_ops calls pick ops t1) (\<lambda>(fs', t2). Inr (fs @ fs', t2)))"

lemma locked_ops_quiet:
  assumes "timer_ops pick ops t = Inr (fired, t')" and "\<forall>(now, h) \<in> set fired. \<not> calls (th_callback h)"
  shows "locked_ops calls pick ops t = Inr (fired, t')"
  using assms
proof (induction ops arbitrary: t fired)
  case (Cons op ops)
  then obtain fs t1 fs' where s: "timer_step pick op t = Inr (fs, t1)" "timer_ops pick ops t1 = Inr (fs', t')"
    "fired = fs @ fs'" by (auto simp: bindE_eq_Inr)
  have "locked_step calls pick op t = Inr (fs, t1)" using s(1,3) Cons.prems(2) by (auto simp: locked_step_def)
  moreover have "locked_ops calls pick ops t1 = Inr (fs', t')" by (rule Cons.IH [OF s(2)]) (use s(3) Cons.prems(2) in auto)
  ultimately show ?case using s(3) by simp
qed simp

text \<open>With another executor nothing runs inside the lock.\<close>

lemma executor_stays: "timer_step pick op t = Inr (fs, t1) \<Longrightarrow> tm_executor t \<noteq> Run_Here \<Longrightarrow> tm_executor t1 \<noteq> Run_Here"
  by (cases op) (auto simp: timer_defs timer_turn_def bindE_eq_Inr split: if_splits option.splits)

lemma locked_ops_handed: "tm_executor t \<noteq> Run_Here \<Longrightarrow> locked_ops calls pick ops t = timer_ops pick ops t"
proof (induction ops arbitrary: t)
  case (Cons op ops)
  show ?case
  proof (cases "timer_step pick op t")
    case (Inr r)
    then obtain fs t1 where "timer_step pick op t = Inr (fs, t1)" by (cases r) simp
    with Cons executor_stays [OF this] show ?thesis by (simp add: locked_step_def)
  qed (simp add: locked_step_def)
qed simp

subsection \<open>A period that is not positive\<close>

definition stuck :: "int \<Rightarrow> int64 set \<Rightarrow> 'f timer_handler \<Rightarrow> bool" where
  "stuck now removed h \<longleftrightarrow>
     th_periodic h \<and> th_wait h \<le> 0 \<and> th_next h \<le> now \<and> th_id h \<notin> removed"

lemma stuck_again: "stuck now removed h \<Longrightarrow> stuck now removed (handler_update_timer h)"
  by (simp add: stuck_def milliseconds_def)

lemma stuck_turn:
  assumes pick: "picks_top pick" and h: "h \<in> set hs" "stuck now removed h"
  shows "hs \<noteq> [] \<and> th_next (pq_top pick hs) \<le> now \<and>
     (\<exists>k \<in> set (if th_id (pq_top pick hs) \<in> removed then pq_pop pick hs
         else if th_periodic (pq_top pick hs) then pq_push (handler_update_timer (pq_top pick hs)) (pq_pop pick hs)
         else pq_pop pick hs). stuck now removed k)"
proof -
  have ne: "hs \<noteq> []" using h(1) by auto
  have "th_next (pq_top pick hs) \<le> now"
    using timer_queue.top_earliest [OF picks_top_queue [OF pick], of h hs] h by (simp add: stuck_def)
  moreover have "h = pq_top pick hs \<or> h \<in> set (pq_pop pick hs)" using h(1) set_pop [OF pick ne] by simp
  ultimately show ?thesis using ne h(2) stuck_again [OF h(2)] by (auto simp: stuck_def)
qed

lemma fire_loop_stuck:
  assumes pick: "picks_top pick" and "\<exists>h \<in> set hs. stuck now removed h"
  shows "fire_loop pick now removed hs fired = None"
proof (rule ccontr)
  assume "fire_loop pick now removed hs fired \<noteq> None"
  then obtain out where r: "fire_loop pick now removed hs fired = Some out" by auto
  have "picks_top pick \<longrightarrow> \<not> (\<exists>h \<in> set hs. stuck now removed h)"
  proof (rule fire_loop.raw_induct [OF _ r, of
        "\<lambda>pick now removed hs fired out. picks_top pick \<longrightarrow> \<not> (\<exists>h \<in> set hs. stuck now removed h)"])
    fix loop :: "'a pick \<Rightarrow> int \<Rightarrow> int64 set \<Rightarrow> 'a timer_handler list \<Rightarrow> 'a timer_handler list \<Rightarrow>
      ('a timer_handler list \<times> 'a timer_handler list) option"
    fix pick now removed hs fired out
    assume ih: "\<And>pick now removed hs fired out. loop pick now removed hs fired = Some out \<Longrightarrow>
        picks_top pick \<longrightarrow> \<not> (\<exists>h \<in> set hs. stuck now removed h)"
      and eq: "(if hs = [] \<or> now < th_next (pq_top pick hs) then Some (hs, fired)
        else let timer = pq_top pick hs; rest = pq_pop pick hs in
          if th_id timer \<in> removed then loop pick now removed rest fired
          else loop pick now removed
                 (if th_periodic timer then pq_push (handler_update_timer timer) rest else rest)
                 (fired @ [timer])) = Some out"
    show "picks_top pick \<longrightarrow> \<not> (\<exists>h \<in> set hs. stuck now removed h)"
    proof (intro impI notI)
      assume p: "picks_top pick" and "\<exists>h \<in> set hs. stuck now removed h"
      then obtain h where h: "h \<in> set hs" "stuck now removed h" by blast
      note s = stuck_turn [OF p h]
      show False
      proof (cases "th_id (pq_top pick hs) \<in> removed")
        case True
        with eq s have "loop pick now removed (pq_pop pick hs) fired = Some out" by (simp add: Let_def)
        from ih [OF this] p s True show False by auto
      next
        case False
        with eq s have "loop pick now removed (if th_periodic (pq_top pick hs)
            then pq_push (handler_update_timer (pq_top pick hs)) (pq_pop pick hs) else pq_pop pick hs)
            (fired @ [pq_top pick hs]) = Some out" by (simp add: Let_def)
        from ih [OF this] p s False show False by auto
      qed
    qed
  qed
  with assms show False by blast
qed

subsection \<open>Properties\<close>

text \<open>
  C19: What \<open>run\<close> fires. For a running timer whose periods are positive, whatever readings of the clock the
  turns of \<open>run\<close> get (the clock may be set back between them), with no call of another method in between, each
  turn ends, and together they hand over exactly what the greatest of the readings says is due: a one-shot
  timer once, a periodic one once for every period that is over (also when the loop was late), a removed one
  not at all, in the order of the due times. The queue keeps the rest. How often the loop turns does not matter.
\<close>
theorem timer_run_exact:
  assumes "picks_top pick" and "tm_running t" and "progressing (tm_timers t)" and "clock \<noteq> []"
  shows "\<exists>fs hs. timer_run pick clock t = Inr (fs, t\<lparr>tm_timers := hs\<rparr>) \<and>
     mset fs = sum_over (fired_by (Max (set clock)) (tm_removed t)) (tm_timers t) \<and>
     mset hs = sum_over (kept_after (Max (set clock)) (tm_removed t)) (tm_timers t) \<and>
     sorted (map th_next fs)"
  using timer_run_result [OF assms] by blast

definition two_timers :: "(string, unit) timer" where
  "two_timers = snd (set_timeout_timer 0 ''once'' 3 (snd (set_periodic_timer 0 ''tick'' 2 (new_timer None))))"

lemma two_timers_simps:
  "tm_running two_timers" "tm_removed two_timers = {}"
  "tm_timers two_timers =
     [\<lparr>th_id = 1, th_callback = ''tick'', th_last = 0, th_next = 3000000, th_wait = 2, th_periodic = True\<rparr>,
      \<lparr>th_id = 2, th_callback = ''once'', th_last = 0, th_next = 4000000, th_wait = 3, th_periodic = False\<rparr>]"
  by (simp_all add: two_timers_def timer_defs new_timer_def pq_push_def handler_create_timer_def
      milliseconds_def)

theorem timer_run_exact_witness:
  "\<exists>fs t'. timer_run earliest [1000000, 8000000, 2000000] two_timers = Inr (fs, t') \<and>
     map th_next fs = [3000000, 4000000, 5000000, 7000000] \<and>
     mset (map th_callback fs) = mset [''tick'', ''once'', ''tick'', ''tick'']"
proof -
  have "progressing (tm_timers two_timers)" by (simp add: two_timers_simps progressing_def)
  from timer_run_exact [OF earliest_picks_top two_timers_simps(1) this, of "[1000000, 8000000, 2000000]"]
  obtain fs hs where r: "timer_run earliest [1000000, 8000000, 2000000] two_timers = Inr (fs, two_timers\<lparr>tm_timers := hs\<rparr>)"
    "mset fs = sum_over (fired_by 8000000 {}) (tm_timers two_timers)" "sorted (map th_next fs)"
    by (auto simp: two_timers_simps)
  have f: "sum_over (fired_by 8000000 {}) (tm_timers two_timers) =
      mset (concat (map (\<lambda>h. map (\<lambda>i. advanced i h) [0..<firings 8000000 {} h]) (tm_timers two_timers)))"
    by (simp add: two_timers_simps fired_by_def)
  have "mset (map th_next fs) = mset [3000000, 4000000, 5000000, 7000000]"
    and c: "mset (map th_callback fs) = mset [''tick'', ''once'', ''tick'', ''tick'']"
    unfolding mset_map r(2) f
    by (simp_all add: two_timers_simps firings_def milliseconds_def upt_rec numeral_2_eq_2)
  from properties_for_sort [OF this(1) r(3)] have "map th_next fs = [3000000, 4000000, 5000000, 7000000]"
    by simp
  with r(1) c show ?thesis
    by (intro exI [of _ fs] exI [of _ "two_timers\<lparr>tm_timers := hs\<rparr>"]) simp
qed

text \<open>
  C26: Safety of any sequence of calls. Threads set timers (fewer than \<open>2 ^ 64\<close> of them, the periodic ones
  with positive periods), remove them, and turn the loop in between; and either the first call sets an executor
  other than the default one, as the server and the client do, or no callback calls the timer itself. Then no
  call hangs, no two timers in the queue have the same id, no timer fires before its time, each firing is of
  a timer that was set with that callback, a one-shot timer fires at most once, and a timer that was removed
  does not fire any more.
\<close>
theorem timers_safe:
  assumes "picks_top pick" and "list_all positive_period ops" and "length ops < 2 ^ 64"
    and "(\<exists>e ops'. ops = Op_Executor e # ops') \<or> (\<forall>now f w p. Op_Set now f w p \<in> set ops \<longrightarrow> \<not> calls f)"
  shows "\<exists>fired t'. locked_ops calls pick ops (new_timer ex) = Inr (fired, t') \<and>
     distinct (map th_id (tm_timers t')) \<and>
     distinct (map th_id (one_shots (map snd fired))) \<and>
     (\<forall>(now, h) \<in> set fired. th_next h \<le> now \<and> set_by ops h) \<and>
     (\<forall>ops1 ops2 i. ops = ops1 @ Op_Remove i # ops2 \<longrightarrow>
        (\<exists>fs1 fs2 t1. locked_ops calls pick ops1 (new_timer ex) = Inr (fs1, t1) \<and> fired = fs1 @ fs2 \<and>
           i \<notin> th_id ` snd ` set fs2))"
proof -
  obtain fired t' where
    r: "timer_ops pick ops (new_timer ex) = Inr (fired, t')" "distinct (map th_id (tm_timers t'))"
      "distinct (map th_id (one_shots (map snd fired)))" "\<forall>(now, h) \<in> set fired. th_next h \<le> now \<and> set_by ops h"
      "\<forall>ops1 ops2 i. ops = ops1 @ Op_Remove i # ops2 \<longrightarrow>
        (\<exists>fs1 fs2 t1. timer_ops pick ops1 (new_timer ex) = Inr (fs1, t1) \<and> fired = fs1 @ fs2 \<and>
           i \<notin> th_id ` snd ` set fs2)"
    using timer_ops_facts [OF assms(1-3), of ex] by (elim exE conjE) (rule that)
  have same: "locked_ops calls pick ops1 (new_timer ex) = Inr (fs1, t1)"
    if o: "ops = ops1 @ ops2" and f: "timer_ops pick ops1 (new_timer ex) = Inr (fs1, t1)" "set fs1 \<subseteq> set fired"
    for ops1 ops2 fs1 t1
  proof (cases "\<exists>e ops'. ops = Op_Executor e # ops'")
    case True
    then obtain e ops' where "ops1 = [] \<or> ops1 = Op_Executor e # ops'" using o by (cases ops1) auto
    moreover have "tm_executor (set_executor e (new_timer ex)) \<noteq> Run_Here" by (simp add: set_executor_def)
    note locked_ops_handed [OF this, of calls pick ops']
    ultimately show ?thesis using f(1) by (auto simp: locked_step_def)
  next
    case False
    with assms(4) have "\<not> calls f" if "Op_Set now f w p \<in> set ops" for now f w p using that by blast
    then have "\<forall>(now, h) \<in> set fs1. \<not> calls (th_callback h)" using r(4) f(2) by (fastforce simp: set_by_def)
    from locked_ops_quiet [of pick ops1, OF f(1) this] show ?thesis .
  qed
  have whole: "locked_ops calls pick ops (new_timer ex) = Inr (fired, t')" using same [of ops "[]", OF _ r(1)] by simp
  have rm: "\<exists>fs1 fs2 t1. locked_ops calls pick ops1 (new_timer ex) = Inr (fs1, t1) \<and> fired = fs1 @ fs2 \<and>
      i \<notin> th_id ` snd ` set fs2" if "ops = ops1 @ Op_Remove i # ops2" for ops1 ops2 i
  proof -
    from r(5) that obtain fs1 fs2 t1 where "timer_ops pick ops1 (new_timer ex) = Inr (fs1, t1)" "fired = fs1 @ fs2"
      "i \<notin> th_id ` snd ` set fs2" by blast
    moreover from same [OF that this(1)] this(2) have "locked_ops calls pick ops1 (new_timer ex) = Inr (fs1, t1)" by simp
    ultimately show ?thesis by blast
  qed
  show ?thesis
  proof (rule exI [of _ fired], rule exI [of _ t'], intro conjI)
    show "locked_ops calls pick ops (new_timer ex) = Inr (fired, t')" by (rule whole)
    show "\<forall>ops1 ops2 i. ops = ops1 @ Op_Remove i # ops2 \<longrightarrow>
        (\<exists>fs1 fs2 t1. locked_ops calls pick ops1 (new_timer ex) = Inr (fs1, t1) \<and> fired = fs1 @ fs2 \<and>
           i \<notin> th_id ` snd ` set fs2)" using rm by blast
  qed (rule r(2-4))+
qed

theorem timers_safe_witness:
  "\<exists>fired t'. locked_ops (\<lambda>f. f = ''restart'') earliest
       [Op_Set 0 ''tick'' 2 True, Op_Turn 4000000, Op_Remove 1, Op_Turn 9000000] (new_timer (None :: unit option)) =
     Inr (fired, t') \<and> (\<forall>(now, h) \<in> set fired. th_next h \<le> now)"
proof -
  let ?ops = "[Op_Set 0 ''tick'' 2 True, Op_Turn 4000000, Op_Remove 1, Op_Turn 9000000] :: (string, unit) timer_op list"
  have "list_all positive_period ?ops" "length ?ops < 2 ^ 64"
    "(\<exists>e ops'. ?ops = Op_Executor e # ops') \<or> (\<forall>now f w p. Op_Set now f w p \<in> set ?ops \<longrightarrow> \<not> f = ''restart'')" by simp_all
  from timers_safe [OF earliest_picks_top this, of None] show ?thesis by fast
qed

text \<open>
  A callback that sets or removes a timer under the default executor hangs, and the lock is never released.
\<close>
theorem reentrant_callback_hangs:
  assumes "timer_turn pick now t = Inr (fs, t1)" and "h \<in> set fs" and "calls (th_callback h)"
    and "tm_executor t = Run_Here"
  shows "locked_ops calls pick (Op_Turn now # ops) t = Inl Hang"
  using assms by (force simp: locked_step_def)

text \<open>
  A period that is not positive. A periodic timer with such a period is due again as soon as it
  has fired, so the pass that finds it due never ends, and holds the lock for ever.
\<close>
theorem zero_period_hangs:
  assumes "picks_top pick" and "tm_running t" and "h \<in> set (tm_timers t)" and "th_periodic h"
    and "th_wait h \<le> 0" and "th_next h \<le> now" and "th_id h \<notin> tm_removed t"
  shows "timer_turn pick now t = Inl Hang"
proof -
  have "\<exists>h \<in> set (tm_timers t). stuck now (tm_removed t) h" using assms by (auto simp: stuck_def)
  from fire_loop_stuck [OF assms(1) this] assms(2) show ?thesis by (simp add: timer_turn_def)
qed

theorem zero_period_hangs_witness:
  "timer_turn earliest 1000000 (snd (set_periodic_timer 0 ''tick'' 0 (new_timer (None :: unit option)))) = Inl Hang"
proof -
  let ?t = "snd (set_periodic_timer 0 ''tick'' 0 (new_timer (None :: unit option)))"
  let ?h = "handler_create_timer 1 0 0 True ''tick''"
  have t: "tm_timers ?t = [?h]" "tm_removed ?t = {}" "tm_running ?t"
    by (simp_all add: timer_defs new_timer_def pq_push_def)
  show ?thesis
    by (rule zero_period_hangs [OF earliest_picks_top, of _ ?h])
       (simp_all add: t handler_create_timer_def milliseconds_def)
qed

text \<open>
  A timer object with an executor from its constructor. The constructor leaves
  \<open>_running\<close> false: every turn of \<open>run\<close> returns at once, and whatever is set on the object never fires.
\<close>
theorem constructor_executor_idle:
  "\<exists>t'. timer_ops pick ops (new_timer (Some e)) = Inr ([], t')"
proof -
  have "\<exists>t'. timer_ops pick ops t = Inr ([], t')" if "\<not> tm_running t" for t
    using that
  proof (induction ops arbitrary: t)
    case (Cons op ops)
    then have "\<exists>t1. timer_step pick op t = Inr ([], t1) \<and> \<not> tm_running t1"
      by (cases op) (auto simp: timer_defs timer_turn_def)
    with Cons.IH show ?case by fastforce
  qed simp
  then show ?thesis by (simp add: new_timer_def)
qed

end
