(* ===== verification/Thread_Pool.thy ===== *)
theory Thread_Pool
  imports Prelude "HOL-Library.Multiset"
begin

text \<open>
  \<open>Thread_Pool\<close> (\<open>Core/Thread_Pool.h\<close>, \<open>Core/Thread_Pool.cpp\<close>): worker threads that take tasks from
  a queue, a daemon thread that changes their number, and the callers of \<open>commit\<close>. The threads
  interleave: what one thread does while it holds the mutex is one step, and so is each thing that
  it does without the mutex. A run is a sequence of steps of any threads in any order.

  \<open>std::condition_variable\<close>: \<open>notify_one\<close> wakes one waiting thread, if there is one; \<open>wait\<close> may also
  return without a notification. A task is any \<open>'t\<close>; a task that throws would end the program and is
  left out. The accesses to the fields without the mutex are races for C++ and atomic here.

  The theory shows that the counters count what they say, that the queue is served first in, first
  out and every task starts at most once, and that the number of threads stays between its bounds;
  and how a pool can lose all its threads, a wake-up, or the end of its destructor.
\<close>

subsection \<open>State\<close>

type_synonym uint32 = "32 word"

record 't handle =
  task :: 't
  is_io_task :: bool

text \<open>
  Where a worker is in \<open>work_task\<close>: about to lock at the top of the loop; holding the mutex after it
  found the queue empty and before \<open>wait\<close> has begun; in \<open>wait\<close>; woken, about to lock again; running
  a task; returned.
\<close>

datatype 't worker = Ready | Checked | Asleep | Woken | Busy "'t handle" | Gone

text \<open>Where the daemon is in \<open>daemon_task\<close>: about to read \<open>_isStop\<close>; about to lock; in \<open>sleep_for\<close>; returned.\<close>

datatype daemon = D_Loop | D_Lock | D_Sleep | D_Gone

text \<open>
  \<open>tp_spawning\<close> counts the threads that the constructor has still to start, \<open>tp_notifies\<close> the callers
  of \<open>commit\<close> between the unlock and \<open>notify_one\<close>; \<open>tp_joining\<close> tells that the destructor has
  called \<open>notify_all\<close> and waits for the threads.
\<close>

record 't pool =
  tp_isStop :: bool
  tp_minThread :: uint32
  tp_maxThread :: uint32
  tp_batchSize :: uint32
  tp_threadNum :: uint32
  tp_workingThreadNum :: uint32
  tp_ioTaskNum :: uint32
  tp_hardwareCore :: uint32
  tp_destroyedThreadNum :: uint32
  tp_queue :: "'t handle list"
  tp_workers :: "'t worker list"
  tp_daemon :: daemon
  tp_spawning :: nat
  tp_notifies :: nat
  tp_joining :: bool

text \<open>The constructor, up to the threads: the daemon first, then \<open>minThread\<close> workers.\<close>

definition new_pool :: "uint32 \<Rightarrow> uint32 \<Rightarrow> uint32 \<Rightarrow> uint32 \<Rightarrow> 't pool" where
  "new_pool hardwareCore minThread maxThread batchSize =
     \<lparr>tp_isStop = False, tp_minThread = minThread, tp_maxThread = maxThread, tp_batchSize = batchSize,
      tp_threadNum = 0, tp_workingThreadNum = 0, tp_ioTaskNum = 0, tp_hardwareCore = hardwareCore,
      tp_destroyedThreadNum = 0, tp_queue = [], tp_workers = [], tp_daemon = D_Loop,
      tp_spawning = unat minThread, tp_notifies = 0, tp_joining = False\<rparr>"

text \<open>The default constructor.\<close>

definition default_pool :: "uint32 \<Rightarrow> 't pool" where
  "default_pool hardwareCore = new_pool hardwareCore hardwareCore (hardwareCore * 5) hardwareCore"

subsection \<open>The pieces of the code\<close>

definition set_worker :: "nat \<Rightarrow> 't worker \<Rightarrow> 't pool \<Rightarrow> 't pool" where
  "set_worker i w s = s\<lparr>tp_workers := (tp_workers s)[i := w]\<rparr>"

text \<open>One turn of the loop of \<open>expend_thread_pool\<close>, and the loop.\<close>

definition spawn :: "'t pool \<Rightarrow> 't pool" where
  "spawn s = s\<lparr>tp_workers := tp_workers s @ [Ready], tp_threadNum := tp_threadNum s + 1\<rparr>"

fun expend_thread_pool :: "nat \<Rightarrow> 't pool \<Rightarrow> 't pool" where
  "expend_thread_pool 0 s = s"
| "expend_thread_pool (Suc n) s = expend_thread_pool n (spawn s)"

text \<open>\<open>ws\<close>: the waiting workers that the calls of \<open>notify_one\<close> wake, in order.\<close>

definition reduce_thread_pool :: "uint32 \<Rightarrow> nat list \<Rightarrow> 't pool \<Rightarrow> 't pool" where
  "reduce_thread_pool reduceNum ws s =
     fold (\<lambda>i. set_worker i Woken) ws (s\<lparr>tp_destroyedThreadNum := reduceNum\<rparr>)"

text \<open>
  The two conditions of \<open>daemon_task\<close>. The product of a \<open>uint32_t\<close> with the \<open>double\<close> 0.8 (or 0.2),
  cut to an integer, is the integer part of four fifths (one fifth): the error of the two roundings
  is far below one fifth.
\<close>

definition wants_more :: "'t pool \<Rightarrow> bool" where
  "wants_more s \<longleftrightarrow>
     unat (tp_workingThreadNum s) > 4 * unat (tp_threadNum s) div 5 \<and>
     tp_workingThreadNum s - tp_ioTaskNum s < tp_hardwareCore s \<and>
     tp_threadNum s + tp_batchSize s \<le> tp_maxThread s"

definition wants_less :: "'t pool \<Rightarrow> bool" where
  "wants_less s \<longleftrightarrow>
     unat (tp_workingThreadNum s) < unat (tp_threadNum s) div 5 \<and>
     tp_threadNum s - tp_batchSize s \<ge> tp_minThread s"

definition daemon_section :: "nat list \<Rightarrow> 't pool \<Rightarrow> 't pool" where
  "daemon_section ws s =
     (if wants_more s then expend_thread_pool (unat (tp_batchSize s)) s
      else if wants_less s then reduce_thread_pool (tp_batchSize s) ws s
      else s)"

text \<open>\<open>commit\<close> up to the unlock.\<close>

definition commit_push :: "'t handle \<Rightarrow> 't pool \<Rightarrow> 't pool" where
  "commit_push h s = s\<lparr>tp_queue := tp_queue s @ [h], tp_notifies := Suc (tp_notifies s)\<rparr>"

definition pool_stop :: "'t pool \<Rightarrow> 't pool" where
  "pool_stop s = s\<lparr>tp_isStop := True\<rparr>"

text \<open>
  \<open>work_task\<close> from the test of the queue: the loop's condition holds and the worker goes to wait, or
  the pool is stopped and the worker returns, or it takes the first task.
\<close>

definition worker_check :: "nat \<Rightarrow> 't pool \<Rightarrow> 't pool" where
  "worker_check i s =
     (if tp_isStop s then set_worker i Gone (s\<lparr>tp_threadNum := tp_threadNum s - 1\<rparr>)
      else
        case tp_queue s of
          [] \<Rightarrow> set_worker i Checked s
        | h # q \<Rightarrow> set_worker i (Busy h)
            (s\<lparr>tp_queue := q, tp_workingThreadNum := tp_workingThreadNum s + 1,
               tp_ioTaskNum := (if is_io_task h then tp_ioTaskNum s + 1 else tp_ioTaskNum s)\<rparr>))"

text \<open>After \<open>wait\<close>: a worker that is to be destroyed detaches itself and returns.\<close>

definition worker_resume :: "nat \<Rightarrow> 't pool \<Rightarrow> 't pool" where
  "worker_resume i s =
     (if tp_destroyedThreadNum s > 0
      then set_worker i Gone (s\<lparr>tp_destroyedThreadNum := tp_destroyedThreadNum s - 1,
                                 tp_threadNum := tp_threadNum s - 1\<rparr>)
      else worker_check i s)"

text \<open>After the task.\<close>

definition worker_finish :: "nat \<Rightarrow> 't handle \<Rightarrow> 't pool \<Rightarrow> 't pool" where
  "worker_finish i h s =
     set_worker i Ready
       (s\<lparr>tp_ioTaskNum := (if is_io_task h then tp_ioTaskNum s - 1 else tp_ioTaskNum s),
          tp_workingThreadNum := tp_workingThreadNum s - 1\<rparr>)"

subsection \<open>Steps\<close>

text \<open>
  The mutex is free unless a worker is between its test and \<open>wait\<close>; all other critical sections
  are one step. \<open>asleep s\<close> lists the waiting workers.
\<close>

definition lock_free :: "'t pool \<Rightarrow> bool" where
  "lock_free s \<longleftrightarrow> Checked \<notin> set (tp_workers s)"

definition at_worker :: "nat \<Rightarrow> 't worker \<Rightarrow> 't pool \<Rightarrow> bool" where
  "at_worker i w s \<longleftrightarrow> i < length (tp_workers s) \<and> tp_workers s ! i = w"

definition asleep :: "'t pool \<Rightarrow> nat set" where
  "asleep s = {i. i < length (tp_workers s) \<and> tp_workers s ! i = Asleep}"

datatype 't label =
    Spawn
  | Commit "'t handle"
  | Notify "nat option"
  | Spurious nat
  | Take nat "'t handle option"
  | Resume nat "'t handle option"
  | Block nat
  | Finish nat "'t handle"
  | Daemon_Test
  | Daemon_Section "nat list"
  | Daemon_Awake
  | Stop
  | Notify_All

text \<open>The task that a worker would take at its test.\<close>

definition next_task :: "'t pool \<Rightarrow> 't handle option" where
  "next_task s = (if tp_isStop s then None else case tp_queue s of [] \<Rightarrow> None | h # q \<Rightarrow> Some h)"

fun guard :: "'t label \<Rightarrow> 't pool \<Rightarrow> bool" where
  "guard Spawn s \<longleftrightarrow> tp_spawning s > 0"
| "guard (Commit h) s \<longleftrightarrow> lock_free s \<and> tp_spawning s = 0"
| "guard (Notify None) s \<longleftrightarrow> tp_notifies s > 0 \<and> Asleep \<notin> set (tp_workers s)"
| "guard (Notify (Some i)) s \<longleftrightarrow> tp_notifies s > 0 \<and> at_worker i Asleep s"
| "guard (Spurious i) s \<longleftrightarrow> at_worker i Asleep s"
| "guard (Take i h) s \<longleftrightarrow> lock_free s \<and> at_worker i Ready s \<and> h = next_task s"
| "guard (Resume i h) s \<longleftrightarrow> lock_free s \<and> at_worker i Woken s \<and>
     h = (if tp_destroyedThreadNum s > 0 then None else next_task s)"
| "guard (Block i) s \<longleftrightarrow> at_worker i Checked s"
| "guard (Finish i h) s \<longleftrightarrow> lock_free s \<and> at_worker i (Busy h) s"
| "guard Daemon_Test s \<longleftrightarrow> tp_daemon s = D_Loop"
| "guard (Daemon_Section ws) s \<longleftrightarrow> lock_free s \<and> tp_daemon s = D_Lock \<and> distinct ws \<and>
     list_all (\<lambda>i. at_worker i Asleep s) ws \<and>
     length ws = min (unat (tp_batchSize s)) (length (filter (\<lambda>w. w = Asleep) (tp_workers s)))"
| "guard Daemon_Awake s \<longleftrightarrow> tp_daemon s = D_Sleep"
| "guard Stop s \<longleftrightarrow> tp_spawning s = 0"
| "guard Notify_All s \<longleftrightarrow> tp_isStop s \<and> \<not> tp_joining s"

fun effect :: "'t label \<Rightarrow> 't pool \<Rightarrow> 't pool" where
  "effect Spawn s = (spawn s)\<lparr>tp_spawning := tp_spawning s - 1\<rparr>"
| "effect (Commit h) s = commit_push h s"
| "effect (Notify None) s = s\<lparr>tp_notifies := tp_notifies s - 1\<rparr>"
| "effect (Notify (Some i)) s = set_worker i Woken (s\<lparr>tp_notifies := tp_notifies s - 1\<rparr>)"
| "effect (Spurious i) s = set_worker i Woken s"
| "effect (Take i h) s = worker_check i s"
| "effect (Resume i h) s = worker_resume i s"
| "effect (Block i) s = set_worker i Asleep s"
| "effect (Finish i h) s = worker_finish i h s"
| "effect Daemon_Test s = s\<lparr>tp_daemon := (if tp_isStop s then D_Gone else D_Lock)\<rparr>"
| "effect (Daemon_Section ws) s = (daemon_section ws s)\<lparr>tp_daemon := D_Sleep\<rparr>"
| "effect Daemon_Awake s = s\<lparr>tp_daemon := D_Loop\<rparr>"
| "effect Stop s = pool_stop s"
| "effect Notify_All s =
     s\<lparr>tp_workers := map (\<lambda>w. if w = Asleep then Woken else w) (tp_workers s), tp_joining := True\<rparr>"

text \<open>\<open>runs s ls t\<close>: the steps \<open>ls\<close> lead from \<open>s\<close> to \<open>t\<close>.\<close>

inductive runs :: "'t pool \<Rightarrow> 't label list \<Rightarrow> 't pool \<Rightarrow> bool" where
  none: "runs s [] s"
| step: "runs s ls t \<Longrightarrow> guard l t \<Longrightarrow> runs s (ls @ [l]) (effect l t)"

inductive_simps runs_nil [simp]: "runs s [] t"
inductive_cases runs_snoc: "runs s (ls @ [l]) t"

fun exec :: "'t label list \<Rightarrow> 't pool \<Rightarrow> 't pool option" where
  "exec [] s = Some s"
| "exec (l # ls) s = (if guard l s then exec ls (effect l s) else None)"

lemma exec_snoc:
  "exec (ls @ [l]) s = (case exec ls s of None \<Rightarrow> None | Some t \<Rightarrow> if guard l t then Some (effect l t) else None)"
  by (induction ls arbitrary: s) auto

lemma runs_exec: "runs s ls t \<longleftrightarrow> exec ls s = Some t"
proof
  show "runs s ls t \<Longrightarrow> exec ls s = Some t" by (induction rule: runs.induct) (auto simp: exec_snoc)
  show "exec ls s = Some t \<Longrightarrow> runs s ls t"
  proof (induction ls arbitrary: t rule: rev_induct)
    case (snoc l ls)
    then show ?case by (auto simp: exec_snoc intro: runs.step split: option.splits if_splits)
  qed simp
qed

lemma runs_trans: "runs s ls t \<Longrightarrow> runs t ls' u \<Longrightarrow> runs s (ls @ ls') u"
proof (induction ls' arbitrary: u rule: rev_induct)
  case (snoc l ls')
  from snoc.prems(2) obtain v where "runs t ls' v" "guard l v" "u = effect l v" by (rule runs_snoc)
  with snoc.IH [OF snoc.prems(1)] runs.step [of s "ls @ ls'" v l] show ?case by simp
qed simp

subsection \<open>Counting workers\<close>

named_theorems pool_simps \<open>the fields after an operation\<close>

definition pcount :: "('t worker \<Rightarrow> bool) \<Rightarrow> 't pool \<Rightarrow> nat" where
  "pcount P s = length (filter P (tp_workers s))"

fun is_alive :: "'t worker \<Rightarrow> bool" where
  "is_alive Gone \<longleftrightarrow> False"
| "is_alive _ \<longleftrightarrow> True"

fun is_busy :: "'t worker \<Rightarrow> bool" where
  "is_busy (Busy h) \<longleftrightarrow> True"
| "is_busy _ \<longleftrightarrow> False"

fun is_busy_io :: "'t worker \<Rightarrow> bool" where
  "is_busy_io (Busy h) \<longleftrightarrow> is_io_task h"
| "is_busy_io _ \<longleftrightarrow> False"

lemma set_worker_sels [pool_simps]:
  "tp_workers (set_worker i w s) = (tp_workers s)[i := w]"
  "tp_isStop (set_worker i w s) = tp_isStop s" "tp_minThread (set_worker i w s) = tp_minThread s"
  "tp_maxThread (set_worker i w s) = tp_maxThread s" "tp_batchSize (set_worker i w s) = tp_batchSize s"
  "tp_threadNum (set_worker i w s) = tp_threadNum s"
  "tp_workingThreadNum (set_worker i w s) = tp_workingThreadNum s"
  "tp_ioTaskNum (set_worker i w s) = tp_ioTaskNum s" "tp_hardwareCore (set_worker i w s) = tp_hardwareCore s"
  "tp_destroyedThreadNum (set_worker i w s) = tp_destroyedThreadNum s" "tp_queue (set_worker i w s) = tp_queue s"
  "tp_daemon (set_worker i w s) = tp_daemon s" "tp_spawning (set_worker i w s) = tp_spawning s"
  "tp_notifies (set_worker i w s) = tp_notifies s" "tp_joining (set_worker i w s) = tp_joining s"
  by (simp_all add: set_worker_def)

lemma pcount_cong: "tp_workers s = tp_workers t \<Longrightarrow> pcount P s = pcount P t"
  by (simp add: pcount_def)

lemma pcount_set:
  assumes "at_worker i w s" and "tp_workers s' = tp_workers s"
  shows "pcount P (set_worker i w' s') + of_bool (P w) = pcount P s + of_bool (P w')"
  using filter_update [of i "tp_workers s" P w'] assms
  by (simp add: pcount_def at_worker_def pool_simps)

text \<open>\<open>notify_one\<close>s: they change only workers that wait.\<close>

lemma wake_fields:
  "tp_workers (fold (\<lambda>i. set_worker i Woken) ws s) = fold (\<lambda>i xs. xs[i := Woken]) ws (tp_workers s) \<and>
   fold (\<lambda>i. set_worker i Woken) ws s = s\<lparr>tp_workers := fold (\<lambda>i xs. xs[i := Woken]) ws (tp_workers s)\<rparr>"
  by (induction ws arbitrary: s) (simp_all add: set_worker_def)

lemma wake_count:
  assumes "distinct ws" and "list_all (\<lambda>i. at_worker i Asleep s) ws" and "P Asleep = P Woken"
  shows "pcount P (fold (\<lambda>i. set_worker i Woken) ws s) = pcount P s"
  using assms(1,2)
proof (induction ws arbitrary: s)
  case (Cons i ws)
  then have "list_all (\<lambda>j. at_worker j Asleep (set_worker i Woken s)) ws"
    by (auto simp: list_all_iff at_worker_def pool_simps nth_list_update)
  with Cons have "pcount P (fold (\<lambda>i. set_worker i Woken) (i # ws) s) = pcount P (set_worker i Woken s)" by simp
  also have "\<dots> = pcount P s" using pcount_set [of i Asleep s s P Woken] Cons.prems(2) assms(3) by simp
  finally show ?case .
qed simp

lemma wake_all_count:
  "P Asleep = P Woken \<Longrightarrow>
   pcount P (s\<lparr>tp_workers := map (\<lambda>w. if w = Asleep then Woken else w) (tp_workers s), tp_joining := b\<rparr>) = pcount P s"
proof -
  assume "P Asleep = P Woken"
  then have "length (filter P (map (\<lambda>w. if w = Asleep then Woken else w) ws)) = length (filter P ws)" for ws
    by (induction ws) auto
  then show ?thesis by (simp add: pcount_def)
qed

lemma expend_fields:
  "expend_thread_pool n s = s\<lparr>tp_workers := tp_workers s @ replicate n Ready,
     tp_threadNum := tp_threadNum s + of_nat n\<rparr>"
proof (induction n arbitrary: s)
  case (Suc n)
  then show ?case by (simp add: spawn_def algebra_simps)
qed simp

lemma expend_count:
  "pcount P (expend_thread_pool n s) = pcount P s + (if P Ready then n else 0)"
  by (simp add: expend_fields pcount_def)

subsection \<open>The counters and the bound\<close>

text \<open>
  Every counter is the number of the workers it counts, no more threads than \<open>maxThread\<close> exist or
  are still to be started, and there is no work before the constructor is through.
\<close>

definition pool_ok :: "'t pool \<Rightarrow> bool" where
  "pool_ok s \<longleftrightarrow>
     unat (tp_maxThread s) + unat (tp_batchSize s) < 2 ^ 32 \<and>
     pcount is_alive s + tp_spawning s \<le> unat (tp_maxThread s) \<and>
     tp_threadNum s = of_nat (pcount is_alive s) \<and>
     tp_workingThreadNum s = of_nat (pcount is_busy s) \<and>
     tp_ioTaskNum s = of_nat (pcount is_busy_io s) \<and>
     (tp_spawning s > 0 \<longrightarrow> tp_queue s = [] \<and> pcount is_busy s = 0)"

lemma pcount_mono: "(\<And>w. P w \<Longrightarrow> Q w) \<Longrightarrow> pcount P s \<le> pcount Q s"
proof -
  assume "\<And>w. P w \<Longrightarrow> Q w"
  then have "length (filter P ws) \<le> length (filter Q ws)" for ws by (induction ws) auto
  then show ?thesis by (simp add: pcount_def)
qed

lemma busy_le: "pcount is_busy_io s \<le> pcount is_busy s" "pcount is_busy s \<le> pcount is_alive s"
proof -
  have "is_busy_io w \<Longrightarrow> is_busy w" "is_busy w \<Longrightarrow> is_alive w" for w :: "'a worker" by (cases w; simp)+
  then show "pcount is_busy_io s \<le> pcount is_busy s" "pcount is_busy s \<le> pcount is_alive s"
    by (simp_all add: pcount_mono)
qed

lemma pool_ok_small:
  assumes "pool_ok s"
  shows "unat (tp_threadNum s) = pcount is_alive s" "unat (tp_workingThreadNum s) = pcount is_busy s"
    "unat (tp_ioTaskNum s) = pcount is_busy_io s" "pcount is_alive s \<le> unat (tp_maxThread s)"
proof -
  show m: "pcount is_alive s \<le> unat (tp_maxThread s)" using assms by (simp add: pool_ok_def)
  have "unat (tp_maxThread s) < 2 ^ 32" using assms by (simp add: pool_ok_def)
  with m busy_le [of s] have "pcount is_alive s < 2 ^ 32" "pcount is_busy s < 2 ^ 32" "pcount is_busy_io s < 2 ^ 32"
    by linarith+
  with assms show "unat (tp_threadNum s) = pcount is_alive s"
    "unat (tp_workingThreadNum s) = pcount is_busy s" "unat (tp_ioTaskNum s) = pcount is_busy_io s"
    by (simp_all only: pool_ok_def unat_of_nat32)
qed

lemma pool_ok_other [simp]:
  "pool_ok (s\<lparr>tp_daemon := d\<rparr>) = pool_ok s" "pool_ok (s\<lparr>tp_isStop := b\<rparr>) = pool_ok s"
  "pool_ok (s\<lparr>tp_notifies := n\<rparr>) = pool_ok s"
  by (simp_all add: pool_ok_def pcount_def)

lemma commit_ok: "pool_ok s \<Longrightarrow> tp_spawning s = 0 \<Longrightarrow> pool_ok (commit_push h s)"
  by (simp add: pool_ok_def pcount_def commit_push_def)

lemmas moves = pcount_set [where P = is_alive] pcount_set [where P = is_busy] pcount_set [where P = is_busy_io]

lemma set_idle_ok:
  assumes "pool_ok s" and "at_worker i w s" and "is_alive w" "is_alive w'" and "\<not> is_busy w" "\<not> is_busy w'"
  shows "pool_ok (set_worker i w' s)"
proof -
  have "\<not> is_busy_io w" "\<not> is_busy_io w'" using assms(5,6) by (cases w; cases w'; simp)+
  with assms moves [OF assms(2) refl, of w'] show ?thesis by (simp add: pool_ok_def pool_simps)
qed

lemma one_less_ok:
  assumes "pool_ok s" and "pcount is_alive s = Suc (pcount is_alive t)"
    and "pcount is_busy t = pcount is_busy s" "pcount is_busy_io t = pcount is_busy_io s"
    and "tp_threadNum t = tp_threadNum s - 1" "tp_workingThreadNum t = tp_workingThreadNum s"
    and "tp_ioTaskNum t = tp_ioTaskNum s" "tp_maxThread t = tp_maxThread s"
    and "tp_batchSize t = tp_batchSize s" "tp_spawning t = tp_spawning s" "tp_queue t = tp_queue s"
  shows "pool_ok t"
  using assms by (simp add: pool_ok_def)

lemma set_gone_ok:
  assumes "pool_ok s" and "at_worker i w s" and "is_alive w" and "\<not> is_busy w"
  shows "pool_ok (set_worker i Gone (s\<lparr>tp_destroyedThreadNum := d, tp_threadNum := tp_threadNum s - 1\<rparr>))"
proof -
  let ?s = "s\<lparr>tp_destroyedThreadNum := d, tp_threadNum := tp_threadNum s - 1\<rparr>"
  have "\<not> is_busy_io w" using assms(4) by (cases w) simp_all
  with assms(3,4) moves [OF assms(2), of ?s Gone] have
    "pcount is_alive s = Suc (pcount is_alive (set_worker i Gone ?s))"
    "pcount is_busy s = pcount is_busy (set_worker i Gone ?s)"
    "pcount is_busy_io s = pcount is_busy_io (set_worker i Gone ?s)" by simp_all
  then show ?thesis by (intro one_less_ok [OF assms(1)]) (simp_all add: pool_simps)
qed

lemma take_ok:
  assumes "pool_ok s" and "at_worker i w s" and "is_alive w" "\<not> is_busy w" and "tp_queue s = h # q"
  shows "pool_ok (set_worker i (Busy h) (s\<lparr>tp_queue := q, tp_workingThreadNum := tp_workingThreadNum s + 1,
      tp_ioTaskNum := (if is_io_task h then tp_ioTaskNum s + 1 else tp_ioTaskNum s)\<rparr>))"
    (is "pool_ok (set_worker i (Busy h) ?s)")
proof -
  have "\<not> is_busy_io w" using assms(4) by (cases w) simp_all
  with assms(3,4) moves [OF assms(2), of ?s "Busy h"] have
    "pcount is_alive (set_worker i (Busy h) ?s) = pcount is_alive s"
    "pcount is_busy (set_worker i (Busy h) ?s) = Suc (pcount is_busy s)"
    "pcount is_busy_io (set_worker i (Busy h) ?s) = pcount is_busy_io s + of_bool (is_io_task h)" by simp_all
  with assms(1,5) show ?thesis by (auto simp: pool_ok_def pool_simps)
qed

lemma check_ok:
  assumes "pool_ok s" and "at_worker i w s" and "is_alive w" and "\<not> is_busy w"
  shows "pool_ok (worker_check i s)"
  using assms set_gone_ok [OF assms, of "tp_destroyedThreadNum s"] set_idle_ok [OF assms(1-3), of Checked]
    take_ok [OF assms]
  by (auto simp: worker_check_def split: list.splits)

lemma resume_ok:
  assumes "pool_ok s" and "at_worker i Woken s"
  shows "pool_ok (worker_resume i s)"
  using assms set_gone_ok [OF assms, of "tp_destroyedThreadNum s - 1"] check_ok [OF assms]
  by (simp add: worker_resume_def)

lemma busy_less_ok:
  assumes "pool_ok s" and "pcount is_alive s = pcount is_alive t"
    and "pcount is_busy s = Suc (pcount is_busy t)" "pcount is_busy_io s = pcount is_busy_io t + of_bool io"
    and "tp_threadNum t = tp_threadNum s" "tp_workingThreadNum t = tp_workingThreadNum s - 1"
    and "tp_ioTaskNum t = (if io then tp_ioTaskNum s - 1 else tp_ioTaskNum s)"
    and "tp_maxThread t = tp_maxThread s" "tp_batchSize t = tp_batchSize s"
    and "tp_spawning t = tp_spawning s" "tp_queue t = tp_queue s"
  shows "pool_ok t"
  using assms by (cases io) (simp_all add: pool_ok_def)

lemma finish_ok:
  assumes "pool_ok s" and "at_worker i (Busy h) s"
  shows "pool_ok (worker_finish i h s)"
proof -
  let ?s = "s\<lparr>tp_ioTaskNum := (if is_io_task h then tp_ioTaskNum s - 1 else tp_ioTaskNum s),
      tp_workingThreadNum := tp_workingThreadNum s - 1\<rparr>"
  from moves [OF assms(2), of ?s Ready] have
    "pcount is_alive s = pcount is_alive (set_worker i Ready ?s)"
    "pcount is_busy s = Suc (pcount is_busy (set_worker i Ready ?s))"
    "pcount is_busy_io s = pcount is_busy_io (set_worker i Ready ?s) + of_bool (is_io_task h)" by simp_all
  then show ?thesis unfolding worker_finish_def
    by (intro busy_less_ok [OF assms(1), of _ "is_io_task h"]) (simp_all add: pool_simps)
qed

lemma spawn_ok:
  assumes "pool_ok s" and "tp_spawning s > 0"
  shows "pool_ok ((spawn s)\<lparr>tp_spawning := tp_spawning s - 1\<rparr>)"
  using assms by (auto simp: pool_ok_def spawn_def pcount_def)

lemma section_ok:
  assumes ok: "pool_ok s" and ws: "distinct ws" "list_all (\<lambda>i. at_worker i Asleep s) ws"
  shows "pool_ok ((daemon_section ws s)\<lparr>tp_daemon := d\<rparr>)"
proof -
  note small = pool_ok_small [OF ok]
  have b: "unat (tp_maxThread s) + unat (tp_batchSize s) < 2 ^ 32" using ok by (simp add: pool_ok_def)
  have "pool_ok (daemon_section ws s)"
  proof -
    consider "wants_more s" | "\<not> wants_more s" "wants_less s" | "\<not> wants_more s" "\<not> wants_less s" by blast
    then show ?thesis
    proof cases
      case 1
      then have "pcount is_busy s > 0" using small(2) by (auto simp: wants_more_def)
      then have sp: "tp_spawning s = 0" using ok by (auto simp: pool_ok_def)
      have "unat (tp_threadNum s + tp_batchSize s) = unat (tp_threadNum s) + unat (tp_batchSize s)"
        using b small(1,4) by (intro unat_add_lem [THEN iffD1]) simp
      moreover have "unat (tp_threadNum s + tp_batchSize s) \<le> unat (tp_maxThread s)"
        using 1 by (simp add: wants_more_def word_le_nat_alt)
      ultimately have "pcount is_alive s + unat (tp_batchSize s) \<le> unat (tp_maxThread s)" using small(1) by simp
      moreover have "tp_threadNum s + tp_batchSize s = of_nat (pcount is_alive s + unat (tp_batchSize s))"
        using ok by (simp add: pool_ok_def)
      ultimately show ?thesis using ok sp 1
        unfolding daemon_section_def pool_ok_def by (simp add: expend_count) (simp add: expend_fields)
    next
      case 2
      let ?s = "s\<lparr>tp_destroyedThreadNum := tp_batchSize s\<rparr>"
      have "list_all (\<lambda>i. at_worker i Asleep ?s) ws" using ws(2) by (simp add: at_worker_def)
      from wake_count [OF ws(1) this] have "pcount P (fold (\<lambda>i. set_worker i Woken) ws ?s) = pcount P s"
        if "P Asleep = P Woken" for P using that by (simp add: pcount_def)
      moreover obtain xs where "fold (\<lambda>i. set_worker i Woken) ws ?s = ?s\<lparr>tp_workers := xs\<rparr>"
        using wake_fields [of ws ?s] by blast
      ultimately show ?thesis using ok 2
        unfolding daemon_section_def reduce_thread_pool_def pool_ok_def by simp
    next
      case 3
      with ok show ?thesis by (simp add: daemon_section_def)
    qed
  qed
  then show ?thesis by simp
qed

lemma effect_ok:
  assumes "pool_ok s" and "guard l s"
  shows "pool_ok (effect l s)"
proof (cases l)
  case (Notify w)
  with Notify assms set_idle_ok [of "s\<lparr>tp_notifies := tp_notifies s - 1\<rparr>" _ Asleep Woken] show ?thesis
    by (cases w) (auto simp: at_worker_def)
next
  case Notify_All
  have "pcount P (effect Notify_All s) = pcount P s" if "P Asleep = P Woken" for P
    using wake_all_count [OF that] by simp
  with assms(1) Notify_All show ?thesis by (simp add: pool_ok_def)
qed (use assms spawn_ok set_idle_ok [of s _ Asleep Woken] set_idle_ok [of s _ Checked Asleep] check_ok [of s _ Ready]
      resume_ok finish_ok section_ok commit_ok in \<open>auto simp: pool_stop_def\<close>)

lemma runs_ok: "runs s ls t \<Longrightarrow> pool_ok s \<Longrightarrow> pool_ok t"
  by (induction rule: runs.induct) (auto simp: effect_ok)

lemma new_pool_ok:
  "minT \<le> maxT \<Longrightarrow> unat maxT + unat batch < 2 ^ 32 \<Longrightarrow> pool_ok (new_pool core minT maxT batch)"
  by (simp add: pool_ok_def new_pool_def pcount_def word_le_nat_alt)

text \<open>What never changes.\<close>

lemma check_settings:
  "tp_minThread (worker_check i s) = tp_minThread s" "tp_maxThread (worker_check i s) = tp_maxThread s"
  "tp_batchSize (worker_check i s) = tp_batchSize s" "tp_hardwareCore (worker_check i s) = tp_hardwareCore s"
  by (simp_all add: worker_check_def pool_simps split: list.splits)

lemma section_settings:
  "tp_minThread (daemon_section ws s) = tp_minThread s" "tp_maxThread (daemon_section ws s) = tp_maxThread s"
  "tp_batchSize (daemon_section ws s) = tp_batchSize s" "tp_hardwareCore (daemon_section ws s) = tp_hardwareCore s"
  "tp_queue (daemon_section ws s) = tp_queue s" "tp_isStop (daemon_section ws s) = tp_isStop s"
  "tp_spawning (daemon_section ws s) = tp_spawning s"
  using wake_fields [of ws "s\<lparr>tp_destroyedThreadNum := tp_batchSize s\<rparr>"]
  by (simp_all add: daemon_section_def expend_fields reduce_thread_pool_def)

lemma effect_settings:
  "tp_minThread (effect l s) = tp_minThread s" "tp_maxThread (effect l s) = tp_maxThread s"
  "tp_batchSize (effect l s) = tp_batchSize s" "tp_hardwareCore (effect l s) = tp_hardwareCore s"
  by (cases "(l, s)" rule: effect.cases;
      simp add: spawn_def commit_push_def worker_resume_def worker_finish_def pool_stop_def pool_simps
        check_settings section_settings)+

lemma runs_settings:
  "runs s ls t \<Longrightarrow> tp_minThread t = tp_minThread s \<and> tp_maxThread t = tp_maxThread s \<and>
     tp_batchSize t = tp_batchSize s \<and> tp_hardwareCore t = tp_hardwareCore s"
  by (induction rule: runs.induct) (simp_all add: effect_settings)

subsection \<open>Every task once, in order\<close>

fun commits :: "'t label list \<Rightarrow> 't handle list" where
  "commits [] = []"
| "commits (Commit h # ls) = h # commits ls"
| "commits (l # ls) = commits ls"

fun starts :: "'t label list \<Rightarrow> 't handle list" where
  "starts [] = []"
| "starts (Take i (Some h) # ls) = h # starts ls"
| "starts (Resume i (Some h) # ls) = h # starts ls"
| "starts (l # ls) = starts ls"

fun finishes :: "'t label list \<Rightarrow> 't handle list" where
  "finishes [] = []"
| "finishes (Finish i h # ls) = h # finishes ls"
| "finishes (l # ls) = finishes ls"

fun task_of :: "'t worker \<Rightarrow> 't handle multiset" where
  "task_of (Busy h) = {#h#}"
| "task_of _ = {#}"

definition running :: "'t pool \<Rightarrow> 't handle multiset" where
  "running s = \<Sum>\<^sub># (image_mset task_of (mset (tp_workers s)))"

lemma trace_append:
  "commits (ls @ ls') = commits ls @ commits ls'" "starts (ls @ ls') = starts ls @ starts ls'"
  "finishes (ls @ ls') = finishes ls @ finishes ls'"
proof -
  show "commits (ls @ ls') = commits ls @ commits ls'" by (induction ls rule: commits.induct) auto
  show "starts (ls @ ls') = starts ls @ starts ls'" by (induction ls rule: starts.induct) auto
  show "finishes (ls @ ls') = finishes ls @ finishes ls'" by (induction ls rule: finishes.induct) auto
qed

lemma sum_update:
  "i < length ws \<Longrightarrow> \<Sum>\<^sub># (image_mset f (mset (ws[i := w]))) + f (ws ! i) =
     \<Sum>\<^sub># (image_mset f (mset ws)) + (f w :: 'b multiset)"
proof (induction ws arbitrary: i)
  case (Cons x xs)
  then show ?case
  proof (cases i)
    case (Suc j)
    with Cons.IH [of j] Cons.prems show ?thesis by (simp add: ac_simps)
  qed (simp add: ac_simps)
qed simp

lemma running_set:
  assumes "at_worker i w s" and "tp_workers s' = tp_workers s"
  shows "running (set_worker i w' s') + task_of w = running s + task_of w'"
  using sum_update [of i "tp_workers s" task_of w'] assms
  by (simp add: running_def at_worker_def pool_simps)

lemma running_idle:
  assumes "at_worker i w s" and "tp_workers s' = tp_workers s" and "task_of w = {#}" "task_of w' = {#}"
  shows "running (set_worker i w' s') = running s"
  using running_set [OF assms(1,2), of w'] assms(3,4) by simp

lemma running_wake:
  assumes "distinct ws" and "list_all (\<lambda>i. at_worker i Asleep s) ws"
  shows "running (fold (\<lambda>i. set_worker i Woken) ws s) = running s"
  using assms
proof (induction ws arbitrary: s)
  case (Cons i ws)
  then have "list_all (\<lambda>j. at_worker j Asleep (set_worker i Woken s)) ws"
    by (auto simp: list_all_iff at_worker_def pool_simps nth_list_update)
  with Cons running_idle [of i Asleep s s Woken] show ?case by simp
qed simp

lemma running_section:
  assumes "distinct ws" and "list_all (\<lambda>i. at_worker i Asleep s) ws"
  shows "running ((daemon_section ws s)\<lparr>tp_daemon := d\<rparr>) = running s"
proof -
  let ?s = "s\<lparr>tp_destroyedThreadNum := tp_batchSize s\<rparr>"
  have "list_all (\<lambda>i. at_worker i Asleep ?s) ws" using assms(2) by (simp add: at_worker_def)
  from running_wake [OF assms(1) this] show ?thesis
    by (simp add: daemon_section_def expend_fields reduce_thread_pool_def running_def)
qed

text \<open>One step: what it takes from the queue it starts, what it starts runs, what it finishes no longer runs.\<close>

lemma check_tasks:
  assumes "at_worker i w s" and "task_of w = {#}"
  shows "tp_queue s = (case next_task s of None \<Rightarrow> [] | Some h \<Rightarrow> [h]) @ tp_queue (worker_check i s)"
    and "running (worker_check i s) = running s + mset (case next_task s of None \<Rightarrow> [] | Some h \<Rightarrow> [h])"
  using running_set [OF assms(1)] assms(2)
  by (auto simp: worker_check_def next_task_def pool_simps split: list.splits)

lemma effect_tasks:
  assumes "guard l s"
  shows "tp_queue s @ commits [l] = starts [l] @ tp_queue (effect l s)"
    and "running s + mset (starts [l]) = running (effect l s) + mset (finishes [l])"
proof -
  have all: "running (s\<lparr>tp_workers := map (\<lambda>w. if w = Asleep then Woken else w) (tp_workers s),
      tp_joining := True\<rparr>) = running s"
  proof -
    have "\<Sum>\<^sub># (image_mset task_of (mset (map (\<lambda>w. if w = Asleep then Woken else w) ws))) =
        \<Sum>\<^sub># (image_mset task_of (mset ws))" for ws :: "'a worker list" by (induction ws) auto
    then show ?thesis by (simp add: running_def)
  qed
  have same: "running (s\<lparr>tp_daemon := d\<rparr>) = running s" "running (s\<lparr>tp_isStop := b\<rparr>) = running s"
    "running (s\<lparr>tp_notifies := n\<rparr>) = running s" "running (commit_push h s) = running s"
    "running ((spawn s)\<lparr>tp_spawning := m\<rparr>) = running s" for d b n m h
    by (simp_all add: running_def commit_push_def spawn_def)
  have "tp_queue s @ commits [l] = starts [l] @ tp_queue (effect l s) \<and>
      running s + mset (starts [l]) = running (effect l s) + mset (finishes [l])"
  proof (cases l)
    case (Take i h)
    with assms check_tasks [of i Ready s] show ?thesis by (cases "next_task s") auto
  next
    case (Resume i h)
    with assms check_tasks [of i Woken s] running_idle [of i Woken s _ Gone] show ?thesis
      by (cases "next_task s") (auto simp: worker_resume_def pool_simps split: if_splits)
  next
    case (Notify w)
    with assms running_idle [of _ Asleep s _ Woken] show ?thesis
      by (cases w) (auto simp: pool_simps same)
  next
    case (Spurious i)
    with assms running_idle [of i Asleep s s Woken] show ?thesis by (simp add: pool_simps)
  next
    case (Block i)
    with assms running_idle [of i Checked s s Asleep] show ?thesis by (simp add: pool_simps)
  next
    case (Finish i h)
    with assms running_set [of i "Busy h" s _ Ready] show ?thesis
      by (simp add: worker_finish_def pool_simps)
  next
    case (Daemon_Section ws)
    with assms running_section [of ws s] show ?thesis by (simp add: section_settings)
  qed (use all in \<open>simp_all add: same spawn_def commit_push_def pool_stop_def\<close>,
       simp_all add: same flip: commit_push_def spawn_def)
  then show "tp_queue s @ commits [l] = starts [l] @ tp_queue (effect l s)"
    and "running s + mset (starts [l]) = running (effect l s) + mset (finishes [l])" by blast+
qed

lemma runs_tasks:
  assumes "runs s ls t"
  shows "tp_queue s @ commits ls = starts ls @ tp_queue t"
    and "running s + mset (starts ls) = running t + mset (finishes ls)"
  using assms
proof (induction rule: runs.induct)
  case (step s ls t l)
  {
    case 1
    from step(3) effect_tasks(1) [OF step(2)] show ?case by (simp add: trace_append) (metis append_assoc)
  next
    case 2
    from step(4) effect_tasks(2) [OF step(2)] show ?case by (simp add: trace_append) (metis union_assoc union_commute)
  }
qed simp_all

subsection \<open>The minimum\<close>

text \<open>
  The constructor starts the daemon before the workers, so the daemon may look at a pool of which some
  threads do not exist yet. \<open>looks_after n ls\<close>: the daemon's critical section comes only after \<open>n\<close> threads
  have been started.
\<close>

fun looks_after :: "nat \<Rightarrow> 't label list \<Rightarrow> bool" where
  "looks_after n [] \<longleftrightarrow> True"
| "looks_after n (Spawn # ls) \<longleftrightarrow> looks_after (n - 1) ls"
| "looks_after n (Daemon_Section ws # ls) \<longleftrightarrow> n = 0 \<and> looks_after n ls"
| "looks_after n (l # ls) \<longleftrightarrow> looks_after n ls"

fun spawns :: "'t label list \<Rightarrow> nat" where
  "spawns [] = 0"
| "spawns (Spawn # ls) = Suc (spawns ls)"
| "spawns (l # ls) = spawns ls"

lemma looks_after_append: "looks_after n (ls @ ls') \<longleftrightarrow> looks_after n ls \<and> looks_after (n - spawns ls) ls'"
  by (induction n ls rule: looks_after.induct) auto

lemma looks_after_spawns [simp]: "looks_after n (replicate k Spawn)" "spawns (replicate k Spawn) = k"
  by (induction k arbitrary: n) simp_all

text \<open>The state the constructor leaves when no other thread ran meanwhile.\<close>

definition constructed_pool :: "uint32 \<Rightarrow> uint32 \<Rightarrow> uint32 \<Rightarrow> uint32 \<Rightarrow> 't pool" where
  "constructed_pool hardwareCore minThread maxThread batchSize =
     (expend_thread_pool (unat minThread) (new_pool hardwareCore minThread maxThread batchSize))
       \<lparr>tp_spawning := 0\<rparr>"

lemma runs_spawns:
  "tp_spawning s = n \<Longrightarrow> runs s (replicate n Spawn) ((expend_thread_pool n s)\<lparr>tp_spawning := 0\<rparr>)"
proof (induction n arbitrary: s)
  case 0
  then show ?case by (simp add: runs_exec)
next
  case (Suc n)
  let ?s = "effect Spawn s"
  have "runs ?s (replicate n Spawn) ((expend_thread_pool n ?s)\<lparr>tp_spawning := 0\<rparr>)"
    using Suc.prems by (intro Suc.IH) simp
  then have "exec (replicate (Suc n) Spawn) s = Some ((expend_thread_pool n ?s)\<lparr>tp_spawning := 0\<rparr>)"
    using Suc.prems by (simp add: runs_exec)
  then show ?case by (simp add: runs_exec expend_fields spawn_def)
qed

lemma constructed_reachable:
  "runs (new_pool core minT maxT batch) (replicate (unat minT) Spawn) (constructed_pool core minT maxT batch)"
  unfolding constructed_pool_def by (rule runs_spawns) (simp add: new_pool_def)

lemma constructed_ok:
  "minT \<le> maxT \<Longrightarrow> unat maxT + unat batch < 2 ^ 32 \<Longrightarrow> pool_ok (constructed_pool core minT maxT batch)"
  using runs_ok [OF constructed_reachable] new_pool_ok by blast

text \<open>From the steps after such a construction to the steps from the start.\<close>

lemma constructed_runs:
  assumes "runs (constructed_pool core minT maxT batch) ls s"
  shows "runs (new_pool core minT maxT batch) (replicate (unat minT) Spawn @ ls) s"
    and "looks_after (unat minT) (replicate (unat minT) Spawn @ ls) \<longleftrightarrow> looks_after 0 ls"
  using runs_trans [OF constructed_reachable assms] by (simp_all add: looks_after_append)

lemma effect_spawning: "tp_spawning (effect l s) = tp_spawning s - (if l = Spawn then 1 else 0)"
  by (cases "(l, s)" rule: effect.cases)
    (auto simp: pool_simps worker_check_def worker_resume_def worker_finish_def commit_push_def pool_stop_def
      section_settings split: list.splits)

lemma spawns_left: "runs s ls t \<Longrightarrow> tp_spawning t = tp_spawning s - spawns ls"
proof (induction rule: runs.induct)
  case (step s ls t l)
  have "spawns (ls @ [l]) = spawns ls + (if l = Spawn then 1 else 0)"
    by (induction ls rule: spawns.induct) (cases l; simp)+
  with step.IH show ?case by (simp add: effect_spawning del: effect.simps)
qed simp

lemma section_after:
  assumes "runs (new_pool core minT maxT batch) ls s" and "looks_after (unat minT) (ls @ [Daemon_Section ws])"
  shows "tp_spawning s = 0"
  using assms(2) spawns_left [OF assms(1)] by (simp add: looks_after_append new_pool_def)

text \<open>
  Until the pool is stopped, enough threads exist or are still to be started even after all pending
  destructions.
\<close>

definition keeps_min :: "'t pool \<Rightarrow> bool" where
  "keeps_min s \<longleftrightarrow>
     tp_batchSize s \<le> tp_minThread s \<and>
     (tp_isStop s \<or> unat (tp_minThread s) + unat (tp_destroyedThreadNum s) \<le> pcount is_alive s + tp_spawning s)"

lemma keeps_same:
  assumes "keeps_min s" and "pcount is_alive s \<le> pcount is_alive t"
    and "tp_spawning t = tp_spawning s" "tp_batchSize t = tp_batchSize s" "tp_minThread t = tp_minThread s"
    and "tp_isStop t = tp_isStop s" "tp_destroyedThreadNum t = tp_destroyedThreadNum s"
  shows "keeps_min t"
  using assms by (auto simp: keeps_min_def)

lemma set_keeps:
  assumes "keeps_min s" and "at_worker i w s" and "is_alive w'" and "tp_workers s' = tp_workers s"
    and "tp_spawning s' = tp_spawning s" "tp_batchSize s' = tp_batchSize s" "tp_minThread s' = tp_minThread s"
    and "tp_isStop s' = tp_isStop s" "tp_destroyedThreadNum s' = tp_destroyedThreadNum s"
  shows "keeps_min (set_worker i w' s')"
proof -
  from pcount_set [OF assms(2,4), of is_alive w'] assms(3)
  have "pcount is_alive s \<le> pcount is_alive (set_worker i w' s')" by (cases "is_alive w") simp_all
  then show ?thesis using assms(5-9) by (intro keeps_same [OF assms(1)]) (simp_all add: pool_simps)
qed

lemma check_keeps:
  assumes "keeps_min s" and "at_worker i w s"
  shows "keeps_min (worker_check i s)"
proof (cases "tp_isStop s")
  case True
  with assms(1) show ?thesis by (simp add: worker_check_def keeps_min_def pool_simps)
next
  case False
  with set_keeps [OF assms] show ?thesis by (simp add: worker_check_def split: list.splits)
qed

lemma resume_keeps:
  assumes "keeps_min s" and "at_worker i Woken s"
  shows "keeps_min (worker_resume i s)"
proof (cases "tp_destroyedThreadNum s > 0")
  case True
  let ?s = "s\<lparr>tp_destroyedThreadNum := tp_destroyedThreadNum s - 1, tp_threadNum := tp_threadNum s - 1\<rparr>"
  from True have "unat (tp_destroyedThreadNum s) = Suc (unat (tp_destroyedThreadNum s - 1))"
    by (simp add: unat_minus_one word_gt_0 unat_gt_0 Suc_pred)
  moreover have "pcount is_alive s = Suc (pcount is_alive (set_worker i Gone ?s))"
    using pcount_set [OF assms(2), of ?s is_alive Gone] by simp
  ultimately show ?thesis using assms(1) True
    by (auto simp: worker_resume_def keeps_min_def pool_simps)
next
  case False
  with check_keeps [OF assms] show ?thesis by (simp add: worker_resume_def)
qed

lemma section_keeps:
  assumes k: "keeps_min s" and ok: "pool_ok s" and sp: "tp_spawning s = 0" and ws: "distinct ws" "list_all (\<lambda>i. at_worker i Asleep s) ws"
  shows "keeps_min ((daemon_section ws s)\<lparr>tp_daemon := d\<rparr>)"
proof -
  consider "wants_more s" | "\<not> wants_more s" "wants_less s" | "\<not> wants_more s" "\<not> wants_less s" by blast
  then show ?thesis
  proof cases
    case 1
    then show ?thesis
      by (intro keeps_same [OF k]) (simp_all add: daemon_section_def expend_fields pcount_def)
  next
    case 2
    let ?s = "s\<lparr>tp_destroyedThreadNum := tp_batchSize s\<rparr>"
    have "list_all (\<lambda>i. at_worker i Asleep ?s) ws" using ws(2) by (simp add: at_worker_def)
    from wake_count [OF ws(1) this, of is_alive]
    have a: "pcount is_alive ((daemon_section ws s)\<lparr>tp_daemon := d\<rparr>) = pcount is_alive s"
      using 2 by (simp add: daemon_section_def reduce_thread_pool_def pcount_def)
    have f: "tp_destroyedThreadNum (daemon_section ws s) = tp_batchSize s"
      using 2 wake_fields [of ws ?s] by (simp add: daemon_section_def reduce_thread_pool_def)
    have "unat (tp_minThread s) + unat (tp_batchSize s) \<le> pcount is_alive s \<or> tp_isStop s"
    proof (cases "tp_isStop s")
      case False
      with k sp have "tp_batchSize s \<le> tp_threadNum s"
        using pool_ok_small(1) [OF ok] by (auto simp: keeps_min_def word_le_nat_alt)
      then have "unat (tp_threadNum s - tp_batchSize s) = unat (tp_threadNum s) - unat (tp_batchSize s)"
        by (rule unat_sub)
      with 2(2) \<open>tp_batchSize s \<le> tp_threadNum s\<close> pool_ok_small(1) [OF ok] show ?thesis
        by (auto simp: wants_less_def word_le_nat_alt)
    qed simp
    then show ?thesis using k a f sp by (auto simp: keeps_min_def section_settings)
  next
    case 3
    then show ?thesis
      by (intro keeps_same [OF k]) (simp_all add: daemon_section_def pcount_def)
  qed
qed

lemma effect_keeps:
  assumes "keeps_min s" and "pool_ok s" and "guard l s" and "\<And>ws. l = Daemon_Section ws \<Longrightarrow> tp_spawning s = 0"
  shows "keeps_min (effect l s)"
proof -
  have other: "keeps_min t" if "tp_workers t = tp_workers s" "tp_spawning t = tp_spawning s"
    "tp_batchSize t = tp_batchSize s" "tp_minThread t = tp_minThread s" "tp_isStop t = tp_isStop s"
    "tp_destroyedThreadNum t = tp_destroyedThreadNum s" for t
    using that by (intro keeps_same [OF assms(1)]) (simp_all add: pcount_def)
  show ?thesis
  proof (cases l)
    case Spawn
    with assms(1,3) show ?thesis by (auto simp: keeps_min_def spawn_def pcount_def)
  next
    case (Notify w)
    with assms(3) set_keeps [OF assms(1), of _ Asleep Woken] show ?thesis
      by (cases w) (auto intro: other)
  next
    case Notify_All
    with wake_all_count [where P = is_alive and s = s and b = True] show ?thesis
      by (auto intro: keeps_same [OF assms(1)])
  next
    case (Finish i h)
    with assms(3) set_keeps [OF assms(1), of i "Busy h" Ready] show ?thesis
      by (simp add: worker_finish_def)
  next
    case Stop
    with assms(1) show ?thesis by (simp add: keeps_min_def pool_stop_def)
  next
    case (Daemon_Section ws)
    with assms section_keeps show ?thesis by auto
  qed (use assms set_keeps [OF assms(1), of _ Asleep Woken] set_keeps [OF assms(1), of _ Checked Asleep]
        check_keeps [OF assms(1)] resume_keeps [OF assms(1)] in \<open>auto intro: other simp: commit_push_def\<close>)
qed

lemma runs_keeps:
  assumes "runs (new_pool core minT maxT batch) ls s" and "looks_after (unat minT) ls"
    and "batch \<le> minT" "minT \<le> maxT" "unat maxT + unat batch < 2 ^ 32"
  shows "keeps_min s"
  using assms(1,2)
proof (induction "new_pool core minT maxT batch :: 'a pool" ls s rule: runs.induct)
  case none
  with assms(3) show ?case by (simp add: keeps_min_def new_pool_def)
next
  case (step ls t l)
  have k: "keeps_min t" using step(2,4) by (simp add: looks_after_append)
  show ?case
    by (rule effect_keeps [OF k runs_ok [OF step(1) new_pool_ok [OF assms(4,5)]] step(3)])
      (use section_after [OF step(1)] step(4) in simp)
qed

subsection \<open>A pool without threads\<close>

lemma alive_worker: "at_worker i w s \<Longrightarrow> is_alive w \<Longrightarrow> pcount is_alive s > 0"
proof -
  assume "at_worker i w s" "is_alive w"
  then have "w \<in> set (filter is_alive (tp_workers s))" by (auto simp: at_worker_def)
  then show ?thesis unfolding pcount_def by (cases "filter is_alive (tp_workers s)") auto
qed

definition no_threads :: "'t pool \<Rightarrow> bool" where
  "no_threads s \<longleftrightarrow> pool_ok s \<and> pcount is_alive s = 0 \<and> tp_spawning s = 0"

lemma no_threads_step:
  assumes "no_threads s" and "guard l s"
  shows "no_threads (effect l s) \<and> starts [l] = []"
proof -
  from assms(1) have ok: "pool_ok s" and a: "pcount is_alive s = 0" "tp_spawning s = 0"
    by (simp_all add: no_threads_def)
  have no: "\<not> at_worker i w s" if "is_alive w" for i w using alive_worker [of i w s] that a(1) by auto
  have "unat (tp_workingThreadNum s) = 0" "unat (tp_threadNum s) = 0"
    using pool_ok_small [OF ok] busy_le [of s] a(1) by simp_all
  then have sec: "daemon_section ws s = s" for ws
    by (simp add: daemon_section_def wants_more_def wants_less_def)
  have "pcount is_alive (effect l s) = 0 \<and> tp_spawning (effect l s) = 0 \<and> starts [l] = []"
  proof (cases l)
    case (Notify w)
    with assms(2) no a show ?thesis by (cases w) (simp_all add: pcount_def)
  next
    case Notify_All
    with wake_all_count [where P = is_alive and s = s and b = True] a show ?thesis by simp
  qed (use assms(2) no a sec in \<open>simp_all add: commit_push_def pool_stop_def pcount_def\<close>)
  with effect_ok [OF ok assms(2)] show ?thesis by (simp add: no_threads_def)
qed

lemma no_threads_runs: "runs s ls t \<Longrightarrow> no_threads s \<Longrightarrow> no_threads t \<and> starts ls = []"
  by (induction rule: runs.induct) (auto simp: no_threads_step trace_append)

lemma list_update_numeral: "(x # xs)[numeral n := y] = x # xs[pred_numeral n := y]"
  by (simp add: numeral_eq_Suc)

lemma replicate_numeral: "replicate (numeral n) x = x # replicate (pred_numeral n) x"
  by (simp add: numeral_eq_Suc)

lemmas eval_pool = list_update_numeral replicate_numeral runs_exec pcount_def constructed_pool_def new_pool_def expend_fields lock_free_def at_worker_def next_task_def
  worker_check_def worker_resume_def worker_finish_def set_worker_def commit_push_def pool_stop_def
  daemon_section_def wants_more_def wants_less_def reduce_thread_pool_def

text \<open>
  A pool of five threads that changes their number by six: \<open>_threadNum - _batchSize\<close> wraps around,
  and the first look of the daemon at five waiting workers orders six of them to end.
\<close>

definition underflow_run :: "nat label list" where
  "underflow_run =
     concat (map (\<lambda>i. [Take i None, Block i]) [0, 1, 2, 3, 4]) @
     [Daemon_Test, Daemon_Section [0, 1, 2, 3, 4]] @ map (\<lambda>i. Resume i None) [0, 1, 2, 3, 4] @
     [Commit \<lparr>task = 7, is_io_task = False\<rparr>, Notify None]"

lemma underflow_runs:
  "\<exists>s. runs (constructed_pool 12 5 20 6) underflow_run s \<and> pcount is_alive s = 0 \<and>
     tp_threadNum s = 0 \<and> tp_queue s = [\<lparr>task = 7, is_io_task = False\<rparr>] \<and> tp_spawning s = 0 \<and> \<not> tp_isStop s"
  by (simp add: underflow_run_def eval_pool)

text \<open>
  A sound configuration: four busy threads become five, the tasks end, and the daemon orders one
  thread to end before any of them waits. The order stays, and the thread that the next \<open>commit\<close>
  wakes obeys it instead of taking the task.
\<close>

definition stale_run :: "nat label list" where
  "stale_run =
     (let h = (\<lambda>n. \<lparr>task = n, is_io_task = False\<rparr>) in
      map (\<lambda>n. Commit (h n)) [0, 1, 2, 3] @ replicate 4 (Notify None) @
      [Take 0 (Some (h 0)), Take 1 (Some (h 1)), Take 2 (Some (h 2)), Take 3 (Some (h 3))] @
      [Daemon_Test, Daemon_Section []] @
      [Finish 0 (h 0), Finish 1 (h 1), Finish 2 (h 2), Finish 3 (h 3)] @
      [Daemon_Awake, Daemon_Test, Daemon_Section []] @
      concat (map (\<lambda>i. [Take i None, Block i]) [0, 1, 2, 3, 4]) @
      [Commit (h 9), Notify (Some 0), Resume 0 None])"

lemma stale_runs:
  "\<exists>s. runs (constructed_pool 8 4 20 1) stale_run s \<and> tp_queue s = [\<lparr>task = 9, is_io_task = False\<rparr>] \<and>
     tp_workers s = [Gone, Asleep, Asleep, Asleep, Asleep] \<and> tp_notifies s = 0 \<and> tp_daemon s = D_Sleep \<and>
     tp_spawning s = 0 \<and> \<not> tp_isStop s"
  by (simp add: stale_run_def Let_def eval_pool)

text \<open>
  The destructor sets \<open>_isStop\<close> and notifies without the mutex, between the test and the \<open>wait\<close> of a
  worker.
\<close>

lemma destructor_runs:
  "\<exists>s. runs (constructed_pool 8 1 20 1) [Take 0 None, Stop, Notify_All, Block 0, Daemon_Test] s \<and>
     tp_workers s = [Asleep] \<and> tp_notifies s = 0 \<and> tp_daemon s = D_Gone \<and> tp_spawning s = 0 \<and> tp_joining s \<and>
     tp_isStop s"
  by (simp add: eval_pool)

text \<open>
  The default pool, when the daemon looks while the constructor is still starting threads: some of them, then
  the daemon, then the rest; every worker goes to wait; every \<open>commit\<close> wakes a worker, which ends.
\<close>

definition early_look :: "nat \<Rightarrow> 't handle \<Rightarrow> 't label list" where
  "early_look n h =
     replicate 5 Spawn @ [Daemon_Test, Daemon_Section []] @ replicate (n - 5) Spawn @
     concat (map (\<lambda>i. [Take i None, Block i]) [0..<n]) @
     concat (map (\<lambda>i. [Commit h, Notify (Some i), Resume i None]) [0..<n])"

lemma some_spawns:
  "k \<le> tp_spawning s \<Longrightarrow> runs s (replicate k Spawn)
     (s\<lparr>tp_workers := tp_workers s @ replicate k Ready, tp_threadNum := tp_threadNum s + of_nat k,
        tp_spawning := tp_spawning s - k\<rparr>)"
proof (induction k arbitrary: s)
  case (Suc k)
  from Suc.IH [of "effect Spawn s"] Suc.prems show ?case by (simp add: runs_exec spawn_def algebra_simps)
qed (simp add: runs_exec)

lemma all_go_to_wait:
  assumes "tp_workers s = replicate k Asleep @ replicate n Ready" and "tp_queue s = []" and "\<not> tp_isStop s"
  shows "runs s (concat (map (\<lambda>i. [Take i None, Block i]) [k..<k + n])) (s\<lparr>tp_workers := replicate (k + n) Asleep\<rparr>)"
  using assms
proof (induction n arbitrary: k s)
  case 0
  then show ?case by (simp add: runs_exec)
next
  case (Suc n)
  let ?s = "s\<lparr>tp_workers := replicate (Suc k) Asleep @ replicate n Ready\<rparr>"
  have u: "(replicate k Asleep @ Ready # replicate n Ready)[k := w] = replicate k Asleep @ w # replicate n Ready"
    for w :: "'a worker" by (simp add: list_update_append)
  have e: "[k..<k + Suc n] = k # [Suc k..<Suc k + n]" by (simp add: upt_conv_Cons del: upt_Suc)
  have 1: "runs s [Take k None, Block k] ?s"
    using Suc.prems by (simp add: runs_exec lock_free_def at_worker_def next_task_def worker_check_def set_worker_def
        nth_append list_update_append u replicate_app_Cons_same)
  have 2: "runs ?s (concat (map (\<lambda>i. [Take i None, Block i]) [Suc k..<Suc k + n]))
      (?s\<lparr>tp_workers := replicate (Suc k + n) Asleep\<rparr>)"
    using Suc.prems by (intro Suc.IH) simp_all
  from runs_trans [OF 1 2] show ?case unfolding e by simp
qed

lemma all_end:
  assumes "tp_workers s = replicate k Gone @ replicate n Asleep" and "\<not> tp_isStop s" and "tp_notifies s = 0"
    and "unat (tp_destroyedThreadNum s) = n" and "tp_threadNum s = of_nat n" and "tp_spawning s = 0"
  shows "runs s (concat (map (\<lambda>i. [Commit h, Notify (Some i), Resume i None]) [k..<k + n]))
     (s\<lparr>tp_workers := replicate (k + n) Gone, tp_destroyedThreadNum := 0, tp_threadNum := 0,
        tp_queue := tp_queue s @ replicate n h\<rparr>)"
  using assms
proof (induction n arbitrary: k s)
  case 0
  then have "tp_destroyedThreadNum s = 0" by (simp add: unat_eq_0)
  with 0 show ?case by (simp add: runs_exec)
next
  case (Suc n)
  let ?s = "s\<lparr>tp_workers := replicate (Suc k) Gone @ replicate n Asleep, tp_destroyedThreadNum := tp_destroyedThreadNum s - 1,
      tp_threadNum := of_nat n, tp_queue := tp_queue s @ [h]\<rparr>"
  have u: "(replicate k Gone @ x # replicate n Asleep)[k := w] = replicate k Gone @ w # replicate n Asleep"
    for w x :: "'a worker" by (simp add: list_update_append)
  have d: "tp_destroyedThreadNum s > 0" using Suc.prems(4) by (simp add: word_gt_0 flip: unat_gt_0)
  then have m: "unat (tp_destroyedThreadNum s - 1) = n" using Suc.prems(4) by (simp add: unat_minus_one word_gt_0)
  have e: "[k..<k + Suc n] = k # [Suc k..<Suc k + n]" by (simp add: upt_conv_Cons del: upt_Suc)
  have 1: "runs s [Commit h, Notify (Some k), Resume k None] ?s"
    using Suc.prems d by (simp add: runs_exec lock_free_def at_worker_def next_task_def worker_resume_def set_worker_def
        commit_push_def nth_append u replicate_app_Cons_same)
  have 2: "runs ?s (concat (map (\<lambda>i. [Commit h, Notify (Some i), Resume i None]) [Suc k..<Suc k + n]))
      (?s\<lparr>tp_workers := replicate (Suc k + n) Gone, tp_destroyedThreadNum := 0, tp_threadNum := 0,
        tp_queue := tp_queue ?s @ replicate n h\<rparr>)"
    using Suc.prems m by (intro Suc.IH) simp_all
  from runs_trans [OF 1 2] show ?case unfolding e by simp
qed

lemma early_look_runs:
  assumes "6 \<le> core" and "unat core < 2 ^ 29"
  shows "\<exists>s. runs (default_pool core) (early_look (unat core) h) s \<and> tp_queue s = replicate (unat core) h \<and>
     pcount is_alive s = 0 \<and> tp_spawning s = 0 \<and> \<not> tp_isStop s"
proof -
  let ?n = "unat core" and ?s0 = "default_pool core :: 'a pool"
  have n: "6 \<le> ?n" using assms(1) by (simp add: word_le_nat_alt)
  let ?s1 = "?s0\<lparr>tp_workers := replicate 5 Ready, tp_threadNum := 5, tp_spawning := ?n - 5\<rparr>"
  let ?s2 = "?s1\<lparr>tp_daemon := D_Sleep, tp_destroyedThreadNum := core\<rparr>"
  let ?s3 = "?s2\<lparr>tp_workers := replicate ?n Ready, tp_threadNum := core, tp_spawning := 0\<rparr>"
  let ?s4 = "?s3\<lparr>tp_workers := replicate ?n Asleep\<rparr>"
  let ?s5 = "?s4\<lparr>tp_workers := replicate ?n Gone, tp_destroyedThreadNum := 0, tp_threadNum := 0, tp_queue := replicate ?n h\<rparr>"
  have f: "tp_workers ?s0 = []" "tp_threadNum ?s0 = 0" "tp_spawning ?s0 = ?n" "tp_minThread ?s0 = core" "tp_batchSize ?s0 = core"
    "tp_workingThreadNum ?s0 = 0" "tp_daemon ?s0 = D_Loop" "tp_isStop ?s0 = False" "tp_queue ?s0 = []" "tp_notifies ?s0 = 0"
    by (simp_all add: default_pool_def new_pool_def)
  have r1: "runs ?s0 (replicate 5 Spawn) ?s1" using some_spawns [of 5 ?s0] n f by simp
  have w: "core \<le> 5 - core"
  proof -
    have "unat (5 - core) = 2 ^ 32 + 5 - ?n" using n assms(2) by (simp add: unat_sub_if_size word_le_nat_alt word_size)
    then show ?thesis using assms(2) by (simp add: word_le_nat_alt)
  qed
  have "runs ?s1 [Daemon_Test, Daemon_Section []] ?s2"
    using f w n by (simp add: runs_exec lock_free_def daemon_section_def wants_more_def wants_less_def reduce_thread_pool_def)
  from runs_trans [OF r1 this] have r2: "runs ?s0 (replicate 5 Spawn @ [Daemon_Test, Daemon_Section []]) ?s2" .
  have "replicate 5 Ready @ replicate (?n - 5) Ready = replicate ?n (Ready :: 'a worker)"
    using n by (simp flip: replicate_add)
  moreover have "5 + of_nat (?n - 5) = core" using n by (simp add: of_nat_diff)
  ultimately have "runs ?s2 (replicate (?n - 5) Spawn) ?s3" using some_spawns [of "?n - 5" ?s2] by simp
  from runs_trans [OF r2 this] have r3: "runs ?s0 (replicate 5 Spawn @ [Daemon_Test, Daemon_Section []] @ replicate (?n - 5) Spawn) ?s3" by simp
  have "runs ?s3 (concat (map (\<lambda>i. [Take i None, Block i]) [0..<?n])) ?s4"
    using all_go_to_wait [of ?s3 0 ?n] f by simp
  note r4 = runs_trans [OF r3 this]
  have "runs ?s4 (concat (map (\<lambda>i. [Commit h, Notify (Some i), Resume i None]) [0..<?n])) ?s5"
    using all_end [of ?s4 0 ?n h] f by simp
  from runs_trans [OF r4 this] have "runs ?s0 (early_look ?n h) ?s5" by (simp add: early_look_def)
  moreover have "pcount is_alive ?s5 = 0" by (simp add: pcount_def)
  ultimately show ?thesis using f by (intro exI [of _ ?s5]) simp
qed

lemma early_look_trace: "starts (early_look n (h :: 't handle)) = []"
proof -
  have "starts (replicate k (Spawn :: 't label)) = []" for k by (induction k) simp_all
  moreover have "starts (concat (map (\<lambda>i. [Take i None, Block i :: 't label]) is)) = []"
    "starts (concat (map (\<lambda>i. [Commit h, Notify (Some i), Resume i None]) is)) = []" for "is" by (induction "is") simp_all
  ultimately show ?thesis by (simp add: early_look_def trace_append)
qed

text \<open>What can still happen when every worker waits or is gone.\<close>

lemma all_asleep_steps:
  assumes "list_all (\<lambda>w. w = Asleep \<or> w = Gone) (tp_workers s)" and "tp_notifies s = 0" and "tp_spawning s = 0"
    and "guard l s"
  shows "l \<in> range Commit \<union> range Spurious \<union> {Daemon_Test, Daemon_Awake, Stop, Notify_All} \<union> range Daemon_Section"
proof -
  have no: "\<not> at_worker i w s" if "w \<noteq> Asleep" "w \<noteq> Gone" for i w
    using assms(1) that by (auto simp: at_worker_def list_all_length)
  show ?thesis
  proof (cases l)
    case (Notify w)
    with assms show ?thesis by (cases w) simp_all
  qed (use assms no in auto)
qed

subsection \<open>Properties\<close>

text \<open>
  C11: First in, first out, and nothing twice. In every run of a pool, whatever its settings, the
  tasks that were started are the first ones of those committed, in the order of the commits; the
  rest is in the queue; and every task that was started is running or has finished, so no task is
  lost or run twice.
\<close>
theorem pool_fifo:
  assumes "runs (new_pool core minT maxT batch) ls s"
  shows "commits ls = starts ls @ tp_queue s \<and> mset (starts ls) = running s + mset (finishes ls)"
  using runs_tasks [OF assms] by (simp add: new_pool_def running_def)

theorem pool_fifo_witness:
  "\<exists>s. runs (new_pool 8 1 4 1) [Spawn, Commit \<lparr>task = 5 :: nat, is_io_task = True\<rparr>, Notify None,
        Take 0 (Some \<lparr>task = 5, is_io_task = True\<rparr>)] s \<and> running s = {#\<lparr>task = 5, is_io_task = True\<rparr>#}"
proof -
  let ?ls = "[Spawn, Commit \<lparr>task = 5 :: nat, is_io_task = True\<rparr>, Notify None,
        Take 0 (Some \<lparr>task = 5, is_io_task = True\<rparr>)]"
  have "\<exists>s. runs (new_pool 8 1 4 1) ?ls s" by (simp add: spawn_def eval_pool)
  then obtain s where "runs (new_pool 8 1 4 1) ?ls s" ..
  with pool_fifo [OF this] show ?thesis by auto
qed

text \<open>
  C28: The minimum. In a pool that changes the number of its threads by no more than the minimum at a time,
  and whose daemon first looks at it after the constructor has started all threads (nothing in the code makes
  it wait for that), the minimum of threads is there from the end of the construction until the pool is stopped,
  even when all pending orders to end are obeyed.
\<close>
theorem pool_keeps_minimum:
  assumes "runs (new_pool core minT maxT batch) ls s" and "looks_after (unat minT) ls"
    and "batch \<le> minT" and "minT \<le> maxT" and "unat maxT + unat batch < 2 ^ 32"
    and "tp_spawning s = 0" and "\<not> tp_isStop s"
  shows "unat minT + unat (tp_destroyedThreadNum s) \<le> pcount is_alive s"
  using runs_keeps [OF assms(1-5)] runs_settings [OF assms(1)] assms(6,7)
  by (simp add: keeps_min_def new_pool_def)

theorem pool_keeps_minimum_witness:
  "\<exists>ls s. runs (new_pool 8 4 20 1) ls s \<and> tp_workers s = [Gone, Asleep, Asleep, Asleep, Asleep] \<and>
     unat (4 :: uint32) + unat (tp_destroyedThreadNum (s :: nat pool)) \<le> pcount is_alive s"
proof -
  obtain s where s: "runs (constructed_pool 8 4 20 1) stale_run s" "tp_workers s = [Gone, Asleep, Asleep, Asleep, Asleep]"
    "tp_spawning s = 0" "\<not> tp_isStop s" using stale_runs by blast
  have "looks_after 0 stale_run" by (simp add: stale_run_def Let_def replicate_numeral)
  with constructed_runs [OF s(1)] pool_keeps_minimum [OF constructed_runs(1) [OF s(1)] _ _ _ _ s(3,4)] s(2)
  show ?thesis by auto
qed

text \<open>
  A pool that lost its threads. Once no worker is left, none is ever made again: whatever
  happens afterwards, no task starts, and every task committed stays in the queue. (The witness is a pool
  of five threads with a step of six, which loses all its threads at the daemon's first look.)
\<close>
theorem dead_pool:
  assumes "runs (new_pool core minT maxT batch) ls s" and "minT \<le> maxT"
    and "unat maxT + unat batch < 2 ^ 32" and "tp_spawning s = 0" and "pcount is_alive s = 0"
    and "runs s ls' t"
  shows "starts ls' = [] \<and> tp_queue t = tp_queue s @ commits ls' \<and> pcount is_alive t = 0"
proof -
  have "no_threads s" using runs_ok [OF assms(1) new_pool_ok [OF assms(2,3)]] assms(4,5)
    by (simp add: no_threads_def)
  from no_threads_runs [OF assms(6) this] runs_tasks(1) [OF assms(6)] show ?thesis
    by (simp add: no_threads_def)
qed

theorem dead_pool_witness:
  "\<exists>s. runs (constructed_pool 12 5 20 6) underflow_run s \<and> tp_queue s = [\<lparr>task = 7, is_io_task = False\<rparr>] \<and>
     {h. \<exists>ls' t. runs s ls' t \<and> h \<in> set (starts ls')} = {}"
proof -
  obtain s where s: "runs (constructed_pool 12 5 20 6) underflow_run s" "pcount is_alive s = 0"
    "tp_queue s = [\<lparr>task = 7, is_io_task = False\<rparr>]" "tp_spawning s = 0" using underflow_runs by blast
  from runs_trans [OF constructed_reachable s(1)] have r: "runs (new_pool 12 5 20 6) (replicate (unat (5 :: uint32)) Spawn @ underflow_run) s" .
  have "starts ls' = []" if "runs s ls' t" for ls' t
    using dead_pool [OF r _ _ s(4,2) that] by simp
  with s show ?thesis by fastforce
qed

text \<open>
  C27: A pool that kills itself at the start. The default pool of a machine with six or more cores has a run
  in which the daemon looks at it when the constructor has started five of its threads: the number of threads
  less the step wraps around, the daemon orders as many threads to end as there will be, each of the first
  commits wakes a thread that obeys instead of taking the task, and from then on the pool, which nobody has
  stopped, has no thread and starts no task ever again.
\<close>
theorem startup_kills_pool:
  assumes "6 \<le> core" and "unat core < 2 ^ 29"
  shows "\<exists>ls s. runs (default_pool core) ls s \<and> commits ls = replicate (unat core) h \<and> starts ls = [] \<and>
     \<not> tp_isStop s \<and> pcount is_alive s = 0 \<and>
     (\<forall>ls' t. runs s ls' t \<longrightarrow> starts ls' = [] \<and> pcount is_alive t = 0 \<and> tp_queue t = replicate (unat core) h @ commits ls')"
proof -
  let ?n = "unat core"
  from early_look_runs [OF assms, of h] obtain s where
    s: "runs (default_pool core) (early_look ?n h) s" "tp_queue s = replicate ?n h" "pcount is_alive s = 0"
      "tp_spawning s = 0" "\<not> tp_isStop s" by blast
  have "unat (core * 5) = ?n * 5" using assms(2) unat_mult_lem [of core 5] by simp
  then have "core \<le> core * 5" "unat (core * 5) + ?n < 2 ^ 32" using assms(2) by (simp_all add: word_le_nat_alt)
  from runs_ok [OF s(1) [unfolded default_pool_def] new_pool_ok [OF this]] have "no_threads s"
    using s(3,4) by (simp add: no_threads_def)
  note dead = no_threads_runs [OF _ this]
  have "tp_queue t = replicate ?n h @ commits ls'" if "runs s ls' t" for ls' t
    using runs_tasks(1) [OF that] dead [OF that] s(2) by simp
  moreover have "commits (early_look ?n h) = replicate ?n h" "starts (early_look ?n h) = []"
    using runs_tasks(1) [OF s(1)] s(2) early_look_trace [of ?n h] by (simp_all add: default_pool_def new_pool_def)
  ultimately show ?thesis using s dead by (intro exI [of _ "early_look ?n h"] exI [of _ s]) (auto simp: no_threads_def)
qed

theorem startup_kills_pool_witness:
  "\<exists>ls s. runs (default_pool 8) ls s \<and> commits ls = replicate 8 \<lparr>task = 7 :: nat, is_io_task = False\<rparr> \<and> \<not> tp_isStop s \<and>
     {h. \<exists>ls' t. runs s ls' t \<and> h \<in> set (starts ls')} = {}"
  using startup_kills_pool [of 8 "\<lparr>task = 7, is_io_task = False\<rparr>"] by fastforce

text \<open>
  A task that waits although threads wait. In a pool of four to twenty threads with a step of
  one, a thread that was ordered to end before it began to wait obeys when the next \<open>commit\<close> wakes
  it. The task stays in the queue, the other four threads wait, and only another \<open>commit\<close>, the
  daemon or a spurious wake-up could change that.
\<close>
theorem commit_wakes_no_worker:
  "\<exists>ls s. runs (constructed_pool 8 4 20 1) ls s \<and> tp_queue s = [\<lparr>task = 9 :: nat, is_io_task = False\<rparr>] \<and>
     tp_notifies s = 0 \<and> \<not> tp_isStop s \<and> pcount is_alive s = 4 \<and>
     {l. guard l s} \<subseteq> range Commit \<union> range Spurious \<union> {Daemon_Awake, Stop}"
proof -
  obtain s where s: "runs (constructed_pool 8 4 20 1) stale_run s"
    "tp_queue s = [\<lparr>task = 9, is_io_task = False\<rparr>]" "tp_workers s = [Gone, Asleep, Asleep, Asleep, Asleep]"
    "tp_notifies s = 0" "tp_daemon s = D_Sleep" "tp_spawning s = 0" "\<not> tp_isStop s"
    using stale_runs by blast
  have "l \<in> range Commit \<union> range Spurious \<union> {Daemon_Awake, Stop}" if "guard l s" for l
    using all_asleep_steps [OF _ s(4,6) that] s(3,5,7) that by auto
  moreover have "pcount is_alive s = 4" by (simp add: pcount_def s(3))
  ultimately show ?thesis using s by blast
qed

text \<open>
  A destructor that does not return. When a worker has found the queue empty and not yet begun to wait,
  the destructor's \<open>notify_all\<close> passes it by. The worker then waits, the destructor waits for the worker, and
  without a new \<open>commit\<close> or a spurious wake-up nothing is left to happen.
\<close>
theorem destructor_blocks:
  "\<exists>ls (s :: nat pool). runs (constructed_pool 8 1 20 1) ls s \<and> tp_joining s \<and> pcount is_alive s = 1 \<and>
     {l. guard l s} \<subseteq> range Commit \<union> range Spurious \<union> {Stop}"
proof -
  obtain s :: "nat pool" where s: "runs (constructed_pool 8 1 20 1) [Take 0 None, Stop, Notify_All, Block 0, Daemon_Test] s"
    "tp_workers s = [Asleep]" "tp_notifies s = 0" "tp_daemon s = D_Gone" "tp_spawning s = 0" "tp_joining s"
    using destructor_runs by blast
  have "l \<in> range Commit \<union> range Spurious \<union> {Stop}" if "guard l s" for l
    using all_asleep_steps [OF _ s(3,5) that] s(2,4,6) that by auto
  moreover have "pcount is_alive s = 1" by (simp add: pcount_def s(2))
  ultimately show ?thesis using s(1,6) by blast
qed

end
