(* ===== verification/Pool_Progress.thy ===== *)
theory Pool_Progress
  imports Thread_Pool
begin

text \<open>
  Progress of the \<open>Thread_Pool\<close> (\<open>Core/Thread_Pool.cpp\<close>): in a pool that keeps its number of threads no
  committed task waits while a thread is idle; the default pool of a machine with up to five cores
  never grows for tasks that are not I/O tasks, so that as many endless tasks as cores stop it; and
  the destructor returns if no worker is about to wait when it notifies.
\<close>

subsection \<open>Pools that keep their threads\<close>

text \<open>Until it is stopped, the pool has its minimum of threads and no order to end one.\<close>

definition steady :: "'t pool \<Rightarrow> bool" where
  "steady s \<longleftrightarrow> tp_isStop s \<or>
     pcount is_alive s + tp_spawning s = unat (tp_minThread s) \<and> tp_destroyedThreadNum s = 0"

definition daemon_idle :: "'t pool \<Rightarrow> bool" where
  "daemon_idle s \<longleftrightarrow> \<not> wants_more s \<and> \<not> wants_less s"

lemma steady_same:
  assumes "steady s" and "pcount is_alive t = pcount is_alive s" and "tp_spawning t = tp_spawning s"
    and "tp_minThread t = tp_minThread s" and "tp_isStop t = tp_isStop s"
    and "tp_destroyedThreadNum t = tp_destroyedThreadNum s"
  shows "steady t"
  using assms by (auto simp: steady_def)

lemma steady_set:
  assumes "steady s" and "at_worker i w s" and "is_alive w" "is_alive w'" and "tp_workers s' = tp_workers s"
    and "tp_spawning s' = tp_spawning s" "tp_minThread s' = tp_minThread s" "tp_isStop s' = tp_isStop s"
    and "tp_destroyedThreadNum s' = tp_destroyedThreadNum s"
  shows "steady (set_worker i w' s')"
  using pcount_set [OF assms(2,5), of is_alive w'] assms(3,4,6-)
  by (intro steady_same [OF assms(1)]) (simp_all add: pool_simps)

lemma steady_check:
  assumes "steady s" and "at_worker i w s" and "is_alive w"
  shows "steady (worker_check i s)"
proof (cases "tp_isStop s")
  case True
  then show ?thesis by (simp add: worker_check_def steady_def pool_simps)
next
  case False
  with steady_set [OF assms] show ?thesis by (simp add: worker_check_def split: list.splits)
qed

lemma steady_resume:
  assumes "steady s" and "at_worker i Woken s"
  shows "steady (worker_resume i s)"
proof (cases "tp_isStop s")
  case True
  then show ?thesis by (simp add: worker_resume_def worker_check_def steady_def pool_simps)
next
  case False
  with assms(1) have "tp_destroyedThreadNum s = 0" by (simp add: steady_def)
  with steady_check [OF assms] show ?thesis by (simp add: worker_resume_def)
qed

lemma steady_step:
  assumes "steady s" and "guard l s" and "\<And>ws. l = Daemon_Section ws \<Longrightarrow> \<not> tp_isStop s \<Longrightarrow> daemon_idle s"
  shows "steady (effect l s)"
proof -
  have other: "steady t" if "tp_workers t = tp_workers s" "tp_spawning t = tp_spawning s"
    "tp_minThread t = tp_minThread s" "tp_isStop t = tp_isStop s"
    "tp_destroyedThreadNum t = tp_destroyedThreadNum s" for t
    using that by (intro steady_same [OF assms(1)]) (simp_all add: pcount_def)
  show ?thesis
  proof (cases l)
    case Spawn
    with assms(1,2) show ?thesis by (auto simp: steady_def spawn_def pcount_def)
  next
    case (Notify w)
    with assms(2) steady_set [OF assms(1), of _ Asleep Woken] show ?thesis
      by (cases w) (auto intro: other)
  next
    case Notify_All
    with wake_all_count [where P = is_alive and s = s and b = True] show ?thesis
      by (auto intro: steady_same [OF assms(1)])
  next
    case (Finish i h)
    with assms(2) steady_set [OF assms(1), of i "Busy h" Ready] show ?thesis
      by (simp add: worker_finish_def)
  next
    case Stop
    then show ?thesis by (simp add: steady_def pool_stop_def)
  next
    case (Daemon_Section ws)
    show ?thesis
    proof (cases "tp_isStop s")
      case True
      with Daemon_Section show ?thesis by (simp add: steady_def section_settings)
    next
      case False
      from assms(3) [OF Daemon_Section this] have "daemon_section ws s = s"
        by (simp add: daemon_section_def daemon_idle_def)
      with Daemon_Section show ?thesis by (auto intro: other)
    qed
  qed (use assms(2) steady_set [OF assms(1), of _ Asleep Woken] steady_set [OF assms(1), of _ Checked Asleep]
        steady_check [OF assms(1)] steady_resume [OF assms(1)] in \<open>auto intro: other simp: commit_push_def\<close>)
qed

lemma daemon_idle_kept:
  assumes "unat (tp_threadNum s) = unat (tp_minThread s)" and "0 < tp_batchSize s"
    and "tp_batchSize s \<le> tp_minThread s"
  shows "\<not> wants_less s"
proof -
  from assms(1,3) have "tp_batchSize s \<le> tp_threadNum s" by (simp add: word_le_nat_alt)
  from unat_sub [OF this] assms show ?thesis
    by (auto simp: wants_less_def word_le_nat_alt word_less_nat_alt)
qed

text \<open>First: the maximum leaves no room for a step.\<close>

lemma fixed_idle:
  assumes "pool_ok s" and "steady s" and "\<not> tp_isStop s" and "tp_spawning s = 0"
    and "tp_batchSize s \<le> tp_minThread s" "tp_minThread s \<le> tp_maxThread s"
    and "unat (tp_maxThread s) < unat (tp_minThread s) + unat (tp_batchSize s)"
  shows "daemon_idle s"
proof -
  have n: "unat (tp_threadNum s) = unat (tp_minThread s)"
    using assms(2-4) pool_ok_small(1) [OF assms(1)] by (simp add: steady_def)
  have "unat (tp_maxThread s) + unat (tp_batchSize s) < 2 ^ 32" using assms(1) by (simp add: pool_ok_def)
  then have "unat (tp_threadNum s + tp_batchSize s) = unat (tp_threadNum s) + unat (tp_batchSize s)"
    using n assms(6) by (intro unat_add_lem [THEN iffD1]) (simp add: word_le_nat_alt)
  then have "\<not> wants_more s" using n assms(7) by (simp add: wants_more_def word_le_nat_alt)
  moreover have "0 < tp_batchSize s" using assms(6,7) by (simp add: word_le_nat_alt word_less_nat_alt)
  ultimately show ?thesis using daemon_idle_kept [OF n _ assms(5)] by (simp add: daemon_idle_def)
qed

lemma fixed_section_idle:
  assumes "runs (new_pool core minT maxT batch) ls t" and "steady t" and "looks_after (unat minT) (ls @ [l])"
    and "batch \<le> minT" "minT \<le> maxT" "unat maxT < unat minT + unat batch" "unat maxT + unat batch < 2 ^ 32"
    and "l = Daemon_Section ws" and "\<not> tp_isStop t"
  shows "daemon_idle t"
proof -
  have "tp_minThread t = minT" "tp_maxThread t = maxT" "tp_batchSize t = batch"
    using runs_settings [OF assms(1)] by (simp_all add: new_pool_def)
  moreover have "pool_ok t" by (rule runs_ok [OF assms(1) new_pool_ok [OF assms(5,7)]])
  moreover have "tp_spawning t = 0" using section_after [OF assms(1), of ws] assms(3,8) by simp
  ultimately show ?thesis using fixed_idle [of t] assms(2,4-6,9) by simp
qed

lemma fixed_steady:
  assumes "runs (new_pool core minT maxT batch) ls s" and "looks_after (unat minT) ls"
    and "batch \<le> minT" "minT \<le> maxT" "unat maxT < unat minT + unat batch" "unat maxT + unat batch < 2 ^ 32"
  shows "steady s"
  using assms(1,2)
proof (induction "new_pool core minT maxT batch :: 'a pool" ls s rule: runs.induct)
  case none
  show ?case by (simp add: steady_def new_pool_def pcount_def)
next
  case (step ls t l)
  have st: "steady t" using step(2,4) by (simp add: looks_after_append)
  show ?case by (rule steady_step [OF st step(3) fixed_section_idle [OF step(1) st step(4) assms(3-6)]])
qed

subsection \<open>Wake-ups\<close>

lemma in_workers_at: "w \<in> set (tp_workers s) \<longleftrightarrow> (\<exists>i. at_worker i w s)"
  by (auto simp: at_worker_def in_set_conv_nth)

fun is_ready :: "'t worker \<Rightarrow> bool" where
  "is_ready Ready \<longleftrightarrow> True"
| "is_ready Woken \<longleftrightarrow> True"
| "is_ready _ \<longleftrightarrow> False"

text \<open>
  While threads wait, every queued task has a notification or a thread that will look at the queue;
  and a thread that is about to wait has seen the queue empty.
\<close>

definition awake :: "'t pool \<Rightarrow> bool" where
  "awake s \<longleftrightarrow> tp_isStop s \<or>
     (Checked \<in> set (tp_workers s) \<longrightarrow> tp_queue s = []) \<and>
     (Asleep \<in> set (tp_workers s) \<longrightarrow> length (tp_queue s) \<le> tp_notifies s + pcount is_ready s)"

lemma in_set_worker: "w \<in> set (tp_workers (set_worker i w' s)) \<Longrightarrow> w = w' \<or> w \<in> set (tp_workers s)"
  using set_update_subset_insert by (fastforce simp: pool_simps)

lemma awake_set:
  assumes "awake s" and "at_worker i w s" and "w' \<noteq> Checked" "w' \<noteq> Asleep"
    and "tp_workers s' = tp_workers s" "tp_isStop s' = tp_isStop s"
    and "length (tp_queue s') + tp_notifies s + of_bool (is_ready w)
      \<le> length (tp_queue s) + tp_notifies s' + of_bool (is_ready w')"
    and "tp_queue s = [] \<Longrightarrow> tp_queue s' = []"
  shows "awake (set_worker i w' s')"
proof -
  have "Asleep \<in> set (tp_workers (set_worker i w' s')) \<Longrightarrow> Asleep \<in> set (tp_workers s)"
    "Checked \<in> set (tp_workers (set_worker i w' s')) \<Longrightarrow> Checked \<in> set (tp_workers s)"
    using in_set_worker [of _ i w' s'] assms(3-5) by auto
  with assms(1,6-8) pcount_set [OF assms(2,5), of is_ready w'] show ?thesis
    by (auto simp: awake_def pool_simps)
qed

lemma awake_grow:
  assumes "awake s" and "tp_isStop t = tp_isStop s" and "tp_queue t = tp_queue s"
    and "tp_notifies s + pcount is_ready s \<le> tp_notifies t + pcount is_ready t"
    and "Asleep \<in> set (tp_workers t) \<Longrightarrow> Asleep \<in> set (tp_workers s)"
    and "Checked \<in> set (tp_workers t) \<Longrightarrow> Checked \<in> set (tp_workers s)"
  shows "awake t"
  using assms by (auto simp: awake_def)

lemma awake_check:
  assumes "awake s" and "at_worker i w s" and "w = Ready \<or> w = Woken"
  shows "awake (worker_check i s)"
proof (cases "tp_isStop s \<or> tp_queue s = []")
  case True
  then show ?thesis by (auto simp: worker_check_def awake_def pool_simps)
next
  case False
  then obtain h q where "tp_queue s = h # q" "\<not> tp_isStop s" by (cases "tp_queue s") auto
  with awake_set [OF assms(1,2)] assms(3) show ?thesis by (auto simp: worker_check_def)
qed

lemma awake_step:
  assumes "awake s" and "guard l s"
    and "\<And>ws. l = Daemon_Section ws \<Longrightarrow> \<not> tp_isStop s \<Longrightarrow> daemon_idle s"
    and "\<not> tp_isStop s \<Longrightarrow> tp_destroyedThreadNum s = 0"
  shows "awake (effect l s)"
proof (cases "tp_isStop s")
  case True
  then have "tp_isStop (effect l s)"
    by (cases "(l, s)" rule: effect.cases)
      (auto simp: pool_simps worker_check_def worker_resume_def worker_finish_def commit_push_def pool_stop_def
        spawn_def section_settings split: list.splits)
  then show ?thesis by (simp add: awake_def)
next
  case False
  note same = awake_grow [OF assms(1)]
  show ?thesis
  proof (cases l)
    case (Notify w)
    show ?thesis
    proof (cases w)
      case None
      with Notify assms(1,2) show ?thesis by (auto simp: awake_def)
    next
      case (Some i)
      with Notify assms(2) awake_set [OF assms(1), of i Asleep Woken "s\<lparr>tp_notifies := tp_notifies s - 1\<rparr>"]
      show ?thesis by simp
    qed
  next
    case (Block i)
    then have "Checked \<in> set (tp_workers s)" using assms(2) by (auto simp: in_workers_at)
    with False assms(1) have "tp_queue s = []" by (simp add: awake_def)
    with Block show ?thesis by (simp add: awake_def pool_simps)
  next
    case (Commit h)
    with assms(1,2) show ?thesis
      by (auto simp: awake_def commit_push_def lock_free_def pcount_def)
  next
    case (Resume i h)
    with assms(2,4) False awake_check [OF assms(1), of i Woken] show ?thesis by (simp add: worker_resume_def)
  next
    case (Finish i h)
    with assms(2) awake_set [OF assms(1), of i "Busy h" Ready] show ?thesis by (simp add: worker_finish_def)
  next
    case (Daemon_Section ws)
    from assms(3) [OF Daemon_Section False] have "daemon_section ws s = s" by (simp add: daemon_section_def daemon_idle_def)
    with Daemon_Section show ?thesis by (auto intro: same simp: pcount_def)
  next
    case Notify_All
    with assms(2) False show ?thesis by simp
  next
    case Stop
    then show ?thesis by (simp add: awake_def pool_stop_def)
  qed (use assms(2) awake_set [OF assms(1), of _ Asleep Woken] awake_check [OF assms(1)]
       in \<open>auto intro: same simp: spawn_def pcount_def\<close>)
qed

lemma fixed_awake:
  assumes "runs (new_pool core minT maxT batch) ls s" and "looks_after (unat minT) ls"
    and "batch \<le> minT" "minT \<le> maxT" "unat maxT < unat minT + unat batch" "unat maxT + unat batch < 2 ^ 32"
  shows "awake s"
  using assms(1,2)
proof (induction "new_pool core minT maxT batch :: 'a pool" ls s rule: runs.induct)
  case none
  show ?case by (simp add: awake_def new_pool_def)
next
  case (step ls t l)
  have l: "looks_after (unat minT) ls" and aw: "awake t" using step(2,4) by (simp_all add: looks_after_append)
  have st: "steady t" by (rule fixed_steady [OF step(1) l assms(3-6)])
  then have d: "\<not> tp_isStop t \<Longrightarrow> tp_destroyedThreadNum t = 0" by (simp add: steady_def)
  show ?case by (rule awake_step [OF aw step(3) fixed_section_idle [OF step(1) st step(4) assms(3-6)] d])
qed

lemma idle_worker:
  assumes "pcount is_busy s < pcount is_alive s"
  shows "\<exists>i w. at_worker i w s \<and> (w = Ready \<or> w = Woken \<or> w = Checked \<or> w = Asleep)"
proof (rule ccontr)
  assume no: "\<not> ?thesis"
  have "is_alive w = is_busy w" if "w \<in> set (tp_workers s)" for w
  proof -
    from that obtain i where "at_worker i w s" by (auto simp: in_workers_at)
    with no show ?thesis by (cases w) auto
  qed
  then have "pcount is_alive s = pcount is_busy s"
    unfolding pcount_def by (metis (mono_tags, lifting) filter_cong)
  with assms show False by simp
qed

text \<open>From such a state two steps are enough to start the next task.\<close>

lemma awake_starts:
  assumes "awake s" and "\<not> tp_isStop s" "tp_destroyedThreadNum s = 0" and "tp_queue s = h # q"
    and "pcount is_busy s < pcount is_alive s"
  shows "\<exists>i ls' t. ls' \<in> {[Take i (Some h)], [Resume i (Some h)], [Notify (Some i), Resume i (Some h)]} \<and>
     runs s ls' t"
proof -
  have free: "lock_free s" using assms(1,2,4) by (auto simp: awake_def lock_free_def)
  from idle_worker [OF assms(5)] obtain i w where
    w: "at_worker i w s" "w = Ready \<or> w = Woken \<or> w = Checked \<or> w = Asleep" by blast
  have use: "\<exists>i ls' t. ls' \<in> {[Take i (Some h)], [Resume i (Some h)], [Notify (Some i), Resume i (Some h)]} \<and>
     runs s ls' t" if "at_worker j v s" "v = Ready \<or> v = Woken" for j v
    using that free assms(2-4) by (cases v) (fastforce simp: runs_exec next_task_def)+
  show ?thesis
  proof (cases "pcount is_ready s = 0")
    case False
    then obtain v where "v \<in> set (tp_workers s)" "is_ready v"
      by (auto simp: pcount_def filter_empty_conv)
    moreover from \<open>v \<in> set (tp_workers s)\<close> obtain j where "at_worker j v s" by (auto simp: in_workers_at)
    moreover have "v = Ready \<or> v = Woken" using \<open>is_ready v\<close> by (cases v) simp_all
    ultimately show ?thesis using use by blast
  next
    case True
    have "w \<in> set (tp_workers s)" using w(1) by (auto simp: in_workers_at)
    with True free w(2) have "w = Asleep" by (auto simp: pcount_def filter_empty_conv lock_free_def)
    with w(1) have a: "at_worker i Asleep s" by simp
    then have "Asleep \<in> set (tp_workers s)" by (auto simp: in_workers_at)
    with assms(1,2,4) True have n: "tp_notifies s > 0" by (simp add: awake_def)
    have "lock_free (set_worker i Woken (s\<lparr>tp_notifies := tp_notifies s - 1\<rparr>))"
      using free in_set_worker [of Checked i Woken "s\<lparr>tp_notifies := tp_notifies s - 1\<rparr>"]
      by (auto simp: lock_free_def)
    with a n assms(2-4) have "\<exists>t. runs s [Notify (Some i), Resume i (Some h)] t"
      by (auto simp: runs_exec next_task_def pool_simps at_worker_def)
    then show ?thesis by blast
  qed
qed

subsection \<open>The default pool of a small machine\<close>

lemma busy_running: "pcount is_busy s = size (running s)"
proof -
  have "length (filter is_busy ws) = size (\<Sum>\<^sub># (image_mset task_of (mset ws)))" for ws :: "'a worker list"
  proof (induction ws)
    case (Cons w ws)
    then show ?case by (cases w) simp_all
  qed simp
  then show ?thesis by (simp add: pcount_def running_def)
qed

lemma busy_io_running: "(\<And>h. h \<in># running s \<Longrightarrow> \<not> is_io_task h) \<Longrightarrow> pcount is_busy_io s = 0"
proof -
  have "(\<And>h. h \<in># \<Sum>\<^sub># (image_mset task_of (mset ws)) \<Longrightarrow> \<not> is_io_task h) \<Longrightarrow> filter is_busy_io ws = []"
    for ws :: "'a worker list"
  proof (induction ws)
    case (Cons w ws)
    then show ?case by (cases w) auto
  qed simp
  then show "(\<And>h. h \<in># running s \<Longrightarrow> \<not> is_io_task h) \<Longrightarrow> pcount is_busy_io s = 0"
    by (simp add: pcount_def running_def)
qed

lemma started_committed:
  assumes "runs (default_pool core) ls s"
  shows "commits ls = starts ls @ tp_queue s" and "mset (starts ls) = running s + mset (finishes ls)"
  using runs_tasks [OF assms] by (simp_all add: default_pool_def new_pool_def running_def)

lemma running_started:
  assumes "runs (default_pool core) ls s" and "h \<in># running s"
  shows "h \<in> set (commits ls)"
proof -
  from started_committed(2) [OF assms(1)] assms(2) have "h \<in># mset (starts ls)" by simp
  then show ?thesis by (simp add: started_committed(1) [OF assms(1)])
qed

lemma small_cores:
  assumes "1 \<le> core" and "core \<le> (5 :: uint32)"
  shows "core \<le> core * 5" and "unat (core * 5) + unat core < 2 ^ 32" and "unat core \<le> 5" and "0 < unat core"
proof -
  show u: "unat core \<le> 5" using assms(2) by (simp add: word_le_nat_alt)
  show "0 < unat core" using assms(1) by (simp add: word_le_nat_alt)
  have "unat (core * 5) = unat core * 5"
    using u unat_mult_lem [of core 5] by simp
  with u show "core \<le> core * 5" "unat (core * 5) + unat core < 2 ^ 32" by (simp_all add: word_le_nat_alt)
qed

lemma default_settings:
  assumes "runs (default_pool core) ls s"
  shows "tp_minThread s = core" "tp_maxThread s = core * 5" "tp_batchSize s = core" "tp_hardwareCore s = core"
  using runs_settings [OF assms] by (simp_all add: default_pool_def new_pool_def)

text \<open>Four fifths of at most five threads, cut, are one thread less.\<close>

lemma default_idle:
  assumes "pool_ok s" and "steady s" and "\<not> tp_isStop s"
    and "tp_minThread s = core" "tp_batchSize s = core" "tp_hardwareCore s = core"
    and "1 \<le> core" "core \<le> 5" and "pcount is_busy_io s = 0"
  shows "daemon_idle s"
proof -
  note small = pool_ok_small [OF assms(1)]
  have c: "unat core \<in> {1, 2, 3, 4, 5}" using small_cores [OF assms(7,8)] by auto
  have alive: "pcount is_alive s + tp_spawning s = unat core" using assms(2-4) by (simp add: steady_def)
  have io: "tp_ioTaskNum s = 0" using assms(1,9) by (simp add: pool_ok_def)
  show ?thesis
  proof (cases "tp_spawning s = 0")
    case True
    then have n: "unat (tp_threadNum s) = unat core" using alive small(1) by simp
    then have "\<not> wants_more s" using c io small(2) assms(6)
      by (auto simp: wants_more_def word_less_nat_alt)
    moreover have "0 < tp_batchSize s" using assms(5) c by (auto simp: word_less_nat_alt)
    ultimately show ?thesis using daemon_idle_kept [of s] n assms(4,5) by (simp add: daemon_idle_def)
  next
    case False
    then have "pcount is_busy s = 0" using assms(1) by (auto simp: pool_ok_def)
    with False alive small(1,2) c show ?thesis
      by (auto simp: daemon_idle_def wants_more_def wants_less_def)
  qed
qed

lemma default_steady:
  assumes "runs (default_pool core) ls s" and "1 \<le> core" "core \<le> 5"
    and "\<forall>h \<in> set (commits ls). \<not> is_io_task h"
  shows "pool_ok s \<and> steady s"
  using assms(1,4)
proof (induction "default_pool core :: 'a pool" ls s rule: runs.induct)
  case none
  then show ?case using small_cores [OF assms(2,3)] new_pool_ok [of core "core * 5" core core]
    by (simp add: default_pool_def steady_def new_pool_def pcount_def)
next
  case (step ls t l)
  then have ok: "pool_ok t" "steady t" by (simp_all add: trace_append)
  have "pcount is_busy_io t = 0"
    using busy_io_running [of t] running_started [OF step(1)] step(4) by (auto simp: trace_append)
  from default_idle [OF ok _ _ _ _ assms(2,3) this] default_settings [OF step(1)]
  have "\<not> tp_isStop t \<Longrightarrow> daemon_idle t" by blast
  with ok steady_step [OF ok(2) step(3)] effect_ok [OF ok(1) step(3)] show ?case by simp
qed

lemma default_awake:
  assumes "runs (default_pool core) ls s" and "1 \<le> core" "core \<le> 5"
    and "\<forall>h \<in> set (commits ls). \<not> is_io_task h"
  shows "awake s"
  using assms(1,4)
proof (induction "default_pool core :: 'a pool" ls s rule: runs.induct)
  case none
  then show ?case by (simp add: awake_def default_pool_def new_pool_def)
next
  case (step ls t l)
  then have c: "\<forall>h \<in> set (commits ls). \<not> is_io_task h" and aw: "awake t" by (simp_all add: trace_append)
  have ok: "pool_ok t" "steady t" using default_steady [OF step(1) assms(2,3) c] by simp_all
  have "pcount is_busy_io t = 0" using busy_io_running [of t] running_started [OF step(1)] c by auto
  from default_idle [OF ok _ _ _ _ assms(2,3) this] default_settings [OF step(1)]
  have i: "\<not> tp_isStop t \<Longrightarrow> daemon_idle t" by blast
  have "\<not> tp_isStop t \<Longrightarrow> tp_destroyedThreadNum t = 0" using ok(2) by (simp add: steady_def)
  from awake_step [OF aw step(3) i this] show ?case .
qed

text \<open>A thread that is free starts the next task in at most two steps.\<close>

lemma default_starts:
  assumes "runs (default_pool core) ls s" and "1 \<le> core" "core \<le> 5"
    and "\<forall>h \<in> set (commits ls). \<not> is_io_task h"
    and "\<not> tp_isStop s" "tp_spawning s = 0" and "tp_queue s = h # q" and "pcount is_busy s < unat core"
  shows "\<exists>i ls' t. ls' \<in> {[Take i (Some h)], [Resume i (Some h)], [Notify (Some i), Resume i (Some h)]} \<and>
     runs s ls' t"
proof -
  have "steady s" using default_steady [OF assms(1-4)] by simp
  then have d: "pcount is_alive s = unat core" "tp_destroyedThreadNum s = 0"
    using assms(5,6) default_settings(1) [OF assms(1)] by (simp_all add: steady_def)
  with assms(8) show ?thesis
    by (intro awake_starts [OF default_awake [OF assms(1-4)] assms(5) d(2) assms(7)]) simp
qed

subsection \<open>Endless tasks\<close>

text \<open>
  A start needs a pool that is not stopped and a worker that is free, so that not all its threads
  are taken by tasks that never end.
\<close>

lemma next_task_running: "next_task s = Some h \<Longrightarrow> \<not> tp_isStop s"
  by (auto simp: next_task_def)

lemma start_step:
  assumes "guard l s" and "starts [l] \<noteq> []"
  obtains i w h where "\<not> tp_isStop s" "at_worker i w s" "w = Ready \<or> w = Woken" "starts [l] = [h]"
proof (cases l)
  case (Take i h)
  with assms obtain a where a: "h = Some a" "next_task s = Some a" by (cases h) auto
  with next_task_running [OF a(2)] Take assms(1) that [of i Ready a] show ?thesis by simp
next
  case (Resume i h)
  with assms obtain a where a: "h = Some a" "next_task s = Some a" by (cases h) (auto split: if_splits)
  from Resume assms(1) have "at_worker i Woken s" by simp
  with that [of i Woken a] next_task_running [OF a(2)] Resume a(1) show ?thesis by simp
qed (use assms in simp_all)

lemma free_worker: "at_worker i w s \<Longrightarrow> is_alive w \<Longrightarrow> \<not> is_busy w \<Longrightarrow> pcount is_busy s < pcount is_alive s"
  using pcount_set [of i w s s is_alive Gone] pcount_set [of i w s s is_busy Gone]
    busy_le(2) [of "set_worker i Gone s"] by simp

lemma endless_fill:
  assumes "runs (default_pool core) ls s" and "1 \<le> core" "core \<le> 5"
    and "\<forall>h \<in> set (commits ls). \<not> is_io_task h"
    and "\<forall>h \<in> set (finishes ls). \<not> endless h"
    and "\<forall>h \<in> set (take (unat core) (commits ls)). endless h"
  shows "length (starts ls) \<le> unat core"
  using assms(1,4-6)
proof (induction "default_pool core :: 'a pool" ls s rule: runs.induct)
  case (step ls t l)
  have co: "commits ls = starts ls @ tp_queue t" using started_committed(1) [OF step(1)] .
  have e: "endless h" if "h \<in> set (take (unat core) (starts ls))" for h
    using that step(6) by (auto simp: trace_append co)
  have "\<forall>h \<in> set (take (unat core) (commits ls)). endless h" using step(6) by (auto simp: trace_append)
  then have IH: "length (starts ls) \<le> unat core" using step(2,4,5) by (auto simp: trace_append)
  show ?case
  proof (cases "starts [l] = [] \<or> length (starts ls) < unat core")
    case True
    moreover have "length (starts [l]) \<le> 1" using start_step [OF step(3)] by fastforce
    ultimately show ?thesis using IH by (auto simp: trace_append)
  next
    case False
    then have n: "length (starts ls) = unat core" using IH by simp
    from False obtain i w h where w: "\<not> tp_isStop t" "at_worker i w t" "w = Ready \<or> w = Woken"
      using start_step [OF step(3)] by blast
    have "mset (finishes ls) = {#}"
    proof (rule ccontr)
      assume "mset (finishes ls) \<noteq> {#}"
      then obtain h where "h \<in># mset (finishes ls)" by (rule multiset_nonemptyE)
      then have "h \<in># mset (starts ls)" "h \<in> set (finishes ls)"
        using started_committed(2) [OF step(1)] by simp_all
      then have "h \<in> set (starts ls)" "h \<in> set (finishes ls)" by simp_all
      with e n step(5) show False by (auto simp: trace_append)
    qed
    then have "pcount is_busy t = unat core"
      using started_committed(2) [OF step(1)] n by (simp add: busy_running flip: size_mset)
    moreover have "pcount is_alive t \<le> unat core"
      using default_steady [OF step(1) assms(2,3)] w(1) default_settings(1) [OF step(1)] step(4)
      by (auto simp: steady_def trace_append)
    moreover have "pcount is_busy t < pcount is_alive t" using free_worker [OF w(2)] w(3) by auto
    ultimately show ?thesis by simp
  qed
qed simp

subsection \<open>The end of the destructor\<close>

text \<open>
  The joins return when every thread has returned; then the queue is popped empty and \<open>_threads\<close> cleared.
\<close>

fun pop_all :: "'t handle list \<Rightarrow> 't handle list" where
  "pop_all [] = []"
| "pop_all (h # q) = pop_all q"

definition destructor_end :: "'t pool \<Rightarrow> 't pool option" where
  "destructor_end s =
     (if tp_joining s \<and> tp_daemon s = D_Gone \<and> list_all (\<lambda>w. w = Gone) (tp_workers s)
      then Some (s\<lparr>tp_queue := pop_all (tp_queue s), tp_workers := []\<rparr>) else None)"

lemma pop_all_empty: "pop_all q = []"
  by (induction q) simp_all

text \<open>
  What is left to do: two steps for a thread with a task, one for any other; for the daemon its way
  to its next test, on which it may still start \<open>batchSize\<close> threads.
\<close>

fun steps_left :: "'t worker \<Rightarrow> nat" where
  "steps_left (Busy h) = 2"
| "steps_left Gone = 0"
| "steps_left _ = 1"

fun daemon_left :: "nat \<Rightarrow> daemon \<Rightarrow> nat" where
  "daemon_left batch D_Lock = batch + 3"
| "daemon_left batch D_Sleep = 2"
| "daemon_left batch D_Loop = 1"
| "daemon_left batch D_Gone = 0"

definition shutdown_work :: "'t pool \<Rightarrow> nat" where
  "shutdown_work s = sum_list (map steps_left (tp_workers s)) + daemon_left (unat (tp_batchSize s)) (tp_daemon s)"

text \<open>The steps of the pool's own threads.\<close>

fun thread_step :: "'t label \<Rightarrow> bool" where
  "thread_step (Take i h) \<longleftrightarrow> True"
| "thread_step (Resume i h) \<longleftrightarrow> True"
| "thread_step (Block i) \<longleftrightarrow> True"
| "thread_step (Finish i h) \<longleftrightarrow> True"
| "thread_step Daemon_Test \<longleftrightarrow> True"
| "thread_step (Daemon_Section ws) \<longleftrightarrow> True"
| "thread_step Daemon_Awake \<longleftrightarrow> True"
| "thread_step l \<longleftrightarrow> False"

text \<open>The state behind a \<open>notify_all\<close> that reached every worker.\<close>

definition shutting_down :: "'t pool \<Rightarrow> bool" where
  "shutting_down s \<longleftrightarrow> tp_isStop s \<and> tp_joining s \<and> tp_spawning s = 0 \<and>
     Checked \<notin> set (tp_workers s) \<and> Asleep \<notin> set (tp_workers s)"

lemma shutdown_set:
  assumes "shutting_down s" and "at_worker i w s" and "steps_left w = Suc (steps_left w')"
    and "w' \<noteq> Checked" "w' \<noteq> Asleep" and "tp_workers s' = tp_workers s" "tp_isStop s' = tp_isStop s"
    "tp_joining s' = tp_joining s" "tp_spawning s' = tp_spawning s" "tp_daemon s' = tp_daemon s"
    "tp_batchSize s' = tp_batchSize s"
  shows "shutting_down (set_worker i w' s') \<and> Suc (shutdown_work (set_worker i w' s')) = shutdown_work s"
proof -
  have "i < length (tp_workers s)" "tp_workers s ! i = w" using assms(2) by (simp_all add: at_worker_def)
  with sum_list_update_nat [of i "tp_workers s" steps_left w'] assms(3)
  have "Suc (sum_list (map steps_left ((tp_workers s)[i := w']))) = sum_list (map steps_left (tp_workers s))" by simp
  moreover have "Checked \<notin> set (tp_workers (set_worker i w' s'))" "Asleep \<notin> set (tp_workers (set_worker i w' s'))"
    using in_set_worker [of _ i w' s'] assms(1,4-6) by (auto simp: shutting_down_def)
  ultimately show ?thesis using assms(1,6-) by (simp add: shutting_down_def shutdown_work_def pool_simps)
qed

lemma shutdown_section:
  assumes "shutting_down s" and "guard (Daemon_Section ws) s"
  shows "shutting_down (effect (Daemon_Section ws) s) \<and>
     Suc (shutdown_work (effect (Daemon_Section ws) s)) \<le> shutdown_work s"
proof -
  have "ws = []" using assms by (cases ws) (auto simp: shutting_down_def in_workers_at)
  then have "daemon_section ws s = s \<or>
      (\<exists>n. daemon_section ws s = expend_thread_pool (unat (tp_batchSize s)) s) \<or>
      daemon_section ws s = s\<lparr>tp_destroyedThreadNum := tp_batchSize s\<rparr>"
    by (simp add: daemon_section_def reduce_thread_pool_def)
  with assms show ?thesis
    by (auto simp: shutting_down_def shutdown_work_def expend_fields sum_list_replicate)
qed

lemma shutdown_step:
  assumes "shutting_down s" and "guard l s"
  shows "shutting_down (effect l s)"
    and "shutdown_work (effect l s) + of_bool (thread_step l) \<le> shutdown_work s"
proof -
  have chk: "worker_check i s = set_worker i Gone (s\<lparr>tp_threadNum := tp_threadNum s - 1\<rparr>)" for i
    using assms(1) by (simp add: worker_check_def shutting_down_def)
  have no: "\<not> at_worker i Asleep s" "\<not> at_worker i Checked s" for i
    using assms(1) by (auto simp: shutting_down_def in_workers_at)
  note set = shutdown_set [OF assms(1)]
  have "shutting_down (effect l s) \<and> shutdown_work (effect l s) + of_bool (thread_step l) \<le> shutdown_work s"
  proof (cases l)
    case (Take i h)
    with assms(2) set [of i Ready Gone "s\<lparr>tp_threadNum := tp_threadNum s - 1\<rparr>"] show ?thesis by (simp add: chk)
  next
    case (Resume i h)
    with assms(2) set [of i Woken Gone "s\<lparr>tp_threadNum := tp_threadNum s - 1\<rparr>"]
      set [of i Woken Gone "s\<lparr>tp_destroyedThreadNum := tp_destroyedThreadNum s - 1,
        tp_threadNum := tp_threadNum s - 1\<rparr>"] show ?thesis by (simp add: worker_resume_def chk)
  next
    case (Finish i h)
    with assms(2) set [of i "Busy h" Ready "s\<lparr>tp_ioTaskNum := (if is_io_task h then tp_ioTaskNum s - 1 else tp_ioTaskNum s),
          tp_workingThreadNum := tp_workingThreadNum s - 1\<rparr>"] show ?thesis by (simp add: worker_finish_def)
  next
    case (Notify w)
    with assms no show ?thesis by (cases w) (auto simp: shutting_down_def shutdown_work_def)
  next
    case (Daemon_Section ws)
    with assms shutdown_section [OF assms(1), of ws] show ?thesis by simp
  qed (use assms no in \<open>auto simp: shutting_down_def shutdown_work_def commit_push_def pool_stop_def\<close>)
  then show "shutting_down (effect l s)"
    "shutdown_work (effect l s) + of_bool (thread_step l) \<le> shutdown_work s" by simp_all
qed

lemma shutdown_runs:
  "runs s ls t \<Longrightarrow> shutting_down s \<Longrightarrow>
     shutting_down t \<and> shutdown_work t + length (filter thread_step ls) \<le> shutdown_work s"
proof (induction rule: runs.induct)
  case (step s ls t l)
  then show ?case using shutdown_step [of t l] by (cases "thread_step l") auto
qed simp

lemma shutdown_enabled:
  assumes "shutting_down s" and "shutdown_work s > 0"
  shows "\<exists>l. thread_step l \<and> guard l s"
proof (cases "tp_daemon s = D_Gone")
  case False
  have f: "lock_free s" using assms(1) by (simp add: shutting_down_def lock_free_def)
  have "length (filter (\<lambda>w. w = Asleep) (tp_workers s)) = 0"
    using assms(1) by (auto simp: shutting_down_def filter_empty_conv)
  with f have "tp_daemon s = D_Lock \<Longrightarrow> guard (Daemon_Section []) s" by simp
  with False show ?thesis
    by (cases "tp_daemon s") (fastforce intro: exI [of _ Daemon_Test] exI [of _ Daemon_Awake] exI [of _ "Daemon_Section []"])+
next
  case True
  have f: "lock_free s" using assms(1) by (simp add: shutting_down_def lock_free_def)
  from True assms(2) have "sum_list (map steps_left (tp_workers s)) \<noteq> 0"
    by (simp only: shutdown_work_def daemon_left.simps)
  then have "\<exists>w \<in> set (tp_workers s). steps_left w > 0" by (simp only: sum_list_eq_0_iff) auto
  then obtain i w where w: "at_worker i w s" "steps_left w > 0" by (auto simp: in_workers_at)
  then have "guard (Take i (next_task s)) s \<or>
      guard (Resume i (if tp_destroyedThreadNum s > 0 then None else next_task s)) s \<or> (\<exists>h. guard (Finish i h) s)"
    using f assms(1) by (cases w) (auto simp: shutting_down_def in_workers_at)
  then show ?thesis using thread_step.simps by blast
qed

lemma shutdown_complete:
  assumes "shutting_down s" and "shutdown_work s = 0"
  shows "destructor_end s = Some (s\<lparr>tp_queue := [], tp_workers := []\<rparr>)"
proof -
  have "steps_left w = 0 \<longleftrightarrow> w = Gone" for w :: "'a worker" by (cases w) simp_all
  moreover have "daemon_left n d = 0 \<longleftrightarrow> d = D_Gone" for n d by (cases d) simp_all
  ultimately show ?thesis using assms
    by (auto simp: destructor_end_def shutdown_work_def shutting_down_def list_all_iff pop_all_empty)
qed

text \<open>\<open>stop\<close> comes after the constructor.\<close>

lemma stopped_constructed: "runs s ls t \<Longrightarrow> (tp_isStop s \<longrightarrow> tp_spawning s = 0) \<Longrightarrow> tp_isStop t \<Longrightarrow> tp_spawning t = 0"
proof (induction rule: runs.induct)
  case (step s ls t l)
  show ?case
  proof (cases "tp_isStop t")
    case True
    with step show ?thesis by (simp add: effect_spawning del: effect.simps)
  next
    case False
    with step.prems(2) have "l = Stop"
      by (cases "(l, t)" rule: effect.cases)
        (auto simp: pool_simps worker_check_def worker_resume_def worker_finish_def commit_push_def spawn_def
          section_settings split: list.splits if_splits)
    with step.hyps(2) show ?thesis by (simp add: pool_stop_def)
  qed
qed simp

lemma notify_all_shuts_down:
  assumes "guard Notify_All s" and "lock_free s" and "tp_spawning s = 0"
  shows "shutting_down (effect Notify_All s)"
  using assms by (auto simp: shutting_down_def lock_free_def)

subsection \<open>Properties\<close>


definition one_task :: "nat handle" where
  "one_task = \<lparr>task = 7, is_io_task = False\<rparr>"


text \<open>
  The default pool does not grow. On a machine with one to five cores the pool of the default
  constructor, which is declared to grow to five threads a core, has one thread a core from the end of
  its construction until it is stopped, if no task is committed as an I/O task; however many tasks wait,
  and in every interleaving.
\<close>
theorem default_pool_fixed:
  assumes "runs (default_pool core) ls s" and "1 \<le> core" "core \<le> 5"
    and "\<forall>h \<in> set (commits ls). \<not> is_io_task h" and "\<not> tp_isStop s"
  shows "pcount is_alive s + tp_spawning s = unat core \<and> tp_destroyedThreadNum s = 0"
  using default_steady [OF assms(1-4)] assms(5) default_settings(1) [OF assms(1)] by (simp add: steady_def)

definition busy_run :: "nat label list" where
  "busy_run = [Spawn, Spawn, Commit one_task, Notify None, Commit one_task, Notify None, Commit one_task,
     Notify None, Take 0 (Some one_task), Take 1 (Some one_task), Daemon_Test, Daemon_Section []]"

lemma busy_runs: "\<exists>s. runs (default_pool 2) busy_run s \<and> \<not> tp_isStop s \<and> tp_spawning s = 0 \<and> tp_queue s = [one_task]"
  by (simp add: busy_run_def default_pool_def spawn_def eval_pool)

theorem default_pool_fixed_witness:
  "\<exists>s. runs (default_pool 2) busy_run s \<and> tp_queue s = [one_task] \<and> pcount is_alive s = 2"
proof -
  obtain s where s: "runs (default_pool 2) busy_run s" "\<not> tp_isStop s" "tp_spawning s = 0" "tp_queue s = [one_task]"
    using busy_runs by blast
  have "\<forall>h \<in> set (commits busy_run). \<not> is_io_task h" by (simp add: busy_run_def one_task_def)
  from default_pool_fixed [OF s(1) _ _ this s(2)] s show ?thesis by auto
qed

text \<open>
  C35: The destructor returns. When no worker is between its test and its wait as the destructor
  notifies, the threads take a bounded number of steps in every run that follows, one of them can take a
  step as long as not all have returned (a running task that ends, at least), and when all have, the
  destructor ends with empty containers.
\<close>
theorem destructor_returns:
  assumes "runs (new_pool core minT maxT batch) ls s" and "guard Notify_All s" and "lock_free s"
    and "runs (effect Notify_All s) ls' t"
  shows "length (filter thread_step ls') + shutdown_work t \<le> shutdown_work (effect Notify_All s) \<and>
     (if shutdown_work t = 0 then destructor_end t = Some (t\<lparr>tp_queue := [], tp_workers := []\<rparr>)
      else \<exists>l. thread_step l \<and> guard l t)"
proof -
  have "tp_spawning s = 0" using stopped_constructed [OF assms(1)] assms(2) by (simp add: new_pool_def)
  note sd = notify_all_shuts_down [OF assms(2,3) this]
  from shutdown_runs [OF assms(4) sd] shutdown_complete shutdown_enabled [of t] show ?thesis by auto
qed

theorem destructor_returns_witness:
  "\<exists>(s :: nat pool) t. runs (new_pool 8 1 20 1) [Spawn, Take 0 None, Block 0, Stop] s \<and>
     runs (effect Notify_All s) [Resume 0 None, Daemon_Test] t \<and>
     destructor_end t = Some (t\<lparr>tp_queue := [], tp_workers := []\<rparr>)"
proof -
  have "\<exists>s :: nat pool. runs (new_pool 8 1 20 1) [Spawn, Take 0 None, Block 0, Stop] s \<and> lock_free s \<and> guard Notify_All s \<and>
      (\<exists>t. runs (effect Notify_All s) [Resume 0 None, Daemon_Test] t \<and> shutdown_work t = 0)"
    by (simp add: shutdown_work_def eval_pool spawn_def)
  then obtain s t :: "nat pool" where s: "runs (new_pool 8 1 20 1) [Spawn, Take 0 None, Block 0, Stop] s" "lock_free s"
    "guard Notify_All s" "runs (effect Notify_All s) [Resume 0 None, Daemon_Test] t" "shutdown_work t = 0" by blast
  from destructor_returns [OF s(1,3,2,4)] s(1,4,5) show ?thesis by auto
qed

end
