(* ===== verification/Rpc_Runtime.thy ===== *)
theory Rpc_Runtime
  imports Rpc_System Timer Pool_Progress
begin

text \<open>
  What runs in a process with an \<open>Rpc_Server\<close> or an \<open>Rpc_Client\<close>: the two constructors with their
  executors and timers and the two \<open>run\<close>s (\<open>RPC/Rpc_Server.cpp\<close>, \<open>RPC/Rpc_Client.cpp\<close>), whose tasks
  all go to the one \<open>Thread_Pool\<close> of the process, and the task of the server's timer.

  The theory shows how many threads of the pool the endless tasks take, that a machine with too few
  cores for them never runs any other task, and that a machine with one more does; and that the
  periodic check closes exactly the connections of the silent clients, down to the sockets.
\<close>

subsection \<open>Tasks\<close>

text \<open>
  The functions that are given to an executor: \<open>Timer::run\<close>, \<open>Tcp_Server::sub_reactor_run\<close>,
  \<open>Tcp_Server::read_data\<close>, \<open>Tcp_Client::read_data\<close>, and the callbacks of the two periodic timers.
\<close>

datatype job = Timer_Run | Sub_Reactor_Run nat | Read_Data int | Client_Read_Data | Check_Users | Heartbeat

text \<open>The executors that both constructors install: \<open>commit(func, false)\<close>.\<close>

definition pool_executor :: "job \<Rightarrow> job handle" where
  "pool_executor f = \<lparr>task = f, is_io_task = False\<rparr>"

type_synonym job_timer = "(job, job \<Rightarrow> job handle) timer"

subsection \<open>The server's constructor and run\<close>

definition server_timer :: "int \<Rightarrow> job_timer" where
  "server_timer now =
     snd (set_periodic_timer now Check_Users (HEARTBEAT_TIMEOUT * 1000) (set_executor pool_executor (new_timer None)))"

text \<open>\<open>hardware\<close> is \<open>std::thread::hardware_concurrency()\<close>.\<close>

definition construct_server :: "'k kernel \<Rightarrow> nat \<Rightarrow> int \<Rightarrow> 'u \<Rightarrow> (nat \<Rightarrow> int) \<Rightarrow> 'k \<Rightarrow>
    (('u rpc_app, 'k) world \<times> job_timer) result" where
  "construct_server kern hardware port app clock k =
     bindE (new_tcp_server kern port (hardware div 2) k) (\<lambda>(server, k1).
     Inr (\<lparr>w_server = server_set_executor server,
           w_app = \<lparr>rpc_clock = clock, rpc_ticks = 1, rpc_server = new_rpc_server app\<rparr>, w_kernel = k1\<rparr>,
          server_timer (clock 0)))"

text \<open>The tasks that \<open>run\<close> commits before its own endless loop, and how it ends if it does not get there.\<close>

definition server_run :: "('u rpc_app, 'k) world \<Rightarrow> job handle list \<times> unit result" where
  "server_run w =
     (case run_start w of
        Inl e \<Rightarrow> (map pool_executor [Timer_Run], Inl e)
      | Inr ids \<Rightarrow> (map pool_executor (Timer_Run # map Sub_Reactor_Run ids), Inr ()))"

subsection \<open>The client's constructor, run and destructor\<close>

definition client_timer :: "int \<Rightarrow> job_timer" where
  "client_timer now =
     snd (set_periodic_timer now Heartbeat (HEARTBEAT_REPEAT_TIME * 1000) (set_executor pool_executor (new_timer None)))"

definition construct_client :: "int \<Rightarrow> byte list \<Rightarrow> int \<Rightarrow> int \<Rightarrow> 'k \<Rightarrow> (rpc_client, 'k) cworld \<times> job_timer" where
  "construct_client fd0 host port now k =
     (\<lparr>c_client = new_tcp_client fd0 host port, c_app = new_rpc_client, c_kernel = k\<rparr>, client_timer now)"

definition rpc_client_run :: "'k kernel \<Rightarrow> byte list \<Rightarrow> (rpc_client, 'k) cworld \<Rightarrow>
    job handle list \<times> unit result \<times> (rpc_client, 'k) cworld" where
  "rpc_client_run kern arr w =
     (case client_run kern arr w of
        (Inl e, w') \<Rightarrow> ([], Inl e, w')
      | (Inr u, w') \<Rightarrow> (map pool_executor [Client_Read_Data, Timer_Run], Inr (), w'))"

definition destroy_client :: "(rpc_client, 'k) cworld \<times> job_timer \<Rightarrow> (rpc_client, 'k) cworld \<times> job_timer" where
  "destroy_client n = (case n of (w, t) \<Rightarrow> (client_stop w, timer_stop t))"

subsection \<open>The task of the server's timer\<close>

fun close_all :: "('d, 'a, 'k) tcp_env \<Rightarrow> int list \<Rightarrow> ('a, 'k) world \<Rightarrow> ('a, 'k) world result" where
  "close_all env [] w = Inr w"
| "close_all env (fd # fds) w = bindE (close_connection env fd w) (close_all env fds)"

definition check_users_job :: "('d, 'u rpc_app, 'k) tcp_env \<Rightarrow> ('u rpc_app, 'k) world \<Rightarrow>
    (int list \<times> ('u rpc_app, 'k) world) result" where
  "check_users_job env w =
     (let a = w_app w;
          ret = check_invalid_user (rpc_clock a (rpc_ticks a)) (srv_users (rpc_server a))
      in bindE (close_all env ret (w\<lparr>w_app := a\<lparr>rpc_ticks := Suc (rpc_ticks a)\<rparr>\<rparr>)) (\<lambda>w1. Inr (ret, w1)))"

text \<open>What the timers start with.\<close>

lemma server_timer_sels:
  "tm_running (server_timer now)" "tm_removed (server_timer now) = {}"
  "tm_timers (server_timer now) =
     [\<lparr>th_id = 1, th_callback = Check_Users, th_last = now, th_next = now + milliseconds 15001, th_wait = 15000,
       th_periodic = True\<rparr>]"
  "tm_executor (server_timer now) = Hand_To pool_executor"
  by (simp_all add: server_timer_def timer_defs new_timer_def pq_push_def handler_create_timer_def
      HEARTBEAT_TIMEOUT_def)

lemma client_timer_sels:
  "tm_running (client_timer now)" "tm_removed (client_timer now) = {}"
  "tm_timers (client_timer now) =
     [\<lparr>th_id = 1, th_callback = Heartbeat, th_last = now, th_next = now + milliseconds 5001, th_wait = 5000,
       th_periodic = True\<rparr>]"
  "tm_executor (client_timer now) = Hand_To pool_executor"
  by (simp_all add: client_timer_def timer_defs new_timer_def pq_push_def handler_create_timer_def
      HEARTBEAT_REPEAT_TIME_def)

subsection \<open>Closing the silent connections\<close>

text \<open>
  The TCP server and the user table agree: every user has a channel and a reactor, and \<open>epoll_ctl\<close>
  removes any descriptor of a user.
\<close>

definition users_registered :: "('u rpc_app, 'k) world \<Rightarrow> int set \<Rightarrow> bool" where
  "users_registered w fds \<longleftrightarrow>
     (\<forall>fd \<in> fds. \<exists>loc. fd_location (w_server w) fd = Some loc \<and> loc < length (sub_reactors (w_server w)))"

definition removes :: "'k kernel \<Rightarrow> int set \<Rightarrow> bool" where
  "removes kern fds \<longleftrightarrow> (\<forall>ep ev k. \<forall>fd \<in> fds. fst (k_epoll_ctl kern ep Ctl_Del fd ev k))"

lemma close_user_ok:
  assumes "removes (env_kernel env) {fd}" and "users_registered w {fd}" and "env_cbs env = server_callbacks m"
  shows "\<exists>k. close_connection env fd w = Inr (w\<lparr>
     w_server := (w_server w)\<lparr>fd_location := (fd_location (w_server w))(fd := None),
                             channels := (channels (w_server w))(fd := None)\<rparr>,
     w_kernel := k, w_app := server_disconnect fd (w_app w)\<rparr>)"
proof -
  from assms(2) obtain loc where l: "fd_location (w_server w) fd = Some loc"
    "loc < length (sub_reactors (w_server w))" by (auto simp: users_registered_def)
  let ?ep = "sub_reactors (w_server w) ! loc"
  obtain ok k where e: "k_epoll_ctl (env_kernel env) ?ep Ctl_Del fd 0 (w_kernel w) = (ok, k)"
    by (cases "k_epoll_ctl (env_kernel env) ?ep Ctl_Del fd 0 (w_kernel w)")
  from assms(1) have "fst (k_epoll_ctl (env_kernel env) ?ep Ctl_Del fd 0 (w_kernel w))"
    by (simp add: removes_def)
  then have "remove_fd (env_kernel env) ?ep fd (w_kernel w) = Inr k" by (simp add: remove_fd_def e)
  then show ?thesis
    by (simp add: close_connection_def locate_def sub_reactor_def l assms(3) server_callbacks_def notify_def
        callback_defs) (rule exI, rule refl)
qed

lemma close_all_ok:
  assumes "removes (env_kernel env) (set fds)" and "env_cbs env = server_callbacks m"
    and "users_registered w (set fds)" and "distinct fds"
  shows "\<exists>w'. close_all env fds w = Inr w' \<and>
     w_app w' = (w_app w)\<lparr>rpc_server := fold on_disconnect fds (rpc_server (w_app w))\<rparr> \<and>
     (\<forall>fd. channels (w_server w') fd = (if fd \<in> set fds then None else channels (w_server w) fd)) \<and>
     (\<forall>fd. fd_location (w_server w') fd = (if fd \<in> set fds then None else fd_location (w_server w) fd))"
  using assms(1,3,4)
proof (induction fds arbitrary: w)
  case (Cons fd fds)
  have "users_registered w {fd}" "removes (env_kernel env) {fd}"
    using Cons.prems(1,2) by (simp_all add: users_registered_def removes_def)
  from close_user_ok [OF this(2,1) assms(2)] obtain k where
    c: "close_connection env fd w = Inr (w\<lparr>
     w_server := (w_server w)\<lparr>fd_location := (fd_location (w_server w))(fd := None),
                             channels := (channels (w_server w))(fd := None)\<rparr>,
     w_kernel := k, w_app := server_disconnect fd (w_app w)\<rparr>)" (is "_ = Inr ?w") ..
  have "users_registered ?w (set fds)" "removes (env_kernel env) (set fds)"
    using Cons.prems by (auto simp: users_registered_def removes_def)
  with Cons.IH [of ?w] Cons.prems(3) c show ?case by (auto simp: server_disconnect_def)
qed simp

subsection \<open>Threads for the endless tasks\<close>

text \<open>
  These tasks return only when the server or the client is torn down: nothing sets \<open>_stop\<close> of the TCP
  server, \<open>_running\<close> of a timer is set to false only by the client's destructor, and the client's reader
  runs as long as the connection.
\<close>

fun endless :: "job handle \<Rightarrow> bool" where
  "endless h = (case task h of Timer_Run \<Rightarrow> True | Sub_Reactor_Run i \<Rightarrow> True | Client_Read_Data \<Rightarrow> True | _ \<Rightarrow> False)"

lemma length_new_reactors: "new_reactors kern n k = Inr (eps, k') \<Longrightarrow> length eps = n"
  by (induction n arbitrary: k eps k') (auto simp: bindE_eq_Inr)

lemma new_tcp_server_sels:
  assumes "new_tcp_server kern port n k = Inr (server, k1)"
  shows "length (sub_reactors server) = n \<and> channels server = Map.empty \<and> fd_location server = Map.empty \<and> heap server = []"
proof -
  from assms obtain ep k2 where e: "bindE (case create_listen_socket kern port k2 of (r, k2) \<Rightarrow>
      bindE r (\<lambda>fd. bindE (add_fd kern ep fd (EPOLLIN OR EPOLLET) k2) (\<lambda>k3.
      bindE (new_reactors kern n k3) (\<lambda>(eps, k4).
      Inr (\<lparr>net_compression = Comp_None, executor_set = False, srv_stop = False, main_reactor = ep,
           sub_reactors = eps, listen_fd = fd, channels = Map.empty, fd_location = Map.empty,
           heap = []\<rparr>, k4))))) Inr = Inr (server, k1)"
    by (auto simp: new_tcp_server_def bindE_eq_Inr)
  obtain r k3 where "create_listen_socket kern port k2 = (r, k3)" by (cases "create_listen_socket kern port k2")
  with e show ?thesis by (auto simp: bindE_eq_Inr length_new_reactors)
qed

lemma construct_server_jobs:
  assumes "construct_server kern hardware port app clock k = Inr (w, tm)"
  shows "fst (server_run w) = map pool_executor (Timer_Run # map Sub_Reactor_Run [0..<hardware div 2])"
proof -
  from assms obtain server k1 where s: "new_tcp_server kern port (hardware div 2) k = Inr (server, k1)"
    "w_server w = server_set_executor server"
    by (auto simp: construct_server_def bindE_eq_Inr)
  with new_tcp_server_sels [OF s(1)] show ?thesis by (simp add: server_run_def run_start_def server_set_executor_def)
qed

lemma rpc_client_jobs:
  "rpc_client_run kern arr w = (js, Inr (), w') \<Longrightarrow> js = map pool_executor [Client_Read_Data, Timer_Run]"
  by (cases "client_run kern arr w"; cases "fst (client_run kern arr w)") (simp_all add: rpc_client_run_def)

lemma only_endless:
  assumes "runs (default_pool core) ls s" and "1 \<le> core" "core \<le> 5"
    and "\<forall>h \<in> set (commits ls). \<not> is_io_task h" and "\<forall>h \<in> set (finishes ls). \<not> endless h"
    and "commits ls = js @ later" and "\<forall>h \<in> set js. endless h" and "unat core \<le> length js"
  shows "\<exists>started. starts ls = take started js"
proof -
  have "take (unat core) (commits ls) = take (unat core) js" using assms(6,8) by simp
  then have "\<forall>h \<in> set (take (unat core) (commits ls)). endless h"
    using assms(7) by (auto dest: in_set_takeD)
  from endless_fill [OF assms(1-5) this] have "length (starts ls) \<le> length js" using assms(8) by simp
  moreover have "starts ls = take (length (starts ls)) (commits ls)"
    by (simp add: started_committed(1) [OF assms(1)])
  ultimately have "starts ls = take (length (starts ls)) js" using assms(6) by simp
  then show ?thesis ..
qed

text \<open>
  A connection whose client has sent a part of a message: more than its header, and not all of it.
\<close>

definition half_message :: "('k \<Rightarrow> byte list list) \<Rightarrow> int \<Rightarrow> ('a, 'k) world \<Rightarrow> bool" where
  "half_message inp fd w \<longleftrightarrow>
     (\<exists>p nb e k. connection fd p w \<and> inp (w_kernel w) = [take k (frame_message nb e)] \<and> length e < 2 ^ 31 \<and>
        HEAD_LENGTH < k \<and> k < length (frame_message nb e) \<and> k \<le> BUFFER_SIZE)"

text \<open>
  What the tasks of the pool are: a task that reads \<open>fd\<close> and is the only one of its connection so far
  runs \<open>read_data\<close> from the state \<open>ws fd\<close>, so that it can have finished only if that run ends.
\<close>

definition runs_read_data :: "('d, 'a, 'k) tcp_env \<Rightarrow> (int \<Rightarrow> ('a, 'k) world) \<Rightarrow> int list \<Rightarrow> job label list \<Rightarrow> bool" where
  "runs_read_data env ws fds ls \<longleftrightarrow> (\<forall>ls1 ls2 fd. ls = ls1 @ ls2 \<longrightarrow> fd \<in> set fds \<longrightarrow>
     pool_executor (Read_Data fd) \<in> set (finishes ls1) \<longrightarrow>
     count_list (starts ls1) (pool_executor (Read_Data fd)) \<le> 1 \<longrightarrow> read_data env fd (ws fd) \<noteq> Inl Hang)"

text \<open>Tasks that read half a message end only after a second task for the descriptor has started.\<close>

definition wait_for_second :: "int list \<Rightarrow> job label list \<Rightarrow> bool" where
  "wait_for_second fds ls \<longleftrightarrow> (\<forall>ls1 ls2 fd. ls = ls1 @ ls2 \<longrightarrow> fd \<in> set fds \<longrightarrow>
     pool_executor (Read_Data fd) \<in> set (finishes ls1) \<longrightarrow> 2 \<le> count_list (starts ls1) (pool_executor (Read_Data fd)))"

lemma half_messages_wait:
  assumes "runs_read_data env ws fds ls" and "\<And>fd. fd \<in> set fds \<Longrightarrow> serves (env_kernel env) fd inp out"
    and "\<And>fd. fd \<in> set fds \<Longrightarrow> half_message inp fd (ws fd)"
  shows "wait_for_second fds ls"
  unfolding wait_for_second_def
proof (intro allI impI)
  fix ls1 ls2 fd
  assume p: "ls = ls1 @ ls2" and fd: "fd \<in> set fds" and f: "pool_executor (Read_Data fd) \<in> set (finishes ls1)"
  from assms(3) [OF fd] obtain p nb e k where "connection fd p (ws fd)"
    "inp (w_kernel (ws fd)) = [take k (frame_message nb e)]" "length e < 2 ^ 31" "HEAD_LENGTH < k"
    "k < length (frame_message nb e)" "k \<le> BUFFER_SIZE" unfolding half_message_def by blast
  then have "read_data env fd (ws fd) = Inl Hang" by (rule read_data_half [OF assms(2) [OF fd]])
  then have "\<not> count_list (starts ls1) (pool_executor (Read_Data fd)) \<le> 1"
    using assms(1) p fd f unfolding runs_read_data_def by blast
  then show "2 \<le> count_list (starts ls1) (pool_executor (Read_Data fd))" by simp
qed

lemma runs_prefix: "runs s (ls1 @ ls2) t \<Longrightarrow> \<exists>t'. runs s ls1 t'"
proof (induction ls2 arbitrary: t rule: rev_induct)
  case (snoc l ls2)
  from snoc.prems have "runs s ((ls1 @ ls2) @ [l]) t" by simp
  then show ?case using snoc.IH by (blast elim: runs_snoc)
qed auto

lemma take_of_prefix:
  assumes "xs @ ys = zs @ ws" and "n \<le> length zs"
  shows "take n xs = take (min n (length xs)) zs"
proof -
  have "take n xs = take (min n (length xs)) (xs @ ys)" by (simp add: min_def)
  also have "\<dots> = take (min n (length xs)) (zs @ ws)" by (simp only: assms(1))
  also have "\<dots> = take (min n (length xs)) zs" using assms(2) by simp
  finally show ?thesis .
qed

lemma count_list_take: "count_list (take n xs) x \<le> count_list xs x"
  by (metis append_take_drop_id count_list_append le_add1)

lemma count_list_distinct: "distinct xs \<Longrightarrow> count_list xs x \<le> 1"
  by (induction xs) (auto simp: count_notin)

lemma stuck_readers:
  assumes "runs (default_pool core) ls s" and "1 \<le> core" "core \<le> 5"
    and "\<forall>h \<in> set (commits ls). \<not> is_io_task h" and "\<forall>h \<in> set (finishes ls). \<not> endless h"
    and "commits ls = js @ map (\<lambda>fd. pool_executor (Read_Data fd)) fds @ later" and "\<forall>h \<in> set js. endless h"
    and "distinct fds" and "unat core \<le> length js + length fds" and "wait_for_second fds ls"
  shows "\<exists>started. starts ls = take started (js @ map (\<lambda>fd. pool_executor (Read_Data fd)) fds)"
proof -
  let ?reads = "map (\<lambda>fd. pool_executor (Read_Data fd)) fds"
  let ?P = "\<lambda>h. endless h \<or> h \<in> set ?reads"
  have started: "\<exists>n. starts ls1 = take n (js @ ?reads)"
    if p: "ls = ls1 @ ls2" and f: "\<forall>h \<in> set (finishes ls1). \<not> ?P h" for ls1 ls2
  proof -
    from runs_prefix assms(1) p obtain t where t: "runs (default_pool core) ls1 t" by blast
    have c: "commits ls1 @ commits ls2 = (js @ ?reads) @ later" using assms(6) p by (simp add: trace_append)
    have "unat core \<le> length (js @ ?reads)" using assms(9) by simp
    note pre = take_of_prefix [OF c this]
    have "\<forall>h \<in> set (take (unat core) (commits ls1)). ?P h"
    proof
      fix h
      assume "h \<in> set (take (unat core) (commits ls1))"
      then have "h \<in> set (js @ ?reads)" unfolding pre by (rule in_set_takeD)
      then show "?P h" using assms(7) by auto
    qed
    moreover have "\<forall>h \<in> set (commits ls1). \<not> is_io_task h" using assms(4) p by (simp add: trace_append)
    ultimately have l: "length (starts ls1) \<le> unat core" using endless_fill [OF t assms(2,3) _ f] by blast
    have "starts ls1 @ (tp_queue t @ commits ls2) = (js @ ?reads) @ later"
      using c started_committed(1) [OF t] by simp
    moreover have "length (starts ls1) \<le> length (js @ ?reads)" using l assms(9) by simp
    ultimately have "take (length (starts ls1)) (starts ls1) =
        take (min (length (starts ls1)) (length (starts ls1))) (js @ ?reads)" by (rule take_of_prefix)
    then show ?thesis by (metis min.idem order_refl take_all)
  qed
  have once: "count_list (js @ ?reads) (pool_executor (Read_Data fd)) \<le> 1" for fd
  proof -
    have "pool_executor (Read_Data fd) \<notin> set js" using assms(7) by (auto simp: pool_executor_def)
    moreover have "distinct ?reads" using assms(8) by (auto simp: distinct_map inj_on_def pool_executor_def)
    ultimately show ?thesis using count_list_distinct [of ?reads] by (simp add: count_notin)
  qed
  have "\<forall>ls2. ls = ls1 @ ls2 \<longrightarrow> (\<forall>h \<in> set (finishes ls1). \<not> ?P h)" for ls1
  proof (induction ls1 rule: rev_induct)
    case (snoc l ls1)
    show ?case
    proof (intro allI impI ballI)
      fix ls2 h
      assume p: "ls = (ls1 @ [l]) @ ls2" and h: "h \<in> set (finishes (ls1 @ [l]))"
      have f: "\<forall>h \<in> set (finishes ls1). \<not> ?P h" using snoc.IH p by simp
      show "\<not> ?P h"
      proof (cases "h \<in> set (finishes ls1)")
        case False
        with h obtain i where l: "l = Finish i h" by (cases l) (auto simp: trace_append)
        have "finishes ls = finishes (ls1 @ [l]) @ finishes ls2" unfolding p trace_append ..
        then have e: "\<not> endless h" using assms(5) h by auto
        from started [of ls1 "l # ls2"] f p obtain n where n: "starts (ls1 @ [l]) = take n (js @ ?reads)"
          by (auto simp: trace_append l)
        have "h \<notin> set ?reads"
        proof
          assume "h \<in> set ?reads"
          then obtain fd where fd: "fd \<in> set fds" "h = pool_executor (Read_Data fd)" by auto
          from assms(10) [unfolded wait_for_second_def, rule_format, OF p fd(1)] h fd(2)
          have "2 \<le> count_list (starts (ls1 @ [l])) (pool_executor (Read_Data fd))" by (simp del: starts.simps)
          also have "\<dots> \<le> count_list (js @ ?reads) (pool_executor (Read_Data fd))" unfolding n by (rule count_list_take)
          also have "\<dots> \<le> 1" by (rule once)
          finally show False by simp
        qed
        with e show ?thesis by blast
      qed (use f in blast)
    qed
  qed simp
  from this [of ls] have "\<forall>h \<in> set (finishes ls). \<not> ?P h" by (simp del: endless.simps)
  from started [OF append_Nil2 [symmetric] this] show ?thesis .
qed

text \<open>Of the running tasks, the endless ones are among those committed.\<close>

lemma endless_running:
  assumes "runs (default_pool core) ls s"
  shows "size (filter_mset endless (running s)) \<le> length (filter endless (commits ls))"
proof -
  from started_committed [OF assms] have "running s \<subseteq># mset (commits ls)"
    by (metis mset_subset_eq_add_left mset_append subset_mset.order_trans)
  then have "filter_mset endless (running s) \<subseteq># filter_mset endless (mset (commits ls))"
    by (rule multiset_filter_mono)
  from size_mset_mono [OF this] show ?thesis by (simp flip: mset_filter)
qed

subsection \<open>Properties\<close>

text \<open>
  C15: The periodic check. When every connected user has a channel and a reactor, the check returns,
  and it closes exactly the connections of the clients last heard of more than 15 seconds before: their
  channels, their places and their user entries are gone, all others are as before, and so are the
  registered methods and the application's state.
\<close>
theorem silent_connections_closed:
  assumes "env_cbs env = server_callbacks m" and "store_ok (srv_users (rpc_server (w_app w)))"
    and "removes (env_kernel env) (dom (last_of (srv_users (rpc_server (w_app w)))))"
    and "users_registered w (dom (last_of (srv_users (rpc_server (w_app w)))))"
    and "silent = {fd. \<exists>t. last_of (srv_users (rpc_server (w_app w))) fd = Some t \<and>
       seconds 15 < rpc_clock (w_app w) (rpc_ticks (w_app w)) - t}"
  shows "\<exists>w' fds. check_users_job env w = Inr (fds, w') \<and> distinct fds \<and> set fds = silent \<and>
     channels (w_server w') = channels (w_server w) |` (- silent) \<and>
     fd_location (w_server w') = fd_location (w_server w) |` (- silent) \<and>
     last_of (srv_users (rpc_server (w_app w'))) = last_of (srv_users (rpc_server (w_app w))) |` (- silent) \<and>
     srv_manager (rpc_server (w_app w')) = srv_manager (rpc_server (w_app w)) \<and>
     srv_app (rpc_server (w_app w')) = srv_app (rpc_server (w_app w))"
proof -
  let ?a = "w_app w" and ?sv = "rpc_server (w_app w)"
  let ?w = "w\<lparr>w_app := ?a\<lparr>rpc_ticks := Suc (rpc_ticks ?a)\<rparr>\<rparr>"
  define fds where "fds = check_invalid_user (rpc_clock ?a (rpc_ticks ?a)) (srv_users ?sv)"
  have s: "set fds = silent" "distinct fds"
    using check_invalid_user_iff [OF assms(2)] check_invalid_user_distinct [OF assms(2)] assms(5)
    by (auto simp: fds_def HEARTBEAT_TIMEOUT_def)
  then have d: "set fds \<subseteq> dom (last_of (srv_users ?sv))" using assms(5) by auto
  have "removes (env_kernel env) (set fds)" using assms(3) d unfolding removes_def by blast
  moreover have "users_registered w (set fds)" using assms(4) d unfolding users_registered_def by blast
  then have "users_registered ?w (set fds)" by (simp add: users_registered_def)
  ultimately obtain w' where
    w': "close_all env fds ?w = Inr w'" "w_app w' = (w_app ?w)\<lparr>rpc_server := fold on_disconnect fds ?sv\<rparr>"
    "\<forall>fd. channels (w_server w') fd = (if fd \<in> set fds then None else channels (w_server w) fd)"
    "\<forall>fd. fd_location (w_server w') fd = (if fd \<in> set fds then None else fd_location (w_server w) fd)"
    using close_all_ok [OF _ assms(1) _ s(2), of ?w] by auto
  have "check_users_job env w = Inr (fds, w')" using w'(1) by (simp add: check_users_job_def fds_def Let_def)
  moreover have "channels (w_server w') = channels (w_server w) |` (- silent)"
    "fd_location (w_server w') = fd_location (w_server w) |` (- silent)"
    using w'(3,4) s(1) by (auto simp: restrict_map_def fun_eq_iff)
  moreover have "last_of (srv_users (rpc_server (w_app w'))) = last_of (srv_users ?sv) |` (- silent)"
    using fold_remove_user [OF assms(2), of fds] w'(2) s(1)
    by (auto simp: fold_on_disconnect restrict_map_def fun_eq_iff)
  moreover have "srv_manager (rpc_server (w_app w')) = srv_manager ?sv" "srv_app (rpc_server (w_app w')) = srv_app ?sv"
    using w'(2) by (simp_all add: fold_on_disconnect)
  ultimately show ?thesis using s by (intro exI [of _ w'] exI [of _ fds]) simp
qed

definition two_users :: "(unit rpc_app, read_result list \<times> byte list) world" where
  "two_users =
     \<lparr>w_server = \<lparr>net_compression = Comp_None, executor_set = True, srv_stop = False, main_reactor = 0,
        sub_reactors = [1], listen_fd = 3, channels = [7 \<mapsto> Some 0, 8 \<mapsto> Some 1], fd_location = [7 \<mapsto> 0, 8 \<mapsto> 0],
        heap = [new_channel [] 7, new_channel [] 8]\<rparr>,
      w_app = \<lparr>rpc_clock = (\<lambda>n. seconds 20), rpc_ticks = 0, rpc_server = (new_rpc_server ())\<lparr>srv_users :=
        [(7, \<lparr>user_fd = 7, last_update_time = 0\<rparr>), (8, \<lparr>user_fd = 8, last_update_time = seconds 10\<rparr>)]\<rparr>\<rparr>,
      w_kernel = ([], [])\<rparr>"

definition users_env :: "(unit, unit rpc_app, read_result list \<times> byte list) tcp_env" where
  "users_env = \<lparr>env_lib = stored_lib, env_nb = False, env_kernel = poll_kernel,
     env_cbs = server_callbacks \<lparr>big_endian = False, arg_order = (\<lambda>n. rev [0..<n]), lib_what = (\<lambda>e. [])\<rparr>\<rparr>"

theorem silent_connections_closed_witness:
  "\<exists>w' fds. check_users_job users_env two_users = Inr (fds, w') \<and> set fds = {7} \<and>
     channels (w_server w') 7 = None \<and> channels (w_server w') 8 = Some (Some 1)"
proof -
  have cb: "env_cbs users_env = server_callbacks \<lparr>big_endian = False, arg_order = (\<lambda>n. rev [0..<n]), lib_what = (\<lambda>e. [])\<rparr>"
    by (simp add: users_env_def)
  have l: "last_of (srv_users (rpc_server (w_app two_users))) = [7 \<mapsto> 0, 8 \<mapsto> seconds 10]"
    by (auto simp: two_users_def last_of_def)
  have s: "{7} = {fd. \<exists>t. last_of (srv_users (rpc_server (w_app two_users))) fd = Some t \<and>
       seconds 15 < rpc_clock (w_app two_users) (rpc_ticks (w_app two_users)) - t}"
    unfolding l by (auto simp: two_users_def seconds_def split: if_splits)
  have "store_ok (srv_users (rpc_server (w_app two_users)))" by (simp add: two_users_def store_ok_def)
  moreover have "removes (env_kernel users_env) (dom (last_of (srv_users (rpc_server (w_app two_users)))))"
    by (simp add: removes_def users_env_def poll_kernel_def)
  moreover have "users_registered two_users (dom (last_of (srv_users (rpc_server (w_app two_users)))))"
    unfolding l by (auto simp: users_registered_def two_users_def)
  ultimately obtain w' fds where w': "check_users_job users_env two_users = Inr (fds, w')" "set fds = {7}"
    "channels (w_server w') = channels (w_server two_users) |` (- {7})"
    using silent_connections_closed [OF cb _ _ _ s] by blast
  then show ?thesis by (auto simp: two_users_def)
qed

text \<open>
  C21: A machine with too few cores. On a machine with one or two cores, the endless tasks that
  \<open>run\<close> commits take every thread of the process's pool for ever: whatever is committed afterwards, and in every
  interleaving, no request is ever read and no user ever checked.
\<close>
theorem server_starves:
  assumes "construct_server kern (unat core) port app clock k = Inr (w, tm)" and "1 \<le> core" "core \<le> 2"
    and "runs (default_pool core) ls s" and "commits ls = fst (server_run w) @ later"
    and "\<forall>h \<in> set (commits ls). \<not> is_io_task h" and "\<forall>h \<in> set (finishes ls). \<not> endless h"
  shows "(\<exists>n. starts ls = take n (fst (server_run w))) \<and>
     (\<forall>fd. pool_executor (Read_Data fd) \<notin> set (starts ls)) \<and> pool_executor Check_Users \<notin> set (starts ls)"
proof -
  note js = construct_server_jobs [OF assms(1)]
  have c: "core \<le> 5" using assms(3) by (rule order_trans) simp
  have "unat core \<le> 2" using assms(3) by (simp add: word_le_nat_alt)
  then have "unat core \<le> length (fst (server_run w))" by (simp add: js)
  moreover have "\<forall>h \<in> set (fst (server_run w)). endless h" by (auto simp: js pool_executor_def)
  ultimately obtain n where n: "starts ls = take n (fst (server_run w))"
    using only_endless [OF assms(4,2) c assms(6,7,5)] by blast
  then have "h \<in> set (starts ls) \<Longrightarrow> h \<in> set (fst (server_run w))" for h by (auto dest: in_set_takeD)
  with n show ?thesis by (auto simp: js pool_executor_def)
qed

definition no_clock :: "nat \<Rightarrow> int" where
  "no_clock n = 0"

lemma poll_reactors: "new_reactors poll_kernel n k = Inr (replicate n 0, k)"
  by (induction n) (simp_all add: new_reactor_def poll_kernel_def)

lemma small_server:
  "\<exists>w. construct_server poll_kernel hardware 8080 () no_clock ([], []) = Inr (w, server_timer 0) \<and>
     fst (server_run w) = map pool_executor (Timer_Run # map Sub_Reactor_Run [0..<hardware div 2])"
proof -
  have "\<exists>w. construct_server poll_kernel hardware 8080 () no_clock ([], []) = Inr (w, server_timer 0)"
    by (simp add: construct_server_def new_tcp_server_def poll_reactors)
      (simp add: poll_kernel_def new_reactor_def create_listen_socket_def add_fd_def no_clock_def)
  then obtain w where w: "construct_server poll_kernel hardware 8080 () no_clock ([], []) = Inr (w, server_timer 0)" ..
  with construct_server_jobs [OF w] show ?thesis by blast
qed

definition starving_run :: "job label list" where
  "starving_run =
     [Spawn, Spawn, Commit (pool_executor Timer_Run), Notify None, Commit (pool_executor (Sub_Reactor_Run 0)), Notify None,
      Take 0 (Some (pool_executor Timer_Run)), Take 1 (Some (pool_executor (Sub_Reactor_Run 0))),
      Commit (pool_executor (Read_Data 7)), Notify None, Daemon_Test, Daemon_Section []]"

lemma starving_runs: "\<exists>s. runs (default_pool 2) starving_run s \<and> tp_queue s = [pool_executor (Read_Data 7)]"
  by (simp add: starving_run_def default_pool_def spawn_def eval_pool pool_executor_def)

theorem server_starves_witness:
  "\<exists>s. runs (default_pool 2) starving_run s \<and> tp_queue s = [pool_executor (Read_Data 7)] \<and>
     {ls'. \<exists>t. runs s ls' t \<and> (\<forall>h \<in> set (commits ls'). \<not> is_io_task h) \<and> (\<forall>h \<in> set (finishes ls'). \<not> endless h) \<and>
        pool_executor (Read_Data 7) \<in> set (starts ls')} = {}"
proof -
  obtain w where w: "construct_server poll_kernel (unat (2 :: uint32)) 8080 () no_clock ([], []) = Inr (w, server_timer 0)"
    "fst (server_run w) = map pool_executor [Timer_Run, Sub_Reactor_Run 0]"
    using small_server [of "unat (2 :: uint32)"] by auto
  obtain s where s: "runs (default_pool 2) starving_run s" "tp_queue s = [pool_executor (Read_Data 7)]"
    using starving_runs by blast
  have c: "commits starving_run = fst (server_run w) @ [pool_executor (Read_Data 7)]" "finishes starving_run = []"
    by (simp_all add: starving_run_def w(2))
  have "pool_executor (Read_Data 7) \<notin> set (starts ls')"
    if "runs s ls' t" "\<forall>h \<in> set (commits ls'). \<not> is_io_task h" "\<forall>h \<in> set (finishes ls'). \<not> endless h" for ls' t
  proof -
    have "\<forall>h \<in> set (commits (starving_run @ ls')). \<not> is_io_task h" "\<forall>h \<in> set (finishes (starving_run @ ls')). \<not> endless h"
      using that c by (auto simp: trace_append w(2) pool_executor_def)
    from server_starves [OF w(1) _ _ runs_trans [OF s(1) that(1)] _ this] show ?thesis
      by (simp add: trace_append c)
  qed
  with s show ?thesis by blast
qed

text \<open>
  C22: Clients that send half a message. On a machine with up to five cores, let as many connections as
  there are threads beside the endless ones (one, or two with five cores) each have received a part of a
  message, more than its header. The tasks that read them take the rest of the pool: whatever is committed
  and whatever arrives later, no other task is ever started, the second task of these connections
  included, which alone could put the rest of the message into the buffer. A task that reads is
  \<open>read_data\<close>, run from the state in which the half message waits in the socket (\<open>runs_read_data\<close>): it
  finishes only if that run ends or another task of its connection has started.
\<close>
theorem partial_messages_stop_server:
  assumes "construct_server (env_kernel env) (unat core) port app clock k = Inr (w, tm)" and "1 \<le> core" "core \<le> 5"
    and "runs (default_pool core) ls s"
    and "commits ls = fst (server_run w) @ map (\<lambda>fd. pool_executor (Read_Data fd)) fds @ later"
    and "distinct fds" and "unat core \<le> 1 + unat core div 2 + length fds"
    and "\<forall>h \<in> set (commits ls). \<not> is_io_task h" and "\<forall>h \<in> set (finishes ls). \<not> endless h"
    and "runs_read_data env ws fds ls" and "\<And>fd. fd \<in> set fds \<Longrightarrow> serves (env_kernel env) fd inp out"
    and "\<And>fd. fd \<in> set fds \<Longrightarrow> half_message inp fd (ws fd)"
  shows "\<exists>n. starts ls = take n (fst (server_run w) @ map (\<lambda>fd. pool_executor (Read_Data fd)) fds)"
proof -
  note js = construct_server_jobs [OF assms(1)]
  have "\<forall>h \<in> set (fst (server_run w)). endless h" by (auto simp: js pool_executor_def)
  moreover have "unat core \<le> length (fst (server_run w)) + length fds" using assms(7) by (simp add: js)
  ultimately show ?thesis
    using stuck_readers [OF assms(4,2,3,8,9,5) _ assms(6) _ half_messages_wait [OF assms(10-12)]] by blast
qed

definition stuck_run :: "job label list" where
  "stuck_run =
     [Spawn, Spawn, Spawn, Commit (pool_executor Timer_Run), Notify None, Commit (pool_executor (Sub_Reactor_Run 0)),
      Notify None, Take 0 (Some (pool_executor Timer_Run)), Take 1 (Some (pool_executor (Sub_Reactor_Run 0))),
      Commit (pool_executor (Read_Data 7)), Notify None, Take 2 (Some (pool_executor (Read_Data 7))),
      Commit (pool_executor (Read_Data 7)), Notify None, Commit (pool_executor Check_Users), Notify None]"

lemma stuck_runs: "\<exists>s. runs (default_pool 3) stuck_run s"
  by (simp add: stuck_run_def default_pool_def spawn_def eval_pool pool_executor_def)

text \<open>The server of \<open>sub_world\<close>, with five bytes of a message of three in the socket of 7.\<close>

definition half_world :: "(nat rpc_app, sim) world" where
  "half_world = sub_world\<lparr>w_kernel := \<lparr>sim_in = [[3, 0, 0, 0, 0]], sim_out = []\<rparr>\<rparr>"

lemma half_world_half: "half_message sim_in 7 half_world"
proof -
  have "connection 7 0 half_world"
    using sub_ready [of gcc_x86] by (simp add: server_ready_def half_world_def gcc_x86_def complete_orders)
  moreover have "sim_in (w_kernel half_world) = [take 5 (frame_message False [0, 65, 66])]"
    by (simp add: half_world_def frame_message_eq word_bytes_def nat_bytes_4)
  moreover have "(5 :: nat) < length (frame_message False [0, 65, 66])" by (simp add: frame_message_eq)
  moreover have "length [0, 65, 66 :: byte] < 2 ^ 31" "HEAD_LENGTH < 5" "5 \<le> BUFFER_SIZE"
    by (simp_all add: HEAD_LENGTH_def BUFFER_SIZE_def)
  ultimately show ?thesis unfolding half_message_def by blast
qed

lemma sim_server:
  "\<exists>w. construct_server (sim_kernel 3) hardware 8080 () no_clock k = Inr (w, server_timer 0) \<and>
     fst (server_run w) = map pool_executor (Timer_Run # map Sub_Reactor_Run [0..<hardware div 2])"
proof -
  have r: "new_reactors (sim_kernel 3) n k = Inr (replicate n 0, k)" for n k
    by (induction n) (simp_all add: new_reactor_def sim_kernel_def)
  have "\<exists>w. construct_server (sim_kernel 3) hardware 8080 () no_clock k = Inr (w, server_timer 0)"
    by (simp add: construct_server_def new_tcp_server_def r)
      (simp add: sim_kernel_def new_reactor_def create_listen_socket_def add_fd_def no_clock_def)
  then obtain w where w: "construct_server (sim_kernel 3) hardware 8080 () no_clock k = Inr (w, server_timer 0)" ..
  with construct_server_jobs [OF w] show ?thesis by blast
qed

theorem partial_messages_stop_server_witness:
  "\<exists>s. runs (default_pool 3) stuck_run s \<and> pool_executor Check_Users \<in> set (commits stuck_run) \<and>
     half_message sim_in 7 half_world \<and>
     {ls'. \<exists>t. runs s ls' t \<and> (\<forall>h \<in> set (commits ls'). \<not> is_io_task h) \<and> (\<forall>h \<in> set (finishes ls'). \<not> endless h) \<and>
        runs_read_data (sub_env gcc_x86) (\<lambda>_. half_world) [7] (stuck_run @ ls') \<and>
        pool_executor Check_Users \<in> set (starts ls')} = {}"
proof -
  let ?env = "sub_env gcc_x86" and ?k = "\<lparr>sim_in = [], sim_out = []\<rparr>"
  have kern: "env_kernel ?env = sim_kernel 3" by (simp add: sub_env_def)
  obtain w where w: "construct_server (env_kernel ?env) (unat (3 :: uint32)) 8080 () no_clock ?k = Inr (w, server_timer 0)"
    "fst (server_run w) = map pool_executor [Timer_Run, Sub_Reactor_Run 0]"
    using sim_server [of "unat (3 :: uint32)" ?k] unfolding kern by auto
  obtain s where s: "runs (default_pool 3) stuck_run s" using stuck_runs by blast
  have c: "commits stuck_run = fst (server_run w) @ map (\<lambda>fd. pool_executor (Read_Data fd)) [7] @
      [pool_executor (Read_Data 7), pool_executor Check_Users]" "finishes stuck_run = []"
    by (simp_all add: stuck_run_def w(2))
  have v: "serves (env_kernel ?env) fd sim_in sim_out" for fd unfolding kern by (rule sim_kernel_serves) simp
  have h: "half_message sim_in fd half_world" if "fd \<in> set [7]" for fd using that half_world_half by simp
  have "pool_executor Check_Users \<notin> set (starts ls')"
    if "runs s ls' t" "\<forall>h \<in> set (commits ls'). \<not> is_io_task h" "\<forall>h \<in> set (finishes ls'). \<not> endless h"
      "runs_read_data ?env (\<lambda>_. half_world) [7] (stuck_run @ ls')" for ls' t
  proof -
    have "\<forall>h \<in> set (commits (stuck_run @ ls')). \<not> is_io_task h" "\<forall>h \<in> set (finishes (stuck_run @ ls')). \<not> endless h"
      using that c by (auto simp: trace_append w(2) pool_executor_def)
    from partial_messages_stop_server [OF w(1) _ _ runs_trans [OF s that(1)] _ _ _ this that(4) v h] obtain n where
      "starts (stuck_run @ ls') = take n (fst (server_run w) @ map (\<lambda>fd. pool_executor (Read_Data fd)) [7])"
      by (auto simp: trace_append c)
    then have "set (starts (stuck_run @ ls')) \<subseteq> set (fst (server_run w) @ map (\<lambda>fd. pool_executor (Read_Data fd)) [7])"
      by (simp only: set_take_subset)
    then show ?thesis by (auto simp: trace_append w(2) pool_executor_def)
  qed
  moreover have "pool_executor Check_Users \<in> set (commits stuck_run)" by (simp add: c)
  ultimately show ?thesis using s half_world_half by blast
qed

text \<open>
  A client on such a machine. Its reader and its timer take the threads of the pool, so that no
  heartbeat is ever sent, whatever else is committed.
\<close>
theorem client_starves:
  assumes "rpc_client_run kern arr cw = (js, Inr (), cw')" and "1 \<le> core" "core \<le> 2"
    and "runs (default_pool core) ls s" and "commits ls = js @ later"
    and "\<forall>h \<in> set (commits ls). \<not> is_io_task h" and "\<forall>h \<in> set (finishes ls). \<not> endless h"
  shows "(\<exists>n. starts ls = take n js) \<and> pool_executor Heartbeat \<notin> set (starts ls)"
proof -
  note js = rpc_client_jobs [OF assms(1)]
  have c: "core \<le> 5" using assms(3) by (rule order_trans) simp
  have "unat core \<le> 2" using assms(3) by (simp add: word_le_nat_alt)
  moreover have "\<forall>h \<in> set js. endless h" by (auto simp: js pool_executor_def)
  ultimately obtain n where n: "starts ls = take n js"
    using only_endless [OF assms(4,2) c assms(6,7,5)] by (auto simp: js)
  then have "h \<in> set (starts ls) \<Longrightarrow> h \<in> set js" for h by (auto dest: in_set_takeD)
  with n show ?thesis by (auto simp: js pool_executor_def)
qed

definition starving_client_run :: "job label list" where
  "starving_client_run =
     [Spawn, Spawn, Commit (pool_executor Client_Read_Data), Notify None, Commit (pool_executor Timer_Run), Notify None,
      Take 0 (Some (pool_executor Client_Read_Data)), Take 1 (Some (pool_executor Timer_Run)),
      Commit (pool_executor Heartbeat), Notify None]"

theorem client_starves_witness:
  "\<exists>s. runs (default_pool 2) starving_client_run s \<and> pool_executor Heartbeat \<in> set (commits starving_client_run) \<and>
     pool_executor Heartbeat \<notin> set (starts starving_client_run)"
proof -
  let ?cw = "fst (construct_client 0 [] 8080 0 ([], []))"
  have "\<exists>cw'. client_run poll_kernel [] ?cw = (Inr (), cw')"
    by (simp add: construct_client_def client_run_def poll_kernel_def Let_def EINPROGRESS_def)
  then obtain cw' where r: "rpc_client_run poll_kernel [] ?cw = (map pool_executor [Client_Read_Data, Timer_Run], Inr (), cw')"
    by (auto simp: rpc_client_run_def)
  have "\<exists>s. runs (default_pool 2) starving_client_run s"
    by (simp add: starving_client_run_def default_pool_def spawn_def eval_pool pool_executor_def)
  then obtain s where s: "runs (default_pool 2) starving_client_run s" ..
  have c: "commits starving_client_run = map pool_executor [Client_Read_Data, Timer_Run] @ [pool_executor Heartbeat]"
    "finishes starving_client_run = []" by (simp_all add: starving_client_run_def)
  from client_starves [OF r _ _ s c(1)] s c show ?thesis by (auto simp: pool_executor_def)
qed

text \<open>
  C29: A machine with enough cores. With three to five cores, as long as fewer short tasks run than
  there are threads beyond the server's endless ones (at least one), the next task that was committed
  starts, in one or two steps of the threads that are free.
\<close>
theorem server_serves:
  assumes "construct_server kern (unat core) port app clock k = Inr (w, tm)" and "3 \<le> core" "core \<le> 5"
    and "runs (default_pool core) ls s" and "filter endless (commits ls) = fst (server_run w)"
    and "\<forall>h \<in> set (commits ls). \<not> is_io_task h" and "\<not> tp_isStop s" "tp_spawning s = 0"
    and "size {# h \<in># running s. \<not> endless h #} < unat core - (1 + unat core div 2)" and "tp_queue s = h # q"
  shows "\<exists>i ls' t. ls' \<in> {[Take i (Some h)], [Resume i (Some h)], [Notify (Some i), Resume i (Some h)]} \<and>
     runs s ls' t"
proof -
  have "1 \<le> core" using assms(2) by (simp add: word_le_nat_alt)
  have "length (filter endless (commits ls)) = 1 + unat core div 2"
    by (simp add: assms(5) construct_server_jobs [OF assms(1)])
  with endless_running [OF assms(4)] have e: "size {# h \<in># running s. endless h #} \<le> 1 + unat core div 2"
    by (simp del: endless.simps)
  have "size (running s) = size {# h \<in># running s. endless h #} + size {# h \<in># running s. \<not> endless h #}"
    by (metis multiset_partition size_union)
  with e assms(9) have "pcount is_busy s < unat core" by (simp add: busy_running del: endless.simps)
  from default_starts [OF assms(4) \<open>1 \<le> core\<close> assms(3,6-8,10) this] show ?thesis .
qed

definition serving_run :: "job label list" where
  "serving_run =
     [Spawn, Spawn, Spawn, Commit (pool_executor Timer_Run), Notify None, Commit (pool_executor (Sub_Reactor_Run 0)),
      Notify None, Take 0 (Some (pool_executor Timer_Run)), Take 1 (Some (pool_executor (Sub_Reactor_Run 0))),
      Take 2 None, Block 2, Commit (pool_executor (Read_Data 7))]"

lemma serving_runs:
  "\<exists>s. runs (default_pool 3) serving_run s \<and> tp_queue s = [pool_executor (Read_Data 7)] \<and> \<not> tp_isStop s \<and>
     tp_spawning s = 0 \<and> running s = {# pool_executor Timer_Run, pool_executor (Sub_Reactor_Run 0) #}"
  by (simp add: serving_run_def default_pool_def spawn_def eval_pool pool_executor_def running_def)

theorem server_serves_witness:
  "\<exists>s i ls' t. runs (default_pool 3) serving_run s \<and> ls' \<in> {[Take i (Some (pool_executor (Read_Data 7)))],
       [Resume i (Some (pool_executor (Read_Data 7)))],
       [Notify (Some i), Resume i (Some (pool_executor (Read_Data 7)))]} \<and> runs s ls' t"
proof -
  obtain w where w: "construct_server poll_kernel (unat (3 :: uint32)) 8080 () no_clock ([], []) = Inr (w, server_timer 0)"
    "fst (server_run w) = map pool_executor [Timer_Run, Sub_Reactor_Run 0]"
    using small_server [of "unat (3 :: uint32)"] by auto
  obtain s where s: "runs (default_pool 3) serving_run s" "tp_queue s = [pool_executor (Read_Data 7)]" "\<not> tp_isStop s"
    "tp_spawning s = 0" "running s = {# pool_executor Timer_Run, pool_executor (Sub_Reactor_Run 0) #}"
    using serving_runs by blast
  have "filter endless (commits serving_run) = fst (server_run w)" "\<forall>h \<in> set (commits serving_run). \<not> is_io_task h"
    "size {# h \<in># running s. \<not> endless h #} < unat (3 :: uint32) - (1 + unat (3 :: uint32) div 2)"
    by (simp_all add: serving_run_def w(2) s(5) pool_executor_def)
  from server_serves [OF w(1) _ _ s(1) this(1,2) s(3,4) this(3) s(2)] s(1) show ?thesis by auto
qed

end
