(* ===== verification/Heartbeat.thy ===== *)
theory Heartbeat
  imports Rpc_Runtime
begin

text \<open>
  The heartbeat of a connection, end to end: the timer of \<open>Rpc_Client\<close> hands out a heartbeat every
  \<open>HEARTBEAT_REPEAT_TIME\<close> seconds, each becomes a request that the server's message callback takes, and the
  timer of \<open>Rpc_Server\<close> hands out the check that closes silent connections (\<open>RPC/Rpc_Client.cpp\<close>,
  \<open>RPC/Rpc_Server.cpp\<close>, \<open>Core/Timer.cpp\<close>).

  The theory shows how late a timer's loop and the delivery may be for a client that is alive never
  to be closed, and by when a client that fell silent is closed.
\<close>

subsection \<open>Polling a clock\<close>

text \<open>
  \<open>gaps g t0 clock T\<close>: from \<open>t0\<close> to \<open>T\<close> the loop of a timer reads the clock at least every \<open>g\<close>
  nanoseconds.
\<close>

fun gaps :: "int \<Rightarrow> int \<Rightarrow> int list \<Rightarrow> int \<Rightarrow> bool" where
  "gaps g t0 [] T \<longleftrightarrow> T \<le> t0 + g"
| "gaps g t0 (r # rs) T \<longleftrightarrow> t0 \<le> r \<and> r \<le> t0 + g \<and> gaps g r rs T"

lemma gaps_sorted: "gaps g t0 clock T \<Longrightarrow> sorted clock \<and> (\<forall>r \<in> set clock. t0 \<le> r)"
  by (induction clock arbitrary: t0) fastforce+

definition first_from :: "int \<Rightarrow> int list \<Rightarrow> int" where
  "first_from d clock = hd (dropWhile (\<lambda>r. r < d) clock)"

lemma first_from_gaps:
  assumes "gaps g t0 clock T" and "t0 \<le> d" and "d + g < T"
  shows "\<exists>r \<in> set clock. d \<le> r" and "d \<le> first_from d clock" and "first_from d clock \<le> d + g"
proof -
  have "(\<exists>r \<in> set clock. d \<le> r) \<and> d \<le> first_from d clock \<and> first_from d clock \<le> d + g"
    using assms(1,2)
  proof (induction clock arbitrary: t0)
    case Nil
    then show ?case using assms(3) by simp
  next
    case (Cons r rs)
    then show ?case by (cases "r < d") (auto simp: first_from_def)
  qed
  then show "\<exists>r \<in> set clock. d \<le> r" "d \<le> first_from d clock" "first_from d clock \<le> d + g" by blast+
qed

subsection \<open>A periodic timer, turn by turn\<close>

text \<open>
  Every due time of a periodic timer up to the last reading is handed over, at the first reading
  that is not before it.
\<close>

lemma le_div_int: "0 < (p :: int) \<Longrightarrow> k * p \<le> x \<Longrightarrow> k \<le> x div p"
  using zdiv_mono1 [of "k * p" x p] by simp

lemma div_less_int: "0 < (p :: int) \<Longrightarrow> x < k * p \<Longrightarrow> x div p < k"
proof -
  assume p: "0 < p" and "x < k * p"
  moreover have "x div p * p \<le> x" using div_mult_mod_eq [of x p] pos_mod_sign [OF p, of x] by linarith
  ultimately have "x div p * p < k * p" by linarith
  with p show ?thesis by (simp add: mult_less_cancel_right)
qed

lemma fired_member:
  assumes "h \<in> set hs" and "th_periodic h" "0 < th_wait h" and "th_id h \<notin> removed"
    and "th_next h + int k * milliseconds (th_wait h) \<le> now"
  shows "advanced k h \<in># sum_over (fired_by now removed) hs"
proof -
  let ?p = "milliseconds (th_wait h)"
  have p: "0 < ?p" using assms(3) by (simp add: milliseconds_def)
  have "int k \<le> (now - th_next h) div ?p"
    using assms(5) p by (intro le_div_int) simp_all
  moreover have "\<not> now < th_next h" using assms(5) p by (smt (verit) mult_nonneg_nonneg of_nat_0_le_iff)
  ultimately have "k < firings now removed h" using assms(2,4) by (simp add: firings_def)
  then have "advanced k h \<in># fired_by now removed h" by (auto simp: fired_by_def)
  with assms(1) show ?thesis by auto
qed

lemma kept_member:
  assumes "h \<in> set hs" and "th_periodic h" "0 < th_wait h" and "th_id h \<notin> removed"
    and "now < th_next h + int k * milliseconds (th_wait h)"
  shows "\<exists>h' k'. h' \<in># sum_over (kept_after now removed) hs \<and> th_periodic h' \<and> th_wait h' = th_wait h \<and>
     th_id h' = th_id h \<and> th_callback h' = th_callback h \<and>
     th_next h' + int k' * milliseconds (th_wait h') = th_next h + int k * milliseconds (th_wait h)"
proof (cases "now < th_next h")
  case True
  then have "h \<in># kept_after now removed h" by (simp add: kept_after_def)
  with assms(1,2) show ?thesis by (intro exI [of _ h] exI [of _ k]) auto
next
  case False
  let ?p = "milliseconds (th_wait h)" and ?n = "firings now removed h"
  have p: "0 < ?p" using assms(3) by (simp add: milliseconds_def)
  have n: "?n = Suc (nat ((now - th_next h) div ?p))" using False assms(2,4) by (simp add: firings_def)
  have "(now - th_next h) div ?p < int k"
    using assms(5) p by (intro div_less_int) simp_all
  moreover have "0 \<le> (now - th_next h) div ?p" using False p by (simp add: pos_imp_zdiv_nonneg_iff)
  ultimately have "nat ((now - th_next h) div ?p) < k" by (simp add: nat_less_iff)
  then have "?n \<le> k" using n by simp
  then obtain j where j: "k = ?n + j" using le_Suc_ex by blast
  then have "int k * ?p = int ?n * ?p + int j * ?p" by (metis distrib_right of_nat_add)
  then have "th_next (advanced ?n h) + int j * ?p = th_next h + int k * ?p" by simp
  moreover have "advanced ?n h \<in># kept_after now removed h"
    using False assms(2,4) by (simp add: kept_after_def)
  then have "advanced ?n h \<in># sum_over (kept_after now removed) hs" using assms(1) by auto
  ultimately show ?thesis using assms(2)
    by (intro exI [of _ "advanced ?n h"] exI [of _ j]) (simp del: advanced_sels(5))
qed

lemma handed_over:
  assumes "picks_top pick" and "tm_running t" and "progressing (tm_timers t)"
    and "h \<in> set (tm_timers t)" "th_periodic h" "th_id h \<notin> tm_removed t" and "sorted clock"
    and "d = th_next h + int k * milliseconds (th_wait h)" and "\<exists>r \<in> set clock. d \<le> r"
    and "timer_ops pick (map Op_Turn clock) t = Inr (fired, t')"
  shows "\<exists>f. (first_from d clock, f) \<in> set fired \<and> th_next f = d \<and> th_callback f = th_callback h"
  using assms(2-10)
proof (induction clock arbitrary: t h k fired)
  case (Cons now clock)
  have w: "0 < th_wait h" using Cons.prems(2-4) by (simp add: progressing_def)
  from timer_turn_exact [OF assms(1) Cons.prems(1,2), of now] obtain fs hs where
    r: "timer_turn pick now t = Inr (fs, t\<lparr>tm_timers := hs\<rparr>)"
      "mset fs = sum_over (fired_by now (tm_removed t)) (tm_timers t)"
      "mset hs = sum_over (kept_after now (tm_removed t)) (tm_timers t)" "progressing hs" by blast
  from Cons.prems(9) r(1) obtain fired' where
    f': "timer_ops pick (map Op_Turn clock) (t\<lparr>tm_timers := hs\<rparr>) = Inr (fired', t')" "fired = map (Pair now) fs @ fired'"
    by (auto simp: bindE_eq_Inr)
  show ?case
  proof (cases "d \<le> now")
    case True
    then have "advanced k h \<in># mset fs"
      unfolding r(2) using fired_member [OF Cons.prems(3,4) w Cons.prems(5)] Cons.prems(7) by simp
    then have "(now, advanced k h) \<in> set fired" using f'(2) by simp
    moreover have "first_from d (now # clock) = now" using True by (simp add: first_from_def)
    ultimately show ?thesis using Cons.prems(7) by (intro exI [of _ "advanced k h"]) simp
  next
    case False
    with Cons.prems(7) have "now < th_next h + int k * milliseconds (th_wait h)" by simp
    from kept_member [OF Cons.prems(3,4) w Cons.prems(5) this] obtain h' k' where
      h': "h' \<in># mset hs" "th_periodic h'" "th_id h' = th_id h" "th_callback h' = th_callback h"
        "th_next h' + int k' * milliseconds (th_wait h') = d"
      unfolding r(3) [symmetric] Cons.prems(7) [symmetric] by blast
    have "first_from d (now # clock) = first_from d clock" using False by (simp add: first_from_def)
    with Cons.IH [of "t\<lparr>tm_timers := hs\<rparr>" h' k' fired'] Cons.prems h' r(4) f' False show ?thesis by auto
  qed
qed simp

subsection \<open>What the server sees\<close>

text \<open>
  The callbacks of the server and its periodic check, in the order in which they run, with the readings
  of the server's clock. A history lists the descriptors that the checks closed.
\<close>

datatype server_event = Joined int int | Request int int "byte list" | Left int | Check int

fun server_event_step :: "machine \<Rightarrow> server_event \<Rightarrow> 'u rpc_server \<Rightarrow> (int list \<times> 'u rpc_server) result" where
  "server_event_step m (Joined fd now) sv = Inr ([], on_new_connection now fd sv)"
| "server_event_step m (Request fd now data) sv =
     bindE (on_request m now fd data sv) (\<lambda>(bytes, sv1). Inr ([], sv1))"
| "server_event_step m (Left fd) sv = Inr ([], on_disconnect fd sv)"
| "server_event_step m (Check now) sv = Inr (check_users now sv)"

fun server_history :: "machine \<Rightarrow> server_event list \<Rightarrow> 'u rpc_server \<Rightarrow> (int list \<times> 'u rpc_server) result" where
  "server_history m [] sv = Inr ([], sv)"
| "server_history m (e # es) sv =
     bindE (server_event_step m e sv) (\<lambda>(fds, sv1).
     bindE (server_history m es sv1) (\<lambda>(fds', sv2). Inr (fds @ fds', sv2)))"

fun event_times :: "server_event list \<Rightarrow> int list" where
  "event_times [] = []"
| "event_times (Joined fd t # es) = t # event_times es"
| "event_times (Request fd t d # es) = t # event_times es"
| "event_times (Left fd # es) = event_times es"
| "event_times (Check t # es) = t # event_times es"

text \<open>Who is connected after an event, and last heard of when.\<close>

fun seen_after :: "server_event \<Rightarrow> (int \<Rightarrow> int option) \<Rightarrow> int \<Rightarrow> int option" where
  "seen_after (Joined fd t) seen = seen(fd \<mapsto> t)"
| "seen_after (Request fd t d) seen = seen(fd \<mapsto> t)"
| "seen_after (Left fd) seen = seen(fd := None)"
| "seen_after (Check t) seen =
     (\<lambda>fd. case seen fd of None \<Rightarrow> None | Some u \<Rightarrow> if seconds 15 < t - u then None else Some u)"

fun closes :: "server_event \<Rightarrow> (int \<Rightarrow> int option) \<Rightarrow> int set" where
  "closes (Check t) seen = {fd. \<exists>u. seen fd = Some u \<and> seconds 15 < t - u}"
| "closes e seen = {}"

lemma on_request_users:
  assumes "on_request m now fd data sv = Inr (bytes, sv')"
  shows "update_heartbeat fd now (srv_users sv) = Inr (srv_users sv')"
proof -
  from assms obtain request users where u: "update_heartbeat fd now (srv_users sv) = Inr users"
    "(case answer m request (sv\<lparr>srv_users := users\<rparr>) of (r, app) \<Rightarrow> bindE r (\<lambda>response.
       bindE (message_bytes (big_endian m) (response_val response)) (\<lambda>bytes.
       Inr (bytes, sv\<lparr>srv_users := users, srv_app := app\<rparr>)))) = Inr (bytes, sv')"
    by (auto simp: on_request_def bindE_eq_Inr)
  obtain r app where "answer m request (sv\<lparr>srv_users := users\<rparr>) = (r, app)" by fastforce
  with u show ?thesis by (auto simp: bindE_eq_Inr)
qed

lemma event_users:
  assumes "store_ok (srv_users sv)" and "server_event_step m e sv = Inr (fds, sv')"
  shows "store_ok (srv_users sv') \<and> last_of (srv_users sv') = seen_after e (last_of (srv_users sv)) \<and>
     set fds = closes e (last_of (srv_users sv))"
proof (cases e)
  case (Joined fd t)
  with assms users.create show ?thesis by (auto simp: on_new_connection_def)
next
  case (Request fd t d)
  with assms(2) obtain bytes where "on_request m t fd d sv = Inr (bytes, sv')" "fds = []"
    by (auto simp: bindE_eq_Inr)
  from on_request_users [OF this(1)] have "update_heartbeat fd t (srv_users sv) = Inr (srv_users sv')" .
  with users.touch_Inr [OF assms(1)] Request \<open>fds = []\<close> show ?thesis by auto
next
  case (Left fd)
  with assms users.remove show ?thesis by (auto simp: on_disconnect_def)
next
  case (Check t)
  let ?fds = "check_invalid_user t (srv_users sv)"
  from Check assms(2) have f: "fds = ?fds" "sv' = fold on_disconnect ?fds sv"
    by (auto simp: check_users_def Let_def)
  have s: "set ?fds = closes e (last_of (srv_users sv))"
    using check_invalid_user_iff [OF assms(1)] Check by (auto simp: HEARTBEAT_TIMEOUT_def)
  have "last_of (srv_users sv') = seen_after e (last_of (srv_users sv))"
  proof
    fix fd
    show "last_of (srv_users sv') fd = seen_after e (last_of (srv_users sv)) fd"
      using fold_remove_user [OF assms(1), of ?fds] s f(2) Check
      by (auto simp: fold_on_disconnect split: option.split)
  qed
  with fold_remove_user [OF assms(1), of ?fds] s f show ?thesis by (simp add: fold_on_disconnect)
qed

lemma history_cons:
  "server_history m (e # es) sv = Inr (closed, sv') \<longleftrightarrow>
     (\<exists>fds sv1 fds'. server_event_step m e sv = Inr (fds, sv1) \<and> server_history m es sv1 = Inr (fds', sv') \<and>
        closed = fds @ fds')"
  by (auto simp: bindE_eq_Inr)

text \<open>A connection that is heard of in time before every check is never closed.\<close>

definition heard_in_time :: "int \<Rightarrow> int \<Rightarrow> server_event list \<Rightarrow> bool" where
  "heard_in_time fd t0 es \<longleftrightarrow> Left fd \<notin> set es \<and> sorted (t0 # event_times es) \<and>
     (\<forall>es1 t es2. es = es1 @ Check t # es2 \<longrightarrow>
        t \<le> t0 + seconds 15 \<or> (\<exists>u d. Request fd u d \<in> set es1 \<and> t \<le> u + seconds 15))"

lemma heard_in_timeI:
  assumes "Left fd \<notin> set es" and "sorted (t0 # event_times es)"
    and "\<And>es1 t es2. es = es1 @ Check t # es2 \<Longrightarrow>
       t \<le> t0 + seconds 15 \<or> (\<exists>u d. Request fd u d \<in> set es1 \<and> t \<le> u + seconds 15)"
  shows "heard_in_time fd t0 es"
  using assms by (simp add: heard_in_time_def)

lemma heard_in_timeD:
  assumes "heard_in_time fd t0 es"
  shows "Left fd \<notin> set es" and "sorted (t0 # event_times es)"
    and "es = es1 @ Check t # es2 \<Longrightarrow>
       t \<le> t0 + seconds 15 \<or> (\<exists>u d. Request fd u d \<in> set es1 \<and> t \<le> u + seconds 15)"
  using assms by (simp_all add: heard_in_time_def)

lemma heard_in_time_tail:
  assumes "heard_in_time fd t0 (e # es)" and "t0 \<le> t1" and "sorted (t1 # event_times es)"
    and "\<And>u d. e = Request fd u d \<Longrightarrow> u \<le> t1"
  shows "heard_in_time fd t1 es"
proof (rule heard_in_timeI)
  show "Left fd \<notin> set es" using heard_in_timeD(1) [OF assms(1)] by simp
  fix es1 t es2
  assume "es = es1 @ Check t # es2"
  then have "e # es = (e # es1) @ Check t # es2" by simp
  from heard_in_timeD(3) [OF assms(1) this] consider "t \<le> t0 + seconds 15"
    | u d where "e = Request fd u d" "t \<le> u + seconds 15"
    | u d where "Request fd u d \<in> set es1" "t \<le> u + seconds 15" by auto
  then show "t \<le> t1 + seconds 15 \<or> (\<exists>u d. Request fd u d \<in> set es1 \<and> t \<le> u + seconds 15)"
  proof cases
    case 1
    with assms(2) show ?thesis by simp
  next
    case 2
    with assms(4) [OF 2(1)] show ?thesis by simp
  next
    case 3
    then show ?thesis by blast
  qed
qed (rule assms(3))

lemma heard_in_time_check: "heard_in_time fd t0 (Check t # es) \<Longrightarrow> t \<le> t0 + seconds 15"
  using heard_in_timeD(3) [of fd t0 "Check t # es" "[]" t es] by simp

lemma heard_in_time_cons:
  assumes "heard_in_time fd t0 (e # es)"
  shows "(\<nexists>u d. e = Request fd u d) \<Longrightarrow> heard_in_time fd t0 es"
    and "e = Request fd u d \<or> e = Joined fd u \<Longrightarrow> heard_in_time fd u es"
proof -
  have o: "sorted (t0 # event_times (e # es))" using heard_in_timeD(2) [OF assms] .
  then have "sorted (t0 # event_times es)" by (cases e) auto
  then show "heard_in_time fd t0 es" if "\<nexists>u d. e = Request fd u d"
    using that by (intro heard_in_time_tail [OF assms]) auto
  show "heard_in_time fd u es" if "e = Request fd u d \<or> e = Joined fd u"
    using that o by (intro heard_in_time_tail [OF assms]) auto
qed

lemma never_closed:
  assumes "server_history m es sv = Inr (closed, sv')" and "store_ok (srv_users sv)"
    and "last_of (srv_users sv) fd = Some t0" and "heard_in_time fd t0 es"
  shows "fd \<notin> set closed \<and> last_of (srv_users sv') fd \<noteq> None"
  using assms
proof (induction es arbitrary: sv t0 closed)
  case (Cons e es)
  from Cons.prems(1) obtain fds sv1 fds' where s: "server_event_step m e sv = Inr (fds, sv1)"
    "server_history m es sv1 = Inr (fds', sv')" "closed = fds @ fds'" unfolding history_cons by blast
  note u = event_users [OF Cons.prems(2) s(1)]
  note h = heard_in_time_cons [OF Cons.prems(4)]
  have c: "t \<le> t0 + seconds 15" if "e = Check t" for t
    using heard_in_time_check Cons.prems(4) that by simp
  then have "fd \<notin> set fds" using u Cons.prems(3) by (cases e) auto
  moreover have "\<exists>t1. last_of (srv_users sv1) fd = Some t1 \<and> heard_in_time fd t1 es"
  proof (cases e)
    case (Joined fd' t)
    with u h Cons.prems(3) show ?thesis by (cases "fd' = fd") auto
  next
    case (Request fd' t d)
    with u h Cons.prems(3) show ?thesis by (cases "fd' = fd") auto
  next
    case (Left fd')
    then have "fd' \<noteq> fd" using heard_in_timeD(1) [OF Cons.prems(4)] by auto
    with Left u h(1) Cons.prems(3) show ?thesis by auto
  next
    case (Check t)
    with c have "\<not> seconds 15 < t - t0" by fastforce
    with Check u h(1) Cons.prems(3) show ?thesis by auto
  qed
  ultimately show ?case using Cons.IH [OF s(2)] u s(3) by auto
qed simp

text \<open>A connection that is not heard of any more is closed by a check that is late enough.\<close>

fun concerns :: "int \<Rightarrow> server_event \<Rightarrow> bool" where
  "concerns fd (Joined fd' t) \<longleftrightarrow> fd' = fd"
| "concerns fd (Request fd' t d) \<longleftrightarrow> fd' = fd"
| "concerns fd (Left fd') \<longleftrightarrow> fd' = fd"
| "concerns fd (Check t) \<longleftrightarrow> False"

lemma silent_closed:
  assumes "server_history m es sv = Inr (closed, sv')" and "store_ok (srv_users sv)"
    and "last_of (srv_users sv) fd = Some t0" and "\<forall>e \<in> set es. \<not> concerns fd e"
    and "Check u \<in> set es" and "t0 + seconds 15 < u"
  shows "fd \<in> set closed"
  using assms(1-5)
proof (induction es arbitrary: sv closed)
  case (Cons e es)
  from Cons.prems(1) obtain fds sv1 fds' where s: "server_event_step m e sv = Inr (fds, sv1)"
    "server_history m es sv1 = Inr (fds', sv')" "closed = fds @ fds'" unfolding history_cons by blast
  note ev = event_users [OF Cons.prems(2) s(1)]
  show ?case
  proof (cases "fd \<in> closes e (last_of (srv_users sv))")
    case True
    with ev s(3) show ?thesis by auto
  next
    case False
    then have "last_of (srv_users sv1) fd = Some t0" "e \<noteq> Check u"
      using ev Cons.prems(3,4) assms(6) by (cases e; auto)+
    with Cons.IH [OF s(2)] ev Cons.prems(4,5) s(3) show ?thesis by auto
  qed
qed simp

subsection \<open>The two timers\<close>

lemma turns_succeed:
  "picks_top pick \<Longrightarrow> tm_running t \<Longrightarrow> progressing (tm_timers t) \<Longrightarrow>
     \<exists>fired t'. timer_ops pick (map Op_Turn clock) t = Inr (fired, t') \<and> fst ` set fired \<subseteq> set clock"
proof (induction clock arbitrary: t)
  case (Cons now clock)
  from timer_turn_exact [OF Cons.prems, of now] obtain fs hs where
    r: "timer_turn pick now t = Inr (fs, t\<lparr>tm_timers := hs\<rparr>)" "progressing hs" by blast
  with Cons.IH [of "t\<lparr>tm_timers := hs\<rparr>"] Cons.prems(1,2) obtain fired t' where
    "timer_ops pick (map Op_Turn clock) (t\<lparr>tm_timers := hs\<rparr>) = Inr (fired, t')" "fst ` set fired \<subseteq> set clock" by auto
  with r show ?case by auto
qed simp

text \<open>A timer that is alone: each of its due times is handed over within the gap of the readings.\<close>

lemma alone_handed_over:
  assumes "picks_top pick" and "tm_timers t = [h]" "tm_running t" "tm_removed t = {}"
    and "th_periodic h" "0 < th_wait h" and "gaps g c0 clock T" and "c0 \<le> th_next h" "0 \<le> g"
    and "timer_ops pick (map Op_Turn clock) t = Inr (fired, t')"
    and "d = th_next h + int k * milliseconds (th_wait h)" and "d + g < T"
  shows "\<exists>r f. (r, f) \<in> set fired \<and> d \<le> r \<and> r \<le> d + g"
proof -
  have "0 \<le> int k * milliseconds (th_wait h)" using assms(6) by (simp add: milliseconds_def)
  then have "c0 \<le> d" using assms(8,11) by simp
  note first = first_from_gaps [OF assms(7) this assms(12)]
  have "progressing (tm_timers t)" "h \<in> set (tm_timers t)" "th_id h \<notin> tm_removed t"
    using assms(2,4-6) by (simp_all add: progressing_def)
  from handed_over [OF assms(1,3) this(1,2) assms(5) this(3) conjunct1 [OF gaps_sorted [OF assms(7)]] assms(11)
      first(1) assms(10)] first(2,3) show ?thesis by blast
qed

lemma next_due:
  assumes "0 < (p :: int)" and "d0 \<le> x + p"
  shows "\<exists>k :: nat. x < d0 + int k * p \<and> d0 + int k * p \<le> x + p"
proof (cases "x < d0")
  case True
  with assms(2) show ?thesis by (intro exI [of _ 0]) simp
next
  case False
  let ?q = "(x - d0) div p"
  have "?q * p \<le> x - d0" "x - d0 < ?q * p + p"
    using div_mult_mod_eq [of "x - d0" p] pos_mod_bound [OF assms(1), of "x - d0"] pos_mod_sign [OF assms(1), of "x - d0"]
    by linarith+
  moreover have "int (nat (?q + 1)) = ?q + 1" using False assms(1) by (simp add: pos_imp_zdiv_nonneg_iff)
  ultimately show ?thesis by (intro exI [of _ "nat (?q + 1)"]) (simp add: algebra_simps)
qed

lemma event_times_append: "event_times (es1 @ es2) = event_times es1 @ event_times es2"
  by (induction es1 rule: event_times.induct) simp_all

lemma request_time: "Request fd u d \<in> set es \<Longrightarrow> u \<in> set (event_times es)"
  by (induction es rule: event_times.induct) auto

lemma request_before:
  assumes "sorted (event_times (es1 @ Check t # es2))" and "Request fd u d \<in> set (es1 @ Check t # es2)" and "u < t"
  shows "Request fd u d \<in> set es1"
proof (rule ccontr)
  assume "\<not> ?thesis"
  with assms(2) have "Request fd u d \<in> set es2" by auto
  with assms(1) request_time [of fd u d es2] have "t \<le> u" by (auto simp: event_times_append sorted_append)
  with assms(3) show False by simp
qed

lemma beats_in_time:
  assumes pick: "picks_top pick" and gap: "gaps g c0 clock T" "0 \<le> g" "0 \<le> delay" "g + delay \<le> milliseconds 9999"
    and beats: "timer_ops pick (map Op_Turn clock) (client_timer c0) = Inr (beats, tm)"
    and es: "sorted (ct # event_times es)" "\<forall>t \<in> set (event_times es). t \<le> T" "c0 \<le> ct" "Left fd \<notin> set es"
    and del: "\<forall>(r, f) \<in> set beats. ct \<le> r \<and> r + delay < T \<longrightarrow>
       (\<exists>u data. Request fd u data \<in> set es \<and> r \<le> u \<and> u \<le> r + delay)"
  shows "heard_in_time fd ct es"
proof (rule heard_in_timeI [OF es(4,1)])
  fix es1 t es2
  assume e: "es = es1 @ Check t # es2"
  let ?p = "milliseconds 5000" and ?d0 = "c0 + milliseconds 5001"
  note ms = milliseconds_def seconds_def
  have "t \<le> T" using es(2) by (simp add: e event_times_append)
  show "t \<le> ct + seconds 15 \<or> (\<exists>u d. Request fd u d \<in> set es1 \<and> t \<le> u + seconds 15)"
  proof (cases "?d0 \<le> t - 1 - g - delay")
    case False
    then show ?thesis using gap(4) es(3) by (simp add: ms)
  next
    case True
    have "0 < ?p" by (simp add: ms)
    moreover from True have "?d0 \<le> t - 1 - g - delay - ?p + ?p" by simp
    ultimately obtain k :: nat where
      k: "t - 1 - g - delay - ?p < ?d0 + int k * ?p" "?d0 + int k * ?p \<le> t - 1 - g - delay"
      using next_due [of ?p ?d0 "t - 1 - g - delay - ?p"] by fastforce
    let ?d = "?d0 + int k * ?p"
    have late: "t \<le> ?d + seconds 15" using k(1) gap(4) by (simp add: ms)
    have "?d + g < T" using k(2) \<open>t \<le> T\<close> gap(3) by linarith
    then obtain r f where r: "(r, f) \<in> set beats" "?d \<le> r" "r \<le> ?d + g"
      using alone_handed_over [OF pick client_timer_sels(3,1,2) _ _ gap(1) _ gap(2) beats, of ?d k] by (auto simp: ms)
    show ?thesis
    proof (cases "ct \<le> r")
      case False
      with late r(2) show ?thesis by simp
    next
      case True
      have "r + delay < t" using r(3) k(2) by linarith
      with True del r(1) \<open>t \<le> T\<close> obtain u d where u: "Request fd u d \<in> set es" "r \<le> u" "u \<le> r + delay" by fastforce
      with \<open>r + delay < t\<close> es(1) have "Request fd u d \<in> set es1"
        unfolding e by (intro request_before [of es1 t es2]) auto
      moreover have "t \<le> u + seconds 15" using late r(2) u(2) by simp
      ultimately show ?thesis by blast
    qed
  qed
qed

text \<open>A heartbeat of a connected client is always taken.\<close>

definition heartbeat_request :: "bool \<Rightarrow> byte list \<Rightarrow> byte list" where
  "heartbeat_request nb uuid =
     enc False (request_val \<lparr>req_id = uuid, req_method = HEARTBEAT_SIG, req_params = new_stream nb\<rparr>)"

lemma heartbeat_taken:
  assumes "srv_manager sv HEARTBEAT_SIG = Some heartbeat_handler" and "store_ok (srv_users sv)"
    and "last_of (srv_users sv) fd \<noteq> None" and "complete_order (arg_order m)" and "length uuid < 2 ^ 28"
  shows "\<exists>sv'. server_event_step m (Request fd now (heartbeat_request (big_endian m) uuid)) sv = Inr ([], sv') \<and>
     srv_manager sv' = srv_manager sv \<and> store_ok (srv_users sv') \<and>
     last_of (srv_users sv') = (last_of (srv_users sv))(fd \<mapsto> now)"
proof -
  let ?r = "\<lparr>req_id = uuid, req_method = HEARTBEAT_SIG, req_params = new_stream (big_endian m)\<rparr>"
  have "set (arg_order m 0) = {..<0}" using assms(4) unfolding complete_order_def by blast
  then have "permuted (arg_order m) [] = []" by (simp add: permuted_def)
  then have "callable m sv ?r []"
    using assms(1) new_stream_holds [of "big_endian m"] by (simp add: callable_def heartbeat_handler_def)
  moreover have "compact (req_params ?r)" "length (enc False (request_val ?r)) < 2 ^ 31" "length (req_id ?r) < 2 ^ 28"
    using assms(5) by (simp_all add: compact_def new_stream_def stored_def length_enc_request stream_bytes_def
        HEARTBEAT_SIG_def ascii_def)
  ultimately show ?thesis
    using on_request_answered [of ?r sv fd m "[]" now] assms(2-4) by (fastforce simp: heartbeat_request_def)
qed

subsection \<open>Properties\<close>

text \<open>
  C4: A live client keeps its connection. Let the loop of the client's timer read the clock at least
  every \<open>g\<close> nanoseconds, and let every heartbeat that it hands out while the client is connected be
  taken by the server's message callback within \<open>delay\<close> nanoseconds. If \<open>g + delay\<close> is at most 9.999
  seconds, then no periodic check closes the connection, whatever else happens on the server and
  whenever it checks.
\<close>
theorem heartbeats_keep_connection:
  assumes "picks_top pick" and "gaps g c0 clock T" "0 \<le> g" "0 \<le> delay" "g + delay \<le> milliseconds 9999"
    and "timer_ops pick (map Op_Turn clock) (client_timer c0) = Inr (beats, tm)"
    and "server_history m (Joined fd ct # es) sv = Inr (closed, sv')" and "store_ok (srv_users sv)"
    and "sorted (ct # event_times es)" "\<forall>t \<in> set (event_times es). t \<le> T" "c0 \<le> ct" "Left fd \<notin> set es"
    and "\<forall>(r, f) \<in> set beats. ct \<le> r \<and> r + delay < T \<longrightarrow>
       (\<exists>u data. Request fd u data \<in> set es \<and> r \<le> u \<and> u \<le> r + delay)"
  shows "fd \<notin> set closed \<and> last_of (srv_users sv') fd \<noteq> None"
proof -
  note h = beats_in_time [OF assms(1-6,9-13)]
  from assms(7) have s: "server_history m es (on_new_connection ct fd sv) = Inr (closed, sv')"
    unfolding history_cons by auto
  have "store_ok (srv_users (on_new_connection ct fd sv))" "last_of (srv_users (on_new_connection ct fd sv)) fd = Some ct"
    using event_users [OF assms(8), of m "Joined fd ct"] by auto
  from never_closed [OF s this h] show ?thesis .
qed

text \<open>
  An example: the loops look at the clock every six seconds and the delivery takes half a second.
\<close>

definition example_machine :: machine where
  "example_machine = \<lparr>big_endian = False, arg_order = right_to_left, lib_what = (\<lambda>e. [])\<rparr>"

definition live_events :: "server_event list" where
  "live_events =
     [Request 7 (milliseconds 6500) (heartbeat_request False [1]), Request 7 (milliseconds 12500) (heartbeat_request False [2]),
      Check (milliseconds 16000), Request 7 (milliseconds 18500) (heartbeat_request False [3]), Check (milliseconds 24000)]"

lemma live_history:
  "\<exists>closed sv'. server_history example_machine (Joined 7 0 # live_events) (new_rpc_server ()) = Inr (closed, sv')"
proof -
  let ?sv = "on_new_connection 0 7 (new_rpc_server ())"
  note taken = heartbeat_taken [of _ 7 example_machine, simplified example_machine_def machine.simps, folded example_machine_def,
      OF _ _ _ complete_orders(1)]
  note chk = event_users [of _ example_machine "Check t" for t]
  have ok: "srv_manager ?sv HEARTBEAT_SIG = Some heartbeat_handler" "store_ok (srv_users ?sv)"
    "last_of (srv_users ?sv) = [7 \<mapsto> 0]"
    using event_users [of "new_rpc_server ()" example_machine "Joined 7 0"]
    by (simp_all add: new_rpc_server_def register_method_def register_handler_def on_new_connection_def store_ok_def last_of_def
        fun_eq_iff)
  from taken [OF ok(1,2), of "[1]" "milliseconds 6500"] ok(3) obtain sv1 where
    s1: "server_event_step example_machine (Request 7 (milliseconds 6500) (heartbeat_request False [1])) ?sv = Inr ([], sv1)"
    "srv_manager sv1 HEARTBEAT_SIG = Some heartbeat_handler" "store_ok (srv_users sv1)"
    "last_of (srv_users sv1) = [7 \<mapsto> milliseconds 6500]" using ok(1) by auto
  from taken [OF s1(2,3), of "[2]" "milliseconds 12500"] s1(4) obtain sv2 where
    s2: "server_event_step example_machine (Request 7 (milliseconds 12500) (heartbeat_request False [2])) sv1 = Inr ([], sv2)"
    "srv_manager sv2 HEARTBEAT_SIG = Some heartbeat_handler" "store_ok (srv_users sv2)"
    "last_of (srv_users sv2) = [7 \<mapsto> milliseconds 12500]" using s1(2) by auto
  let ?sv3 = "snd (check_users (milliseconds 16000) sv2)"
  have s3: "srv_manager ?sv3 HEARTBEAT_SIG = Some heartbeat_handler" "store_ok (srv_users ?sv3)"
    "last_of (srv_users ?sv3) 7 \<noteq> None"
    using s2(2,4) chk [OF s2(3), of "milliseconds 16000" "fst (check_users (milliseconds 16000) sv2)" ?sv3]
    by (simp_all add: check_users_def Let_def fold_on_disconnect milliseconds_def seconds_def)
  from taken [OF s3, of "[3]" "milliseconds 18500"] obtain sv4 where
    s4: "server_event_step example_machine (Request 7 (milliseconds 18500) (heartbeat_request False [3])) ?sv3 = Inr ([], sv4)"
    by auto
  obtain fds3 where c3: "server_event_step example_machine (Check (milliseconds 16000)) sv2 = Inr (fds3, ?sv3)"
    by (simp add: prod_eq_iff)
  obtain fds5 sv5 where c5: "server_event_step example_machine (Check (milliseconds 24000)) sv4 = Inr (fds5, sv5)"
    by (cases "check_users (milliseconds 24000) sv4") simp
  have c0: "server_event_step example_machine (Joined 7 0) (new_rpc_server ()) = Inr ([], ?sv)" by simp
  show ?thesis unfolding live_events_def
    by (simp only: server_history.simps c0 s1(1) s2(1) c3 s4 c5 bindE_simps prod.case) blast
qed

lemma live_events_simps:
  "sorted (0 # event_times live_events)" "\<forall>t \<in> set (event_times live_events). t \<le> milliseconds 24000"
  "Left 7 \<notin> set live_events"
  by (simp_all add: live_events_def milliseconds_def)

lemma live_delivered:
  "\<forall>r \<in> set [milliseconds 6000, milliseconds 12000, milliseconds 18000].
     \<exists>u data. Request 7 u data \<in> set live_events \<and> r \<le> u \<and> u \<le> r + milliseconds 500"
proof -
  have "Request 7 (milliseconds 6500) (heartbeat_request False [1]) \<in> set live_events"
    "Request 7 (milliseconds 12500) (heartbeat_request False [2]) \<in> set live_events"
    "Request 7 (milliseconds 18500) (heartbeat_request False [3]) \<in> set live_events" by (simp_all add: live_events_def)
  moreover have "milliseconds 6500 = milliseconds 6000 + milliseconds 500"
    "milliseconds 12500 = milliseconds 12000 + milliseconds 500" "milliseconds 18500 = milliseconds 18000 + milliseconds 500"
    "0 \<le> milliseconds 500" by (simp_all add: milliseconds_def)
  ultimately show ?thesis by (metis (no_types, lifting) empty_iff insert_iff le_add_same_cancel1 list.set order_refl)
qed

lemma live_gaps:
  "gaps (milliseconds 6000) 0 [milliseconds 6000, milliseconds 12000, milliseconds 18000] (milliseconds 24000)"
  "0 \<le> milliseconds 6000" "0 \<le> milliseconds 500" "milliseconds 6000 + milliseconds 500 \<le> milliseconds 9999"
  by (simp_all add: milliseconds_def)

theorem heartbeats_keep_connection_witness:
  "\<exists>closed sv'. server_history example_machine (Joined 7 0 # live_events) (new_rpc_server ()) = Inr (closed, sv') \<and> 7 \<notin> set closed"
proof -
  let ?clock = "[milliseconds 6000, milliseconds 12000, milliseconds 18000]"
  obtain closed sv' where h: "server_history example_machine (Joined 7 0 # live_events) (new_rpc_server ()) = Inr (closed, sv')"
    using live_history by blast
  have "progressing (tm_timers (client_timer 0))" by (simp add: client_timer_sels progressing_def)
  from turns_succeed [OF earliest_picks_top client_timer_sels(1) this] obtain beats tm where
    b: "timer_ops earliest (map Op_Turn ?clock) (client_timer 0) = Inr (beats, tm)" "fst ` set beats \<subseteq> set ?clock" by blast
  have d: "\<forall>(r, f) \<in> set beats. 0 \<le> r \<and> r + milliseconds 500 < milliseconds 24000 \<longrightarrow>
       (\<exists>u data. Request 7 u data \<in> set live_events \<and> r \<le> u \<and> u \<le> r + milliseconds 500)"
  proof (clarify)
    fix r f
    assume "(r, f) \<in> set beats"
    then have "r \<in> set ?clock" using b(2) by (metis fst_conv image_eqI subsetD)
    with live_delivered show "\<exists>u data. Request 7 u data \<in> set live_events \<and> r \<le> u \<and> u \<le> r + milliseconds 500" by (rule bspec)
  qed
  have "store_ok (srv_users (new_rpc_server ()))"
    by (simp add: new_rpc_server_def register_method_def store_ok_def)
  from heartbeats_keep_connection [OF earliest_picks_top live_gaps b(1) h this live_events_simps(1,2) order_refl
      live_events_simps(3) d]
  have "7 \<notin> set closed" ..
  with h show ?thesis by blast
qed

text \<open>
  C24: A silent client is closed. Let the loop of the server's timer read the clock at least every
  \<open>g\<close> nanoseconds, and let every check that it hands out run within \<open>delay\<close> nanoseconds. A client that was
  heard of at \<open>t0\<close> and not afterwards is closed by one of the checks up to 30 seconds, \<open>g\<close> and
  \<open>delay\<close> after \<open>t0\<close>.
\<close>
theorem silent_client_closed:
  assumes "picks_top pick" and "gaps g s0 clock T" "0 \<le> g" "0 \<le> delay" and "s0 \<le> t0"
    and "timer_ops pick (map Op_Turn clock) (server_timer s0) = Inr (checks, tm)"
    and "server_history m es sv = Inr (closed, sv')" and "store_ok (srv_users sv)"
    and "last_of (srv_users sv) fd = Some t0" and "\<forall>e \<in> set es. \<not> concerns fd e"
    and "\<forall>(r, f) \<in> set checks. t0 \<le> r \<and> r + delay < T \<longrightarrow> (\<exists>u. Check u \<in> set es \<and> r \<le> u \<and> u \<le> r + delay)"
    and "t0 + seconds 30 + g + delay < T"
  shows "fd \<in> set closed"
proof -
  let ?p = "milliseconds 15000" and ?d0 = "s0 + milliseconds 15001" and ?x = "t0 + seconds 15"
  note ms = milliseconds_def seconds_def
  obtain k :: nat where k: "?x < ?d0 + int k * ?p" "?d0 + int k * ?p \<le> ?x + ?p"
    using next_due [of ?p ?d0 ?x] assms(5) by (auto simp: ms)
  let ?d = "?d0 + int k * ?p"
  have "?d + g < T" using k(2) assms(4,12) by (simp add: ms)
  then obtain r f where r: "(r, f) \<in> set checks" "?d \<le> r" "r \<le> ?d + g"
    using alone_handed_over [OF assms(1) server_timer_sels(3,1,2) _ _ assms(2) _ assms(3,6), of ?d k] by (auto simp: ms)
  have "r + delay < T" "t0 \<le> r" using k r(2,3) assms(12) by (simp_all add: ms)
  with assms(11) r(1) obtain u where u: "Check u \<in> set es" "r \<le> u" by fastforce
  with k(1) r(2) have "t0 + seconds 15 < u" by simp
  from silent_closed [OF assms(7-10) u(1) this] show ?thesis .
qed

lemma silent_gaps:
  "gaps (milliseconds 16000) 0 [milliseconds 16000, milliseconds 32000, milliseconds 48000] (milliseconds 48000)"
  "0 \<le> milliseconds 16000" "0 \<le> milliseconds 500" "0 + seconds 30 + milliseconds 16000 + milliseconds 500 < milliseconds 48000"
  "\<not> milliseconds 48000 + milliseconds 500 < milliseconds 48000"
  "milliseconds 16200 = milliseconds 16000 + milliseconds 200" "milliseconds 32200 = milliseconds 32000 + milliseconds 200"
  "milliseconds 200 \<le> milliseconds 500" "0 \<le> milliseconds 200"
  by (simp_all add: milliseconds_def seconds_def)

theorem silent_client_closed_witness:
  "\<exists>closed sv'. server_history example_machine [Check (milliseconds 16200), Check (milliseconds 32200)]
      (on_new_connection 0 7 (new_rpc_server ())) = Inr (closed, sv') \<and> 7 \<in> set closed"
proof -
  let ?clock = "[milliseconds 16000, milliseconds 32000, milliseconds 48000]"
  let ?es = "[Check (milliseconds 16200), Check (milliseconds 32200)]" and ?sv = "on_new_connection 0 7 (new_rpc_server ())"
  obtain closed sv' where h: "server_history example_machine ?es ?sv = Inr (closed, sv')"
    by (cases "check_users (milliseconds 16200) ?sv"; cases "check_users (milliseconds 32200) (snd (check_users (milliseconds 16200) ?sv))")
      simp
  have "progressing (tm_timers (server_timer 0))" by (simp add: server_timer_sels progressing_def)
  from turns_succeed [OF earliest_picks_top server_timer_sels(1) this] obtain checks tm where
    b: "timer_ops earliest (map Op_Turn ?clock) (server_timer 0) = Inr (checks, tm)" "fst ` set checks \<subseteq> set ?clock" by blast
  have d: "\<forall>(r, f) \<in> set checks. 0 \<le> r \<and> r + milliseconds 500 < milliseconds 48000 \<longrightarrow>
       (\<exists>u. Check u \<in> set ?es \<and> r \<le> u \<and> u \<le> r + milliseconds 500)"
  proof (clarify)
    fix r f
    assume "(r, f) \<in> set checks" and r: "r + milliseconds 500 < milliseconds 48000"
    then have "r \<in> set ?clock" using b(2) by (metis fst_conv image_eqI subsetD)
    then have "r = milliseconds 16000 \<or> r = milliseconds 32000" using r silent_gaps(5) by auto
    then show "\<exists>u. Check u \<in> set ?es \<and> r \<le> u \<and> u \<le> r + milliseconds 500"
      unfolding silent_gaps(6,7) using silent_gaps(8,9) by force
  qed
  have ok: "store_ok (srv_users ?sv)" "last_of (srv_users ?sv) 7 = Some 0"
    using event_users [of "new_rpc_server ()" example_machine "Joined 7 0"]
    by (simp_all add: new_rpc_server_def register_method_def store_ok_def)
  have "\<forall>e \<in> set ?es. \<not> concerns 7 e" by simp
  from silent_client_closed [OF earliest_picks_top silent_gaps(1-3) order_refl b(1) h ok this d silent_gaps(4)] h
  show ?thesis by blast
qed

end
