(* ===== verification/Thread_Pool_Monitor.thy ===== *)
theory Thread_Pool_Monitor
  imports Thread_Pool
begin

text \<open>
  \<open>Thread_Pool_Monitor\<close> (\<open>Maintain/Thread_Pool_Monitor.hpp\<close>): the readings of a pool's counters.
  The object holds a pointer; each method reads the fields of the pool it points to, here the
  pool itself, at the moment of the read: no lock is taken. The theory shows what the readings mean in
  every state a pool can reach, and what the one that needs two reads can be off by.
\<close>

definition is_stop :: "'t pool \<Rightarrow> bool" where
  "is_stop pool = tp_isStop pool"

definition get_min_thread :: "'t pool \<Rightarrow> uint32" where
  "get_min_thread pool = tp_minThread pool"

definition get_max_thread :: "'t pool \<Rightarrow> uint32" where
  "get_max_thread pool = tp_maxThread pool"

definition get_batch_size :: "'t pool \<Rightarrow> uint32" where
  "get_batch_size pool = tp_batchSize pool"

definition get_thread_num :: "'t pool \<Rightarrow> uint32" where
  "get_thread_num pool = tp_threadNum pool"

definition get_working_thread_num :: "'t pool \<Rightarrow> uint32" where
  "get_working_thread_num pool = tp_workingThreadNum pool"

definition get_io_task_num :: "'t pool \<Rightarrow> uint32" where
  "get_io_task_num pool = tp_ioTaskNum pool"

definition get_hardware_core :: "'t pool \<Rightarrow> uint32" where
  "get_hardware_core pool = tp_hardwareCore pool"

text \<open>
  Two reads: \<open>pool1\<close> is the pool when \<open>_workingThreadNum\<close> is read, \<open>pool2\<close> when \<open>_ioTaskNum\<close> is; other threads may
  run in between, and the compiler may read either one first.
\<close>

definition get_cpu_task_num :: "'t pool \<Rightarrow> 't pool \<Rightarrow> uint32" where
  "get_cpu_task_num pool1 pool2 = tp_workingThreadNum pool1 - tp_ioTaskNum pool2"

lemmas monitor_defs = is_stop_def get_min_thread_def get_max_thread_def get_batch_size_def
  get_thread_num_def get_working_thread_num_def get_io_task_num_def get_hardware_core_def
  get_cpu_task_num_def

fun is_busy_cpu :: "'t worker \<Rightarrow> bool" where
  "is_busy_cpu (Busy h) \<longleftrightarrow> \<not> is_io_task h"
| "is_busy_cpu _ \<longleftrightarrow> False"

lemma busy_split: "pcount is_busy s = pcount is_busy_cpu s + pcount is_busy_io s"
proof -
  have "length (filter is_busy ws) = length (filter is_busy_cpu ws) + length (filter is_busy_io ws)"
    for ws :: "'a worker list"
  proof (induction ws)
    case (Cons w ws)
    then show ?case by (cases w) auto
  qed simp
  then show ?thesis by (simp add: pcount_def)
qed

lemma get_cpu_value:
  assumes "pool_ok s" and "pool_ok t"
  shows "unat (get_cpu_task_num s t) =
     (if pcount is_busy_io t \<le> pcount is_busy s then pcount is_busy s - pcount is_busy_io t
      else 2 ^ 32 - (pcount is_busy_io t - pcount is_busy s))"
proof -
  note c = pool_ok_small [OF assms(1)] pool_ok_small [OF assms(2)]
  show ?thesis
    unfolding get_cpu_task_num_def using c(2,7) by (auto simp: unat_sub_if_size word_size)
qed

text \<open>
  C20: The counters and the maximum. In every run of a pool whose minimum is at most its maximum (and whose
  maximum and step fit 32 bits together) each reading of one counter is exact: the number of threads is
  that of the workers that have not returned, and never more than the maximum; the working threads
  are those that run a task, the I/O tasks those among them. The number of the other tasks takes two reads
  without the lock: it is exact when nothing happens between them; otherwise it is the difference of the two
  readings, and wraps around \<open>2 ^ 32\<close> when more I/O tasks run at the one read than tasks at the other.
\<close>
theorem monitor_exact:
  assumes "runs (new_pool core minT maxT batch) ls s" and "runs (new_pool core minT maxT batch) ls' t"
    and "minT \<le> maxT" and "unat maxT + unat batch < 2 ^ 32"
  shows "unat (get_thread_num s) = pcount is_alive s \<and> get_thread_num s \<le> get_max_thread s \<and>
     unat (get_working_thread_num s) = pcount is_busy s \<and>
     unat (get_io_task_num s) = pcount is_busy_io s \<and>
     unat (get_cpu_task_num s s) = pcount is_busy_cpu s \<and>
     unat (get_cpu_task_num s t) =
       (if pcount is_busy_io t \<le> pcount is_busy s then pcount is_busy s - pcount is_busy_io t
        else 2 ^ 32 - (pcount is_busy_io t - pcount is_busy s)) \<and>
     get_max_thread s = maxT \<and> get_min_thread s = minT \<and> get_batch_size s = batch \<and> get_hardware_core s = core"
proof -
  have ok: "pool_ok s" "pool_ok t"
    using runs_ok [OF assms(1) new_pool_ok [OF assms(3,4)]] runs_ok [OF assms(2) new_pool_ok [OF assms(3,4)]] by blast+
  note c = pool_ok_small [OF ok(1)]
  have "get_thread_num s \<le> get_max_thread s" using c(1,4) by (simp add: monitor_defs word_le_nat_alt)
  moreover have "tp_minThread s = minT \<and> tp_maxThread s = maxT \<and> tp_batchSize s = batch \<and> tp_hardwareCore s = core"
    using runs_settings [OF assms(1)] by (simp add: new_pool_def)
  moreover have "unat (get_cpu_task_num s s) = pcount is_busy_cpu s"
    using get_cpu_value [OF ok(1) ok(1)] busy_split [of s] by simp
  ultimately show ?thesis using c(1-3) get_cpu_value [OF ok]
    by (simp add: get_thread_num_def get_working_thread_num_def get_io_task_num_def get_max_thread_def
        get_min_thread_def get_batch_size_def get_hardware_core_def)
qed

text \<open>A pool of one thread, before and after the thread takes an I/O task.\<close>

definition io_task :: "nat handle" where
  "io_task = \<lparr>task = 5, is_io_task = True\<rparr>"

lemma io_task_runs:
  "\<exists>s t. runs (new_pool 8 1 4 1) [Spawn, Commit io_task, Notify None] s \<and> runs s [Take 0 (Some io_task)] t \<and>
     pcount is_busy s = 0 \<and> pcount is_busy_io t = 1"
  by (simp add: spawn_def eval_pool io_task_def)

theorem monitor_exact_witness:
  "\<exists>s t. runs (new_pool 8 1 4 1) [Spawn, Commit io_task, Notify None] s \<and> runs s [Take 0 (Some io_task)] t \<and>
     unat (get_cpu_task_num s s) = 0 \<and> unat (get_cpu_task_num s t) = 2 ^ 32 - 1"
proof -
  obtain s t where s: "runs (new_pool 8 1 4 1) [Spawn, Commit io_task, Notify None] s" "runs s [Take 0 (Some io_task)] t"
    "pcount is_busy s = 0" "pcount is_busy_io t = 1" using io_task_runs by blast
  from monitor_exact [OF s(1) runs_trans [OF s(1,2)]] s(3,4) busy_split [of s]
  have "unat (get_cpu_task_num s s) = 0" "unat (get_cpu_task_num s t) = 2 ^ 32 - 1" by simp_all
  with s(1,2) show ?thesis by blast
qed

text \<open>
  The reading that wraps: between the two reads the only thread takes an I/O task, and the monitor reports
  4294967295 tasks.
\<close>
theorem cpu_reading_wraps:
  "\<exists>ls s l. runs (new_pool 8 1 4 1) ls s \<and> guard l s \<and> get_cpu_task_num s (effect l s :: nat pool) = - 1"
proof -
  obtain s t where s: "runs (new_pool 8 1 4 1) [Spawn, Commit io_task, Notify None] s" "runs s [Take 0 (Some io_task)] t"
    "pcount is_busy s = 0" "pcount is_busy_io t = 1" using io_task_runs by blast
  from s(2) have g: "guard (Take 0 (Some io_task)) s" "t = effect (Take 0 (Some io_task)) s"
    by (auto simp: runs_exec split: if_splits)
  have ok: "pool_ok s" by (rule runs_ok [OF s(1) new_pool_ok]) simp_all
  from effect_ok [OF ok g(1)] g(2) have "pool_ok t" by simp
  then have "tp_workingThreadNum s = 0" "tp_ioTaskNum t = 1" using ok s(3,4) by (simp_all add: pool_ok_def)
  then have "get_cpu_task_num s t = - 1" by (simp add: get_cpu_task_num_def)
  with s(1) g show ?thesis by blast
qed

end
