(* ===== verification/Concurrent_Calls.thy ===== *)
theory Concurrent_Calls
  imports Rpc_System Interleaving
begin

text \<open>
  Any number of calls at once: the threads that run \<open>Rpc_Client::call\<close> (\<open>RPC/Rpc_Client.h\<close>) on one
  client, the message callback of \<open>Rpc_Server\<close> (\<open>RPC/Rpc_Server.cpp\<close>), which the pool may run for the
  messages in any order, and that of \<open>Rpc_Client\<close> (\<open>RPC/Rpc_Client.cpp\<close>). The steps are those that the
  locks of the code leave: the critical section on \<open>_hash_lock\<close> with the work on local variables before
  it, the push of a message, a callback (and so a registered function, which has to see to its own locks).
  Messages travel whole, which is what the theories on channels and sockets show, and may overtake each
  other. A \<open>send\<close> may fail, and the client's reader may lose the connection (\<open>Core/Tcp_Client.cpp\<close>). Client
  and server have the same byte order.

  The theory shows that the calls are linearizable: every call takes effect at one moment between its
  start and its end, as if the registered function were called locally at that moment, or is never sent
  and throws; that every call ends as long as the connection is there; and what becomes of the calls when
  it is lost.
\<close>

subsection \<open>Callers, callbacks and messages on the way\<close>

record call =
  call_id :: "byte list"
  call_method :: "byte list"
  call_args :: "cval list"
  call_type :: "ctype option"

text \<open>
  Where a thread is in \<open>call\<close>: before it; with its promise in the table; waiting in \<open>future.get\<close> (the number is
  the one of its promise); or after it.
\<close>

datatype phase = Not_Started | Registered "byte list" nat | In_Get nat | Finished call_outcome

text \<open>
  \<open>Server j\<close> and \<open>Receiver j\<close> take the message that \<open>j\<close> others on the way are ahead of. \<open>Closer\<close> is the client's
  reader when \<open>read\<close> tells it that the connection has ended or failed.
\<close>

datatype actor = Caller call phase | Server nat | Receiver nat | Closer

text \<open>Who calls.\<close>

fun call_of :: "actor \<Rightarrow> call list" where
  "call_of (Caller c ph) = [c]"
| "call_of _ = []"

definition call_ids :: "actor list \<Rightarrow> byte list list" where
  "call_ids rs = concat (map (map call_id \<circ> call_of) rs)"

text \<open>
  The two sides, what is on the way between them, the members of the client's \<open>Tcp_Client\<close>, and the \<open>errno\<close>
  with which the socket refuses a message, for those that it refuses. The test of \<open>_running\<close> and the \<open>send\<close>
  are one step; if the reader closed the socket between the two, the \<open>send\<close> would be refused with \<open>EBADF\<close>.
\<close>

record 'u net =
  client_side :: rpc_client
  to_server :: "byte list list"
  server_side :: "'u rpc_app"
  to_client :: "byte list list"
  tcp :: tcp_client
  send_errno :: "byte list \<Rightarrow> int option"

fun caller_step :: "bool \<Rightarrow> call \<Rightarrow> phase \<Rightarrow> 'u net \<Rightarrow> (phase \<times> 'u net) result" where
  "caller_step nb c Not_Started w =
     bindE (start_call nb (call_method c) (call_args c) (call_id c) (client_side w)) (\<lambda>(bytes, k, cl).
       Inr (Registered bytes k, w\<lparr>client_side := cl\<rparr>))"
| "caller_step nb c (Registered bytes k) w =
     Inr (if \<not> tc_running (tcp w) then (Finished (Bad (Runtime_Error ''Client is not connected'')), w)
          else
            case send_errno w bytes of
              Some e \<Rightarrow> (Finished (Bad (System_Error e ''Failed to send data'')), w)
            | None \<Rightarrow> (In_Get k, w\<lparr>to_server := to_server w @ [bytes]\<rparr>))"
| "caller_step nb c (In_Get k) w =
     Inr (case finish_call nb (call_type c) (cl_promises (client_side w) ! k) of
            Blocked \<Rightarrow> In_Get k
          | res \<Rightarrow> Finished res, w)"
| "caller_step nb c (Finished res) w = Inr (Finished res, w)"

definition taken_out :: "nat \<Rightarrow> 'a list \<Rightarrow> 'a list" where
  "taken_out j xs = take j xs @ drop (Suc j) xs"

definition serve_message :: "machine \<Rightarrow> int \<Rightarrow> nat \<Rightarrow> 'u net \<Rightarrow> 'u net result" where
  "serve_message m fd j w =
     (if j < length (to_server w)
      then bindE (server_read m fd (to_server w ! j) (server_side w)) (\<lambda>(out, a).
             Inr (w\<lparr>to_server := taken_out j (to_server w), server_side := a, to_client := to_client w @ out\<rparr>))
      else Inr w)"

text \<open>The reader's loop reads only while the client runs.\<close>

definition receive_message :: "bool \<Rightarrow> int \<Rightarrow> nat \<Rightarrow> 'u net \<Rightarrow> 'u net result" where
  "receive_message nb fd j w =
     (if tc_running (tcp w) \<and> j < length (to_client w)
      then bindE (client_read nb fd (to_client w ! j) (client_side w)) (\<lambda>(out, cl).
             Inr (w\<lparr>to_client := taken_out j (to_client w), client_side := cl, to_server := to_server w @ out\<rparr>))
      else Inr w)"

text \<open>The end of the loop: \<open>disconnect\<close>, which does not know of the promises.\<close>

definition lose_connection :: "'u net \<Rightarrow> 'u net" where
  "lose_connection w = (if tc_running (tcp w) then w\<lparr>tcp := tcp_disconnect (tcp w)\<rparr> else w)"

fun call_step :: "machine \<Rightarrow> int \<Rightarrow> actor \<Rightarrow> 'u net \<Rightarrow> (actor \<times> 'u net) result" where
  "call_step m fd (Caller c ph) w =
     bindE (caller_step (big_endian m) c ph w) (\<lambda>(ph', w'). Inr (Caller c ph', w'))"
| "call_step m fd (Server j) w = bindE (serve_message m fd j w) (\<lambda>w'. Inr (Server j, w'))"
| "call_step m fd (Receiver j) w = bindE (receive_message (big_endian m) fd j w) (\<lambda>w'. Inr (Receiver j, w'))"
| "call_step m fd Closer w = Inr (Closer, lose_connection w)"

subsection \<open>The specification: one call after the other\<close>

definition after_call :: "'u rpc_server \<Rightarrow> call \<Rightarrow> 'u \<Rightarrow> 'u" where
  "after_call sv c u =
     (case srv_manager sv (call_method c) of None \<Rightarrow> u | Some h \<Rightarrow> snd (func h (call_args c) u))"

text \<open>The outcomes of local calls of the registered functions in the order of a list, and the state they leave.\<close>

fun local_calls :: "machine \<Rightarrow> 'u rpc_server \<Rightarrow> call list \<Rightarrow> 'u \<Rightarrow> call_outcome list \<times> 'u" where
  "local_calls m sv [] u = ([], u)"
| "local_calls m sv (c # cs) u =
     (case local_calls m sv cs (after_call sv c u) of (os, u') \<Rightarrow>
        (seen_outcome m (sv\<lparr>srv_app := u\<rparr>) (call_method c) (call_args c) # os, u'))"

text \<open>How a call ends that could not be sent: the client is not connected, or the socket refused its message.\<close>

definition not_sent :: "'u net \<Rightarrow> call_outcome \<Rightarrow> bool" where
  "not_sent w res \<longleftrightarrow>
     (res = Bad (Runtime_Error ''Client is not connected'') \<and> \<not> tc_running (tcp w)) \<or>
     (\<exists>bytes e. send_errno w bytes = Some e \<and> res = Bad (System_Error e ''Failed to send data''))"

text \<open>
  A list of calls explains what has happened so far: they are calls that have started, the finished ones
  among them, with the outcomes of the local calls, but for those that could not be sent; and the server's
  state is the one these leave.
\<close>

definition explains :: "machine \<Rightarrow> 'u rpc_server \<Rightarrow> call list \<Rightarrow> actor list \<Rightarrow> 'u net \<Rightarrow> bool" where
  "explains m sv cs rs w \<longleftrightarrow>
     distinct cs \<and> (\<forall>c \<in> set cs. c \<in> set (concat (map call_of rs)) \<and> Caller c Not_Started \<notin> set rs) \<and>
     (\<forall>c res. Caller c (Finished res) \<in> set rs \<longrightarrow>
        (c, res) \<in> set (zip cs (fst (local_calls m sv cs (srv_app sv)))) \<or> c \<notin> set cs \<and> not_sent w res) \<and>
     srv_app (rpc_server (server_side w)) = snd (local_calls m sv cs (srv_app sv))"

lemma length_local_calls [simp]: "length (fst (local_calls m sv cs u)) = length cs"
  by (induction cs arbitrary: u) (simp_all add: case_prod_beta)

lemma local_calls_snoc:
  "local_calls m sv (cs @ [c]) u = (case local_calls m sv cs u of (os, u') \<Rightarrow>
     (os @ [seen_outcome m (sv\<lparr>srv_app := u'\<rparr>) (call_method c) (call_args c)], after_call sv c u'))"
  by (induction cs arbitrary: u) (simp_all add: case_prod_beta)

lemma seen_outcome_cong:
  "srv_manager sv' = srv_manager sv \<Longrightarrow>
   seen_outcome m sv' method vs = seen_outcome m (sv\<lparr>srv_app := srv_app sv'\<rparr>) method vs"
  by (simp add: seen_outcome_def split: option.splits)

text \<open>The calls we speak of: arguments of types the method takes, functions that behave, in every state.\<close>

definition call_ok :: "machine \<Rightarrow> 'u rpc_server \<Rightarrow> call \<Rightarrow> bool" where
  "call_ok m sv c \<longleftrightarrow>
     (\<exists>ts. list_all2 is_value (call_args c) ts) \<and> small_call (call_method c) (call_args c) (call_id c) \<and>
     (\<forall>u. well_behaved m (sv\<lparr>srv_app := u\<rparr>) (call_method c) (call_type c) (call_args c) (2 ^ 27))"

text \<open>Before anything has happened.\<close>

definition calls_start :: "machine \<Rightarrow> int \<Rightarrow> actor list \<Rightarrow> 'u net \<Rightarrow> bool" where
  "calls_start m fd rs w \<longleftrightarrow>
     arg_order m = right_to_left \<and> distinct (call_ids rs) \<and>
     (\<forall>c ph. Caller c ph \<in> set rs \<longrightarrow> ph = Not_Started \<and> call_ok m (rpc_server (server_side w)) c \<and>
        cl_pending (client_side w) (call_id c) = None) \<and>
     client_ok (client_side w) \<and> store_ok (srv_users (rpc_server (server_side w))) \<and>
     last_of (srv_users (rpc_server (server_side w))) fd \<noteq> None \<and> to_server w = [] \<and> to_client w = []"


subsection \<open>The invariant\<close>

text \<open>
  The calls whose requests are on the way (\<open>q\<close>), those that were served (\<open>h\<close>, in order), and those whose
  responses are on the way (\<open>p\<close>).
\<close>

definition outcome_of :: "machine \<Rightarrow> 'u rpc_server \<Rightarrow> call list \<Rightarrow> call \<rightharpoonup> call_outcome" where
  "outcome_of m sv h = map_of (zip h (fst (local_calls m sv h (srv_app sv))))"

definition request_of :: "machine \<Rightarrow> call \<Rightarrow> byte list \<Rightarrow> bool" where
  "request_of m c d \<longleftrightarrow>
     (\<exists>r. d = enc False (request_val r) \<and> length d < 2 ^ 31 \<and> req_id r = call_id c \<and> req_method r = call_method c \<and>
        holds_args (big_endian m) (req_params r) (rev (call_args c)))"

definition response_of :: "machine \<Rightarrow> 'u rpc_server \<Rightarrow> call list \<Rightarrow> call \<Rightarrow> byte list \<Rightarrow> bool" where
  "response_of m sv h c d \<longleftrightarrow>
     (\<exists>r. d = enc False (response_val r) \<and> readable r \<and> resp_id r = call_id c \<and>
        outcome_of m sv h c = Some (finish_call (big_endian m) (call_type c) (complete_with r)))"

fun actor_ok :: "machine \<Rightarrow> 'u rpc_server \<Rightarrow> call list \<Rightarrow> call set \<Rightarrow> call set \<Rightarrow> rpc_client \<Rightarrow> actor \<Rightarrow> bool" where
  "actor_ok m sv h q p cl (Caller c ph) \<longleftrightarrow> call_ok m sv c \<and>
     (case ph of
        Not_Started \<Rightarrow> c \<notin> q \<and> c \<notin> set h \<and> cl_pending cl (call_id c) = None
      | Registered bytes k \<Rightarrow> c \<notin> q \<and> c \<notin> set h \<and> cl_pending cl (call_id c) = Some k \<and> request_of m c bytes
      | In_Get k \<Rightarrow>
          if c \<in> q \<or> c \<in> p then cl_pending cl (call_id c) = Some k
          else k < length (cl_promises cl) \<and>
            outcome_of m sv h c = Some (finish_call (big_endian m) (call_type c) (cl_promises cl ! k)) \<and>
            cl_promises cl ! k \<noteq> Waiting
      | Finished res \<Rightarrow> c \<notin> q \<and> c \<notin> p \<and> (c \<in> set h \<longrightarrow> outcome_of m sv h c = Some res))"
| "actor_ok m sv h q p cl _ \<longleftrightarrow> True"

definition on_the_way :: "machine \<Rightarrow> 'u rpc_server \<Rightarrow> call list \<Rightarrow> call list \<Rightarrow> call list \<Rightarrow> 'u net \<Rightarrow> bool" where
  "on_the_way m sv h q p w \<longleftrightarrow>
     distinct (q @ h) \<and> distinct p \<and> set p \<subseteq> set h \<and>
     list_all2 (request_of m) q (to_server w) \<and> list_all2 (response_of m sv h) p (to_client w)"

definition server_at :: "machine \<Rightarrow> int \<Rightarrow> 'u rpc_server \<Rightarrow> call list \<Rightarrow> 'u rpc_server \<Rightarrow> bool" where
  "server_at m fd sv h sv' \<longleftrightarrow>
     store_ok (srv_users sv') \<and> last_of (srv_users sv') fd \<noteq> None \<and> srv_manager sv' = srv_manager sv \<and>
     srv_app sv' = snd (local_calls m sv h (srv_app sv))"

definition unserved_ok :: "call list \<Rightarrow> actor list \<Rightarrow> 'u net \<Rightarrow> bool" where
  "unserved_ok h rs w \<longleftrightarrow> (\<forall>c res. Caller c (Finished res) \<in> set rs \<longrightarrow> c \<notin> set h \<longrightarrow> not_sent w res)"

text \<open>Every call on the way or served is a caller's, past its start.\<close>

definition calls_inv :: "machine \<Rightarrow> int \<Rightarrow> 'u rpc_server \<Rightarrow> call list \<Rightarrow> actor list \<Rightarrow> 'u net \<Rightarrow> bool" where
  "calls_inv m fd sv h rs w \<longleftrightarrow>
     arg_order m = right_to_left \<and> distinct (call_ids rs) \<and> client_ok (client_side w) \<and>
     server_at m fd sv h (rpc_server (server_side w)) \<and> unserved_ok h rs w \<and>
     (\<exists>q p. on_the_way m sv h q p w \<and>
        (\<forall>c \<in> set (q @ h). \<exists>ph. Caller c ph \<in> set rs) \<and>
        (\<forall>a \<in> set rs. actor_ok m sv h (set q) (set p) (client_side w) a))"

lemma calls_invI:
  assumes "arg_order m = right_to_left" and "distinct (call_ids rs)" and "client_ok (client_side w)"
    and "server_at m fd sv h (rpc_server (server_side w))" and "unserved_ok h rs w" and "on_the_way m sv h q p w"
    and "\<And>c. c \<in> set (q @ h) \<Longrightarrow> \<exists>ph. Caller c ph \<in> set rs"
    and "\<And>a. a \<in> set rs \<Longrightarrow> actor_ok m sv h (set q) (set p) (client_side w) a"
  shows "calls_inv m fd sv h rs w"
  unfolding calls_inv_def using assms by blast

lemma calls_invE:
  assumes "calls_inv m fd sv h rs w"
  obtains q p where "on_the_way m sv h q p w" and "\<forall>c \<in> set (q @ h). \<exists>ph. Caller c ph \<in> set rs"
    and "\<forall>a \<in> set rs. actor_ok m sv h (set q) (set p) (client_side w) a" and "arg_order m = right_to_left"
    and "distinct (call_ids rs)" and "client_ok (client_side w)" and "server_at m fd sv h (rpc_server (server_side w))"
    and "unserved_ok h rs w"
  using assms unfolding calls_inv_def by blast

subsection \<open>Lemmas on the parts\<close>

lemma finish_blocked: "finish_call nb t pr = Blocked \<longleftrightarrow> pr = Waiting"
  by (auto simp: finish_call_def split: promise.splits option.splits sum.splits)

lemma seen_not_blocked: "seen_outcome m sv method vs \<noteq> Blocked"
  by (auto simp: seen_outcome_def local_outcome_def split: option.splits sum.splits)

lemma call_ids_update: "call_of (rs ! i) = call_of a \<Longrightarrow> call_ids (rs[i := a]) = call_ids rs"
  unfolding call_ids_def by (simp only: map_update_same comp_apply)

lemma distinct_concat_nth:
  "distinct (concat xss) \<Longrightarrow> i < j \<Longrightarrow> j < length xss \<Longrightarrow> set (xss ! i) \<inter> set (xss ! j) = {}"
proof (induction xss arbitrary: i j)
  case (Cons xs xss)
  then obtain j' where j: "j = Suc j'" "j' < length xss" by (cases j) auto
  show ?case
  proof (cases i)
    case 0
    have "set (xss ! j') \<subseteq> set (concat xss)" using nth_mem [OF j(2)] by auto
    with 0 j Cons.prems(1) show ?thesis by auto
  next
    case (Suc i')
    with Cons j show ?thesis by simp
  qed
qed simp

text \<open>An id belongs to one actor.\<close>

lemma other_id:
  assumes "distinct (call_ids rs)" and "i < length rs" and "j < length rs" and "i \<noteq> j"
    and "rs ! i = Caller c ph" and "rs ! j = Caller c' ph'"
  shows "call_id c' \<noteq> call_id c"
proof -
  have "set (map call_id (call_of (rs ! i))) \<inter> set (map call_id (call_of (rs ! j))) = {}"
    using distinct_concat_nth [of "map (map call_id \<circ> call_of) rs" i j]
      distinct_concat_nth [of "map (map call_id \<circ> call_of) rs" j i] assms(1-4)
    by (cases i j rule: linorder_cases) (auto simp: call_ids_def)
  with assms(5,6) show ?thesis by simp
qed

lemma one_caller:
  assumes "distinct (call_ids rs)" and "Caller c ph \<in> set rs" and "Caller c' ph' \<in> set rs" and "call_id c = call_id c'"
  shows "c = c' \<and> ph = ph'"
  using assms(2-4) other_id [OF assms(1)] by (metis actor.inject(1) in_set_conv_nth)

lemma callers_kept:
  "rs ! i = Caller c ph \<Longrightarrow> i < length rs \<Longrightarrow> Caller c2 ph2 \<in> set rs \<Longrightarrow>
   \<exists>ph3. Caller c2 ph3 \<in> set (rs[i := Caller c ph'])"
  by (metis actor.inject(1) kept_entry set_update_memI)

lemma outcome_of_snoc:
  assumes "c \<notin> set h"
  shows "outcome_of m sv (h @ [c]) = (outcome_of m sv h)(c \<mapsto>
     seen_outcome m (sv\<lparr>srv_app := snd (local_calls m sv h (srv_app sv))\<rparr>) (call_method c) (call_args c))"
proof -
  have "map_of (A @ [(c, r)]) = (map_of A)(c \<mapsto> r)" if "map_of A c = None" for A :: "(call \<times> call_outcome) list" and r
    using that by (auto simp: map_add_def fun_eq_iff split: option.splits)
  moreover have "map_of (zip h (fst (local_calls m sv h (srv_app sv)))) c = None" using assms by simp
  ultimately show ?thesis by (simp add: outcome_of_def local_calls_snoc case_prod_beta)
qed

lemma outcome_served: "outcome_of m sv h c = Some res \<Longrightarrow> c \<in> set h"
  by (auto simp: outcome_of_def dest!: map_of_SomeD dest: set_zip_leftD)

lemma taken_out_all2: "list_all2 P xs ys \<Longrightarrow> list_all2 P (taken_out j xs) (taken_out j ys)"
  by (simp add: taken_out_def list_all2_appendI list_all2_takeI list_all2_dropI)

lemma taken_out_distinct:
  assumes "distinct xs" and "j < length xs"
  shows "distinct (taken_out j xs)" and "set (taken_out j xs) = set xs - {xs ! j}"
proof -
  obtain ys zs x where "xs = ys @ x # zs" "length ys = j" using id_take_nth_drop [OF assms(2)] assms(2) by force
  with assms(1) show "distinct (taken_out j xs)" "set (taken_out j xs) = set xs - {xs ! j}"
    by (auto simp: taken_out_def)
qed


subsection \<open>Steps of a caller\<close>

lemma others_kept:
  assumes "\<forall>a \<in> set rs. actor_ok m sv h q p cl a" and "distinct (call_ids rs)" and "rs ! i = Caller c ph"
    and "i < length rs" and "actor_ok m sv h q' p cl' (Caller c ph')"
    and "\<And>c2 ph2. call_id c2 \<noteq> call_id c \<Longrightarrow> actor_ok m sv h q p cl (Caller c2 ph2) \<Longrightarrow>
       actor_ok m sv h q' p cl' (Caller c2 ph2)"
  shows "\<forall>a \<in> set (rs[i := Caller c ph']). actor_ok m sv h q' p cl' a"
proof
  fix a assume "a \<in> set (rs[i := Caller c ph'])"
  then obtain j where j: "j < length rs" "a = rs[i := Caller c ph'] ! j" by (auto simp: in_set_conv_nth)
  show "actor_ok m sv h q' p cl' a"
  proof (cases "j = i")
    case True
    with j assms(5) show ?thesis by simp
  next
    case False
    with j have a: "a = rs ! j" "actor_ok m sv h q p cl a" using assms(1) by simp_all
    show ?thesis
    proof (cases a)
      case (Caller c2 ph2)
      with other_id [OF assms(2,4) j(1) _ assms(3)] False a(1) have "call_id c2 \<noteq> call_id c" by metis
      from assms(6) [OF this] a(2) Caller show ?thesis by simp
    qed simp_all
  qed
qed

lemma calls_inv_caller:
  assumes "calls_inv m fd sv h rs w" and "rs ! i = Caller c ph" and "i < length rs"
    and "on_the_way m sv h q p w" "\<forall>c \<in> set (q @ h). \<exists>ph. Caller c ph \<in> set rs"
      "\<forall>a \<in> set rs. actor_ok m sv h (set q) (set p) (client_side w) a"
    and "server_side w' = server_side w" and "client_ok (client_side w')" and "on_the_way m sv h q' p w'"
    and "set q' \<subseteq> insert c (set q)" and "actor_ok m sv h (set q') (set p) (client_side w') (Caller c ph')"
    and "tcp w' = tcp w" and "send_errno w' = send_errno w" and "\<And>res. ph' = Finished res \<Longrightarrow> c \<in> set h \<or> not_sent w res"
    and "\<And>c2 ph2. call_id c2 \<noteq> call_id c \<Longrightarrow> actor_ok m sv h (set q) (set p) (client_side w) (Caller c2 ph2) \<Longrightarrow>
       actor_ok m sv h (set q') (set p) (client_side w') (Caller c2 ph2)"
  shows "calls_inv m fd sv h (rs[i := Caller c ph']) w'"
proof -
  have "call_ids (rs[i := Caller c ph']) = call_ids rs" by (rule call_ids_update) (simp add: assms(2))
  moreover have "\<exists>ph2. Caller c2 ph2 \<in> set (rs[i := Caller c ph'])" if "c2 \<in> set (q' @ h)" for c2
  proof (cases "c2 = c")
    case True
    then show ?thesis using set_update_memI [OF assms(3)] by blast
  next
    case False
    with that assms(5,10) obtain ph2 where "Caller c2 ph2 \<in> set rs" by auto
    then show ?thesis by (rule callers_kept [OF assms(2,3)])
  qed
  moreover have "not_sent w' = not_sent w" using assms(12,13) by (simp add: not_sent_def fun_eq_iff)
  then have "unserved_ok h (rs[i := Caller c ph']) w'"
    using assms(1,14) by (fastforce simp: unserved_ok_def calls_inv_def dest: set_update_subset_insert [THEN subsetD])
  moreover have d: "distinct (call_ids rs)" using assms(1) by (simp add: calls_inv_def)
  note others_kept [OF assms(6) d assms(2,3,11,15)]
  ultimately show ?thesis using assms(1,7-9)
    by (intro calls_invI [of _ _ _ _ _ _ q' p]) (simp_all add: calls_inv_def)
qed

lemma start_keeps:
  assumes inv: "calls_inv m fd sv h rs w" and i: "rs ! i = Caller c Not_Started" "i < length rs"
  shows "\<exists>ph' w'. caller_step (big_endian m) c Not_Started w = Inr (ph', w') \<and>
     calls_inv m fd sv h (rs[i := Caller c ph']) w'"
proof -
  let ?cl = "client_side w" let ?k = "length (cl_promises ?cl)"
  let ?cl' = "?cl\<lparr>cl_pending := (cl_pending ?cl)(call_id c \<mapsto> ?k), cl_promises := cl_promises ?cl @ [Waiting]\<rparr>"
  from inv obtain q p where w: "on_the_way m sv h q p w" "\<forall>c \<in> set (q @ h). \<exists>ph. Caller c ph \<in> set rs"
      "\<forall>a \<in> set rs. actor_ok m sv h (set q) (set p) ?cl a" and ok: "client_ok ?cl" and o: "arg_order m = right_to_left"
    by (rule calls_invE)
  from w(3) i have c: "actor_ok m sv h (set q) (set p) ?cl (Caller c Not_Started)" by (metis nth_mem)
  then obtain ts where ts: "list_all2 is_value (call_args c) ts"
      "small_call (call_method c) (call_args c) (call_id c)" "cl_pending ?cl (call_id c) = None"
    by (auto simp: call_ok_def)
  from start_call_ok [OF this, of "big_endian m"] obtain pr where
    s: "start_call (big_endian m) (call_method c) (call_args c) (call_id c) ?cl =
       Inr (enc False (request_val \<lparr>req_id = call_id c, req_method = call_method c, req_params = pr\<rparr>), ?k, ?cl')"
    and pr: "compact pr" "stored pr = map Some (enc_args False (rev (call_args c)))" "is_big_endian pr = big_endian m"
      "ds_pos pr = 0"
      "length (enc False (request_val \<lparr>req_id = call_id c, req_method = call_method c, req_params = pr\<rparr>)) < 2 ^ 31"
    by blast
  let ?b = "enc False (request_val \<lparr>req_id = call_id c, req_method = call_method c, req_params = pr\<rparr>)"
  have "request_of m c ?b"
    using pr ts(2) unfolding request_of_def
    by (intro exI [of _ "\<lparr>req_id = call_id c, req_method = call_method c, req_params = pr\<rparr>"])
       (auto simp: holds_args_def small_call_def)
  then have a: "actor_ok m sv h (set q) (set p) ?cl' (Caller c (Registered ?b ?k))" using c by simp
  have ok': "client_ok ?cl'" using start_call_keeps_ok [OF ok s] by blast
  have "calls_inv m fd sv h (rs[i := Caller c (Registered ?b ?k)]) (w\<lparr>client_side := ?cl'\<rparr>)"
    by (rule calls_inv_caller [OF inv i w, of _ q])
       (use w(1) a ok' in \<open>auto simp: on_the_way_def nth_append split: phase.splits if_splits\<close>)
  with s show ?thesis by simp
qed

lemma push_keeps:
  assumes inv: "calls_inv m fd sv h rs w" and i: "rs ! i = Caller c (Registered bytes k)" "i < length rs"
  shows "calls_inv m fd sv h (rs[i := Caller c (In_Get k)]) (w\<lparr>to_server := to_server w @ [bytes]\<rparr>)"
proof -
  from inv obtain q p where w: "on_the_way m sv h q p w" "\<forall>c \<in> set (q @ h). \<exists>ph. Caller c ph \<in> set rs"
      "\<forall>a \<in> set rs. actor_ok m sv h (set q) (set p) (client_side w) a" and ok: "client_ok (client_side w)"
    by (rule calls_invE)
  from w(3) i have c: "actor_ok m sv h (set q) (set p) (client_side w) (Caller c (Registered bytes k))"
    by (metis nth_mem)
  then have "on_the_way m sv h (q @ [c]) p (w\<lparr>to_server := to_server w @ [bytes]\<rparr>)"
    using w(1) by (auto simp: on_the_way_def list_all2_appendI)
  then show ?thesis
    by (rule calls_inv_caller [OF inv i w, rotated 2]) (use c ok in \<open>auto split: phase.splits if_splits\<close>)
qed

lemma unsent_keeps:
  assumes inv: "calls_inv m fd sv h rs w" and i: "rs ! i = Caller c (Registered bytes k)" "i < length rs"
    and n: "not_sent w res"
  shows "calls_inv m fd sv h (rs[i := Caller c (Finished res)]) w"
proof -
  from inv obtain q p where w: "on_the_way m sv h q p w" "\<forall>c \<in> set (q @ h). \<exists>ph. Caller c ph \<in> set rs"
      "\<forall>a \<in> set rs. actor_ok m sv h (set q) (set p) (client_side w) a" and ok: "client_ok (client_side w)"
    by (rule calls_invE)
  from w(3) i have c: "actor_ok m sv h (set q) (set p) (client_side w) (Caller c (Registered bytes k))"
    by (metis nth_mem)
  then have "c \<notin> set p" using w(1) by (auto simp: on_the_way_def)
  with c n ok show ?thesis
    by (intro calls_inv_caller [OF inv i w _ _ w(1)]) auto
qed

lemma get_keeps:
  assumes inv: "calls_inv m fd sv h rs w" and i: "rs ! i = Caller c (In_Get k)" "i < length rs"
    and f: "finish_call (big_endian m) (call_type c) (cl_promises (client_side w) ! k) \<noteq> Blocked"
  shows "calls_inv m fd sv h (rs[i := Caller c
     (Finished (finish_call (big_endian m) (call_type c) (cl_promises (client_side w) ! k)))]) w"
proof -
  from inv obtain q p where w: "on_the_way m sv h q p w" "\<forall>c \<in> set (q @ h). \<exists>ph. Caller c ph \<in> set rs"
      "\<forall>a \<in> set rs. actor_ok m sv h (set q) (set p) (client_side w) a" and ok: "client_ok (client_side w)"
    by (rule calls_invE)
  from w(3) i have c: "actor_ok m sv h (set q) (set p) (client_side w) (Caller c (In_Get k))" by (metis nth_mem)
  have "cl_pending (client_side w) (call_id c) \<noteq> Some k" using f ok by (auto simp: finish_blocked client_ok_def)
  then show ?thesis
    by (intro calls_inv_caller [OF inv i w _ _ w(1)]) (use c ok in \<open>auto split: if_splits dest: outcome_served\<close>)
qed

lemma caller_keeps:
  assumes "calls_inv m fd sv h rs w" and "rs ! i = Caller c ph" and "i < length rs"
  shows "\<exists>ph' w'. caller_step (big_endian m) c ph w = Inr (ph', w') \<and> calls_inv m fd sv h (rs[i := Caller c ph']) w'"
proof (cases ph)
  case Not_Started
  with start_keeps [OF assms(1) _ assms(3)] assms(2) show ?thesis by simp
next
  case (Registered bytes k)
  note p = push_keeps [OF assms(1) assms(2) [unfolded Registered] assms(3)]
    and u = unsent_keeps [OF assms(1) assms(2) [unfolded Registered] assms(3)]
  show ?thesis
  proof (cases "tc_running (tcp w)")
    case True
    show ?thesis
    proof (cases "send_errno w bytes")
      case None
      with p True Registered show ?thesis by simp
    next
      case (Some e)
      then have "not_sent w (Bad (System_Error e ''Failed to send data''))" by (auto simp: not_sent_def)
      from u [OF this] Some True Registered show ?thesis by simp
    qed
  next
    case False
    with u Registered show ?thesis by (simp add: not_sent_def)
  qed
next
  case (In_Get k)
  have "rs[i := Caller c (In_Get k)] = rs" using assms(2) In_Get by (metis list_update_id)
  with get_keeps [OF assms(1) _ assms(3), of c k] assms In_Get show ?thesis
    by (cases "finish_call (big_endian m) (call_type c) (cl_promises (client_side w) ! k)") auto
next
  case (Finished res)
  with assms show ?thesis by (metis caller_step.simps(4) list_update_id)
qed


subsection \<open>Steps of the two callbacks\<close>

lemma well_behaved_at:
  assumes "call_ok m sv c" and "srv_manager sv' = srv_manager sv"
  shows "well_behaved m sv' (call_method c) (call_type c) (call_args c) (2 ^ 27)"
proof -
  have "well_behaved m (sv\<lparr>srv_app := srv_app sv'\<rparr>) (call_method c) (call_type c) (call_args c) (2 ^ 27)"
    using assms(1) by (simp add: call_ok_def)
  then show ?thesis
    by (cases "call_type c") (auto simp: well_behaved_def assms(2) split: option.splits sum.splits)
qed

lemma callable_at:
  assumes "call_ok m sv c" and "srv_manager sv' = srv_manager sv" and "arg_order m = right_to_left"
    and "req_method r = call_method c" and "holds_args (big_endian m) (req_params r) (rev (call_args c))"
  shows "callable m sv' r (call_args c)"
  using well_behaved_at [OF assms(1,2)] assms(3-5)
  by (fastforce simp: callable_def well_behaved_def permuted_right_to_left split: option.splits sum.splits)

lemma response_of_cong:
  "outcome_of m sv h' c = outcome_of m sv h c \<Longrightarrow> response_of m sv h c d \<Longrightarrow> response_of m sv h' c d"
  by (simp add: response_of_def)

text \<open>What the server's callback does with the request of a call.\<close>

lemma request_served:
  assumes c: "call_ok m sv c" and o: "arg_order m = right_to_left" and d: "request_of m c d"
    and s: "server_at m fd sv h (rpc_server a)" and h: "c \<notin> set h"
  shows "\<exists>d' a'. server_read m fd d a = Inr ([d'], a') \<and> response_of m sv (h @ [c]) c d' \<and>
     server_at m fd sv (h @ [c]) (rpc_server a')"
proof -
  let ?sv = "rpc_server a" let ?now = "rpc_clock a (rpc_ticks a)"
  from d obtain r where r: "d = enc False (request_val r)" "length d < 2 ^ 31" "req_id r = call_id c"
      "req_method r = call_method c" "holds_args (big_endian m) (req_params r) (rev (call_args c))"
    by (auto simp: request_of_def)
  have man: "srv_manager ?sv = srv_manager sv" and u: "srv_app ?sv = snd (local_calls m sv h (srv_app sv))"
    using s by (simp_all add: server_at_def)
  have "compact (req_params r)" "length (enc False (request_val r)) < 2 ^ 31" "store_ok (srv_users ?sv)"
    "last_of (srv_users ?sv) fd \<noteq> None" "complete_order (arg_order m)" "length (req_id r) < 2 ^ 28"
    using r s c o complete_orders by (auto simp: holds_args_def server_at_def call_ok_def small_call_def)
  from on_request_answered [OF this(1-5) callable_at [OF c man o r(4,5)] this(6), of ?now] obtain response users app where
    a: "on_request m ?now fd d ?sv = Inr (enc False (response_val response), ?sv\<lparr>srv_users := users, srv_app := app\<rparr>)"
      "sendable response" "answered m ?sv r (call_args c) response app" "store_ok users"
      "last_of users = (last_of (srv_users ?sv))(fd \<mapsto> ?now)" unfolding r(1) by blast
  let ?a = "a\<lparr>rpc_server := ?sv\<lparr>srv_users := users, srv_app := app\<rparr>, rpc_ticks := Suc (rpc_ticks a)\<rparr>"
  have "finish_call (big_endian m) (call_type c) (complete_with response) =
      seen_outcome m (sv\<lparr>srv_app := snd (local_calls m sv h (srv_app sv))\<rparr>) (call_method c) (call_args c)"
    using finish_answer [of m ?sv r "call_type c" "call_args c", OF _ a(3)] well_behaved_at [OF c man] r(4)
      seen_outcome_cong [OF man] u by simp
  then have "response_of m sv (h @ [c]) c (enc False (response_val response))"
    using a(2,3) r(3) outcome_of_snoc [OF h, of m sv]
    by (auto simp: response_of_def sendable_def readable_def answered_def)
  moreover have "app = after_call sv c (snd (local_calls m sv h (srv_app sv)))"
    using a(3) man u r(4) by (auto simp: answered_def after_call_def split: option.splits)
  then have "server_at m fd sv (h @ [c]) (rpc_server ?a)"
    using a(4,5) man by (simp add: server_at_def local_calls_snoc case_prod_beta)
  ultimately show ?thesis using a(1) by (simp add: server_read_def)
qed

lemma serve_keeps:
  assumes inv: "calls_inv m fd sv h rs w"
  shows "\<exists>h' w'. serve_message m fd j w = Inr w' \<and> calls_inv m fd sv (h @ h') rs w'"
proof (cases "j < length (to_server w)")
  case False
  with inv have "serve_message m fd j w = Inr w \<and> calls_inv m fd sv (h @ []) rs w" by (simp add: serve_message_def)
  then show ?thesis by blast
next
  case True
  from inv obtain q p where w: "on_the_way m sv h q p w" "\<forall>c \<in> set (q @ h). \<exists>ph. Caller c ph \<in> set rs"
      "\<forall>a \<in> set rs. actor_ok m sv h (set q) (set p) (client_side w) a" and o: "arg_order m = right_to_left"
      "server_at m fd sv h (rpc_server (server_side w))" and ok: "client_ok (client_side w)" "distinct (call_ids rs)"
      and u: "unserved_ok h rs w"
    by (rule calls_invE)
  note v = w(1) [unfolded on_the_way_def]
  let ?c = "q ! j"
  have j: "j < length q" using v True by (auto dest: list_all2_lengthD)
  then have q: "?c \<in> set q" by simp
  with v have q: "?c \<in> set q" "?c \<notin> set h" "?c \<notin> set p" by auto
  obtain ph where "Caller ?c ph \<in> set rs" using w(2) q(1) by auto
  then have c: "call_ok m sv ?c" using w(3) by auto
  have "request_of m ?c (to_server w ! j)" using v j by (auto dest: list_all2_nthD)
  from request_served [OF c o(1) this o(2) q(2)] obtain d' a' where
    s: "server_read m fd (to_server w ! j) (server_side w) = Inr ([d'], a')" "response_of m sv (h @ [?c]) ?c d'"
      "server_at m fd sv (h @ [?c]) (rpc_server a')" by blast
  let ?w = "w\<lparr>to_server := taken_out j (to_server w), server_side := a', to_client := to_client w @ [d']\<rparr>"
  have same: "outcome_of m sv (h @ [?c]) c2 = outcome_of m sv h c2" if "c2 \<noteq> ?c" for c2
    using that by (simp add: outcome_of_snoc [OF q(2)])
  have "list_all2 (response_of m sv h) p (to_client w)" using v by blast
  then have "list_all2 (response_of m sv (h @ [?c])) p (to_client w)"
    by (rule list.rel_mono_strong) (use q(3) same response_of_cong in metis)
  then have "on_the_way m sv (h @ [?c]) (taken_out j q) (p @ [?c]) ?w"
    using v s(2) q taken_out_distinct [of q j] j
    by (auto simp: on_the_way_def taken_out_all2 list_all2_appendI)
  moreover have "actor_ok m sv (h @ [?c]) (set (taken_out j q)) (set (p @ [?c])) (client_side ?w) a"
    if "a \<in> set rs" for a
  proof (cases a)
    case (Caller c2 ph)
    with w(3) that have "actor_ok m sv h (set q) (set p) (client_side w) (Caller c2 ph)" by blast
    then show ?thesis
      using Caller same [of c2] q taken_out_distinct [of q j] v j by (cases "c2 = ?c") (auto split: phase.splits if_splits)
  qed simp_all
  moreover have "\<forall>c \<in> set (taken_out j q @ h @ [?c]). \<exists>ph. Caller c ph \<in> set rs"
    using w(2) q(1) taken_out_distinct(2) [of q j] v j by auto
  moreover have "unserved_ok (h @ [?c]) rs ?w" using u by (simp add: unserved_ok_def not_sent_def)
  ultimately have "calls_inv m fd sv (h @ [?c]) rs ?w"
    by (intro calls_invI [of _ _ _ _ _ _ "taken_out j q" "p @ [?c]"]) (use s(3) o ok in auto)
  moreover have "serve_message m fd j w = Inr ?w" using True s(1) by (simp add: serve_message_def)
  ultimately show ?thesis by blast
qed


lemma delivered_keeps:
  assumes inv: "client_ok cl" and a: "actor_ok m sv h q p cl (Caller c2 ph)"
    and c: "c \<in> p" "p \<subseteq> set h" "q \<inter> set h = {}" and r: "resp_id r = call_id c"
      "outcome_of m sv h c = Some (finish_call (big_endian m) (call_type c) (complete_with r))"
    and ids: "call_id c2 = call_id c \<Longrightarrow> c2 = c"
  shows "actor_ok m sv h q (p - {c}) (delivered r cl) (Caller c2 ph)"
proof (cases "c2 = c")
  case True
  then obtain k where k: "ph = In_Get k" "cl_pending cl (call_id c) = Some k"
    using a c by (cases ph) auto
  have "c \<notin> q" using c by blast
  have "cl_pending cl (resp_id r) = Some k" using k(2) r(1) by simp
  note own = delivered_own [OF inv this] and bound = pending_bound [OF inv this]
  have "length (cl_promises (delivered r cl)) = length (cl_promises cl)"
    by (simp add: delivered_def split: option.splits)
  with own bound k True a r(2) \<open>c \<notin> q\<close> show ?thesis by simp
next
  case False
  then have id: "call_id c2 \<noteq> resp_id r" using ids r(1) by metis
  have none: "cl_pending cl (call_id c2) = None \<Longrightarrow> cl_pending (delivered r cl) (call_id c2) = None"
    using id by (simp add: delivered_def split: option.splits)
  show ?thesis using a False none delivered_other [OF inv _ id] delivered_done [OF inv, of _ r]
    by (cases ph) (auto split: if_splits)
qed

lemma receive_keeps:
  assumes inv: "calls_inv m fd sv h rs w"
  shows "\<exists>w'. receive_message (big_endian m) fd j w = Inr w' \<and> calls_inv m fd sv h rs w'"
proof (cases "tc_running (tcp w) \<and> j < length (to_client w)")
  case False
  with inv show ?thesis by (auto simp: receive_message_def)
next
  case True
  from inv obtain q p where w: "on_the_way m sv h q p w" "\<forall>c \<in> set (q @ h). \<exists>ph. Caller c ph \<in> set rs"
      "\<forall>a \<in> set rs. actor_ok m sv h (set q) (set p) (client_side w) a" and ok: "client_ok (client_side w)"
      "distinct (call_ids rs)" and u: "unserved_ok h rs w"
    by (rule calls_invE)
  note v = w(1) [unfolded on_the_way_def]
  let ?c = "p ! j"
  have j: "j < length p" using v True by (auto dest: list_all2_lengthD)
  then have c: "?c \<in> set p" by simp
  have "response_of m sv h ?c (to_client w ! j)" using v j by (auto dest: list_all2_nthD)
  then obtain r where r: "to_client w ! j = enc False (response_val r)" "readable r" "resp_id r = call_id ?c"
      "outcome_of m sv h ?c = Some (finish_call (big_endian m) (call_type ?c) (complete_with r))"
    by (auto simp: response_of_def)
  let ?w = "w\<lparr>to_client := taken_out j (to_client w), client_side := delivered r (client_side w)\<rparr>"
  have t: "distinct (taken_out j p)" "set (taken_out j p) = set p - {?c}"
    using taken_out_distinct [of p j] v j by simp_all
  have o: "on_the_way m sv h q (taken_out j p) ?w"
    using v t by (auto simp: on_the_way_def taken_out_all2)
  from v c have "?c \<in> set (q @ h)" by auto
  then obtain ph where ph: "Caller ?c ph \<in> set rs" using w(2) by blast
  have "actor_ok m sv h (set q) (set (taken_out j p)) (client_side ?w) a" if a: "a \<in> set rs" for a
  proof (cases a)
    case (Caller c2 ph2)
    have "call_id c2 = call_id ?c \<Longrightarrow> c2 = ?c" using one_caller [OF ok(2) _ ph] a Caller by blast
    moreover have "actor_ok m sv h (set q) (set p) (client_side w) (Caller c2 ph2)" using w(3) a Caller by blast
    moreover have "set p \<subseteq> set h" "set q \<inter> set h = {}" using v by auto
    ultimately show ?thesis using delivered_keeps [OF ok(1) _ c _ _ r(3,4)] Caller t(2) by simp
  qed simp_all
  moreover have "unserved_ok h rs ?w" using u by (simp add: unserved_ok_def not_sent_def)
  ultimately have "calls_inv m fd sv h rs ?w"
    by (intro calls_invI [of _ _ _ _ _ _ q "taken_out j p"])
       (use o w(2) delivered_ok [OF ok(1), of r] ok inv in \<open>simp_all add: calls_inv_def\<close>)
  moreover have "receive_message (big_endian m) fd j w = Inr ?w"
    using True on_response_delivers [OF r(2)] r(1) by (simp add: receive_message_def client_read_def)
  ultimately show ?thesis by blast
qed


lemma lose_keeps: "calls_inv m fd sv h rs w \<Longrightarrow> calls_inv m fd sv h rs (lose_connection w)"
  by (fastforce simp: calls_inv_def on_the_way_def unserved_ok_def not_sent_def lose_connection_def tcp_disconnect_def)

subsection \<open>All steps\<close>

lemma call_step_keeps:
  assumes "calls_inv m fd sv h rs w" and "i < length rs"
  shows "\<exists>a w' h'. call_step m fd (rs ! i) w = Inr (a, w') \<and> calls_inv m fd sv (h @ h') (rs[i := a]) w' \<and>
     call_of a = call_of (rs ! i)"
proof (cases "rs ! i")
  case (Caller c ph)
  with caller_keeps [OF assms(1) Caller assms(2)] obtain ph' w' where
    "caller_step (big_endian m) c ph w = Inr (ph', w')" "calls_inv m fd sv (h @ []) (rs[i := Caller c ph']) w'"
    by auto
  with Caller show ?thesis by (intro exI [of _ "Caller c ph'"] exI [of _ w'] exI [of _ "[]"]) simp
next
  case (Server j)
  then have "rs[i := Server j] = rs" by (metis list_update_id)
  with serve_keeps [OF assms(1), of j] Server show ?thesis by fastforce
next
  case (Receiver j)
  then have "rs[i := Receiver j] = rs" by (metis list_update_id)
  moreover from receive_keeps [OF assms(1), of j] obtain w' where
    "receive_message (big_endian m) fd j w = Inr w'" "calls_inv m fd sv (h @ []) rs w'" by auto
  ultimately show ?thesis using Receiver by (intro exI [of _ "Receiver j"] exI [of _ w'] exI [of _ "[]"]) simp
next
  case Closer
  then have "rs[i := Closer] = rs" by (metis list_update_id)
  with lose_keeps [OF assms(1)] Closer show ?thesis
    by (intro exI [of _ Closer] exI [of _ "lose_connection w"] exI [of _ "[]"]) simp
qed

text \<open>A step that does something for the calls, and how many of them are left at most.\<close>

fun call_busy :: "actor \<Rightarrow> 'u net \<Rightarrow> bool" where
  "call_busy (Caller c ph) w =
     (case ph of
        Not_Started \<Rightarrow> True
      | Registered bytes k \<Rightarrow> True
      | In_Get k \<Rightarrow> cl_promises (client_side w) ! k \<noteq> Waiting
      | Finished res \<Rightarrow> False)"
| "call_busy (Server j) w = (j < length (to_server w))"
| "call_busy (Receiver j) w = (tc_running (tcp w) \<and> j < length (to_client w))"
| "call_busy Closer w = False"

fun actor_left :: "actor \<Rightarrow> nat" where
  "actor_left (Caller c ph) =
     (case ph of Not_Started \<Rightarrow> 5 | Registered bytes k \<Rightarrow> 4 | In_Get k \<Rightarrow> 1 | Finished res \<Rightarrow> 0)"
| "actor_left _ = 0"

definition calls_left :: "actor list \<Rightarrow> 'u net \<Rightarrow> nat" where
  "calls_left rs w = sum_list (map actor_left rs) + 2 * length (to_server w) + length (to_client w)"

lemma caller_step_left:
  "caller_step nb c ph w = Inr (ph', w') \<Longrightarrow>
   actor_left (Caller c ph') + 2 * length (to_server w') + length (to_client w') +
     (if call_busy (Caller c ph) w then 1 else 0)
   \<le> actor_left (Caller c ph) + 2 * length (to_server w) + length (to_client w)"
  by (cases ph) (auto simp: bindE_eq_Inr finish_blocked split: call_outcome.splits option.splits if_splits)

lemma length_taken_out: "j < length xs \<Longrightarrow> Suc (length (taken_out j xs)) = length xs"
  by (simp add: taken_out_def)

lemma call_step_left:
  assumes "call_step m fd a w = Inr (a', w')"
  shows "actor_left a' + 2 * length (to_server w') + length (to_client w') + (if call_busy a w then 1 else 0)
     \<le> actor_left a + 2 * length (to_server w) + length (to_client w)"
proof (cases a)
  case (Caller c ph)
  with assms obtain ph' where "caller_step (big_endian m) c ph w = Inr (ph', w')" "a' = Caller c ph'"
    by (auto simp: bindE_eq_Inr)
  with caller_step_left [OF this(1)] Caller show ?thesis by simp
next
  case (Server j)
  with assms length_taken_out [of j "to_server w"] show ?thesis
    by (auto simp: serve_message_def server_read_def bindE_eq_Inr split: if_splits)
next
  case (Receiver j)
  with assms length_taken_out [of j "to_client w"] show ?thesis
    by (auto simp: receive_message_def client_read_def bindE_eq_Inr split: if_splits)
next
  case Closer
  with assms show ?thesis by (auto simp: lose_connection_def)
qed

interpretation calls: decreased_by_steps "call_step m fd" "\<lambda>_ _. True"
  "\<lambda>rs w. map call_of rs = map call_of rs0 \<and> (\<exists>h'. calls_inv m fd sv (h @ h') rs w)" call_busy calls_left
  for m fd sv h rs0
proof unfold_locales
  fix rs w i
  assume "map call_of rs = map call_of rs0 \<and> (\<exists>h'. calls_inv m fd sv (h @ h') rs w)" and i: "i < length rs"
  then obtain h' where "calls_inv m fd sv (h @ h') rs w" "map call_of rs = map call_of rs0" by blast
  with call_step_keeps [OF this(1) i] map_update_same [of call_of rs i] show
    "\<exists>r w'. call_step m fd (rs ! i) w = Inr (r, w') \<and> map call_of (rs[i := r]) = map call_of rs0 \<and>
       (\<exists>h'. calls_inv m fd sv (h @ h') (rs[i := r]) w')"
    by (metis append.assoc)
next
  fix rs w i r w'
  assume "i < length rs" and "call_step m fd (rs ! i) w = Inr (r, w')"
  with call_step_left [OF this(2)] sum_list_update_nat [of i rs actor_left r]
  show "calls_left (rs[i := r]) w' + (if call_busy (rs ! i) w then 1 else 0) \<le> calls_left rs w"
    by (simp add: calls_left_def)
qed

text \<open>Callbacks stay where they are.\<close>

lemma callback_step: "call_step m fd a w = Inr (a', w') \<Longrightarrow> call_of a = [] \<Longrightarrow> a' = a"
  by (cases a) (auto simp: bindE_eq_Inr)

lemma callbacks_kept:
  "interleave (call_step m fd) is rs w = Inr (rs', w') \<Longrightarrow> a \<in> set rs \<Longrightarrow> call_of a = [] \<Longrightarrow> a \<in> set rs'"
proof (induction "is" arbitrary: rs w)
  case (Cons i "is")
  show ?case
  proof (cases "i < length rs")
    case True
    with Cons.prems(1) obtain b w1 where b: "call_step m fd (rs ! i) w = Inr (b, w1)"
      "interleave (call_step m fd) is (rs[i := b]) w1 = Inr (rs', w')" by (auto simp: bindE_eq_Inr)
    have "a \<in> set (rs[i := b])"
    proof (cases "a = rs ! i")
      case True
      with callback_step [OF b(1)] Cons.prems(3) set_update_memI [OF \<open>i < length rs\<close>] show ?thesis by metis
    next
      case False
      then show ?thesis by (rule kept_entry [OF Cons.prems(2)])
    qed
    with Cons.IH [OF b(2)] Cons.prems(3) show ?thesis by blast
  next
    case False
    with Cons.prems have "interleave (call_step m fd) is rs w = Inr (rs', w')" by simp
    from Cons.IH [OF this Cons.prems(2,3)] show ?thesis .
  qed
qed simp

lemma start_left:
  "(\<And>c ph. Caller c ph \<in> set rs \<Longrightarrow> ph = Not_Started) \<Longrightarrow> sum_list (map actor_left rs) = 5 * length (call_ids rs)"
proof (induction rs)
  case (Cons a rs)
  have "sum_list (map actor_left rs) = 5 * length (call_ids rs)" by (rule Cons.IH) (use Cons.prems in auto)
  moreover have "actor_left a = 5 * length (call_of a)"
  proof (cases a)
    case (Caller c ph)
    then have "ph = Not_Started" by (intro Cons.prems [of c]) simp
    with Caller show ?thesis by simp
  qed simp_all
  ultimately show ?case by (simp add: call_ids_def)
qed (simp add: call_ids_def)

text \<open>The start, the linearization and the end.\<close>

lemma calls_start_inv:
  assumes "calls_start m fd rs w"
  shows "calls_inv m fd (rpc_server (server_side w)) [] rs w"
proof (rule calls_invI [of _ _ _ _ _ _ "[]" "[]"])
  show "actor_ok m (rpc_server (server_side w)) [] (set []) (set []) (client_side w) a" if "a \<in> set rs" for a
  proof (cases a)
    case (Caller c ph)
    with assms that have "ph = Not_Started" "call_ok m (rpc_server (server_side w)) c"
      "cl_pending (client_side w) (call_id c) = None" unfolding calls_start_def by blast+
    with Caller show ?thesis by simp
  qed simp_all
  show "unserved_ok [] rs w" using assms by (fastforce simp: unserved_ok_def calls_start_def)
qed (use assms in \<open>simp_all add: calls_start_def server_at_def on_the_way_def\<close>)

lemma inv_explains:
  assumes "calls_inv m fd sv h rs w"
  shows "explains m sv h rs w"
proof -
  from assms obtain q p where w: "on_the_way m sv h q p w" "\<forall>c \<in> set (q @ h). \<exists>ph. Caller c ph \<in> set rs"
      "\<forall>a \<in> set rs. actor_ok m sv h (set q) (set p) (client_side w) a"
      "server_at m fd sv h (rpc_server (server_side w))" "unserved_ok h rs w"
    by (rule calls_invE)
  have "c \<in> set (concat (map call_of rs))" if "c \<in> set h" for c
    using w(2) that by (fastforce intro: bexI [of _ "Caller c _"])
  moreover have "Caller c Not_Started \<notin> set rs" if "c \<in> set h" for c
    using w(3) that by fastforce
  moreover have "(c, res) \<in> set (zip h (fst (local_calls m sv h (srv_app sv)))) \<or> c \<notin> set h \<and> not_sent w res"
    if "Caller c (Finished res) \<in> set rs" for c res
  proof (cases "c \<in> set h")
    case True
    with w(3) that show ?thesis by (fastforce simp: outcome_of_def dest: map_of_SomeD)
  next
    case False
    with w(5) that show ?thesis by (auto simp: unserved_ok_def)
  qed
  ultimately show ?thesis using w(1,4) by (simp add: explains_def on_the_way_def server_at_def)
qed

lemma quiet_finished:
  assumes "calls_inv m fd sv h rs w" and "Server 0 \<in> set rs" and "Receiver 0 \<in> set rs" and "tc_running (tcp w)"
    and "\<And>a. a \<in> set rs \<Longrightarrow> \<not> call_busy a w" and "Caller c ph \<in> set rs"
  shows "\<exists>res. ph = Finished res"
proof -
  from assms(1) obtain q p where w: "on_the_way m sv h q p w"
      "\<forall>a \<in> set rs. actor_ok m sv h (set q) (set p) (client_side w) a"
    by (rule calls_invE)
  have "to_server w = []" "to_client w = []" using assms(5) [OF assms(2)] assms(5) [OF assms(3)] assms(4) by simp_all
  then have e: "q = []" "p = []" using w(1) by (simp_all add: on_the_way_def)
  from w(2) assms(6) have "actor_ok m sv h (set q) (set p) (client_side w) (Caller c ph)" by blast
  with e assms(5) [OF assms(6)] show ?thesis by (cases ph) auto
qed


text \<open>Only \<open>Closer\<close> ends the connection, and nothing brings it back.\<close>

lemma caller_tcp: "caller_step nb c ph w = Inr (ph', w') \<Longrightarrow> tcp w' = tcp w"
  by (cases ph) (auto simp: bindE_eq_Inr split: if_splits option.splits)

lemma tcp_step:
  assumes "call_step m fd a w = Inr (a', w')"
  shows "tcp w' = (if a = Closer then tcp (lose_connection w) else tcp w)"
  using assms caller_tcp
  by (cases a) (auto simp: bindE_eq_Inr serve_message_def receive_message_def split: if_splits)

lemma stays_connected:
  "interleave (call_step m fd) is rs w = Inr (rs', w') \<Longrightarrow> Closer \<notin> set rs \<Longrightarrow> tc_running (tcp w) \<Longrightarrow> tc_running (tcp w')"
proof (induction "is" arbitrary: rs w)
  case (Cons i "is")
  show ?case
  proof (cases "i < length rs")
    case True
    with Cons.prems(1) obtain b w1 where b: "call_step m fd (rs ! i) w = Inr (b, w1)"
      "interleave (call_step m fd) is (rs[i := b]) w1 = Inr (rs', w')" by (auto simp: bindE_eq_Inr)
    have "rs ! i \<noteq> Closer" using Cons.prems(2) nth_mem [OF True] by metis
    moreover from this b(1) have "b \<noteq> Closer" by (cases "rs ! i") (auto simp: bindE_eq_Inr)
    then have "Closer \<notin> set (rs[i := b])" using Cons.prems(2) set_update_subset_insert [of rs i b] by auto
    ultimately show ?thesis using Cons.IH [OF b(2)] tcp_step [OF b(1)] Cons.prems(3) by simp
  next
    case False
    with Cons show ?thesis by simp
  qed
qed simp

subsection \<open>Properties\<close>


text \<open>Two threads that subtract on one client, with the callbacks, and a second thread for each callback.\<close>

definition sub_call :: "byte \<Rightarrow> int32 \<Rightarrow> int32 \<Rightarrow> call" where
  "sub_call i a b =
     \<lparr>call_id = [i], call_method = ascii ''sub'', call_args = [VInt32 a, VInt32 b], call_type = Some TInt32\<rparr>"

definition sub_actors :: "actor list" where
  "sub_actors = [Caller (sub_call 1 10 3) Not_Started, Caller (sub_call 2 5 9) Not_Started,
     Server 0, Server 1, Receiver 0, Receiver 1]"

definition sub_net :: "nat net" where
  "sub_net = \<lparr>client_side = new_rpc_client, to_server = [], server_side = w_app sub_world, to_client = [],
     tcp = c_client sub_client, send_errno = (\<lambda>_. None)\<rparr>"

lemma sub_call_ok: "call_ok m sub_server (sub_call i a b)"
proof -
  have "well_behaved m (sub_server\<lparr>srv_app := u\<rparr>) (ascii ''sub'') (Some TInt32) [VInt32 a, VInt32 b] (2 ^ 27)" for u
    by (simp add: well_behaved_def sub_handler_def)
  moreover have "list_all2 is_value [VInt32 a, VInt32 b] [TInt32, TInt32]" by simp
  then have "\<exists>ts. list_all2 is_value [VInt32 a, VInt32 b] ts" by blast
  ultimately show ?thesis by (simp add: call_ok_def sub_call_def small_call_def enc_args_def ascii_def)
qed

lemma sub_net_server: "rpc_server (server_side sub_net) = sub_server"
  by (simp add: sub_net_def)

lemma sub_net_connected: "tc_running (tcp sub_net)"
  using sub_client_ready [of gcc_x86] by (simp add: sub_net_def client_ready_def connected_def)

lemma sub_calls_start: "calls_start gcc_x86 7 sub_actors sub_net"
  using new_rpc_client_ok sub_call_ok
  by (auto simp: calls_start_def sub_actors_def sub_net_def call_ids_def sub_call_def gcc_x86_def new_rpc_client_def)





text \<open>
  Without a connection a promise that waits goes on waiting: nothing is received, and new calls have
  promises of their own.
\<close>

lemma waits_on:
  assumes "calls_inv m fd sv h rs w" and "i < length rs" and "\<not> tc_running (tcp w)"
    and "call_step m fd (rs ! i) w = Inr (a, w')" and "k < length (cl_promises (client_side w))"
    and "cl_promises (client_side w) ! k = Waiting"
  shows "k < length (cl_promises (client_side w')) \<and> cl_promises (client_side w') ! k = Waiting"
proof (cases "rs ! i")
  case (Server j)
  with assms(4-6) show ?thesis by (auto simp: serve_message_def bindE_eq_Inr split: if_splits)
next
  case (Receiver j)
  with assms(3-6) show ?thesis by (auto simp: receive_message_def)
next
  case Closer
  with assms(3-6) show ?thesis by (auto simp: lose_connection_def)
next
  case (Caller c ph)
  show ?thesis
  proof (cases ph)
    case Not_Started
    from assms(1) obtain q p where "\<forall>a \<in> set rs. actor_ok m sv h (set q) (set p) (client_side w) a" by (rule calls_invE)
    moreover have "Caller c Not_Started \<in> set rs" using Caller Not_Started nth_mem [OF assms(2)] by simp
    ultimately have "actor_ok m sv h (set q) (set p) (client_side w) (Caller c Not_Started)" by blast
    then have "cl_pending (client_side w) (call_id c) = None" by simp
    with assms(4-6) Caller Not_Started show ?thesis
      by (auto simp: bindE_eq_Inr start_call_def Let_def nth_append)
  qed (use assms(3-6) Caller in \<open>auto simp: bindE_eq_Inr\<close>)
qed

lemma stays_lost: "call_step m fd a w = Inr (a', w') \<Longrightarrow> \<not> tc_running (tcp w) \<Longrightarrow> \<not> tc_running (tcp w')"
  using tcp_step [of m fd a w a' w'] by (auto simp: lose_connection_def split: if_splits)

lemma lost_for_ever:
  "interleave (call_step m fd) is rs w = Inr (rs', w') \<Longrightarrow> \<not> tc_running (tcp w) \<Longrightarrow> \<not> tc_running (tcp w')"
proof (induction "is" arbitrary: rs w)
  case (Cons i "is")
  then show ?case by (cases "i < length rs") (auto simp: bindE_eq_Inr dest: stays_lost)
qed simp

lemma blocked_without_connection:
  assumes "interleave (call_step m fd) is rs w = Inr (rs', w')" and "calls_inv m fd sv h rs w" and "\<not> tc_running (tcp w)"
    and "rs ! i = Caller c (In_Get k)" and "i < length rs"
    and "k < length (cl_promises (client_side w))" and "cl_promises (client_side w) ! k = Waiting"
  shows "rs' ! i = Caller c (In_Get k)"
  using assms
proof (induction "is" arbitrary: rs w h)
  case (Cons n "is")
  show ?case
  proof (cases "n < length rs")
    case True
    from call_step_keeps [OF Cons.prems(2) True] obtain a w1 h' where
      a: "call_step m fd (rs ! n) w = Inr (a, w1)" "calls_inv m fd sv (h @ h') (rs[n := a]) w1" by blast
    note w1 = waits_on [OF Cons.prems(2) True Cons.prems(3) a(1) Cons.prems(6,7)]
    have "rs[n := a] ! i = Caller c (In_Get k)"
      using Cons.prems(4,5,7) a(1) True by (cases "n = i") (auto simp: finish_call_def)
    with Cons.IH [OF _ a(2) stays_lost [OF a(1) Cons.prems(3)] _ _ conjunct1 [OF w1] conjunct2 [OF w1]]
      Cons.prems(1,5) a(1) True show ?thesis by simp
  next
    case False
    with Cons show ?thesis by simp
  qed
qed simp

text \<open>Before its message is sent, or ended because it could not be.\<close>

definition unsent :: "phase \<Rightarrow> bool" where
  "unsent ph \<longleftrightarrow> ph = Not_Started \<or> (\<exists>bytes k. ph = Registered bytes k) \<or>
     ph = Finished (Bad (Runtime_Error ''Client is not connected''))"

lemma unsent_without_connection:
  assumes "interleave (call_step m fd) is rs w = Inr (rs', w')" and "\<not> tc_running (tcp w)"
    and "rs ! i = Caller c ph" and "i < length rs" and "unsent ph"
  shows "\<exists>ph'. rs' ! i = Caller c ph' \<and> unsent ph'"
  using assms
proof (induction "is" arbitrary: rs w ph)
  case (Cons n "is")
  show ?case
  proof (cases "n < length rs")
    case True
    with Cons.prems(1) obtain a w1 where a: "call_step m fd (rs ! n) w = Inr (a, w1)"
      "interleave (call_step m fd) is (rs[n := a]) w1 = Inr (rs', w')" by (auto simp: bindE_eq_Inr)
    have "\<exists>ph1. rs[n := a] ! i = Caller c ph1 \<and> unsent ph1"
      using Cons.prems(2-5) a(1) True by (cases "n = i") (auto simp: unsent_def bindE_eq_Inr)
    then obtain ph1 where "rs[n := a] ! i = Caller c ph1" "unsent ph1" by blast
    with Cons.IH [OF a(2) stays_lost [OF a(1) Cons.prems(2)]] Cons.prems(4) show ?thesis by simp
  next
    case False
    with Cons show ?thesis by simp
  qed
qed auto



end
