(* ===== verification/Server_Life.thy ===== *)
theory Server_Life
  imports Rpc_Runtime
begin

text \<open>
  The tables of a running server (\<open>Core/Tcp_Server.cpp\<close>, \<open>RPC/Rpc_Server.cpp\<close>,
  \<open>RPC/Rpc_User_Manager.cpp\<close>) over its whole life: turns of the main loop and of the sub-reactors,
  \<open>read_data\<close> tasks and periodic checks, in any order, with any bytes from the clients.

  The theory shows that the three tables that a descriptor is entered in, in two classes, agree at every
  moment, as long as no \<open>send\<close> fails; and what goes wrong when one does.
\<close>

subsection \<open>The life of a server\<close>

datatype server_op = Main_Turn "byte list" | Reactor_Turn nat | Read_Task int | Check_Task

fun server_op_step :: "('d, 'u rpc_app, 'k) tcp_env \<Rightarrow> server_op \<Rightarrow> ('u rpc_app, 'k) world \<Rightarrow>
    ('u rpc_app, 'k) world result" where
  "server_op_step env (Main_Turn arr) w = main_turn env arr w"
| "server_op_step env (Reactor_Turn i) w = bindE (sub_reactor_turn env i w) (\<lambda>(fds, w1). Inr w1)"
| "server_op_step env (Read_Task fd) w = read_data env fd w"
| "server_op_step env Check_Task w = bindE (check_users_job env w) (\<lambda>(fds, w1). Inr w1)"

fun server_ops :: "('d, 'u rpc_app, 'k) tcp_env \<Rightarrow> server_op list \<Rightarrow> ('u rpc_app, 'k) world \<Rightarrow>
    ('u rpc_app, 'k) world result" where
  "server_ops env [] w = Inr w"
| "server_ops env (x # xs) w = bindE (server_op_step env x w) (server_ops env xs)"

text \<open>No task reads a descriptor that has left the tables (what happens then is in \<open>Tcp_Server\<close>).\<close>

fun known_reads :: "('d, 'u rpc_app, 'k) tcp_env \<Rightarrow> server_op list \<Rightarrow> ('u rpc_app, 'k) world \<Rightarrow> bool" where
  "known_reads env [] w \<longleftrightarrow> True"
| "known_reads env (x # xs) w \<longleftrightarrow>
     (case x of Read_Task fd \<Rightarrow> channels (w_server w) fd \<noteq> None | _ \<Rightarrow> True) \<and>
     (case server_op_step env x w of Inl e \<Rightarrow> True | Inr w1 \<Rightarrow> known_reads env xs w1)"

definition users_of :: "('u rpc_app, 'k) world \<Rightarrow> user_store" where
  "users_of w = srv_users (rpc_server (w_app w))"

definition own_channel :: "channel list \<Rightarrow> int \<Rightarrow> nat option \<Rightarrow> bool" where
  "own_channel chs fd ptr \<longleftrightarrow> (\<exists>p. ptr = Some p \<and> p < length chs \<and> ch_fd (chs ! p) = fd)"

text \<open>
  Every descriptor in one table is in all: it has a channel of its own, the reactor that its number gives,
  and a user.
\<close>

definition tables_ok :: "('u rpc_app, 'k) world \<Rightarrow> bool" where
  "tables_ok w \<longleftrightarrow>
     sub_reactors (w_server w) \<noteq> [] \<and> store_ok (users_of w) \<and>
     dom (channels (w_server w)) = dom (last_of (users_of w)) \<and>
     dom (fd_location (w_server w)) = dom (last_of (users_of w)) \<and>
     (\<forall>fd ptr. channels (w_server w) fd = Some ptr \<longrightarrow> own_channel (heap (w_server w)) fd ptr) \<and>
     (\<forall>fd loc. fd_location (w_server w) fd = Some loc \<longrightarrow> loc = nat fd mod length (sub_reactors (w_server w)))"

definition sends_succeed :: "'k kernel \<Rightarrow> bool" where
  "sends_succeed kern \<longleftrightarrow> (\<forall>fd bs k e. fst (k_send kern fd bs k) \<noteq> Send_Error e)"

subsection \<open>Rules for the loops\<close>

lemma read_loop_rule:
  assumes ret: "read_loop env fd ptr w = Some (Inr (out, w1))" and init: "I w"
    and step: "\<And>w out w1. I w \<Longrightarrow> read_step env fd ptr w = Inr (out, w1) \<Longrightarrow> if out = Read_On then I w1 else Q out w1"
  shows "Q out w1"
proof -
  let ?P = "\<lambda>env' fd' ptr' w r. env' = env \<and> fd' = fd \<and> ptr' = ptr \<and> I w \<longrightarrow> (\<forall>out w1. r = Inr (out, w1) \<longrightarrow> Q out w1)"
  have "?P env fd ptr w r" if "read_loop env fd ptr w = Some r" for r
  proof (rule read_loop.raw_induct [where P = ?P, OF _ that])
    fix loop env' fd' ptr' and w :: "('a, 'b) world" and r
    assume IH: "\<And>env' fd' ptr' w r. loop env' fd' ptr' w = Some r \<Longrightarrow> ?P env' fd' ptr' w r"
      and eq: "(case read_step env' fd' ptr' w of Inl e \<Rightarrow> Some (Inl e)
        | Inr (out, w1) \<Rightarrow> (if out = Read_On then loop env' fd' ptr' w1 else Some (Inr (out, w1)))) = Some r"
    show "?P env' fd' ptr' w r"
    proof (intro impI allI)
      fix out w1
      assume e: "env' = env \<and> fd' = fd \<and> ptr' = ptr \<and> I w" and r: "r = Inr (out, w1)"
      from eq r obtain o2 w2 where s: "read_step env fd ptr w = Inr (o2, w2)" using e by (auto split: sum.splits)
      have w2: "if o2 = Read_On then I w2 else Q o2 w2" using step [OF _ s] e by simp
      from eq e r s have "if o2 = Read_On then loop env fd ptr w2 = Some r else out = o2 \<and> w1 = w2"
        by (auto split: if_splits)
      with IH [of env fd ptr w2 r] w2 r show "Q out w1" by (cases "o2 = Read_On") auto
    qed
  qed
  from this [OF ret] init show ?thesis by blast
qed

lemma accept_loop_rule:
  assumes ret: "accept_loop env arr w = Some (Inr w1)" and init: "I w"
    and kernel: "\<And>w k. I w \<Longrightarrow> I (w\<lparr>w_kernel := k\<rparr>)"
    and step: "\<And>w fd w1. I w \<Longrightarrow> add_connection env arr fd w = Inr w1 \<Longrightarrow> I w1"
  shows "I w1"
proof -
  let ?P = "\<lambda>env' arr' w r. env' = env \<and> arr' = arr \<and> I w \<longrightarrow> (\<forall>w1. r = Inr w1 \<longrightarrow> I w1)"
  have "?P env arr w r" if "accept_loop env arr w = Some r" for r
  proof (rule accept_loop.raw_induct [where P = ?P, OF _ that])
    fix loop env' arr' and w :: "('a, 'b) world" and r
    assume IH: "\<And>env' arr' w r. loop env' arr' w = Some r \<Longrightarrow> ?P env' arr' w r"
      and eq: "(case k_accept (env_kernel env') (listen_fd (w_server w)) (w_kernel w) of (a, k) \<Rightarrow>
        (case a of Accepted clientFd \<Rightarrow> (case add_connection env' arr' clientFd (w\<lparr>w_kernel := k\<rparr>) of
             Inl e \<Rightarrow> Some (Inl e) | Inr w1 \<Rightarrow> loop env' arr' w1)
         | Accept_Again \<Rightarrow> Some (Inr (w\<lparr>w_kernel := k\<rparr>))
         | Accept_Error e \<Rightarrow> Some (Inl (Runtime_Error ''Failed to accept connection'')))) = Some r"
    show "?P env' arr' w r"
    proof (intro impI allI)
      fix w1
      assume e: "env' = env \<and> arr' = arr \<and> I w" and r: "r = Inr w1"
      obtain a k where a: "k_accept (env_kernel env) (listen_fd (w_server w)) (w_kernel w) = (a, k)" by fastforce
      have I: "I (w\<lparr>w_kernel := k\<rparr>)" using e kernel by blast
      show "I w1"
      proof (cases a)
        case (Accepted fd)
        with eq a e r obtain w2 where w2: "add_connection env arr fd (w\<lparr>w_kernel := k\<rparr>) = Inr w2" "loop env arr w2 = Some r"
          by (auto split: sum.splits)
        from IH [OF w2(2)] step [OF I w2(1)] r show ?thesis by blast
      qed (use eq a e r I in auto)
    qed
  qed
  from this [OF ret] init show ?thesis by blast
qed

subsection \<open>What reading and sending keep\<close>

definition tables :: "('a, 'k) world \<Rightarrow> (int \<rightharpoonup> nat option) \<times> (int \<rightharpoonup> nat) \<times> nat list \<times> int list" where
  "tables w = (channels (w_server w), fd_location (w_server w), sub_reactors (w_server w),
     map ch_fd (heap (w_server w)))"

lemma tables_put:
  "ch_fd ch = ch_fd (channel_at p w) \<Longrightarrow> tables (put_channel p ch w) = tables w"
  by (simp add: tables_def put_channel_def channel_at_def map_update_same)

lemma tables_other [simp]: "tables (w\<lparr>w_kernel := k\<rparr>) = tables w" "tables (w\<lparr>w_app := a\<rparr>) = tables w"
  by (simp_all add: tables_def)

lemma tables_fd: "tables w1 = tables w \<Longrightarrow> p < length (heap (w_server w)) \<Longrightarrow>
    ch_fd (channel_at p w1) = ch_fd (channel_at p w) \<and> p < length (heap (w_server w1))"
  by (simp add: tables_def channel_at_def) (metis length_map nth_map)

lemma send_step_keeps:
  assumes "send_step env fd p w = Inr (out, w1)" and "sends_succeed (env_kernel env)"
  shows "tables w1 = tables w \<and> w_app w1 = w_app w"
proof (cases "tsq_empty (ch_send_messages (channel_at p w))")
  case True
  with assms(1) show ?thesis by (simp add: send_step_def Let_def)
next
  case False
  with assms(1) obtain message r k where m: "tsq_front (ch_send_messages (channel_at p w)) = Inr message"
    and k: "k_send (env_kernel env) fd (drop (ch_send_offset (channel_at p w)) message) (w_kernel w) = (r, k)"
    by (auto simp: send_step_def Let_def bindE_eq_Inr) (metis surj_pair)
  have "\<nexists>e. r = Send_Error e" using assms(2) k unfolding sends_succeed_def by (metis fst_conv)
  with assms(1) False m k show ?thesis
    by (cases r) (auto simp: send_step_def Let_def bindE_eq_Inr tables_put split: if_splits)
qed

lemma send_loop_keeps:
  assumes ret: "send_loop env fd p w = Some (Inr (out, w1))" and "sends_succeed (env_kernel env)"
  shows "tables w1 = tables w \<and> w_app w1 = w_app w"
  by (rule send_loop_rule [where I = "\<lambda>w'. tables w' = tables w \<and> w_app w' = w_app w", OF ret])
     (use send_step_keeps assms(2) in \<open>simp, metis\<close>)

text \<open>\<open>located p w\<close>: the descriptor of the channel at \<open>p\<close> has a reactor.\<close>

definition located :: "nat \<Rightarrow> ('a, 'k) world \<Rightarrow> bool" where
  "located p w \<longleftrightarrow> p < length (heap (w_server w)) \<and> fd_location (w_server w) (ch_fd (channel_at p w)) \<noteq> None"

lemma located_tables: "tables w1 = tables w \<Longrightarrow> located p w \<Longrightarrow> located p w1"
  using tables_fd [of w1 w p] by (auto simp: located_def tables_def)

lemma rearm_keeps:
  assumes "rearm env fd ev w = Inr w1" and "fd_location (w_server w) fd \<noteq> None"
  shows "tables w1 = tables w \<and> w_app w1 = w_app w"
  using assms by (auto simp: rearm_def locate_def bindE_eq_Inr)

lemma try_send_keeps:
  assumes "try_send env p w = Inr w1" and "sends_succeed (env_kernel env)" and "located p w"
  shows "tables w1 = tables w \<and> w_app w1 = w_app w"
proof -
  from assms(1) obtain out w2 where
    l: "send_loop env (ch_fd (channel_at p w)) p w = Some (Inr (out, w2))" and
    r: "(if out = All_Sent then rearm env (ch_fd (channel_at p w)) (EPOLLIN OR EPOLLET) w2 else Inr w2) = Inr w1"
    by (auto simp: try_send_def Let_def bindE_eq_Inr split: option.splits)
  note k = send_loop_keeps [OF l assms(2)]
  have "fd_location (w_server w2) (ch_fd (channel_at p w)) \<noteq> None"
    using k assms(3) by (simp add: located_def tables_def)
  with r k rearm_keeps [of env _ _ w2 w1] show ?thesis by (auto split: if_splits)
qed

lemma write_data_keeps:
  assumes "write_data env p data w = Inr w1" and "sends_succeed (env_kernel env)" and "located p w"
  shows "tables w1 = tables w \<and> w_app w1 = w_app w"
proof -
  from assms(1) obtain ch w2 where e: "enqueue_message (env_lib env) (env_nb env) data (channel_at p w) = Inr ch"
    and r: "rearm env (ch_fd (channel_at p (put_channel p ch w))) (EPOLLIN OR EPOLLOUT OR EPOLLET) (put_channel p ch w) =
      Inr w2"
    and t: "try_send env p w2 = Inr w1"
    by (auto simp: write_data_def on_send_message_def bindE_eq_Inr)
  have "ch_fd ch = ch_fd (channel_at p w)" using e by (auto simp: enqueue_message_def bindE_eq_Inr)
  then have p: "tables (put_channel p ch w) = tables w" by (rule tables_put)
  then have k: "located p (put_channel p ch w)" using assms(3) by (rule located_tables)
  have "fd_location (w_server (put_channel p ch w)) (ch_fd (channel_at p (put_channel p ch w))) \<noteq> None"
    using k unfolding located_def by blast
  from rearm_keeps [OF r this] p have w2: "tables w2 = tables w" "w_app w2 = w_app w" by simp_all
  with try_send_keeps [OF t assms(2) located_tables [OF w2(1) assms(3)]] show ?thesis by simp
qed

lemma write_all_keeps:
  "write_all env p ds w = Inr w1 \<Longrightarrow> sends_succeed (env_kernel env) \<Longrightarrow> located p w \<Longrightarrow>
   tables w1 = tables w \<and> w_app w1 = w_app w"
proof (induction ds arbitrary: w)
  case (Cons d ds)
  then obtain w2 where w2: "write_data env p d w = Inr w2" "write_all env p ds w2 = Inr w1"
    by (auto simp: bindE_eq_Inr)
  note k = write_data_keeps [OF w2(1) Cons.prems(2,3)]
  with Cons.IH [OF w2(2) Cons.prems(2)] located_tables [of w2 w p] Cons.prems(3) show ?case by simp
qed simp

text \<open>The callback of the server keeps who is connected.\<close>

definition same_users :: "user_store \<Rightarrow> user_store \<Rightarrow> bool" where
  "same_users s s' \<longleftrightarrow> store_ok s' \<and> dom (last_of s') = dom (last_of s)"

lemma request_keeps_users:
  assumes "on_request m now fd data sv = Inr (bytes, sv')" and "store_ok (srv_users sv)"
  shows "same_users (srv_users sv) (srv_users sv')"
proof -
  from assms(1) obtain request us where us: "update_heartbeat fd now (srv_users sv) = Inr us"
    "(case answer m request (sv\<lparr>srv_users := us\<rparr>) of (r, app) \<Rightarrow> bindE r (\<lambda>response.
       bindE (message_bytes (big_endian m) (response_val response)) (\<lambda>bytes.
       Inr (bytes, sv\<lparr>srv_users := us, srv_app := app\<rparr>)))) = Inr (bytes, sv')"
    by (auto simp: on_request_def bindE_eq_Inr)
  have "srv_users sv' = us"
    using us(2) by (cases "answer m request (sv\<lparr>srv_users := us\<rparr>)") (auto simp: bindE_eq_Inr)
  with users.touch_Inr [OF assms(2) us(1)] show ?thesis by (auto simp: same_users_def)
qed

lemma run_callbacks_keeps:
  "run_callbacks env p ms w = Inr w1 \<Longrightarrow> env_cbs env = server_callbacks m \<Longrightarrow> sends_succeed (env_kernel env) \<Longrightarrow>
   located p w \<Longrightarrow> store_ok (users_of w) \<Longrightarrow> tables w1 = tables w \<and> same_users (users_of w) (users_of w1)"
proof (induction ms arbitrary: w)
  case Nil
  then show ?case by (simp add: same_users_def)
next
  case (Cons d ms)
  let ?fd = "ch_fd (channel_at p w)"
  from Cons.prems(1,2) obtain outs app w2 where s: "server_read m ?fd d (w_app w) = Inr (outs, app)"
    and w2: "write_all env p outs (w\<lparr>w_app := app\<rparr>) = Inr w2" and r: "run_callbacks env p ms w2 = Inr w1"
    by (auto simp: bindE_eq_Inr server_callbacks_def callback_defs)
  have u: "same_users (users_of w) (srv_users (rpc_server app))"
    using s Cons.prems(5) request_keeps_users by (fastforce simp: server_read_def bindE_eq_Inr users_of_def)
  have "located p (w\<lparr>w_app := app\<rparr>)" using Cons.prems(4) by (simp add: located_def)
  note k = write_all_keeps [OF w2 Cons.prems(3) this]
  then have t: "tables w2 = tables w" and u2: "same_users (users_of w) (users_of w2)" using u by (simp_all add: users_of_def)
  from Cons.IH [OF r Cons.prems(2,3) located_tables [OF t Cons.prems(4)]] u2 t show ?case
    by (simp add: same_users_def)
qed


text \<open>Parsing keeps the descriptor.\<close>

lemma parse_loop_fd:
  assumes "parse_loop lib nb ch = Some (Inr ch')"
  shows "ch_fd ch' = ch_fd ch"
proof -
  let ?P = "\<lambda>lib nb ch r. \<forall>ch'. r = Inr ch' \<longrightarrow> ch_fd ch' = ch_fd ch"
  have "?P lib nb ch r" if "parse_loop lib nb ch = Some r" for r
  proof (rule parse_loop.raw_induct [where P = ?P, OF _ that])
    fix loop and lib :: "'a brotli" and nb ch r
    assume IH: "\<And>lib nb ch r. loop lib nb ch = Some r \<Longrightarrow> ?P lib nb ch r"
      and eq: "(case parse_head nb ch of Inl e \<Rightarrow> Some (Inl e)
        | Inr next \<Rightarrow> (case next of None \<Rightarrow> Some (Inr ch)
           | Some ch1 \<Rightarrow> (case parse_body lib ch1 of Inl e \<Rightarrow> Some (Inl e) | Inr ch2 \<Rightarrow> loop lib nb ch2))) = Some r"
    have h: "ch_fd ch1 = ch_fd ch" if "parse_head nb ch = Inr (Some ch1)" for ch1
      using that by (auto simp: parse_head_def bindE_eq_Inr split: if_splits)
    have b: "ch_fd ch2 = ch_fd ch1" if "parse_body lib ch1 = Inr ch2" for ch1 ch2
      using that by (auto simp: parse_body_def bindE_eq_Inr split: if_splits)
    show "?P lib nb ch r"
    proof (cases "parse_head nb ch")
      case (Inr nxt)
      show ?thesis
      proof (cases "\<exists>ch1 ch2. nxt = Some ch1 \<and> parse_body lib ch1 = Inr ch2")
        case True
        then obtain ch1 ch2 where c: "nxt = Some ch1" "parse_body lib ch1 = Inr ch2" by blast
        with Inr have "parse_head nb ch = Inr (Some ch1)" by simp
        note f = h [OF this]
        from eq Inr c have "loop lib nb ch2 = Some r" by simp
        from IH [OF this] show ?thesis unfolding b [OF c(2)] f .
      qed (use eq Inr in \<open>auto split: option.splits sum.splits\<close>)
    qed (use eq in auto)
  qed
  from this [OF assms] show ?thesis by blast
qed

lemma parse_and_run_keeps:
  assumes "parse_and_run env p w = Inr w1" and "env_cbs env = server_callbacks m" and "sends_succeed (env_kernel env)"
    and "located p w" and "store_ok (users_of w)"
  shows "tables w1 = tables w \<and> same_users (users_of w) (users_of w1)"
proof -
  from assms(1) obtain ms ch where ch: "parse_message (env_lib env) (env_nb env) (channel_at p w) = Inr (ms, ch)"
    and r: "run_callbacks env p ms (put_channel p ch w) = Inr w1" by (auto simp: parse_and_run_def bindE_eq_Inr)
  from ch have "ch_fd ch = ch_fd (channel_at p w)"
    by (auto simp: parse_message_def bindE_eq_Inr deliver_all dest: parse_loop_fd split: option.splits)
  then have t: "tables (put_channel p ch w) = tables w" by (rule tables_put)
  have u: "users_of (put_channel p ch w) = users_of w" by (simp add: users_of_def)
  from run_callbacks_keeps [OF r assms(2,3) located_tables [OF t assms(4)]] assms(5) t u show ?thesis by simp
qed

subsection \<open>Every operation keeps the tables\<close>

lemma tables_ok_cong:
  assumes t: "tables w1 = tables w" and "same_users (users_of w) (users_of w1)" and "tables_ok w"
  shows "tables_ok w1"
proof -
  have "own_channel (heap (w_server w1)) fd ptr" if "own_channel (heap (w_server w)) fd ptr" for fd ptr
    using that tables_fd [OF t] by (auto simp: own_channel_def channel_at_def)
  with assms show ?thesis by (simp add: tables_ok_def tables_def same_users_def)
qed

lemma close_keeps:
  assumes "tables_ok w" and "last_of (users_of w) fd \<noteq> None" and "env_cbs env = server_callbacks m"
    and "close_connection env fd w = Inr w1"
  shows "tables_ok w1 \<and> last_of (users_of w1) = (last_of (users_of w))(fd := None)"
proof -
  have "fd_location (w_server w) fd \<noteq> None" using assms(1,2) by (auto simp: tables_ok_def)
  with assms(3,4) have w1: "channels (w_server w1) = (channels (w_server w))(fd := None)"
    "fd_location (w_server w1) = (fd_location (w_server w))(fd := None)" "heap (w_server w1) = heap (w_server w)"
    "sub_reactors (w_server w1) = sub_reactors (w_server w)" "users_of w1 = remove_user fd (users_of w)"
    by (auto simp: close_connection_def locate_def bindE_eq_Inr server_callbacks_def callback_defs notify_def
        server_disconnect_def on_disconnect_def users_of_def)
  have s: "store_ok (users_of w)" using assms(1) by (simp add: tables_ok_def)
  from users.remove [OF s, of fd] w1 assms(1) show ?thesis by (auto simp: tables_ok_def split: if_splits)
qed

lemma close_all_keeps:
  "close_all env fds w = Inr w1 \<Longrightarrow> tables_ok w \<Longrightarrow> set fds \<subseteq> dom (last_of (users_of w)) \<Longrightarrow> distinct fds \<Longrightarrow>
   env_cbs env = server_callbacks m \<Longrightarrow> tables_ok w1"
proof (induction fds arbitrary: w)
  case (Cons fd fds)
  then obtain w2 where w2: "close_connection env fd w = Inr w2" "close_all env fds w2 = Inr w1"
    by (auto simp: bindE_eq_Inr)
  have "last_of (users_of w) fd \<noteq> None" using Cons.prems(3) by auto
  note k = close_keeps [OF Cons.prems(2) this Cons.prems(5) w2(1)]
  have "set fds \<subseteq> dom (last_of (users_of w2))" using k Cons.prems(3,4) by auto
  from Cons.IH [OF w2(2) conjunct1 [OF k] this] Cons.prems(4,5) show ?case by simp
qed simp

lemma check_job_keeps:
  assumes "tables_ok w" and "env_cbs env = server_callbacks m" and "check_users_job env w = Inr (fds, w1)"
  shows "tables_ok w1"
proof -
  let ?w = "w\<lparr>w_app := (w_app w)\<lparr>rpc_ticks := Suc (rpc_ticks (w_app w))\<rparr>\<rparr>"
  have s: "store_ok (users_of w)" using assms(1) by (simp add: tables_ok_def)
  from assms(3) have c: "close_all env fds ?w = Inr w1"
    "fds = check_invalid_user (rpc_clock (w_app w) (rpc_ticks (w_app w))) (users_of w)"
    by (auto simp: check_users_job_def Let_def bindE_eq_Inr users_of_def)
  have "users_of ?w = users_of w" by (simp add: users_of_def)
  moreover have "tables_ok ?w"
    by (rule tables_ok_cong [OF _ _ assms(1)]) (use s in \<open>simp_all add: users_of_def same_users_def\<close>)
  ultimately show ?thesis
    using close_all_keeps [OF c(1) _ _ _ assms(2)] check_invalid_user_iff [OF s] check_invalid_user_distinct [OF s] c(2)
    by (metis (no_types, lifting) domIff option.distinct(1) subsetI)
qed

lemma add_connection_keeps:
  assumes "tables_ok w" and "env_cbs env = server_callbacks m" and "add_connection env arr fd w = Inr w1"
  shows "tables_ok w1"
proof -
  let ?sv = "w_server w"
  from assms have w1: "channels (w_server w1) = (channels ?sv)(fd \<mapsto> Some (length (heap ?sv)))"
    "fd_location (w_server w1) = (fd_location ?sv)(fd \<mapsto> nat fd mod length (sub_reactors ?sv))"
    "heap (w_server w1) = heap ?sv @ [Channel.set_compress_algo (net_compression ?sv) (new_channel arr fd)]"
    "sub_reactors (w_server w1) = sub_reactors ?sv"
    "users_of w1 = create_user fd (rpc_clock (w_app w) (rpc_ticks (w_app w))) (users_of w)"
    by (auto simp: add_connection_def Let_def bindE_eq_Inr server_callbacks_def callback_defs notify_def
        server_connect_def on_new_connection_def users_of_def split: if_splits)
  have s: "store_ok (users_of w)" using assms(1) by (simp add: tables_ok_def)
  have "ch_fd (Channel.set_compress_algo (net_compression ?sv) (new_channel arr fd)) = fd"
    by (simp add: Channel.set_compress_algo_def new_channel_def)
  then have "own_channel (heap (w_server w1)) fd (Some (length (heap ?sv)))"
    and "\<And>fd ptr. own_channel (heap ?sv) fd ptr \<Longrightarrow> own_channel (heap (w_server w1)) fd ptr"
    unfolding w1(3) by (auto simp: own_channel_def nth_append)
  with users.create [OF s] w1 assms(1) show ?thesis by (simp add: tables_ok_def)
qed


lemma connected_located: "tables_ok w \<Longrightarrow> channels (w_server w) fd = Some (Some p) \<Longrightarrow> located p w"
  unfolding located_def tables_ok_def own_channel_def channel_at_def by (metis domIff option.inject option.simps(3))

lemma kernel_keeps: "tables_ok w \<Longrightarrow> tables_ok (w\<lparr>w_kernel := k\<rparr>)"
  by (simp add: tables_ok_def users_of_def)

lemma parse_and_run_tables:
  assumes "parse_and_run env p w = Inr w1" and "env_cbs env = server_callbacks m" and "sends_succeed (env_kernel env)"
    and "tables_ok w" and "channels (w_server w) fd = Some (Some p)"
  shows "tables_ok w1 \<and> channels (w_server w1) fd = Some (Some p)"
proof -
  have s: "store_ok (users_of w)" using assms(4) by (simp add: tables_ok_def)
  note k = parse_and_run_keeps [OF assms(1-3) connected_located [OF assms(4,5)] s]
  then have "channels (w_server w1) fd = Some (Some p)" using assms(5) by (simp add: tables_def)
  with tables_ok_cong k assms(4) show ?thesis by blast
qed

lemma read_step_keeps:
  assumes "tables_ok w" and "channels (w_server w) fd = Some (Some p)" and "env_cbs env = server_callbacks m"
    and "sends_succeed (env_kernel env)" and "read_step env fd (Some p) w = Inr (out, w1)"
  shows "tables_ok w1 \<and> (out \<noteq> Closed \<longrightarrow> channels (w_server w1) fd = Some (Some p))"
proof -
  obtain r k where r: "k_read (env_kernel env) fd BUFFER_SIZE (w_kernel w) = (r, k)" by fastforce
  let ?w = "w\<lparr>w_kernel := k\<rparr>"
  have w: "tables_ok ?w" "channels (w_server ?w) fd = Some (Some p)" using assms(1,2) by (simp_all add: kernel_keeps)
  have u: "last_of (users_of ?w) fd \<noteq> None" using w by (auto simp: tables_ok_def)
  note closed = close_keeps [OF w(1) u assms(3)]
  show ?thesis
  proof (cases r)
    case (Bytes bs)
    let ?ch = "channel_at p ?w"
    from assms(5) r Bytes obtain rb where
      "parse_and_run env p (put_channel p (?ch\<lparr>ch_read_buffer := rb\<rparr>) ?w) = Inr w1" "out = Read_On"
      by (auto simp: read_step_def deref_def Let_def bindE_eq_Inr)
    moreover have "tables (put_channel p (?ch\<lparr>ch_read_buffer := rb\<rparr>) ?w) = tables ?w" by (rule tables_put) simp
    then have "tables_ok (put_channel p (?ch\<lparr>ch_read_buffer := rb\<rparr>) ?w)"
      by (rule tables_ok_cong [OF _ _ w(1)]) (use w(1) in \<open>simp add: users_of_def same_users_def tables_ok_def\<close>)
    ultimately show ?thesis using parse_and_run_tables [OF _ assms(3,4)] w(2) by simp
  qed (use assms(5) r w closed in \<open>auto simp: read_step_def bindE_eq_Inr\<close>)
qed

lemma read_data_keeps:
  assumes "tables_ok w" and "channels (w_server w) fd \<noteq> None" and "env_cbs env = server_callbacks m"
    and "sends_succeed (env_kernel env)" and "read_data env fd w = Inr w1"
  shows "tables_ok w1"
proof -
  from assms(2) obtain ptr where ptr: "channels (w_server w) fd = Some ptr" by blast
  with assms(1) have "own_channel (heap (w_server w)) fd ptr" by (simp add: tables_ok_def)
  with ptr obtain p where p: "channels (w_server w) fd = Some (Some p)" by (auto simp: own_channel_def)
  with assms(5) obtain out w2 where l: "read_loop env fd (Some p) w = Some (Inr (out, w2))"
    and r: "if out = Drained then parse_and_run env p w2 = Inr w1 else w1 = w2"
    by (auto simp: read_data_def deref_def bindE_eq_Inr split: option.splits if_splits)
  let ?I = "\<lambda>w. tables_ok w \<and> channels (w_server w) fd = Some (Some p)"
  have "tables_ok w2 \<and> (out = Drained \<longrightarrow> channels (w_server w2) fd = Some (Some p))"
  proof (rule read_loop_rule [where I = ?I, OF l])
    show "?I w" using assms(1) p by blast
    fix w out w1
    assume "?I w" and "read_step env fd (Some p) w = Inr (out, w1)"
    with read_step_keeps [of w fd p env m out w1] assms(3,4)
    show "if out = Read_On then ?I w1 else tables_ok w1 \<and> (out = Drained \<longrightarrow> channels (w_server w1) fd = Some (Some p))"
      by (cases out) simp_all
  qed
  with r parse_and_run_tables [OF _ assms(3,4)] show ?thesis by (auto split: if_splits)
qed

lemma handle_events_keeps:
  "handle_events env arr es w = Inr w1 \<Longrightarrow> tables_ok w \<Longrightarrow> env_cbs env = server_callbacks m \<Longrightarrow> tables_ok w1"
proof (induction env arr es w rule: handle_events.induct)
  case (2 env arr fd ev es w)
  show ?case
  proof (cases "fd = listen_fd (w_server w)")
    case True
    with "2.prems"(1) obtain w2 where w2: "handle_new_connections env arr w = Inr w2" "handle_events env arr es w2 = Inr w1"
      by (auto simp: bindE_eq_Inr)
    then have "accept_loop env arr w = Some (Inr w2)" by (auto simp: handle_new_connections_def split: option.splits)
    then have "tables_ok w2"
      by (rule accept_loop_rule [where I = tables_ok])
         (rule "2.prems"(2), erule kernel_keeps, erule add_connection_keeps [OF _ "2.prems"(3)])
    from "2.IH"(1) [OF True w2 this "2.prems"(3)] show ?thesis .
  qed (use 2 in simp)
qed simp

lemma server_op_keeps:
  assumes "tables_ok w" and "env_cbs env = server_callbacks m" and "sends_succeed (env_kernel env)"
    and "case x of Read_Task fd \<Rightarrow> channels (w_server w) fd \<noteq> None | _ \<Rightarrow> True"
    and "server_op_step env x w = Inr w1"
  shows "tables_ok w1"
proof (cases x)
  case (Main_Turn arr)
  with assms(5) obtain k es where "handle_events env arr es (w\<lparr>w_kernel := k\<rparr>) = Inr w1"
    by (auto simp: main_turn_def bindE_eq_Inr)
  from handle_events_keeps [OF this kernel_keeps [OF assms(1)] assms(2)] show ?thesis .
next
  case (Reactor_Turn i)
  with assms(5) obtain k where "w1 = w\<lparr>w_kernel := k\<rparr>" by (auto simp: sub_reactor_turn_def bindE_eq_Inr)
  with kernel_keeps [OF assms(1)] show ?thesis by simp
next
  case (Read_Task fd)
  with read_data_keeps [OF assms(1) _ assms(2,3)] assms(4,5) show ?thesis by simp
next
  case Check_Task
  with check_job_keeps [OF assms(1,2)] assms(5) show ?thesis by (auto simp: bindE_eq_Inr)
qed

lemma server_ops_keep:
  "server_ops env xs w = Inr w' \<Longrightarrow> known_reads env xs w \<Longrightarrow> tables_ok w \<Longrightarrow>
   env_cbs env = server_callbacks m \<Longrightarrow> sends_succeed (env_kernel env) \<Longrightarrow> tables_ok w'"
proof (induction xs arbitrary: w)
  case (Cons x xs)
  then obtain w1 where w1: "server_op_step env x w = Inr w1" "server_ops env xs w1 = Inr w'"
    by (auto simp: bindE_eq_Inr)
  with Cons.prems have k: "known_reads env xs w1"
    "case x of Read_Task fd \<Rightarrow> channels (w_server w) fd \<noteq> None | _ \<Rightarrow> True" by simp_all
  from Cons.IH [OF w1(2) k(1) server_op_keeps [OF Cons.prems(3-5) k(2) w1(1)] Cons.prems(4,5)] show ?case .
qed simp

lemma constructed_tables:
  assumes "construct_server kern hardware port app clock k = Inr (w, tm)" and "2 \<le> hardware"
  shows "tables_ok w"
proof -
  from assms(1) obtain server k1 where s: "new_tcp_server kern port (hardware div 2) k = Inr (server, k1)"
    "w_server w = server_set_executor server" "users_of w = []"
    by (auto simp: construct_server_def bindE_eq_Inr new_rpc_server_def register_method_def users_of_def)
  from new_tcp_server_sels [OF s(1)] s(2,3) assms(2) show ?thesis
    by (auto simp: tables_ok_def server_set_executor_def users.init)
qed


subsection \<open>Properties\<close>

text \<open>
  C25: The tables agree. On a machine with at least two cores, whatever turns of the loops, read tasks and
  checks the server has gone through since it was constructed, whatever bytes came and whatever the
  application's functions did, a descriptor has a channel exactly if it has a reactor and exactly if it
  has a user: a channel of its own, and the reactor that its number gives. It is assumed that no \<open>send\<close> fails,
  and that no task reads a descriptor after it was closed.
\<close>
theorem server_tables_agree:
  assumes "construct_server kern hardware port app clock k = Inr (w, tm)" and "2 \<le> hardware"
    and "env_cbs env = server_callbacks m" and "sends_succeed (env_kernel env)"
    and "server_ops env xs w = Inr w'" and "known_reads env xs w"
  shows "dom (channels (w_server w')) = dom (last_of (srv_users (rpc_server (w_app w')))) \<and>
     dom (fd_location (w_server w')) = dom (last_of (srv_users (rpc_server (w_app w')))) \<and>
     (\<forall>fd \<in> dom (channels (w_server w')).
        \<exists>p. channels (w_server w') fd = Some (Some p) \<and> p < length (heap (w_server w')) \<and>
          ch_fd (heap (w_server w') ! p) = fd \<and>
          fd_location (w_server w') fd = Some (nat fd mod length (sub_reactors (w_server w'))) \<and>
          nat fd mod length (sub_reactors (w_server w')) < length (sub_reactors (w_server w')))"
proof -
  have t: "tables_ok w'"
    by (rule server_ops_keep [OF assms(5,6) constructed_tables [OF assms(1,2)] assms(3,4)])
  have "\<exists>p. channels (w_server w') fd = Some (Some p) \<and> p < length (heap (w_server w')) \<and>
      ch_fd (heap (w_server w') ! p) = fd \<and>
      fd_location (w_server w') fd = Some (nat fd mod length (sub_reactors (w_server w')))"
    if "fd \<in> dom (channels (w_server w'))" for fd
  proof -
    from that t have "fd \<in> dom (fd_location (w_server w'))" by (simp add: tables_ok_def)
    then obtain loc where loc: "fd_location (w_server w') fd = Some loc" by blast
    from that obtain ptr where "channels (w_server w') fd = Some ptr" by blast
    moreover with t have "own_channel (heap (w_server w')) fd ptr" by (simp add: tables_ok_def)
    moreover have "loc = nat fd mod length (sub_reactors (w_server w'))" using t loc by (simp add: tables_ok_def)
    ultimately show ?thesis using loc by (auto simp: own_channel_def)
  qed
  with t show ?thesis unfolding tables_ok_def users_of_def by auto
qed

text \<open>A system where a client connects to the listening socket, descriptor 3, and gets descriptor 7.\<close>

definition life_kernel :: "sim kernel" where
  "life_kernel = accept_kernel\<lparr>k_epoll_wait := (\<lambda>ep timeout k. (Some [(3, EPOLLIN)], k))\<rparr>"

definition life_env :: "(unit, unit rpc_app, sim) tcp_env" where
  "life_env = \<lparr>env_lib = stored_lib, env_nb = False, env_kernel = life_kernel, env_cbs = server_callbacks gcc_x86\<rparr>"

lemma life_env_sels [simp]:
  "k_accept (env_kernel life_env) fd k = (if sim_in k = [] then (Accept_Again, k) else (Accepted 7, k\<lparr>sim_in := []\<rparr>))"
  "k_epoll_wait (env_kernel life_env) ep timeout k = (Some [(3, EPOLLIN)], k)"
  "k_epoll_ctl (env_kernel life_env) ep op fd' ev k = (True, k)" "env_cbs life_env = server_callbacks gcc_x86"
  by (simp_all add: life_env_def life_kernel_def accept_kernel_def sim_kernel_def)

lemma same_kernel: "w_kernel w = k \<Longrightarrow> w\<lparr>w_kernel := k\<rparr> = w"
  by (cases w) simp

lemma life_accepts:
  assumes "sub_reactors (w_server w) = [ep]" and "w_kernel w = \<lparr>sim_in = [[]], sim_out = []\<rparr>"
  shows "\<exists>w'. handle_new_connections life_env arr w = Inr w' \<and> sub_reactors (w_server w') = [ep] \<and>
     channels (w_server w') 7 \<noteq> None"
proof -
  let ?k = "\<lparr>sim_in = [], sim_out = []\<rparr> :: sim"
  obtain w1 where w1: "add_connection life_env arr 7 (w\<lparr>w_kernel := ?k\<rparr>) = Inr w1" "w_kernel w1 = ?k"
    "channels (w_server w1) 7 \<noteq> None" "sub_reactors (w_server w1) = [ep]"
    using assms(1)
    by (simp add: add_connection_def add_fd_def Let_def)
  have "accept_loop life_env arr w1 = Some (Inr w1)"
    by (subst accept_loop.simps) (simp add: w1(2) same_kernel)
  then have "accept_loop life_env arr w = Some (Inr w1)"
    by (subst accept_loop.simps) (simp add: assms(2) w1(1))
  with w1 show ?thesis by (simp add: handle_new_connections_def)
qed


theorem server_tables_agree_witness:
  "\<exists>w tm w'. construct_server life_kernel 2 8080 () no_clock \<lparr>sim_in = [[]], sim_out = []\<rparr> = Inr (w, tm) \<and>
     server_ops life_env [Main_Turn (replicate BUFFER_SIZE 0), Reactor_Turn 0] w = Inr w' \<and>
     (\<exists>p. channels (w_server w') 7 = Some (Some p)) \<and> 7 \<in> dom (last_of (srv_users (rpc_server (w_app w'))))"
proof -
  let ?arr = "replicate BUFFER_SIZE 0"
  obtain w tm where w: "construct_server life_kernel 2 8080 () no_clock \<lparr>sim_in = [[]], sim_out = []\<rparr> = Inr (w, tm)"
    "sub_reactors (w_server w) = [0]" "listen_fd (w_server w) = 3" "w_kernel w = \<lparr>sim_in = [[]], sim_out = []\<rparr>"
    by (simp add: construct_server_def new_tcp_server_def new_reactor_def create_listen_socket_def add_fd_def
        life_kernel_def accept_kernel_def sim_kernel_def server_set_executor_def numeral_2_eq_2)
  from life_accepts [OF w(2,4), of ?arr] obtain w1 where
    w1: "handle_new_connections life_env ?arr w = Inr w1" "channels (w_server w1) 7 \<noteq> None"
      "sub_reactors (w_server w1) = [0]" by blast
  have m: "server_op_step life_env (Main_Turn ?arr) w = Inr w1"
    using w1(1) w(3) by (simp add: main_turn_def reactor_wait_def same_kernel)
  have t: "server_op_step life_env (Reactor_Turn 0) w1 = Inr w1"
    using w1(3) by (simp add: sub_reactor_turn_def sub_reactor_def reactor_wait_def same_kernel)
  have o: "server_ops life_env [Main_Turn ?arr, Reactor_Turn 0] w = Inr w1"
    using m t by (simp del: server_op_step.simps)
  have "sends_succeed (env_kernel life_env)"
    by (simp add: sends_succeed_def life_env_def life_kernel_def accept_kernel_def sim_kernel_def Let_def)
  moreover have "known_reads life_env [Main_Turn ?arr, Reactor_Turn 0] w"
    using m t by (simp del: server_op_step.simps)
  ultimately show ?thesis
    using server_tables_agree [OF w(1) _ _ _ o, of gcc_x86] w1(2) w(1) o by (auto simp del: server_ops.simps)
qed


text \<open>
  A failed \<open>send\<close>. The first of two requests that were read together is answered, the socket reports an
  error, \<open>try_send\<close> closes the connection and returns, and \<open>parse_message\<close> goes on with the second: its
  callback dereferences the null pointer that the table now has for the user.
\<close>
theorem failed_send_null_user:
  assumes "fd_location (w_server w) fd = Some loc" and "loc < length (sub_reactors (w_server w))"
    and "p < length (heap (w_server w))" and "ch_fd (channel_at p w) = fd"
    and "tsq_queue (ch_send_messages (channel_at p w)) = []"
    and "env_cbs env = server_callbacks m"
    and "\<And>ep op ev k. op \<noteq> Ctl_Add \<Longrightarrow> fst (k_epoll_ctl (env_kernel env) ep op fd ev k)"
    and "\<And>bs k. fst (k_send (env_kernel env) fd bs k) = Send_Error err"
    and "server_read m fd d1 (w_app w) = Inr ([bytes], a)" and "store_ok (srv_users (rpc_server a))"
    and "encode_string (env_lib env) (ch_compression (channel_at p w)) bytes = Inr e"
    and "read_request (big_endian m) d2 = Inr request"
  shows "run_callbacks env p (d1 # d2 # ds) w = Inl (Undefined ''null user'')"
proof -
  have ctl: "\<exists>k'. k_epoll_ctl (env_kernel env) ep op fd ev k = (True, k')" if "op \<noteq> Ctl_Add" for ep op ev k
    using assms(7) [OF that, of ep ev k] by (metis (full_types) prod.collapse)
  define ch where "ch = (channel_at p w)\<lparr>ch_send_messages := tsq_push (frame_message (env_nb env) e) (ch_send_messages (channel_at p w))\<rparr>"
  define w1 where "w1 = put_channel p ch (w\<lparr>w_app := a\<rparr>)"
  have w: "channel_at p w1 = ch" "fd_location (w_server w1) fd = Some loc" "loc < length (sub_reactors (w_server w1))"
    "w_app w1 = a" "sub_reactors (w_server w1) = sub_reactors (w_server w)" "p < length (heap (w_server w1))" "ch_fd ch = fd"
    using assms(1-4) by (simp_all add: w1_def ch_def)
  from ctl [of Ctl_Mod "sub_reactors (w_server w) ! loc" "EPOLLIN OR EPOLLOUT OR EPOLLET" "w_kernel w1"] obtain k where
    k: "rearm env fd (EPOLLIN OR EPOLLOUT OR EPOLLET) w1 = Inr (w1\<lparr>w_kernel := k\<rparr>)"
    using w by (auto simp: rearm_def locate_def sub_reactor_def modify_fd_def)
  obtain k1 where k1: "k_send (env_kernel env) fd (drop (ch_send_offset ch) (frame_message (env_nb env) e)) k = (Send_Error err, k1)"
    using assms(8) by (metis prod.collapse)
  from ctl [of Ctl_Del "sub_reactors (w_server w) ! loc" 0 k1] obtain k2 where
    "k_epoll_ctl (env_kernel env) (sub_reactors (w_server w) ! loc) Ctl_Del fd 0 k1 = (True, k2)" by auto
  with close_connection_ok [of "w1\<lparr>w_kernel := k1\<rparr>" fd loc env k2] w obtain w2 where
    w2: "close_connection env fd (w1\<lparr>w_kernel := k1\<rparr>) = Inr w2" "w_app w2 = server_disconnect fd a"
      "heap (w_server w2) = heap (w_server w1)"
    using assms(6) by (auto simp: server_callbacks_def callback_defs notify_def)
  have "tsq_queue (ch_send_messages ch) = [frame_message (env_nb env) e]" using assms(5) by (simp add: ch_def tsq.elems_push)
  then have q: "\<not> tsq_empty (ch_send_messages ch)" "tsq_front (ch_send_messages ch) = Inr (frame_message (env_nb env) e)"
    by (simp_all add: tsq_empty_def tsq_front_def)
  have "send_step env fd p (w1\<lparr>w_kernel := k\<rparr>) = Inr (Given_Up, w2)"
    using q k1 w2(1) w(1) by (simp add: send_step_def Let_def)
  then have "send_loop env fd p (w1\<lparr>w_kernel := k\<rparr>) = Some (Inr (Given_Up, w2))" by (subst send_loop.simps) simp
  then have "try_send env p (w1\<lparr>w_kernel := k\<rparr>) = Inr w2" using w(1,7) by (simp add: try_send_def Let_def)
  then have "write_data env p bytes (w\<lparr>w_app := a\<rparr>) = Inr w2"
    using k w(1,7) assms(11)
    by (simp add: write_data_def on_send_message_def enqueue_message_def flip: ch_def w1_def)
  moreover have "ch_fd (channel_at p w2) = fd" using w2(3) w(1,7) by (simp add: channel_at_def)
  moreover have "server_read m fd d2 (w_app w2) = Inl (Undefined ''null user'')"
  proof -
    have "last_of (remove_user fd (srv_users (rpc_server a))) fd = None" using users.remove(2) [OF assms(10)] by simp
    then have "map_of (remove_user fd (srv_users (rpc_server a))) fd = None" by (simp add: last_of_def)
    then show ?thesis
      using assms(12) w2(2) by (simp add: server_read_def on_request_def server_disconnect_def on_disconnect_def update_heartbeat_def)
  qed
  ultimately show ?thesis using assms(4,6,9) by (simp add: server_callbacks_def callback_defs)
qed


theorem failed_send_null_user_witness:
  "run_callbacks ((sub_env gcc_x86)\<lparr>env_kernel := (sim_kernel 3)\<lparr>k_send := (\<lambda>fd bs k. (Send_Error 32, k))\<rparr>\<rparr>) 0
     [enc False (request_val (count_request 5)), enc False (request_val (count_request 6))] sub_world =
   Inl (Undefined ''null user'')"
proof -
  let ?env = "(sub_env gcc_x86)\<lparr>env_kernel := (sim_kernel 3)\<lparr>k_send := (\<lambda>fd bs k. (Send_Error 32, k))\<rparr>\<rparr>"
  have p: "compact (req_params (count_request k))" for k by (simp add: count_request_def count_params_holds)
  have "srv_manager sub_server (req_method (count_request 5)) = None"
    by (simp add: count_request_def sub_server_def register_method_def on_new_connection_def new_rpc_server_def
        register_handler_def HEARTBEAT_SIG_def ascii_def)
  then have "callable gcc_x86 sub_server (count_request 5) []" by (simp add: callable_def)
  moreover have "complete_order (arg_order gcc_x86)" by (simp add: gcc_x86_def complete_orders)
  ultimately obtain response users app where a:
    "on_request gcc_x86 0 7 (enc False (request_val (count_request 5))) sub_server =
       Inr (enc False (response_val response), sub_server\<lparr>srv_users := users, srv_app := app\<rparr>)" "store_ok users"
    using on_request_answered [OF p count_request_ok(1), of sub_server 7 gcc_x86 5 "[]" 0] count_request_ok(2) by auto
  have r: "read_request (big_endian gcc_x86) (enc False (request_val (count_request 6))) = Inr (count_request 6)"
    by (rule read_request_ok [OF p count_request_ok(1)])
  have s: "server_read gcc_x86 7 (enc False (request_val (count_request 5))) (w_app sub_world) =
      Inr ([enc False (response_val response)], \<lparr>rpc_clock = int, rpc_ticks = 1,
        rpc_server = sub_server\<lparr>srv_users := users, srv_app := app\<rparr>\<rparr>)"
    using a(1) by (simp add: server_read_def sub_world_def)
  show ?thesis
    by (rule failed_send_null_user [where fd = 7 and loc = 0 and err = 32, OF _ _ _ _ _ _ _ _ s _ _ r])
       (use a(2) in \<open>simp_all add: sub_world_def sub_env_def sim_kernel_def channel_at_def new_channel_def new_tsq_def
         encode_string_def\<close>)
qed

end
