(* ===== verification/Delivery.thy ===== *)
theory Delivery
  imports Tcp_Server Interleaving "HOL-Library.Multiset"
begin

text \<open>
  The last loop of \<open>Socket_Channel::parse_message\<close> (\<open>Core/Channel.cpp\<close>), which hands the messages of a
  channel to \<open>_on_read_message\<close>, step by step: the test \<open>empty\<close>, the \<open>front_pop\<close> and the callback are
  a step each, because \<open>Thread_Safe_Queue\<close> locks its mutex for each call alone and several read tasks of a
  channel can be in the loop.

  The theory shows that one task alone does what \<open>deliver\<close> and \<open>run_callbacks\<close> say, that any number of
  tasks are safe as long as no task tests while another one is between its test and its \<open>front_pop\<close>, and
  that without this condition two tasks that test the queue of one message pop it twice, which is undefined.
\<close>

subsection \<open>Steps of a task in the loop\<close>

datatype delivery = L_Test | L_Pop | L_Run "byte list" | L_Done

definition inbox :: "nat \<Rightarrow> ('a, 'k) world \<Rightarrow> byte list tsq" where
  "inbox p w = ch_read_messages (channel_at p w)"

definition with_inbox :: "nat \<Rightarrow> byte list tsq \<Rightarrow> ('a, 'k) world \<Rightarrow> ('a, 'k) world" where
  "with_inbox p q w = put_channel p ((channel_at p w)\<lparr>ch_read_messages := q\<rparr>) w"

fun delivery_step :: "('d, 'a, 'k) tcp_env \<Rightarrow> nat \<Rightarrow> delivery \<Rightarrow> ('a, 'k) world \<Rightarrow> (delivery \<times> ('a, 'k) world) result"
where
  "delivery_step env p L_Test w = Inr (if tsq_empty (inbox p w) then L_Done else L_Pop, w)"
| "delivery_step env p L_Pop w =
     bindE (tsq_front_pop (inbox p w)) (\<lambda>(m, q). Inr (L_Run m, with_inbox p q w))"
| "delivery_step env p (L_Run m) w = bindE (run_callbacks env p [m] w) (\<lambda>w1. Inr (L_Test, w1))"
| "delivery_step env p L_Done w = Inr (L_Done, w)"

subsection \<open>The callbacks do not use the queue of received messages\<close>

definition on_ok :: "('a \<Rightarrow> 'b) \<Rightarrow> 'a result \<Rightarrow> 'b result" where
  "on_ok f r = bindE r (\<lambda>x. Inr (f x))"

lemma on_ok_simps [simp]: "on_ok f (Inl e) = Inl e" "on_ok f (Inr x) = Inr (f x)"
  by (simp_all add: on_ok_def)

lemma on_ok_bind: "on_ok f (bindE m g) = bindE m (\<lambda>x. on_ok f (g x))"
  by (cases m) simp_all

lemma bind_on_ok: "bindE (on_ok f m) g = bindE m (\<lambda>x. g (f x))"
  by (cases m) simp_all

lemma with_inbox_fields [simp]:
  "w_kernel (with_inbox p q w) = w_kernel w" "w_app (with_inbox p q w) = w_app w"
  "channels (w_server (with_inbox p q w)) = channels (w_server w)"
  "fd_location (w_server (with_inbox p q w)) = fd_location (w_server w)"
  "sub_reactors (w_server (with_inbox p q w)) = sub_reactors (w_server w)"
  "length (heap (w_server (with_inbox p q w))) = length (heap (w_server w))"
  by (simp_all add: with_inbox_def)

lemma put_channel_outside: "\<not> p < length (heap (w_server w)) \<Longrightarrow> put_channel p ch w = w"
  by (cases w; cases "w_server w") (simp add: put_channel_def list_update_beyond)

lemma with_inbox_outside: "\<not> p < length (heap (w_server w)) \<Longrightarrow> with_inbox p q w = w"
  by (simp add: with_inbox_def put_channel_outside)

lemma with_inbox_channel:
  "channel_at p (with_inbox p q w) =
     (channel_at p w)\<lparr>ch_read_messages := if p < length (heap (w_server w)) then q else inbox p w\<rparr>"
  by (cases "p < length (heap (w_server w))")
    (simp_all add: with_inbox_outside, simp_all add: with_inbox_def inbox_def)

lemma with_inbox_sending [simp]:
  "ch_fd (channel_at p (with_inbox p q w)) = ch_fd (channel_at p w)"
  "ch_send_messages (channel_at p (with_inbox p q w)) = ch_send_messages (channel_at p w)"
  "ch_send_offset (channel_at p (with_inbox p q w)) = ch_send_offset (channel_at p w)"
  "ch_compression (channel_at p (with_inbox p q w)) = ch_compression (channel_at p w)"
  by (simp_all add: with_inbox_channel)

lemma inbox_with [simp]: "p < length (heap (w_server w)) \<Longrightarrow> inbox p (with_inbox p q w) = q"
  by (simp add: inbox_def with_inbox_channel)

lemma with_inbox_with [simp]: "with_inbox p q (with_inbox p q' w) = with_inbox p q w"
  by (cases "p < length (heap (w_server w))") (simp_all add: with_inbox_outside, simp add: with_inbox_def)

lemma with_inbox_self [simp]: "with_inbox p (inbox p w) w = w"
  by (simp add: with_inbox_def inbox_def put_self)

lemma with_inbox_world:
  "with_inbox p q (w\<lparr>w_kernel := k\<rparr>) = (with_inbox p q w)\<lparr>w_kernel := k\<rparr>"
  "with_inbox p q (w\<lparr>w_app := a\<rparr>) = (with_inbox p q w)\<lparr>w_app := a\<rparr>"
  by (simp_all add: with_inbox_def put_channel_def channel_at_def)

lemma with_inbox_tables:
  "with_inbox p q (w\<lparr>w_server := (w_server w)\<lparr>fd_location := l\<rparr>\<rparr>) =
     (with_inbox p q w)\<lparr>w_server := (w_server (with_inbox p q w))\<lparr>fd_location := l\<rparr>\<rparr>"
  "with_inbox p q (w\<lparr>w_server := (w_server w)\<lparr>fd_location := l, channels := c\<rparr>\<rparr>) =
     (with_inbox p q w)\<lparr>w_server := (w_server (with_inbox p q w))\<lparr>fd_location := l, channels := c\<rparr>\<rparr>"
  by (simp_all add: with_inbox_def put_channel_def channel_at_def)

lemma with_inbox_put:
  assumes "\<And>q. f (ch\<lparr>ch_read_messages := q\<rparr>) = (f ch)\<lparr>ch_read_messages := q\<rparr>" and "ch = channel_at p w"
  shows "put_channel p (f (channel_at p (with_inbox p q w))) (with_inbox p q w) = with_inbox p q (put_channel p (f ch) w)"
proof (cases "p < length (heap (w_server w))")
  case True
  with assms show ?thesis by (simp add: with_inbox_def)
next
  case False
  with assms(2) show ?thesis by (simp add: put_channel_outside with_inbox_outside)
qed

lemma with_inbox_puts:
  "put_channel p ((channel_at p (with_inbox p q w))\<lparr>ch_send_messages := s, ch_send_offset := off\<rparr>)
     ((with_inbox p q w)\<lparr>w_kernel := k\<rparr>) =
   with_inbox p q (put_channel p ((channel_at p w)\<lparr>ch_send_messages := s, ch_send_offset := off\<rparr>) (w\<lparr>w_kernel := k\<rparr>))"
  "put_channel p ((channel_at p (with_inbox p q w))\<lparr>ch_send_offset := off\<rparr>) ((with_inbox p q w)\<lparr>w_kernel := k\<rparr>) =
   with_inbox p q (put_channel p ((channel_at p w)\<lparr>ch_send_offset := off\<rparr>) (w\<lparr>w_kernel := k\<rparr>))"
  "put_channel p ((channel_at p (with_inbox p q w))\<lparr>ch_send_messages := s\<rparr>) (with_inbox p q w) =
   with_inbox p q (put_channel p ((channel_at p w)\<lparr>ch_send_messages := s\<rparr>) w)"
proof -
  have k: "channel_at p (w\<lparr>w_kernel := k\<rparr>) = channel_at p w" for k and w :: "('a, 'b) world"
    by (simp add: channel_at_def)
  note r = with_inbox_put [where p = p and q = q and w = "w\<lparr>w_kernel := k\<rparr>", unfolded with_inbox_world k, OF _ refl]
  show "put_channel p ((channel_at p (with_inbox p q w))\<lparr>ch_send_messages := s, ch_send_offset := off\<rparr>)
     ((with_inbox p q w)\<lparr>w_kernel := k\<rparr>) =
   with_inbox p q (put_channel p ((channel_at p w)\<lparr>ch_send_messages := s, ch_send_offset := off\<rparr>) (w\<lparr>w_kernel := k\<rparr>))"
    by (rule r [where f = "\<lambda>ch. ch\<lparr>ch_send_messages := s, ch_send_offset := off\<rparr>"]) simp
  show "put_channel p ((channel_at p (with_inbox p q w))\<lparr>ch_send_offset := off\<rparr>) ((with_inbox p q w)\<lparr>w_kernel := k\<rparr>) =
   with_inbox p q (put_channel p ((channel_at p w)\<lparr>ch_send_offset := off\<rparr>) (w\<lparr>w_kernel := k\<rparr>))"
    by (rule r [where f = "\<lambda>ch. ch\<lparr>ch_send_offset := off\<rparr>"]) simp
  show "put_channel p ((channel_at p (with_inbox p q w))\<lparr>ch_send_messages := s\<rparr>) (with_inbox p q w) =
   with_inbox p q (put_channel p ((channel_at p w)\<lparr>ch_send_messages := s\<rparr>) w)"
    by (rule with_inbox_put [where f = "\<lambda>ch. ch\<lparr>ch_send_messages := s\<rparr>"]) simp_all
qed

lemmas inbox_frame = with_inbox_world with_inbox_tables

lemma locate_inbox: "locate fd (with_inbox p q w) = map_prod id (with_inbox p q) (locate fd w)"
  by (simp add: locate_def inbox_frame split: option.split)

lemma sub_reactor_inbox [simp]: "sub_reactor i (with_inbox p q w) = sub_reactor i w"
  by (simp add: sub_reactor_def)

lemma rearm_inbox: "rearm env fd ev (with_inbox p q w) = on_ok (with_inbox p q) (rearm env fd ev w)"
  by (simp add: rearm_def locate_inbox on_ok_bind inbox_frame split: prod.split)

lemma close_inbox: "close_connection env fd (with_inbox p q w) = on_ok (with_inbox p q) (close_connection env fd w)"
proof -
  obtain i w1 where l: "locate fd w = (i, w1)" by (cases "locate fd w")
  have "with_inbox p q (w1\<lparr>w_server := (w_server w1)\<lparr>fd_location := a, channels := b\<rparr>, w_kernel := c, w_app := d\<rparr>) =
      (with_inbox p q w1)\<lparr>w_server := (w_server (with_inbox p q w1))\<lparr>fd_location := a, channels := b\<rparr>, w_kernel := c,
        w_app := d\<rparr>" for a b c d
    by (simp add: with_inbox_def put_channel_def channel_at_def)
  then show ?thesis by (simp add: close_connection_def locate_inbox l on_ok_bind)
qed

lemma send_step_inbox:
  "send_step env fd p (with_inbox p q w) = on_ok (map_prod id (with_inbox p q)) (send_step env fd p w)"
proof (cases "tsq_empty (ch_send_messages (channel_at p w))")
  case False
  show ?thesis
  proof (cases "tsq_front (ch_send_messages (channel_at p w))")
    case (Inr message)
    obtain r k where k: "k_send (env_kernel env) fd (drop (ch_send_offset (channel_at p w)) message) (w_kernel w) = (r, k)"
      by (cases "k_send (env_kernel env) fd (drop (ch_send_offset (channel_at p w)) message) (w_kernel w)")
    show ?thesis
    proof (cases r)
      case (Sent n)
      show ?thesis
        by (cases "tsq_pop (ch_send_messages (channel_at p w))")
          (simp_all add: send_step_def Let_def False Inr k Sent with_inbox_puts with_inbox_world)
    next
      case (Send_Error e)
      have "close_connection env fd ((with_inbox p q w)\<lparr>w_kernel := k\<rparr>) =
          on_ok (with_inbox p q) (close_connection env fd (w\<lparr>w_kernel := k\<rparr>))"
        unfolding with_inbox_world [symmetric] by (rule close_inbox)
      then show ?thesis
        by (cases "close_connection env fd (w\<lparr>w_kernel := k\<rparr>)")
          (simp_all add: send_step_def Let_def False Inr k Send_Error)
    qed (simp add: send_step_def Let_def False Inr k with_inbox_world)
  qed (simp add: send_step_def Let_def False)
qed (simp add: send_step_def Let_def)

lemma send_loop_inbox_Some:
  assumes "send_loop env fd p w = Some r"
  shows "send_loop env fd p (with_inbox p q w) = Some (on_ok (map_prod id (with_inbox p q)) r)"
proof (rule send_loop.raw_induct [where P = "\<lambda>env fd p w r. send_loop env fd p (with_inbox p q w) =
      Some (on_ok (map_prod id (with_inbox p q)) r)", OF _ assms])
  fix loop env fd p and w :: "('a, 'b) world" and r
  assume IH: "\<And>env fd p w r. loop env fd p w = Some r \<Longrightarrow>
      send_loop env fd p (with_inbox p q w) = Some (on_ok (map_prod id (with_inbox p q)) r)"
    and eq: "(case send_step env fd p w of Inl e \<Rightarrow> Some (Inl e)
      | Inr (out, w1) \<Rightarrow> (if out = Go_On then loop env fd p w1 else Some (Inr (out, w1)))) = Some r"
  show "send_loop env fd p (with_inbox p q w) = Some (on_ok (map_prod id (with_inbox p q)) r)"
  proof (cases "send_step env fd p w")
    case (Inl e)
    with eq show ?thesis by (subst send_loop.simps) (auto simp: send_step_inbox)
  next
    case (Inr s)
    obtain out w1 where "s = (out, w1)" by (cases s)
    with Inr eq have "if out = Go_On then loop env fd p w1 = Some r else r = Inr (out, w1)" by (auto split: if_splits)
    with IH [of env fd p w1 r] Inr \<open>s = (out, w1)\<close> show ?thesis
      by (subst send_loop.simps) (simp add: send_step_inbox split: if_splits)
  qed
qed

lemma send_loop_inbox:
  "send_loop env fd p (with_inbox p q w) = map_option (on_ok (map_prod id (with_inbox p q))) (send_loop env fd p w)"
proof (cases "send_loop env fd p w")
  case None
  have "send_loop env fd p (with_inbox p q w) \<noteq> Some r" for r
    using send_loop_inbox_Some [of env fd p "with_inbox p q w" r "inbox p w"] None by auto
  with None show ?thesis by (cases "send_loop env fd p (with_inbox p q w)") auto
qed (simp add: send_loop_inbox_Some)

lemma try_send_inbox: "try_send env p (with_inbox p q w) = on_ok (with_inbox p q) (try_send env p w)"
proof (cases "send_loop env (ch_fd (channel_at p w)) p w")
  case (Some r)
  then show ?thesis
    by (cases r) (auto simp: try_send_def Let_def send_loop_inbox rearm_inbox)
qed (simp add: try_send_def Let_def send_loop_inbox)

lemma on_send_message_inbox: "on_send_message env p (with_inbox p q w) = on_ok (with_inbox p q) (on_send_message env p w)"
  by (simp add: on_send_message_def rearm_inbox on_ok_bind bind_on_ok try_send_inbox)

lemma write_data_inbox: "write_data env p data (with_inbox p q w) = on_ok (with_inbox p q) (write_data env p data w)"
  by (cases "encode_string (env_lib env) (ch_compression (channel_at p w)) data")
     (simp_all add: write_data_def enqueue_message_def with_inbox_puts on_send_message_inbox)

lemma write_all_inbox: "write_all env p ds (with_inbox p q w) = on_ok (with_inbox p q) (write_all env p ds w)"
  by (induction ds arbitrary: w) (simp_all add: write_data_inbox on_ok_bind bind_on_ok)

lemma run_callbacks_inbox: "run_callbacks env p ms (with_inbox p q w) = on_ok (with_inbox p q) (run_callbacks env p ms w)"
proof (induction ms arbitrary: w)
  case (Cons m ms)
  show ?case
  proof (cases "cb_read (env_cbs env)")
    case (Some f)
    have "write_all env p outs ((with_inbox p q w)\<lparr>w_app := a\<rparr>) = on_ok (with_inbox p q) (write_all env p outs (w\<lparr>w_app := a\<rparr>))"
      for outs a by (simp add: write_all_inbox flip: inbox_frame)
    with Some Cons.IH show ?thesis by (simp add: on_ok_bind bind_on_ok split_def)
  qed (simp add: Cons.IH)
qed simp

text \<open>Nor do they remove channels.\<close>

definition channel_count :: "('a, 'k) world \<Rightarrow> nat" where
  "channel_count w = length (heap (w_server w))"

lemma channel_count_simps [simp]:
  "channel_count (put_channel p ch w) = channel_count w" "channel_count (with_inbox p q w) = channel_count w"
  "channel_count (w\<lparr>w_kernel := k\<rparr>) = channel_count w" "channel_count (w\<lparr>w_app := a\<rparr>) = channel_count w"
  by (simp_all add: channel_count_def)

lemma locate_count: "locate fd w = (i, w1) \<Longrightarrow> channel_count w1 = channel_count w"
  by (auto simp: channel_count_def locate_def split: option.splits)

lemma rearm_count: "rearm env fd ev w = Inr w1 \<Longrightarrow> channel_count w1 = channel_count w"
  by (auto simp: rearm_def bindE_eq_Inr dest: locate_count split: prod.splits)

lemma close_count: "close_connection env fd w = Inr w1 \<Longrightarrow> channel_count w1 = channel_count w"
  by (auto simp: close_connection_def bindE_eq_Inr channel_count_def split: prod.splits
      dest!: locate_count [unfolded channel_count_def])

lemma send_step_count:
  assumes "send_step env fd p w = Inr (out, w1)"
  shows "channel_count w1 = channel_count w"
proof (cases "tsq_empty (ch_send_messages (channel_at p w))")
  case False
  with assms obtain message r k where m: "tsq_front (ch_send_messages (channel_at p w)) = Inr message"
    and k: "k_send (env_kernel env) fd (drop (ch_send_offset (channel_at p w)) message) (w_kernel w) = (r, k)"
    by (auto simp: send_step_def Let_def bindE_eq_Inr) (metis surj_pair)
  with assms False show ?thesis
    by (cases r) (auto simp: send_step_def Let_def bindE_eq_Inr dest: close_count split: if_splits)
qed (use assms in \<open>simp add: send_step_def Let_def\<close>)

lemma try_send_count: "try_send env p w = Inr w1 \<Longrightarrow> channel_count w1 = channel_count w"
proof -
  assume "try_send env p w = Inr w1"
  then obtain out w2 where l: "send_loop env (ch_fd (channel_at p w)) p w = Some (Inr (out, w2))"
    and r: "(if out = All_Sent then rearm env (ch_fd (channel_at p w)) (EPOLLIN OR EPOLLET) w2 else Inr w2) = Inr w1"
    by (auto simp: try_send_def Let_def bindE_eq_Inr split: option.splits)
  have "channel_count w2 = channel_count w"
    by (rule send_loop_rule [where I = "\<lambda>w'. channel_count w' = channel_count w", OF l])
      (simp_all add: send_step_count)
  with r show ?thesis by (auto dest: rearm_count split: if_splits)
qed

lemma write_data_count: "write_data env p data w = Inr w1 \<Longrightarrow> channel_count w1 = channel_count w"
  by (auto simp: write_data_def on_send_message_def bindE_eq_Inr dest!: rearm_count try_send_count)

lemma write_all_count: "write_all env p ds w = Inr w1 \<Longrightarrow> channel_count w1 = channel_count w"
  by (induction ds arbitrary: w) (auto simp: bindE_eq_Inr dest: write_data_count)

lemma run_callbacks_count: "run_callbacks env p ms w = Inr w1 \<Longrightarrow> channel_count w1 = channel_count w"
  by (induction ms arbitrary: w) (fastforce simp: bindE_eq_Inr dest: write_all_count split: option.splits)+

lemma run_callbacks_Cons:
  "run_callbacks env p (m # ms) w = bindE (run_callbacks env p [m] w) (run_callbacks env p ms)"
  by (cases "cb_read (env_cbs env)") (simp_all add: result_simps split_def)

text \<open>What a callback leaves of the queue.\<close>

lemma run_callbacks_keep_inbox:
  assumes "run_callbacks env p ms w = Inr w1" and "p < channel_count w"
  shows "inbox p w1 = inbox p w \<and> channel_count w1 = channel_count w"
proof -
  have c: "channel_count w1 = channel_count w" by (rule run_callbacks_count [OF assms(1)])
  have "w1 = with_inbox p (inbox p w) w1" using run_callbacks_inbox [of env p ms "inbox p w" w] assms(1) by simp
  with c assms(2) show ?thesis using inbox_with [of p w1 "inbox p w"] by (simp add: channel_count_def)
qed

subsection \<open>One task alone\<close>

lemma deliver_and_run:
  "bindE (deliver (channel_at p w)) (\<lambda>(ms, ch). run_callbacks env p ms (put_channel p ch w)) =
   run_callbacks env p (tsq_queue (inbox p w)) (with_inbox p new_tsq w)"
  by (simp add: deliver_all inbox_def with_inbox_def)

lemma delivery_loop:
  assumes "tsq_queue (inbox p w) = ms" and "p < channel_count w"
  shows "interleave (delivery_step env p) (replicate (3 * length ms + 1) 0) [L_Test] w =
    on_ok (\<lambda>w'. ([L_Done], w')) (run_callbacks env p ms (with_inbox p new_tsq w))"
  using assms
proof (induction ms arbitrary: w)
  case Nil
  then have "inbox p w = new_tsq" by (cases "inbox p w") (simp add: new_tsq_def)
  then have "with_inbox p new_tsq w = w" using with_inbox_self [of p w] by simp
  with Nil show ?case by (simp add: tsq_empty_def)
next
  case (Cons m ms)
  from tsq.front_pop_Cons [OF Cons.prems(1)] obtain q where
    q: "tsq_front_pop (inbox p w) = Inr (m, q)" "tsq_queue q = ms" by blast
  have e: "\<not> tsq_empty (inbox p w)" using Cons.prems(1) by (simp add: tsq_empty_def)
  have n: "replicate (3 * length (m # ms) + 1) (0::nat) = [0, 0, 0] @ replicate (3 * length ms + 1) 0"
    by (simp add: numeral_3_eq_3)
  show ?case
  proof (cases "run_callbacks env p [m] w")
    case (Inl x)
    with e q(1) show ?thesis unfolding n interleave_append run_callbacks_Cons [of env p m ms]
      by (simp add: run_callbacks_inbox del: run_callbacks.simps)
  next
    case (Inr w1)
    have c: "p < channel_count w1" using run_callbacks_count [OF Inr] Cons.prems(2) by simp
    then have "tsq_queue (inbox p (with_inbox p q w1)) = ms" using q(2) by (simp add: channel_count_def)
    from Cons.IH [OF this] c have
      "interleave (delivery_step env p) (replicate (3 * length ms + 1) 0) [L_Test] (with_inbox p q w1) =
        on_ok (\<lambda>w'. ([L_Done], w')) (run_callbacks env p ms (with_inbox p new_tsq w1))" by simp
    with e q(1) Inr show ?thesis unfolding n interleave_append run_callbacks_Cons [of env p m ms]
      by (simp add: run_callbacks_inbox del: run_callbacks.simps)
  qed
qed

subsection \<open>Several tasks\<close>

text \<open>No task tests the queue while another one is between its test and its \<open>front_pop\<close>.\<close>

definition pops_alone :: "delivery list \<Rightarrow> nat \<Rightarrow> bool" where
  "pops_alone rs i \<longleftrightarrow> (rs ! i = L_Test \<longrightarrow> L_Pop \<notin> set rs)"

text \<open>\<open>kept_by_callbacks env p ok\<close>: in the states \<open>ok\<close> describes the callback does not fail.\<close>

definition kept_by_callbacks :: "('d, 'a, 'k) tcp_env \<Rightarrow> nat \<Rightarrow> (('a, 'k) world \<Rightarrow> bool) \<Rightarrow> bool" where
  "kept_by_callbacks env p ok \<longleftrightarrow>
     (\<forall>m w. ok w \<longrightarrow> (\<exists>w'. run_callbacks env p [m] w = Inr w' \<and> ok w')) \<and> (\<forall>q w. ok w \<longrightarrow> ok (with_inbox p q w))"

definition delivery_inv :: "('d, 'a, 'k) tcp_env \<Rightarrow> nat \<Rightarrow> (('a, 'k) world \<Rightarrow> bool) \<Rightarrow> delivery list \<Rightarrow>
    ('a, 'k) world \<Rightarrow> bool" where
  "delivery_inv env p ok rs w \<longleftrightarrow> kept_by_callbacks env p ok \<and> ok w \<and> p < channel_count w \<and>
     count_list rs L_Pop \<le> (if tsq_empty (inbox p w) then 0 else 1) \<and>
     (L_Done \<in> set rs \<longrightarrow> tsq_empty (inbox p w))"

text \<open>What waits in the hands of the tasks, and what a schedule hands to the callback.\<close>

fun pending :: "delivery \<Rightarrow> byte list multiset" where
  "pending (L_Run m) = {#m#}"
| "pending r = {#}"

fun called :: "('d, 'a, 'k) tcp_env \<Rightarrow> nat \<Rightarrow> nat list \<Rightarrow> delivery list \<Rightarrow> ('a, 'k) world \<Rightarrow> byte list multiset" where
  "called env p [] rs w = {#}"
| "called env p (i # is) rs w =
     (if i < length rs
      then pending (rs ! i) + (case delivery_step env p (rs ! i) w of Inl e \<Rightarrow> {#}
        | Inr (r, w1) \<Rightarrow> called env p is (rs[i := r]) w1)
      else called env p is rs w)"

definition all_pending :: "delivery list \<Rightarrow> byte list multiset" where
  "all_pending rs = sum_list (map pending rs)"

lemma all_pending_replicate: "pending r = {#} \<Longrightarrow> all_pending (replicate n r) = {#}"
  by (induction n) (simp_all add: all_pending_def)

lemma count_list_update:
  "i < length rs \<Longrightarrow>
   count_list (rs[i := r]) x + (if rs ! i = x then 1 else 0) = count_list rs x + (if r = x then 1 else 0)"
proof (induction rs arbitrary: i)
  case (Cons y rs)
  then show ?case by (cases i) force+
qed simp

lemma all_pending_update:
  "i < length rs \<Longrightarrow> all_pending (rs[i := r]) + pending (rs ! i) = all_pending rs + pending r"
  by (induction rs arbitrary: i) (auto simp: all_pending_def ac_simps split: nat.split)

lemma delivery_inv_step:
  assumes inv: "delivery_inv env p ok rs w" and i: "i < length rs" and may: "pops_alone rs i"
  shows "\<exists>r w'. delivery_step env p (rs ! i) w = Inr (r, w') \<and> delivery_inv env p ok (rs[i := r]) w'"
proof -
  from inv have k: "kept_by_callbacks env p ok" and o: "ok w" "p < channel_count w"
    and c: "count_list rs L_Pop \<le> (if tsq_empty (inbox p w) then 0 else 1)"
    and d: "L_Done \<in> set rs \<longrightarrow> tsq_empty (inbox p w)" by (simp_all add: delivery_inv_def)
  have set: "L_Done \<in> set (rs[i := r]) \<Longrightarrow> r \<noteq> L_Done \<Longrightarrow> L_Done \<in> set rs" for r
    using set_update_subset_insert [of rs i r] by auto
  note u = count_list_update [OF i, of _ L_Pop]
  show ?thesis
  proof (cases "rs ! i")
    case L_Test
    with may have "count_list rs L_Pop = 0" by (simp add: pops_alone_def count_list_0_iff)
    with u [of L_Pop] u [of L_Done] L_Test k o d set [of L_Pop] show ?thesis
      by (auto simp: delivery_inv_def)
  next
    case L_Pop
    with u [of L_Test] c have "\<not> tsq_empty (inbox p w)" by (auto split: if_splits)
    then obtain m ms where "tsq_queue (inbox p w) = m # ms" by (cases "tsq_queue (inbox p w)") (auto simp: tsq_empty_def)
    from tsq.front_pop_Cons [OF this] obtain q where q: "tsq_front_pop (inbox p w) = Inr (m, q)" by blast
    have "ok (with_inbox p q w)" using k o(1) by (simp add: kept_by_callbacks_def)
    moreover have "count_list (rs[i := L_Run m]) L_Pop = 0"
      using u [of "L_Run m"] c L_Pop by (simp split: if_splits)
    moreover have "L_Done \<notin> set (rs[i := L_Run m])" using d set [of "L_Run m"] \<open>\<not> tsq_empty (inbox p w)\<close> by auto
    ultimately show ?thesis using q L_Pop k o by (simp add: delivery_inv_def)
  next
    case (L_Run m)
    from k o(1) obtain w1 where w1: "run_callbacks env p [m] w = Inr w1" "ok w1"
      unfolding kept_by_callbacks_def by blast
    note f = run_callbacks_keep_inbox [OF w1(1) o(2)]
    have "count_list (rs[i := L_Test]) L_Pop = count_list rs L_Pop" using u [of L_Test] L_Run by simp
    with w1 f L_Run k o(2) c d set [of L_Test] show ?thesis
      by (auto simp: delivery_inv_def simp del: run_callbacks.simps)
  next
    case L_Done
    with inv i show ?thesis by (metis delivery_step.simps(4) list_update_id)
  qed
qed

interpretation deliveries: kept_by_steps "delivery_step env p" pops_alone "delivery_inv env p ok" for env p ok
  by unfold_locales (rule delivery_inv_step)

text \<open>Nothing is lost and nothing is handed over twice, in any schedule that ends.\<close>

lemma delivery_step_messages:
  assumes "delivery_step env p r w = Inr (r', w')" and "p < channel_count w"
  shows "mset (tsq_queue (inbox p w)) + pending r =
      mset (tsq_queue (inbox p w')) + pending r' + (case r of L_Run m \<Rightarrow> {#m#} | _ \<Rightarrow> {#}) \<and> channel_count w' = channel_count w"
proof (cases r)
  case L_Pop
  with assms(1) obtain m q where q: "tsq_front_pop (inbox p w) = Inr (m, q)" "r' = L_Run m" "w' = with_inbox p q w"
    by (auto simp: bindE_eq_Inr)
  then obtain ms where "tsq_queue (inbox p w) = m # ms"
    by (auto simp: tsq_front_pop_def tsq_front_def bindE_eq_Inr split: list.splits)
  with tsq.front_pop_Cons [OF this] q assms(2) L_Pop show ?thesis by (auto simp: channel_count_def)
next
  case (L_Run m)
  with assms obtain w1 where "run_callbacks env p [m] w = Inr w1" "r' = L_Test" "w' = w1"
    by (auto simp: bindE_eq_Inr simp del: run_callbacks.simps)
  with run_callbacks_keep_inbox [of env p "[m]" w w1] assms(2) L_Run show ?thesis by simp
qed (use assms in auto)

lemma messages_kept:
  assumes "interleave (delivery_step env p) is rs w = Inr (rs', w')" and "p < channel_count w"
  shows "mset (tsq_queue (inbox p w)) + all_pending rs =
      mset (tsq_queue (inbox p w')) + all_pending rs' + called env p is rs w"
  using assms
proof (induction "is" arbitrary: rs w)
  case (Cons i "is")
  show ?case
  proof (cases "i < length rs")
    case True
    with Cons.prems(1) obtain r w1 where s: "delivery_step env p (rs ! i) w = Inr (r, w1)"
      and n: "interleave (delivery_step env p) is (rs[i := r]) w1 = Inr (rs', w')" by (auto simp: bindE_eq_Inr)
    note m = delivery_step_messages [OF s Cons.prems(2)]
    have c: "(case rs ! i of L_Run m \<Rightarrow> {#m#} | _ \<Rightarrow> {#}) = pending (rs ! i)" by (cases "rs ! i") simp_all
    have "mset (tsq_queue (inbox p w1)) + all_pending (rs[i := r]) =
        mset (tsq_queue (inbox p w')) + all_pending rs' + called env p is (rs[i := r]) w1"
      using Cons.IH [OF n] m Cons.prems(2) by simp
    moreover note all_pending_update [OF True, of r]
    ultimately show ?thesis using m s True unfolding c
      by simp (metis (no_types, lifting) add.assoc add.commute add_left_imp_eq)
  qed (use Cons in simp)
qed simp

subsection \<open>Properties\<close>

text \<open>
  The delivery loop step by step is the model's \<open>deliver\<close> and \<open>run_callbacks\<close>: a task that parses and
  then runs its loop without interruption reaches the end of the loop after three steps a message and one
  test, with the state, or the error, of \<open>parse_and_run\<close>.
\<close>
theorem delivery_alone:
  assumes "parse_loop (env_lib env) (env_nb env) (channel_at p w) = Some (Inr ch)" and "p < length (heap (w_server w))"
  shows "interleave (delivery_step env p) (replicate (3 * tsq_size (ch_read_messages ch) + 1) 0) [L_Test] (put_channel p ch w) =
     bindE (parse_and_run env p w) (\<lambda>w'. Inr ([L_Done], w'))"
proof -
  let ?w = "put_channel p ch w"
  have i: "inbox p ?w = ch_read_messages ch" "channel_at p ?w = ch" using assms(2) by (simp_all add: inbox_def)
  have c: "p < channel_count ?w" using assms(2) by (simp add: channel_count_def)
  from deliver_and_run [of p ?w env] i
  have "parse_and_run env p w = run_callbacks env p (tsq_queue (ch_read_messages ch)) (with_inbox p new_tsq ?w)"
    using assms(1) by (simp add: parse_and_run_def parse_message_def)
  with delivery_loop [OF refl c, of env] show ?thesis by (simp add: i(1) tsq_size_def on_ok_def)
qed

text \<open>A server that counts its messages and answers none.\<close>

definition count_env :: "(unit, nat, sim) tcp_env" where
  "count_env = echo_env\<lparr>env_cbs := (env_cbs echo_env)\<lparr>cb_read := Some (\<lambda>fd m n. Inr ([], n + 1))\<rparr>\<rparr>"

definition waiting_world :: "nat \<Rightarrow> byte list list \<Rightarrow> (nat, sim) world" where
  "waiting_world n ms = (with_inbox 0 \<lparr>tsq_queue = ms\<rparr> (echo_world []))\<lparr>w_app := n\<rparr>"

lemma waiting_world_facts:
  "0 < length (heap (w_server (waiting_world n ms)))" "inbox 0 (waiting_world n ms) = \<lparr>tsq_queue = ms\<rparr>"
  "w_app (waiting_world n ms) = n" "with_inbox 0 \<lparr>tsq_queue = ms'\<rparr> (waiting_world n ms) = waiting_world n ms'"
  "(waiting_world n ms)\<lparr>w_app := n'\<rparr> = waiting_world n' ms"
proof -
  have l: "0 < length (heap (w_server (echo_world [])))" by (simp add: echo_world_def)
  then show "0 < length (heap (w_server (waiting_world n ms)))" by (simp add: waiting_world_def)
  show "with_inbox 0 \<lparr>tsq_queue = ms'\<rparr> (waiting_world n ms) = waiting_world n ms'"
    by (simp add: waiting_world_def with_inbox_world)
  have "inbox 0 ((with_inbox 0 q (echo_world []))\<lparr>w_app := n\<rparr>) = q" for q
    using inbox_with [OF l, of q] by (simp add: inbox_def channel_at_def)
  then show "inbox 0 (waiting_world n ms) = \<lparr>tsq_queue = ms\<rparr>" by (simp add: waiting_world_def)
qed (simp_all add: waiting_world_def)

lemma count_env_runs: "run_callbacks count_env p [m] w = Inr (w\<lparr>w_app := w_app w + 1\<rparr>)"
  by (simp add: count_env_def)

lemma count_env_kept: "kept_by_callbacks count_env 0 (\<lambda>w. True)"
  by (simp add: kept_by_callbacks_def count_env_runs del: run_callbacks.simps)

lemma waiting_world_parsed:
  "parse_loop lib nb (channel_at 0 (waiting_world n ms)) = Some (Inr (channel_at 0 (waiting_world n ms)))"
  "ch_read_messages (channel_at 0 (waiting_world n ms)) = \<lparr>tsq_queue = ms\<rparr>"
proof -
  have l: "0 < length (heap (w_server (echo_world [])))" by (simp add: echo_world_def)
  have "ch_read_length (channel_at 0 (waiting_world n ms)) = 0" "buf_size (ch_read_buffer (channel_at 0 (waiting_world n ms))) = 0"
    using with_inbox_channel [of 0 "\<lparr>tsq_queue = ms\<rparr>" "echo_world []"]
    by (simp_all add: waiting_world_def channel_at_def echo_world_def new_channel_def new_buffer_def)
  then show "parse_loop lib nb (channel_at 0 (waiting_world n ms)) = Some (Inr (channel_at 0 (waiting_world n ms)))"
    by (subst parse_loop.simps) (simp add: parse_head_def)
  show "ch_read_messages (channel_at 0 (waiting_world n ms)) = \<lparr>tsq_queue = ms\<rparr>"
    using waiting_world_facts(2) [of n ms] by (simp add: inbox_def)
qed

theorem delivery_alone_witness:
  "\<exists>w'. interleave (delivery_step count_env 0) (replicate 7 0) [L_Test] (waiting_world 0 [[65], [66]]) = Inr ([L_Done], w') \<and>
     w_app w' = 2"
proof -
  let ?w = "waiting_world 0 [[65], [66]]"
  have r: "\<exists>w'. parse_and_run count_env 0 ?w = Inr w' \<and> w_app w' = 2"
    using deliver_and_run [of 0 ?w count_env] run_callbacks_Cons [of count_env 0 "[65]" "[[66]]"]
    by (simp add: parse_and_run_def parse_message_def waiting_world_parsed waiting_world_facts put_self count_env_runs
        del: run_callbacks.simps(2))
  have n: "3 * tsq_size (ch_read_messages (channel_at 0 ?w)) + 1 = 7" by (simp add: waiting_world_parsed(2) tsq_size_def)
  from delivery_alone [OF waiting_world_parsed(1) waiting_world_facts(1), of count_env 0 "[[65], [66]]", unfolded n put_self]
  have "interleave (delivery_step count_env 0) (replicate 7 0) [L_Test] ?w =
      bindE (parse_and_run count_env 0 ?w) (\<lambda>w'. Inr ([L_Done], w'))" .
  with r show ?thesis by (elim exE conjE) auto
qed

text \<open>
  C9: Tasks that do not test the queue of received messages while another task is between its test and its
  \<open>front_pop\<close> are safe: no schedule of any number of them fails, and when all have left the loop, every
  message that waited has been handed to the callback exactly once.
\<close>
theorem deliveries_exclusive:
  assumes "kept_by_callbacks env p ok" and "ok w" and "p < length (heap (w_server w))" and "0 < n"
    and "guarded pops_alone (delivery_step env p) is (replicate n L_Test) w"
  shows "\<exists>rs' w'. interleave (delivery_step env p) is (replicate n L_Test) w = Inr (rs', w') \<and> length rs' = n \<and>
     (list_all (\<lambda>r. r = L_Done) rs' \<longrightarrow>
        called env p is (replicate n L_Test) w = mset (tsq_queue (inbox p w)) \<and> tsq_empty (inbox p w'))"
proof -
  have z: "count_list (replicate n L_Test) L_Pop = 0" "all_pending (replicate n L_Test) = {#}"
    by (simp_all add: count_list_0_iff all_pending_replicate)
  with assms(1-3) have i: "delivery_inv env p ok (replicate n L_Test) w"
    by (simp add: delivery_inv_def channel_count_def)
  from deliveries.interleaved [OF i assms(5)] obtain rs' w' where
    r: "interleave (delivery_step env p) is (replicate n L_Test) w = Inr (rs', w')" "length rs' = n"
      "delivery_inv env p ok rs' w'" by auto
  have "called env p is (replicate n L_Test) w = mset (tsq_queue (inbox p w)) \<and> tsq_empty (inbox p w')"
    if "list_all (\<lambda>r. r = L_Done) rs'"
  proof -
    from that r(2) have d: "rs' = replicate n L_Done" by (auto simp: list_all_iff intro!: replicate_eqI)
    with r(3) assms(4) have e: "tsq_empty (inbox p w')" by (simp add: delivery_inv_def)
    have "all_pending rs' = {#}" by (simp add: d all_pending_replicate)
    with messages_kept [OF r(1)] e z(2) assms(3) show ?thesis by (simp add: channel_count_def tsq_empty_def)
  qed
  with r show ?thesis by blast
qed

lemma count_steps:
  "delivery_step count_env 0 L_Test (waiting_world n ms) = Inr (if ms = [] then L_Done else L_Pop, waiting_world n ms)"
  "delivery_step count_env 0 L_Pop (waiting_world n (m # ms)) = Inr (L_Run m, waiting_world n ms)"
  "delivery_step count_env 0 (L_Run m) (waiting_world n ms) = Inr (L_Test, waiting_world (n + 1) ms)"
  by (simp_all add: waiting_world_facts count_env_runs tsq_empty_def tsq_front_pop_def tsq_front_def tsq_pop_def
      del: run_callbacks.simps)

theorem deliveries_exclusive_witness:
  "\<exists>rs' w'. interleave (delivery_step count_env 0) [0, 0, 1, 1, 1, 0, 0, 1] (replicate 2 L_Test)
       (waiting_world 0 [[65], [66]]) = Inr (rs', w') \<and> rs' = [L_Done, L_Done] \<and> tsq_empty (inbox 0 w')"
proof -
  let ?w = "waiting_world 0 [[65], [66]]" and ?is = "[0, 0, 1, 1, 1, 0, 0, 1] :: nat list"
  have g: "guarded pops_alone (delivery_step count_env 0) ?is (replicate 2 L_Test) ?w"
    by (simp add: numeral_2_eq_2 pops_alone_def count_steps del: delivery_step.simps)
  have r: "interleave (delivery_step count_env 0) ?is (replicate 2 L_Test) ?w = Inr ([L_Done, L_Done], waiting_world 2 [])"
    by (simp add: numeral_2_eq_2 count_steps del: delivery_step.simps)
  from deliveries_exclusive [OF count_env_kept TrueI waiting_world_facts(1) _ g] r show ?thesis by auto
qed

text \<open>
  C37: Without exclusion the queue is popped when it is empty. One message waits; two tasks both see that the
  queue is not empty, the first takes the message, and the \<open>front_pop\<close> of the second reads the front of an
  empty \<open>std::queue\<close>, which is undefined. The mutex of \<open>Thread_Safe_Queue\<close> does not help: it is released
  between the test and the pop.
\<close>
theorem delivery_race:
  assumes "tsq_queue (inbox p w) = [m]" and "p < length (heap (w_server w))"
  shows "interleave (delivery_step env p) [0, 1, 0] [L_Test, L_Test] w =
      Inr ([L_Run m, L_Pop], with_inbox p new_tsq w) \<and>
    interleave (delivery_step env p) [0, 1, 0, 1] [L_Test, L_Test] w = Inl (Undefined ''front of an empty queue'')"
proof -
  from tsq.front_pop_Cons [OF assms(1)] obtain q where q: "tsq_front_pop (inbox p w) = Inr (m, q)" "tsq_queue q = []" by blast
  then have "q = new_tsq" by (cases q) (simp add: new_tsq_def)
  with q(1) have f: "tsq_front_pop (inbox p w) = Inr (m, new_tsq)" by simp
  have e: "tsq_front_pop new_tsq = Inl (Undefined ''front of an empty queue'')"
    by (simp add: tsq_front_pop_def tsq_front_def new_tsq_def)
  from assms f show ?thesis by (simp add: tsq_empty_def e)
qed

theorem delivery_race_witness:
  "interleave (delivery_step count_env 0) [0, 1, 0, 1] [L_Test, L_Test] (waiting_world 0 [[65]]) =
     Inl (Undefined ''front of an empty queue'')"
  using delivery_race [OF _ waiting_world_facts(1), of 0 "[[65]]" "[65]" count_env] by (simp add: waiting_world_facts(2))

end
