(* ===== verification/Concurrent_Sends.thy ===== *)
theory Concurrent_Sends
  imports Concurrent_Reads "HOL-Library.Multiset"
begin

text \<open>
  Several tasks that call \<open>write_data\<close> for one channel at the same time (\<open>Core/Channel.cpp\<close>, the send
  callback and \<open>try_send\<close> of \<open>Core/Tcp_Server.cpp\<close>): the pool runs the requests of a connection in
  parallel, and each writes its own answer. The steps are those that the locks leave: the push of the
  framed message (\<open>_send_messages\<close> has its own mutex), the change of the epoll events, taking the
  channel's \<open>_send_lock\<close>, and, while it is held, each test of the queue, \<open>front\<close>, \<open>send\<close>, update of
  \<open>_send_offset\<close> with its \<open>pop\<close>, and the last change of the epoll events.

  The theory shows that one task alone is \<open>write_data\<close>, and that for any number of tasks and any
  schedule of their steps the bytes of the socket are whole frames one behind the other, however much
  \<open>send\<close> takes at a time and whether or not it refuses with \<open>EAGAIN\<close> in between.
\<close>

subsection \<open>Steps of a task\<close>

text \<open>
  The stages in the order of the code; from \<open>W_Test\<close> to \<open>W_Rearm\<close> the task holds \<open>_send_lock\<close>. The state
  is the mutex, held or not, and the server.
\<close>

datatype writer = W_Start "byte list" | W_Pushed | W_Waiting | W_Test | W_Front | W_Send "byte list"
  | W_Sent "byte list" nat | W_Rearm | W_Finished

fun writer_step :: "('d, 'a, 'k) tcp_env \<Rightarrow> nat \<Rightarrow> writer \<Rightarrow> bool \<times> ('a, 'k) world \<Rightarrow>
    (writer \<times> bool \<times> ('a, 'k) world) result" where
  "writer_step env p (W_Start data) (locked, w) =
     bindE (enqueue_message (env_lib env) (env_nb env) data (channel_at p w)) (\<lambda>ch.
       Inr (W_Pushed, locked, put_channel p ch w))"
| "writer_step env p W_Pushed (locked, w) =
     bindE (rearm env (ch_fd (channel_at p w)) (EPOLLIN OR EPOLLOUT OR EPOLLET) w) (\<lambda>w1. Inr (W_Waiting, locked, w1))"
| "writer_step env p W_Waiting (locked, w) =
     (if locked then Inr (W_Waiting, locked, w) else Inr (W_Test, True, w))"
| "writer_step env p W_Test (locked, w) =
     Inr (if tsq_empty (ch_send_messages (channel_at p w)) then W_Rearm else W_Front, locked, w)"
| "writer_step env p W_Front (locked, w) =
     bindE (tsq_front (ch_send_messages (channel_at p w))) (\<lambda>message. Inr (W_Send message, locked, w))"
| "writer_step env p (W_Send message) (locked, w) =
     (let ch = channel_at p w in
      case k_send (env_kernel env) (ch_fd ch) (drop (ch_send_offset ch) message) (w_kernel w) of
        (Sent n, k) \<Rightarrow> Inr (W_Sent message n, locked, w\<lparr>w_kernel := k\<rparr>)
      | (Send_Again, k) \<Rightarrow> Inr (W_Finished, False, w\<lparr>w_kernel := k\<rparr>)
      | (Send_Error e, k) \<Rightarrow>
          bindE (close_connection env (ch_fd ch) (w\<lparr>w_kernel := k\<rparr>)) (\<lambda>w1. Inr (W_Finished, False, w1)))"
| "writer_step env p (W_Sent message n) (locked, w) =
     (let ch = channel_at p w; offset = szadd (ch_send_offset ch) n in
      if n > 0 then
        if offset = length message then
          bindE (tsq_pop (ch_send_messages ch)) (\<lambda>q.
          Inr (W_Test, locked, put_channel p (ch\<lparr>ch_send_messages := q, ch_send_offset := 0\<rparr>) w))
        else Inr (W_Test, locked, put_channel p (ch\<lparr>ch_send_offset := offset\<rparr>) w)
      else Inr (W_Test, locked, w))"
| "writer_step env p W_Rearm (locked, w) =
     bindE (rearm env (ch_fd (channel_at p w)) (EPOLLIN OR EPOLLET) w) (\<lambda>w1. Inr (W_Finished, False, w1))"
| "writer_step env p W_Finished s = Inr (W_Finished, s)"

subsection \<open>One task alone\<close>

lemma send_step_alone:
  assumes "send_step env fd p w = Inr (out, w1)" and "ch_fd (channel_at p w) = fd"
  shows "\<exists>n. interleave (writer_step env p) (replicate n 0) [W_Test] (True, w) =
     Inr ([case out of Go_On \<Rightarrow> W_Test | All_Sent \<Rightarrow> W_Rearm | Given_Up \<Rightarrow> W_Finished], out \<noteq> Given_Up, w1)"
proof (cases "tsq_empty (ch_send_messages (channel_at p w))")
  case True
  with assms show ?thesis by (auto simp: send_step_def intro!: exI [of _ 1])
next
  case False
  with assms(1) obtain message r k where m: "tsq_front (ch_send_messages (channel_at p w)) = Inr message"
    and k: "k_send (env_kernel env) fd (drop (ch_send_offset (channel_at p w)) message) (w_kernel w) = (r, k)"
    by (auto simp: send_step_def Let_def bindE_eq_Inr) (metis surj_pair)
  show ?thesis
  proof (cases r)
    case (Sent n)
    have "interleave (writer_step env p) (replicate 4 0) [W_Test] (True, w) = Inr ([W_Test], True, w1) \<and> out = Go_On"
      using assms False m k Sent by (auto simp: send_step_def Let_def eval_nat_numeral bindE_eq_Inr split: if_splits)
    then show ?thesis by auto
  next
    case Send_Again
    have "interleave (writer_step env p) (replicate 3 0) [W_Test] (True, w) = Inr ([W_Finished], False, w1) \<and> out = Given_Up"
      using assms False m k Send_Again by (auto simp: send_step_def Let_def eval_nat_numeral)
    then show ?thesis by auto
  next
    case (Send_Error e)
    have "interleave (writer_step env p) (replicate 3 0) [W_Test] (True, w) = Inr ([W_Finished], False, w1) \<and> out = Given_Up"
      using assms False m k Send_Error by (auto simp: send_step_def Let_def eval_nat_numeral bindE_eq_Inr)
    then show ?thesis by auto
  qed
qed

lemma close_connection_heap:
  "close_connection env fd w = Inr w1 \<Longrightarrow>
   heap (w_server w1) = heap (w_server w) \<and> channel_at p w1 = channel_at p w"
  by (auto simp: channel_at_def close_connection_def locate_def bindE_eq_Inr split: option.splits)

lemma send_step_fd:
  assumes "send_step env fd p w = Inr (out, w1)" and "p < length (heap (w_server w))"
  shows "ch_fd (channel_at p w1) = ch_fd (channel_at p w) \<and> p < length (heap (w_server w1))"
proof (cases "tsq_empty (ch_send_messages (channel_at p w))")
  case True
  with assms show ?thesis by (simp add: send_step_def)
next
  case False
  with assms(1) obtain message r k where m: "tsq_front (ch_send_messages (channel_at p w)) = Inr message"
    and k: "k_send (env_kernel env) fd (drop (ch_send_offset (channel_at p w)) message) (w_kernel w) = (r, k)"
    by (auto simp: send_step_def Let_def bindE_eq_Inr) (metis surj_pair)
  with False assms show ?thesis
    by (cases r) (auto simp: send_step_def Let_def bindE_eq_Inr dest!: close_connection_heap [where p = p] split: if_splits)
qed

lemma send_loop_alone:
  assumes "send_loop env fd p w = Some (Inr (out, w1))" and "ch_fd (channel_at p w) = fd"
    and "p < length (heap (w_server w))"
  shows "\<exists>n. interleave (writer_step env p) (replicate n 0) [W_Test] (True, w) =
     Inr ([if out = All_Sent then W_Rearm else W_Finished], out = All_Sent, w1)"
proof -
  let ?P = "\<lambda>env fd p w r. ch_fd (channel_at p w) = fd \<and> p < length (heap (w_server w)) \<longrightarrow>
      (\<forall>out w1. r = Inr (out, w1) \<longrightarrow> (\<exists>n. interleave (writer_step env p) (replicate n 0) [W_Test] (True, w) =
         Inr ([if out = All_Sent then W_Rearm else W_Finished], out = All_Sent, w1)))"
  have "?P env fd p w r" if "send_loop env fd p w = Some r" for r
  proof (rule send_loop.raw_induct [where P = ?P, OF _ that])
    fix loop and env :: "('c, 'a, 'b) tcp_env" and fd p and w :: "('a, 'b) world" and r
    assume IH: "\<And>env fd p w r. loop env fd p w = Some r \<Longrightarrow> ?P env fd p w r"
      and eq: "(case send_step env fd p w of Inl e \<Rightarrow> Some (Inl e)
        | Inr (out, w1) \<Rightarrow> (if out = Go_On then loop env fd p w1 else Some (Inr (out, w1)))) = Some r"
    show "?P env fd p w r"
    proof (intro impI allI, elim conjE)
      fix out w1
      assume f: "ch_fd (channel_at p w) = fd" and p: "p < length (heap (w_server w))" and r: "r = Inr (out, w1)"
      from eq r obtain o2 w2 where s: "send_step env fd p w = Inr (o2, w2)" by (auto split: sum.splits)
      from send_step_alone [OF s f] obtain n where
        n: "interleave (writer_step env p) (replicate n 0) [W_Test] (True, w) =
          Inr ([case o2 of Go_On \<Rightarrow> W_Test | All_Sent \<Rightarrow> W_Rearm | Given_Up \<Rightarrow> W_Finished], o2 \<noteq> Given_Up, w2)" by blast
      show "\<exists>n. interleave (writer_step env p) (replicate n 0) [W_Test] (True, w) =
          Inr ([if out = All_Sent then W_Rearm else W_Finished], out = All_Sent, w1)"
      proof (cases "o2 = Go_On")
        case True
        with eq s have "loop env fd p w2 = Some r" by simp
        moreover have "ch_fd (channel_at p w2) = fd \<and> p < length (heap (w_server w2))"
          using send_step_fd [of env fd p w o2 w2] s True f p by simp
        ultimately obtain n' where "interleave (writer_step env p) (replicate n' 0) [W_Test] (True, w2) =
            Inr ([if out = All_Sent then W_Rearm else W_Finished], out = All_Sent, w1)"
          using IH [of env fd p w2 r] r by blast
        with n True show ?thesis
          by (intro exI [of _ "n + n'"]) (simp add: replicate_add interleave_append)
      next
        case False
        with eq s r have "out = o2" "w1 = w2" by auto
        with False n show ?thesis by (cases o2) auto
      qed
    qed
  qed
  with assms show ?thesis by blast
qed

text \<open>The whole of \<open>write_data\<close>, whether everything was sent, the socket refused or the connection was closed.\<close>

lemma write_data_alone:
  assumes "write_data env p data w = Inr w'" and "p < length (heap (w_server w))"
  shows "\<exists>n. interleave (writer_step env p) (replicate n 0) [W_Start data] (False, w) = Inr ([W_Finished], False, w')"
proof -
  let ?fd = "ch_fd (channel_at p w)"
  from assms(1) obtain ch w2 where ch: "enqueue_message (env_lib env) (env_nb env) data (channel_at p w) = Inr ch"
    and w2: "rearm env (ch_fd (channel_at p (put_channel p ch w))) (EPOLLIN OR EPOLLOUT OR EPOLLET) (put_channel p ch w) = Inr w2"
    and t: "try_send env p w2 = Inr w'" by (auto simp: write_data_def on_send_message_def bindE_eq_Inr)
  have c: "channel_at p w2 = ch \<and> p < length (heap (w_server w2))"
    using w2 assms(2) by (auto simp: rearm_def locate_def bindE_eq_Inr channel_at_def put_channel_def split: option.splits)
  from t obtain out w3 where l: "send_loop env (ch_fd (channel_at p w2)) p w2 = Some (Inr (out, w3))"
    and r: "(if out = All_Sent then rearm env (ch_fd (channel_at p w2)) (EPOLLIN OR EPOLLET) w3 else Inr w3) = Inr w'"
    by (auto simp: try_send_def Let_def bindE_eq_Inr split: option.splits)
  have "interleave (writer_step env p) (replicate 3 0) [W_Start data] (False, w) = Inr ([W_Test], True, w2)"
    using ch w2 by (simp add: numeral_3_eq_3)
  moreover from send_loop_alone [OF l refl] c obtain n where
    n: "interleave (writer_step env p) (replicate n 0) [W_Test] (True, w2) =
      Inr ([if out = All_Sent then W_Rearm else W_Finished], out = All_Sent, w3)" by blast
  moreover have f: "ch_fd (channel_at p w3) = ch_fd (channel_at p w2) \<and> p < length (heap (w_server w3))"
    by (rule send_loop_rule [where I = "\<lambda>w. ch_fd (channel_at p w) = ch_fd (channel_at p w2) \<and> p < length (heap (w_server w))", OF l])
      (use c send_step_fd in \<open>simp, metis\<close>)
  have "interleave (writer_step env p) (replicate 1 0) [if out = All_Sent then W_Rearm else W_Finished]
      (out = All_Sent, w3) = Inr ([W_Finished], False, w')"
    using r f by (cases "out = All_Sent") auto
  ultimately have "interleave (writer_step env p) (replicate (3 + n + 1) 0) [W_Start data] (False, w) =
      Inr ([W_Finished], False, w')"
    unfolding replicate_add interleave_append by simp
  then show ?thesis by blast
qed

subsection \<open>The invariant\<close>

text \<open>
  A kernel that takes some of the bytes or, unless \<open>full\<close>, refuses for now; \<open>out\<close> is what it took.
\<close>

definition sends_or_waits :: "'k kernel \<Rightarrow> int \<Rightarrow> bool \<Rightarrow> ('k \<Rightarrow> byte list) \<Rightarrow> bool" where
  "sends_or_waits kern fd full out \<longleftrightarrow>
     (\<forall>bs k. bs \<noteq> [] \<longrightarrow>
        (\<exists>k'. (\<exists>n \<le> length bs. k_send kern fd bs k = (Sent n, k') \<and> out k' = out k @ take n bs) \<or>
              (\<not> full \<and> k_send kern fd bs k = (Send_Again, k') \<and> out k' = out k)))"

text \<open>The queue of messages to send and the offset of its first message.\<close>

definition sq :: "nat \<Rightarrow> ('a, 'k) world \<Rightarrow> byte list list" where
  "sq p w = tsq_queue (ch_send_messages (channel_at p w))"

definition so :: "nat \<Rightarrow> ('a, 'k) world \<Rightarrow> nat" where
  "so p w = ch_send_offset (channel_at p w)"

fun in_section :: "writer \<Rightarrow> bool" where
  "in_section W_Test = True"
| "in_section W_Front = True"
| "in_section (W_Send m) = True"
| "in_section (W_Sent m n) = True"
| "in_section W_Rearm = True"
| "in_section _ = False"

fun will_test :: "writer \<Rightarrow> bool" where
  "will_test (W_Start d) = False"
| "will_test W_Rearm = False"
| "will_test W_Finished = False"
| "will_test _ = True"

text \<open>What \<open>send\<close> took and \<open>_send_offset\<close> does not count yet; the messages of tasks that have not pushed.\<close>

fun flight :: "writer \<Rightarrow> nat" where
  "flight (W_Sent m n) = n"
| "flight _ = 0"

fun starting :: "writer \<Rightarrow> byte list option" where
  "starting (W_Start d) = Some d"
| "starting _ = None"

fun unstarted :: "writer \<Rightarrow> byte list multiset" where
  "unstarted (W_Start d) = {#d#}"
| "unstarted _ = {#}"

fun writer_ok :: "byte list list \<Rightarrow> nat \<Rightarrow> writer \<Rightarrow> bool" where
  "writer_ok ms off W_Front \<longleftrightarrow> ms \<noteq> []"
| "writer_ok ms off (W_Send m) \<longleftrightarrow> ms \<noteq> [] \<and> hd ms = m"
| "writer_ok ms off (W_Sent m n) \<longleftrightarrow> ms \<noteq> [] \<and> hd ms = m \<and> off + n \<le> length m"
| "writer_ok ms off _ \<longleftrightarrow> True"

abbreviation all_unstarted :: "writer list \<Rightarrow> byte list multiset" where
  "all_unstarted rs \<equiv> sum_list (map unstarted rs)"

abbreviation all_flight :: "writer list \<Rightarrow> nat" where
  "all_flight rs \<equiv> sum_list (map flight rs)"

text \<open>
  The messages \<open>ds\<close> have been pushed, as \<open>es\<close>; what the socket took and what is left are their frames.
\<close>

definition wire_inv :: "('d, 'a, 'k) tcp_env \<Rightarrow> nat \<Rightarrow> ('k \<Rightarrow> byte list) \<Rightarrow> compression_type \<Rightarrow> byte list list \<Rightarrow>
    byte list \<Rightarrow> nat \<Rightarrow> ('a, 'k) world \<Rightarrow> bool" where
  "wire_inv env p out type pushed sent fl w \<longleftrightarrow>
     (\<exists>es. list_all2 (encodes_to (env_lib env) type) pushed es \<and>
        out (w_kernel w) @ left_to_send (sq p w) (so p w + fl) = sent @ frames (env_nb env) es) \<and>
     sendable_queue (sq p w) (so p w)"

definition writers_inv :: "('d, 'a, 'k) tcp_env \<Rightarrow> int \<Rightarrow> nat \<Rightarrow> ('k \<Rightarrow> byte list list) \<Rightarrow> ('k \<Rightarrow> byte list) \<Rightarrow> bool \<Rightarrow>
    compression_type \<Rightarrow> byte list multiset \<Rightarrow> byte list \<Rightarrow> byte list list \<Rightarrow> writer list \<Rightarrow>
    bool \<times> ('a, 'k) world \<Rightarrow> bool" where
  "writers_inv env fd p inp out full type ds0 sent pushed rs s \<longleftrightarrow>
     (case s of (locked, w) \<Rightarrow>
        sends_or_waits (env_kernel env) fd full out \<and> modifies (env_kernel env) fd inp out \<and>
        (\<forall>d \<in># ds0. \<exists>e. encodes_to (env_lib env) type d e) \<and>
        registered fd p w \<and> connection_type p w = type \<and>
        mset pushed + all_unstarted rs = ds0 \<and> wire_inv env p out type pushed sent (all_flight rs) w \<and>
        length (filter in_section rs) = (if locked then 1 else 0) \<and>
        list_all (writer_ok (sq p w) (so p w)) rs \<and>
        (full \<and> sq p w \<noteq> [] \<longrightarrow> list_ex will_test rs))"

lemma outside_ok:
  "filter in_section rs = [] \<Longrightarrow> all_flight rs = 0 \<and> (\<forall>ms off. list_all (writer_ok ms off) rs)"
proof (induction rs)
  case (Cons r rs)
  then show ?case by (cases r) (auto split: if_splits)
qed simp

lemma no_flight: "list_all (writer_ok [] off) rs \<Longrightarrow> all_flight rs = 0"
proof (induction rs)
  case (Cons r rs)
  then show ?case by (cases r) auto
qed simp

lemma writer_ok_push: "writer_ok ms off r \<Longrightarrow> writer_ok (ms @ [f]) off r"
  by (cases r) auto

lemma sendable_push:
  "sendable_queue ms off \<Longrightarrow> f \<noteq> [] \<Longrightarrow> length f < 2 ^ 63 \<Longrightarrow> sendable_queue (ms @ [f]) off"
  by (cases ms) auto

lemma left_push: "(ms = [] \<Longrightarrow> off = 0) \<Longrightarrow> left_to_send (ms @ [f]) off = left_to_send ms off @ f"
  by (cases ms) auto

lemma queue_kernel [simp]: "sq p (w\<lparr>w_kernel := k\<rparr>) = sq p w" "so p (w\<lparr>w_kernel := k\<rparr>) = so p w"
  "connection_type p (w\<lparr>w_kernel := k\<rparr>) = connection_type p w"
  by (simp_all add: sq_def so_def connection_type_def)

text \<open>A step that changes the kernel's state only, and only by what \<open>out\<close> does not show.\<close>

lemma wire_inv_kernel:
  "wire_inv env p out type pushed sent fl w \<Longrightarrow> out k = out (w_kernel w) \<Longrightarrow>
   wire_inv env p out type pushed sent fl (w\<lparr>w_kernel := k\<rparr>)"
  by (simp add: wire_inv_def)

lemma answer_pushed_step:
  assumes inv: "writers_inv env fd p inp out full type ds0 sent pushed (as @ W_Start d # bs) (h, w)"
  shows "\<exists>r s. writer_step env p (W_Start d) (h, w) = Inr (r, s) \<and> starting r = None \<and>
     writers_inv env fd p inp out full type ds0 sent (pushed @ [d]) (as @ r # bs) s"
proof -
  let ?rs = "as @ W_Start d # bs" and ?ch = "channel_at p w"
  from inv have pu: "mset pushed + all_unstarted ?rs = ds0"
    and wi: "wire_inv env p out type pushed sent (all_flight ?rs) w"
    and reg: "registered fd p w" "connection_type p w = type"
    and ok: "list_all (writer_ok (sq p w) (so p w)) ?rs" and enc: "\<forall>d \<in># ds0. \<exists>e. encodes_to (env_lib env) type d e"
    unfolding writers_inv_def by auto
  have p: "p < length (heap (w_server w))" "ch_fd ?ch = fd" using reg(1) by (simp_all add: registered_def)
  have "d \<in># ds0" using pu by auto
  with enc obtain e where e: "encodes_to (env_lib env) type d e" by blast
  let ?f = "frame_message (env_nb env) e"
  have f: "?f \<noteq> []" "length ?f < 2 ^ 63" using e by (auto simp: frame_message_eq encodes_to_def simp flip: length_0_conv)
  let ?ch' = "?ch\<lparr>ch_send_messages := tsq_push ?f (ch_send_messages ?ch)\<rparr>"
  let ?w = "put_channel p ?ch' w"
  have st: "writer_step env p (W_Start d) (h, w) = Inr (W_Pushed, h, ?w)"
    using e reg(2) by (simp add: enqueue_message_def encodes_to_def connection_type_def)
  have q: "sq p ?w = sq p w @ [?f]" "so p ?w = so p w" "connection_type p ?w = type"
    using p reg(2) by (simp_all add: sq_def so_def connection_type_def tsq_push_def)
  have z: "sq p w = [] \<Longrightarrow> so p w + all_flight ?rs = 0"
    using no_flight [of "so p w" ?rs] ok wi by (auto simp: wire_inv_def)
  from wi obtain es where ds: "list_all2 (encodes_to (env_lib env) type) pushed es"
    "out (w_kernel w) @ left_to_send (sq p w) (so p w + all_flight ?rs) = sent @ frames (env_nb env) es"
    "sendable_queue (sq p w) (so p w)" by (auto simp: wire_inv_def)
  have lp: "left_to_send (sq p w @ [?f]) (so p w + all_flight ?rs) = left_to_send (sq p w) (so p w + all_flight ?rs) @ ?f"
    by (rule left_push) (rule z)
  have fl: "all_flight (as @ W_Pushed # bs) = all_flight ?rs" by simp
  have "wire_inv env p out type (pushed @ [d]) sent (all_flight (as @ W_Pushed # bs)) ?w"
    unfolding wire_inv_def q fl
  proof (rule conjI, rule exI [of _ "es @ [e]"], intro conjI)
    show "list_all2 (encodes_to (env_lib env) type) (pushed @ [d]) (es @ [e])" using ds(1) e by (simp add: list_all2_appendI)
    have "out (w_kernel w) @ left_to_send (sq p w @ [?f]) (so p w + all_flight ?rs) = (sent @ frames (env_nb env) es) @ ?f"
      by (simp only: lp append_assoc [symmetric] ds(2))
    then show "out (w_kernel ?w) @ left_to_send (sq p w @ [?f]) (so p w + all_flight ?rs) = sent @ frames (env_nb env) (es @ [e])"
      by (simp add: frames_def)
    show "sendable_queue (sq p w @ [?f]) (so p w)" by (rule sendable_push [OF ds(3) f])
  qed
  moreover have "mset (pushed @ [d]) + all_unstarted (as @ W_Pushed # bs) = ds0" using pu by simp
  moreover have "registered fd p ?w" using reg(1) p(2) by (simp add: registered_put)
  moreover have "list_all (writer_ok (sq p w @ [?f]) (so p w)) (as @ W_Pushed # bs)"
    using ok by (auto simp: list_all_iff writer_ok_push)
  ultimately have "writers_inv env fd p inp out full type ds0 sent (pushed @ [d]) (as @ W_Pushed # bs) (h, ?w)"
    using inv q unfolding writers_inv_def by auto
  with st show ?thesis by auto
qed

lemma rearm_step:
  assumes inv: "writers_inv env fd p inp out full type ds0 sent pushed (as @ r # bs) (h, w)"
    and r: "r = W_Pushed \<or> r = W_Rearm"
  shows "\<exists>r' s. writer_step env p r (h, w) = Inr (r', s) \<and> starting r' = None \<and>
     writers_inv env fd p inp out full type ds0 sent pushed (as @ r' # bs) s"
proof -
  from inv have m: "modifies (env_kernel env) fd inp out" and reg: "registered fd p w" by (auto simp: writers_inv_def)
  have fd: "ch_fd (channel_at p w) = fd" using reg by (simp add: registered_def)
  from r show ?thesis
  proof
    assume W: "r = W_Pushed"
    from rearm_ok [OF m reg] obtain k where
      "rearm env fd (EPOLLIN OR EPOLLOUT OR EPOLLET) w = Inr (w\<lparr>w_kernel := k\<rparr>)" "out k = out (w_kernel w)" by blast
    with W fd inv show ?thesis by (auto simp: writers_inv_def dest: wire_inv_kernel)
  next
    assume W: "r = W_Rearm"
    from rearm_ok [OF m reg] obtain k where
      "rearm env fd (EPOLLIN OR EPOLLET) w = Inr (w\<lparr>w_kernel := k\<rparr>)" "out k = out (w_kernel w)" by blast
    with W fd inv show ?thesis by (auto simp: writers_inv_def dest: wire_inv_kernel split: if_splits)
  qed
qed

lemma quiet_step:
  assumes inv: "writers_inv env fd p inp out full type ds0 sent pushed (as @ r # bs) (h, w)"
    and r: "r = W_Waiting \<or> r = W_Test \<or> r = W_Front"
  shows "\<exists>r' s. writer_step env p r (h, w) = Inr (r', s) \<and> starting r' = None \<and>
     writers_inv env fd p inp out full type ds0 sent pushed (as @ r' # bs) s"
  using r
proof (elim disjE)
  assume "r = W_Waiting"
  with inv show ?thesis by (cases h) (auto simp: writers_inv_def)
next
  assume "r = W_Test"
  with inv show ?thesis
    by (cases "tsq_empty (ch_send_messages (channel_at p w))")
      (auto simp: writers_inv_def tsq_empty_def sq_def split: if_splits)
next
  assume W: "r = W_Front"
  with inv have "sq p w \<noteq> []" by (simp add: writers_inv_def)
  then have "tsq_front (ch_send_messages (channel_at p w)) = Inr (hd (sq p w))"
    by (cases "sq p w") (auto simp: sq_def intro: tsq.front_Cons)
  with inv W show ?thesis by (auto simp: writers_inv_def split: if_splits)
qed

lemma send_step_kept:
  assumes inv: "writers_inv env fd p inp out full type ds0 sent pushed (as @ W_Send m # bs) (h, w)"
  shows "\<exists>r' s. writer_step env p (W_Send m) (h, w) = Inr (r', s) \<and> starting r' = None \<and>
     writers_inv env fd p inp out full type ds0 sent pushed (as @ r' # bs) s"
proof -
  from inv have fd: "ch_fd (channel_at p w) = fd" and ne: "sq p w \<noteq> []" "hd (sq p w) = m"
    and k: "sends_or_waits (env_kernel env) fd full out" and s: "sendable_queue (sq p w) (so p w)"
    and h: "filter in_section as = []" "filter in_section bs = []" "h"
    by (auto simp: writers_inv_def registered_def wire_inv_def split: if_splits)
  obtain ms where q: "sq p w = m # ms" using ne by (cases "sq p w") auto
  have l: "so p w < length m" using s q by simp
  then have "drop (so p w) m \<noteq> []" by simp
  with k obtain k' where k': "(\<exists>n \<le> length (drop (so p w) m). k_send (env_kernel env) fd (drop (so p w) m) (w_kernel w) = (Sent n, k') \<and>
      out k' = out (w_kernel w) @ take n (drop (so p w) m)) \<or>
    (\<not> full \<and> k_send (env_kernel env) fd (drop (so p w) m) (w_kernel w) = (Send_Again, k') \<and> out k' = out (w_kernel w))"
    unfolding sends_or_waits_def by blast
  note o = outside_ok [OF h(1)] outside_ok [OF h(2)]
  from k' show ?thesis
  proof (elim disjE exE conjE)
    fix n
    assume n: "n \<le> length (drop (so p w) m)" "k_send (env_kernel env) fd (drop (so p w) m) (w_kernel w) = (Sent n, k')"
      "out k' = out (w_kernel w) @ take n (drop (so p w) m)"
    have "take n (drop (so p w) m) @ drop (so p w + n) m = drop (so p w) m"
      by (metis add.commute append_take_drop_id drop_drop)
    then have d: "out k' @ left_to_send (sq p w) (so p w + n) = out (w_kernel w) @ left_to_send (sq p w) (so p w)"
      using n(3) q by simp
    have fl: "all_flight (as @ W_Send m # bs) = 0" "all_flight (as @ W_Sent m n # bs) = n" using o by simp_all
    from inv have pu: "mset pushed + all_unstarted (as @ W_Send m # bs) = ds0"
      and "wire_inv env p out type pushed sent (all_flight (as @ W_Send m # bs)) w" by (auto simp: writers_inv_def)
    then have "wire_inv env p out type pushed sent 0 w" by (simp only: fl(1))
    then have "wire_inv env p out type pushed sent n (w\<lparr>w_kernel := k'\<rparr>)"
      by (simp add: wire_inv_def d)
    then have "wire_inv env p out type pushed sent (all_flight (as @ W_Sent m n # bs)) (w\<lparr>w_kernel := k'\<rparr>)"
      unfolding fl(2) .
    moreover have "writer_step env p (W_Send m) (h, w) = Inr (W_Sent m n, h, w\<lparr>w_kernel := k'\<rparr>)"
      using n(2) fd by (simp add: Let_def so_def)
    ultimately show ?thesis
      using inv conjunct2 [OF o(1)] conjunct2 [OF o(2)] h pu q l n(1)
      unfolding writers_inv_def by (intro exI [of _ "W_Sent m n"] exI [of _ "(h, w\<lparr>w_kernel := k'\<rparr>)"]) auto
  next
    assume "\<not> full" "k_send (env_kernel env) fd (drop (so p w) m) (w_kernel w) = (Send_Again, k')" "out k' = out (w_kernel w)"
    with inv fd h show ?thesis by (auto simp: writers_inv_def Let_def so_def [symmetric] dest: wire_inv_kernel)
  qed
qed

lemma sent_step:
  assumes inv: "writers_inv env fd p inp out full type ds0 sent pushed (as @ W_Sent m n # bs) (h, w)"
  shows "\<exists>r' s. writer_step env p (W_Sent m n) (h, w) = Inr (r', s) \<and> starting r' = None \<and>
     writers_inv env fd p inp out full type ds0 sent pushed (as @ r' # bs) s"
proof (cases "n = 0")
  case True
  with inv show ?thesis by (auto simp: writers_inv_def Let_def)
next
  case False
  let ?ch = "channel_at p w"
  from inv have pu: "mset pushed + (all_unstarted as + all_unstarted bs) = ds0"
    and wi: "wire_inv env p out type pushed sent (all_flight (as @ W_Sent m n # bs)) w"
    and reg: "registered fd p w" "connection_type p w = type"
    and ne: "sq p w \<noteq> []" "hd (sq p w) = m" "so p w + n \<le> length m"
    and h: "filter in_section as = []" "filter in_section bs = []" "h"
    by (auto simp: writers_inv_def split: if_splits)
  note o = outside_ok [OF h(1)] outside_ok [OF h(2)]
  have fl: "all_flight (as @ W_Test # bs) = 0" using o by simp
  have p: "p < length (heap (w_server w))" "ch_fd ?ch = fd" using reg(1) by (simp_all add: registered_def)
  obtain ms where q: "sq p w = m # ms" using ne by (cases "sq p w") auto
  from wi q obtain es where ds: "list_all2 (encodes_to (env_lib env) type) pushed es"
    "out (w_kernel w) @ drop (so p w + n) m @ concat ms = sent @ frames (env_nb env) es"
    and s: "so p w < length m" "length m < 2 ^ 63" "list_all (\<lambda>m. m \<noteq> [] \<and> length m < 2 ^ 63) ms"
    using o by (auto simp: wire_inv_def)
  have off: "szadd (so p w) n = so p w + n" by (intro szadd_small) (use ne(3) s(2) in simp)
  show ?thesis
  proof (cases "so p w + n = length m")
    case True
    from tsq.pop_Cons [of "ch_send_messages ?ch" m ms] q obtain q' where
      q': "tsq_pop (ch_send_messages ?ch) = Inr q'" "tsq_queue q' = ms" by (auto simp: sq_def)
    let ?w = "put_channel p (?ch\<lparr>ch_send_messages := q', ch_send_offset := 0\<rparr>) w"
    have w: "sq p ?w = ms" "so p ?w = 0" "connection_type p ?w = type" "registered fd p ?w"
      using p q'(2) reg by (simp_all add: sq_def so_def connection_type_def registered_put)
    have "wire_inv env p out type pushed sent (all_flight (as @ W_Test # bs)) ?w"
      using ds True sendable_tail [OF s(3)] unfolding wire_inv_def w fl by auto
    moreover have "writer_step env p (W_Sent m n) (h, w) = Inr (W_Test, h, ?w)"
      using False off True q'(1) by (simp add: Let_def so_def)
    ultimately show ?thesis
      using inv w conjunct2 [OF o(1)] conjunct2 [OF o(2)] h pu unfolding writers_inv_def by (intro exI [of _ W_Test] exI [of _ "(h, ?w)"]) auto
  next
    case less: False
    let ?w = "put_channel p (?ch\<lparr>ch_send_offset := so p w + n\<rparr>) w"
    have w: "sq p ?w = m # ms" "so p ?w = so p w + n" "connection_type p ?w = type" "registered fd p ?w"
      using p q reg by (simp_all add: sq_def so_def connection_type_def registered_put)
    have "wire_inv env p out type pushed sent (all_flight (as @ W_Test # bs)) ?w"
      using ds s less ne(3) unfolding wire_inv_def w fl by auto
    moreover have "writer_step env p (W_Sent m n) (h, w) = Inr (W_Test, h, ?w)"
      using False off less by (simp add: Let_def so_def)
    ultimately show ?thesis
      using inv w conjunct2 [OF o(1)] conjunct2 [OF o(2)] h pu unfolding writers_inv_def by (intro exI [of _ W_Test] exI [of _ "(h, ?w)"]) auto
  qed
qed

lemma writers_inv_step:
  assumes inv: "writers_inv env fd p inp out full type ds0 sent pushed rs s" and i: "i < length rs"
  shows "\<exists>r s'. writer_step env p (rs ! i) s = Inr (r, s') \<and> starting r = None \<and>
     writers_inv env fd p inp out full type ds0 sent
       (pushed @ (case starting (rs ! i) of None \<Rightarrow> [] | Some d \<Rightarrow> [d])) (rs[i := r]) s'"
proof -
  obtain h w where s: "s = (h, w)" by (cases s)
  have d: "rs = take i rs @ rs ! i # drop (Suc i) rs" using i by (rule id_take_nth_drop)
  have u: "rs[i := r] = take i rs @ r # drop (Suc i) rs" for r using i by (rule upd_conv_take_nth_drop)
  have v: "writers_inv env fd p inp out full type ds0 sent pushed (take i rs @ rs ! i # drop (Suc i) rs) (h, w)"
    using inv d s by simp
  have "\<exists>r s'. writer_step env p (rs ! i) (h, w) = Inr (r, s') \<and> starting r = None \<and>
     writers_inv env fd p inp out full type ds0 sent
       (pushed @ (case starting (rs ! i) of None \<Rightarrow> [] | Some d \<Rightarrow> [d])) (take i rs @ r # drop (Suc i) rs) s'"
  proof (cases "rs ! i")
    case (W_Start data)
    with answer_pushed_step [of env fd p inp out full type ds0 sent pushed "take i rs" data] v show ?thesis by auto
  next
    case (W_Send m)
    with send_step_kept [of env fd p inp out full type ds0 sent pushed "take i rs" m] v show ?thesis by (auto simp del: writer_step.simps)
  next
    case (W_Sent m n)
    with sent_step [of env fd p inp out full type ds0 sent pushed "take i rs" m n] v show ?thesis by (auto simp del: writer_step.simps)
  next
    case W_Finished
    with v show ?thesis by auto
  qed (use rearm_step [OF v] quiet_step [OF v] in \<open>auto simp del: writer_step.simps\<close>)
  then show ?thesis unfolding u s .
qed

interpretation writers: history_by_steps "writer_step env p" starting
  "writers_inv env fd p inp out full type ds0 sent" for env fd p inp out full type ds0 sent
  by unfold_locales (rule writers_inv_step)

subsection \<open>Every task comes to its end\<close>

fun stage :: "writer \<Rightarrow> nat" where
  "stage (W_Start d) = 8"
| "stage W_Pushed = 7"
| "stage W_Waiting = 6"
| "stage W_Test = 5"
| "stage W_Front = 4"
| "stage (W_Send m) = 3"
| "stage (W_Sent m n) = 6"
| "stage W_Rearm = 2"
| "stage W_Finished = 0"

text \<open>A step does something unless the task has finished or waits for the lock.\<close>

fun writer_busy :: "writer \<Rightarrow> bool \<times> 'w \<Rightarrow> bool" where
  "writer_busy W_Finished s = False"
| "writer_busy W_Waiting s = (\<not> fst s)"
| "writer_busy r s = True"

definition frame_cost :: "('d, 'a, 'k) tcp_env \<Rightarrow> compression_type \<Rightarrow> byte list \<Rightarrow> nat" where
  "frame_cost env type d = (case encode_string (env_lib env) type d of Inl e \<Rightarrow> 0 | Inr e \<Rightarrow> 4 + length e)"

definition total_cost :: "('d, 'a, 'k) tcp_env \<Rightarrow> compression_type \<Rightarrow> byte list multiset \<Rightarrow> nat" where
  "total_cost env type ds = sum_mset (image_mset (frame_cost env type) ds)"

definition writers_left :: "('d, 'a, 'k) tcp_env \<Rightarrow> ('k \<Rightarrow> byte list) \<Rightarrow> compression_type \<Rightarrow> byte list multiset \<Rightarrow>
    byte list \<Rightarrow> writer list \<Rightarrow> bool \<times> ('a, 'k) world \<Rightarrow> nat" where
  "writers_left env out type ds0 sent rs s =
     4 * (length sent + total_cost env type ds0 - length (out (w_kernel (snd s)))) + sum_list (map stage rs)"

lemma frames_cost:
  "list_all2 (encodes_to (env_lib env) type) ds es \<Longrightarrow> length (frames nb es) = total_cost env type (mset ds)"
proof (induction rule: list_all2_induct)
  case (Cons d ds e es)
  then show ?case by (simp add: frames_def total_cost_def frame_cost_def encodes_to_def frame_message_eq)
qed (simp add: frames_def total_cost_def)

lemma sent_bound:
  assumes "writers_inv env fd p inp out full type ds0 sent pushed rs s"
  shows "length (out (w_kernel (snd s))) \<le> length sent + total_cost env type ds0"
proof -
  obtain h w where s: "s = (h, w)" by (cases s)
  from assms obtain es where i: "mset pushed + all_unstarted rs = ds0"
    "list_all2 (encodes_to (env_lib env) type) pushed es"
    "out (w_kernel w) @ left_to_send (sq p w) (so p w + all_flight rs) = sent @ frames (env_nb env) es"
    unfolding writers_inv_def wire_inv_def s by auto
  from arg_cong [OF i(3), of length] have "length (out (w_kernel w)) \<le> length sent + total_cost env type (mset pushed)"
    using frames_cost [OF i(2)] by simp
  moreover have "total_cost env type (mset pushed) \<le> total_cost env type ds0" using i(1) by (auto simp: total_cost_def)
  ultimately show ?thesis by (simp add: s)
qed

definition writers_live :: "('d, 'a, 'k) tcp_env \<Rightarrow> int \<Rightarrow> nat \<Rightarrow> ('k \<Rightarrow> byte list list) \<Rightarrow> ('k \<Rightarrow> byte list) \<Rightarrow>
    compression_type \<Rightarrow> byte list multiset \<Rightarrow> byte list \<Rightarrow> writer list \<Rightarrow> bool \<times> ('a, 'k) world \<Rightarrow> bool" where
  "writers_live env fd p inp out type ds0 sent rs s \<longleftrightarrow>
     sends_progress (env_kernel env) fd inp out \<and> (\<exists>pushed. writers_inv env fd p inp out True type ds0 sent pushed rs s)"

lemma writer_step_out:
  assumes live: "writers_live env fd p inp out type ds0 sent rs (h, w)" and i: "i < length rs"
    and st: "writer_step env p (rs ! i) (h, w) = Inr (r, s')"
  shows "length (out (w_kernel w)) + (if \<exists>m. rs ! i = W_Send m then 1 else 0) \<le> length (out (w_kernel (snd s'))) \<and>
     stage r + (if writer_busy (rs ! i) (h, w) then 1 else 0) \<le> stage (rs ! i) + (if \<exists>m. rs ! i = W_Send m then 4 else 0)"
proof -
  from live have k: "sends_progress (env_kernel env) fd inp out" "modifies (env_kernel env) fd inp out"
    and reg: "registered fd p w" and ok: "list_all (writer_ok (sq p w) (so p w)) rs"
    and s: "sendable_queue (sq p w) (so p w)" by (auto simp: writers_live_def writers_inv_def wire_inv_def)
  have fd: "ch_fd (channel_at p w) = fd" using reg by (simp add: registered_def)
  have r1: "\<exists>k. rearm env fd ev w = Inr (w\<lparr>w_kernel := k\<rparr>) \<and> out k = out (w_kernel w)" for ev
    using rearm_ok [OF k(2) reg] by blast
  show ?thesis
  proof (cases "rs ! i")
    case (W_Send m)
    with ok i have "writer_ok (sq p w) (so p w) (W_Send m)" by (metis list_all_length)
    then obtain ms where "sq p w = m # ms" by (cases "sq p w") auto
    with s have "drop (so p w) m \<noteq> []" by simp
    with k(1) obtain n k' where "k_send (env_kernel env) fd (drop (so p w) m) (w_kernel w) = (Sent n, k')" "0 < n"
      "n \<le> length (drop (so p w) m)" "out k' = out (w_kernel w) @ take n (drop (so p w) m)"
      unfolding sends_progress_def by blast
    with W_Send st fd show ?thesis by (auto simp: so_def Let_def)
  next
    case W_Pushed
    with st fd r1 [of "EPOLLIN OR EPOLLOUT OR EPOLLET"] show ?thesis by auto
  next
    case W_Rearm
    with st fd r1 [of "EPOLLIN OR EPOLLET"] show ?thesis by auto
  qed (use st in \<open>auto simp: bindE_eq_Inr Let_def split: if_splits\<close>)
qed

lemma writers_live_step:
  assumes "writers_live env fd p inp out type ds0 sent rs s" and "i < length rs"
  shows "\<exists>r s'. writer_step env p (rs ! i) s = Inr (r, s') \<and> writers_live env fd p inp out type ds0 sent (rs[i := r]) s'"
  using assms writers_inv_step unfolding writers_live_def by blast

lemma sum_stage_update:
  "i < length rs \<Longrightarrow> sum_list (map stage (rs[i := r])) + stage (rs ! i) = sum_list (map stage rs) + stage r"
proof (induction rs arbitrary: i)
  case (Cons y rs)
  then show ?case by (cases i) force+
qed simp

lemma writers_left_step:
  assumes live: "writers_live env fd p inp out type ds0 sent rs s" and i: "i < length rs"
    and st: "writer_step env p (rs ! i) s = Inr (r, s')"
  shows "writers_left env out type ds0 sent (rs[i := r]) s' + (if writer_busy (rs ! i) s then 1 else 0)
     \<le> writers_left env out type ds0 sent rs s"
proof -
  obtain h w where s: "s = (h, w)" by (cases s)
  from writers_live_step [OF live i] st have "writers_live env fd p inp out type ds0 sent (rs[i := r]) s'" by auto
  then have b: "length (out (w_kernel (snd s'))) \<le> length sent + total_cost env type ds0"
    using sent_bound unfolding writers_live_def by blast
  note o = writer_step_out [OF live [unfolded s] i st [unfolded s]]
  define x y :: nat where "x = (if \<exists>m. rs ! i = W_Send m then 1 else 0)" and "y = (if writer_busy (rs ! i) (h, w) then 1 else 0)"
  have four: "(if \<exists>m. rs ! i = W_Send m then 4 else 0) = 4 * x" by (simp add: x_def)
  have "length (out (w_kernel w)) + x \<le> length (out (w_kernel (snd s')))" "stage r + y \<le> stage (rs ! i) + 4 * x"
    using o unfolding four x_def y_def by auto
  moreover from this(1) b have "4 * (length sent + total_cost env type ds0 - length (out (w_kernel (snd s')))) + 4 * x
      \<le> 4 * (length sent + total_cost env type ds0 - length (out (w_kernel w)))" by linarith
  ultimately show ?thesis using sum_stage_update [OF i, of r]
    unfolding writers_left_def s y_def [symmetric] snd_conv by linarith
qed

interpretation live_writers: decreased_by_steps "writer_step env p" "\<lambda>_ _. True"
  "writers_live env fd p inp out type ds0 sent" writer_busy "writers_left env out type ds0 sent"
  for env fd p inp out type ds0 sent
  by unfold_locales (rule writers_live_step, assumption+, rule writers_left_step)

text \<open>The lock is held by a task that can go on.\<close>

lemma some_busy:
  assumes "writers_inv env fd p inp out full type ds0 sent pushed rs s" and "\<not> list_all (\<lambda>r. r = W_Finished) rs"
  shows "\<exists>i < length rs. writer_busy (rs ! i) s"
proof -
  obtain h w where s: "s = (h, w)" by (cases s)
  show ?thesis
  proof (cases h)
    case True
    with assms(1) have "filter in_section rs \<noteq> []" by (auto simp: writers_inv_def s)
    then obtain r where "r \<in> set rs" "in_section r" by (auto simp: filter_empty_conv)
    moreover from this(2) have "writer_busy r s" by (cases r) simp_all
    ultimately have "r \<in> set rs \<and> writer_busy r s" by simp
    then show ?thesis by (metis in_set_conv_nth)
  next
    case False
    from assms(2) obtain r where "r \<in> set rs" "r \<noteq> W_Finished" by (auto simp: list_all_iff)
    moreover from this(2) have "writer_busy r s" using False by (cases r) (simp_all add: s)
    ultimately have "r \<in> set rs \<and> writer_busy r s" by simp
    then show ?thesis by (metis in_set_conv_nth)
  qed
qed

lemma writers_inv_start:
  assumes "sends_or_waits (env_kernel env) fd full out" and "modifies (env_kernel env) fd inp out"
    and "registered fd p w" and "idle p w"
    and "\<forall>d \<in> set ds. \<exists>e. encodes_to (env_lib env) (connection_type p w) d e"
  shows "writers_inv env fd p inp out full (connection_type p w) (mset ds) (out (w_kernel w)) [] (map W_Start ds) (False, w)"
proof -
  let ?type = "connection_type p w" and ?sent = "out (w_kernel w)"
  have s: "sum_list (map (unstarted \<circ> W_Start) ds) = mset ds" for ds
    by (induction ds) simp_all
  have f: "filter in_section (map W_Start ds) = []" by (induction ds) simp_all
  have q: "sq p w = []" "so p w = 0" using assms(4) by (simp_all add: sq_def so_def idle_def new_tsq_def)
  have z: "all_flight (map W_Start ds) = 0" using outside_ok [OF f] by blast
  have "wire_inv env p out ?type [] ?sent (all_flight (map W_Start ds)) w"
    unfolding wire_inv_def q z by (intro conjI exI [of _ "[]"]) (simp_all add: frames_def)
  with assms q s [of ds] f show ?thesis
    using outside_ok [OF f] by (auto simp: writers_inv_def)
qed

subsection \<open>Properties\<close>

text \<open>
  C7: Answers that are written in parallel are not mixed up. Any number of tasks write to one channel, in
  any schedule: nothing fails, and the bytes that the socket has taken, followed by what the channel's queue
  still holds behind \<open>_send_offset\<close> (less the bytes of a \<open>send\<close> that the offset does not count yet), are the
  frames of the messages that have been pushed, whole, in the order of the pushes, one behind the other. When
  all tasks have finished, all messages have been pushed, each once, and if the socket never refused, the
  queue is empty: all of them have been sent.
\<close>
theorem concurrent_sends_whole:
  assumes "sends_or_waits (env_kernel env) fd full out" and "modifies (env_kernel env) fd inp out"
    and "registered fd p w" and "idle p w"
    and "\<forall>d \<in> set ds. \<exists>e. encodes_to (env_lib env) (connection_type p w) d e"
  shows "\<exists>rs locked w' es. interleave (writer_step env p) is (map W_Start ds) (False, w) = Inr (rs, locked, w') \<and>
     list_all2 (encodes_to (env_lib env) (connection_type p w)) (first_steps (map Some ds) is) es \<and>
     out (w_kernel w') @ left_to_send (sq p w') (so p w' + all_flight rs) =
       out (w_kernel w) @ frames (env_nb env) es \<and>
     (list_all (\<lambda>r. r = W_Finished) rs \<longrightarrow>
        mset (first_steps (map Some ds) is) = mset ds \<and> (full \<longrightarrow> sq p w' = []))"
proof -
  let ?type = "connection_type p w" and ?sent = "out (w_kernel w)"
  have m: "map starting (map W_Start ds) = map Some ds" by simp
  from writers.with_history [OF writers_inv_start [OF assms], of "is", unfolded m] obtain rs locked w' where
    r: "interleave (writer_step env p) is (map W_Start ds) (False, w) = Inr (rs, locked, w')"
      "writers_inv env fd p inp out full ?type (mset ds) ?sent (first_steps (map Some ds) is) rs (locked, w')" by auto
  from r(2) obtain es where e: "list_all2 (encodes_to (env_lib env) ?type) (first_steps (map Some ds) is) es"
      "mset (first_steps (map Some ds) is) + all_unstarted rs = mset ds"
      "out (w_kernel w') @ left_to_send (sq p w') (so p w' + all_flight rs) = ?sent @ frames (env_nb env) es"
    and t: "full \<and> sq p w' \<noteq> [] \<longrightarrow> list_ex will_test rs"
    by (auto simp: writers_inv_def wire_inv_def)
  have fin: "all_unstarted rs = {#} \<and> \<not> list_ex will_test rs" if "list_all (\<lambda>r. r = W_Finished) rs"
    using that by (induction rs) auto
  show ?thesis using r(1) e t fin by (intro exI [of _ rs] exI [of _ locked] exI [of _ w'] exI [of _ es]) auto
qed

text \<open>
  C30: Every write ends. On a socket that takes at least one byte each time, no schedule of the tasks does
  more than eight steps a message and four a byte of its frame, waiting for the lock not counted; and as long
  as a task has not finished, some task can go on: the lock is never held by a task that cannot.
\<close>
theorem concurrent_sends_finish:
  assumes "sends_progress (env_kernel env) fd inp out" and "modifies (env_kernel env) fd inp out"
    and "registered fd p w" and "idle p w"
    and "list_all2 (encodes_to (env_lib env) (connection_type p w)) ds es"
  shows "\<exists>rs s. interleave (writer_step env p) is (map W_Start ds) (False, w) = Inr (rs, s) \<and> length rs = length ds \<and>
     effort writer_busy (writer_step env p) is (map W_Start ds) (False, w) \<le>
       8 * length ds + 4 * length (frames (env_nb env) es) \<and>
     (list_all (\<lambda>r. r = W_Finished) rs \<or> (\<exists>i < length rs. writer_busy (rs ! i) s))"
proof -
  let ?type = "connection_type p w" and ?sent = "out (w_kernel w)" and ?rs = "map W_Start ds"
  have "\<exists>k'. \<exists>n \<le> length bs. k_send (env_kernel env) fd bs k = (Sent n, k') \<and> out k' = out k @ take n bs"
    if "bs \<noteq> []" for bs k
    using assms(1) that unfolding sends_progress_def by blast
  then have kern: "sends_or_waits (env_kernel env) fd True out" unfolding sends_or_waits_def by blast
  have enc: "\<forall>d \<in> set ds. \<exists>e. encodes_to (env_lib env) ?type d e" using assms(5)
    by (induction rule: list_all2_induct) auto
  have i: "writers_live env fd p inp out ?type (mset ds) ?sent ?rs (False, w)"
    unfolding writers_live_def using assms(1) writers_inv_start [OF kern assms(2-4) enc] by blast
  from live_writers.interleaved [OF i guarded_free, of "is"] obtain rs s where
    r: "interleave (writer_step env p) is ?rs (False, w) = Inr (rs, s)" "length rs = length ds"
      "writers_live env fd p inp out ?type (mset ds) ?sent rs s" by auto
  have stages: "sum_list (map stage ?rs) = 8 * length ds" by (induction ds) simp_all
  have "effort writer_busy (writer_step env p) is ?rs (False, w) \<le> writers_left env out ?type (mset ds) ?sent ?rs (False, w)"
    using live_writers.bounded_effort [OF i guarded_free r(1)] by simp
  also have "\<dots> = 8 * length ds + 4 * length (frames (env_nb env) es)"
    by (simp add: writers_left_def stages [simplified] frames_cost [OF assms(5)])
  finally have e: "effort writer_busy (writer_step env p) is ?rs (False, w) \<le> 8 * length ds + 4 * length (frames (env_nb env) es)" .
  obtain pushed where "writers_inv env fd p inp out True ?type (mset ds) ?sent pushed rs s"
    using r(3) unfolding writers_live_def by blast
  from some_busy [OF this] have "list_all (\<lambda>r. r = W_Finished) rs \<or> (\<exists>i < length rs. writer_busy (rs ! i) s)" by blast
  with r(1,2) e show ?thesis by (intro exI [of _ rs] exI [of _ s]) (intro conjI)
qed

text \<open>Two answers on a socket that takes three bytes at a time.\<close>

definition sends_world :: "byte list list \<Rightarrow> nat \<Rightarrow> byte list \<Rightarrow> (nat, sim) world" where
  "sends_world ms off sent = sending 0 \<lparr>tsq_queue = ms\<rparr> off \<lparr>sim_in = [], sim_out = sent\<rparr> (echo_world [])"

lemma sends_world_channel:
  "channel_at 0 (sends_world ms off sent) =
     (new_channel (replicate BUFFER_SIZE 0) 7)\<lparr>ch_send_messages := \<lparr>tsq_queue = ms\<rparr>, ch_send_offset := off\<rparr>"
  "w_kernel (sends_world ms off sent) = \<lparr>sim_in = [], sim_out = sent\<rparr>"
  by (simp_all add: sends_world_def sending_def echo_world_def channel_at_def put_channel_def)

lemma sends_world_update:
  "put_channel 0 ((new_channel (replicate BUFFER_SIZE 0) 7)\<lparr>ch_send_messages := \<lparr>tsq_queue = ms'\<rparr>, ch_send_offset := off'\<rparr>)
     (sends_world ms off sent) = sends_world ms' off' sent"
  "(sends_world ms off sent)\<lparr>w_kernel := \<lparr>sim_in = [], sim_out = sent'\<rparr>\<rparr> = sends_world ms off sent'"
  by (simp_all add: sends_world_def sending_def echo_world_def channel_at_def put_channel_def)

lemma sends_world_registered: "registered 7 0 (sends_world ms off sent)"
  unfolding sends_world_def using echo_world_connection(3) by (rule registered_sending)

lemma sends_world_rearm: "rearm echo_env 7 ev (sends_world ms off sent) = Inr (sends_world ms off sent)"
proof -
  have "fd_location (w_server (sends_world ms off sent)) 7 = Some 0" "sub_reactors (w_server (sends_world ms off sent)) = [1]"
    by (simp_all add: sends_world_def echo_world_def)
  then show ?thesis
    by (simp add: rearm_def locate_def sub_reactor_def modify_fd_def echo_env_def sim_kernel_def sends_world_channel
        sends_world_update)
qed

lemma sends_world_steps:
  "writer_step echo_env 0 (W_Start d) (h, sends_world ms off sent) =
     Inr (W_Pushed, h, sends_world (ms @ [frame_message False (0 # d)]) off sent)"
  "writer_step echo_env 0 W_Pushed (h, sends_world ms off sent) = Inr (W_Waiting, h, sends_world ms off sent)"
  "writer_step echo_env 0 W_Waiting (h, sends_world ms off sent) =
     Inr (if h then W_Waiting else W_Test, True, sends_world ms off sent)"
  "writer_step echo_env 0 W_Test (h, sends_world ms off sent) =
     Inr (if ms = [] then W_Rearm else W_Front, h, sends_world ms off sent)"
  "writer_step echo_env 0 W_Front (h, sends_world (m # ms) off sent) = Inr (W_Send m, h, sends_world (m # ms) off sent)"
  "writer_step echo_env 0 (W_Send m) (h, sends_world ms off sent) =
     Inr (W_Sent m (min 3 (length m - off)), h, sends_world ms off (sent @ take (min 3 (length m - off)) (drop off m)))"
  "writer_step echo_env 0 W_Rearm (h, sends_world ms off sent) = Inr (W_Finished, False, sends_world ms off sent)"
  "writer_step echo_env 0 W_Finished (h, sends_world ms off sent) = Inr (W_Finished, h, sends_world ms off sent)"
proof -
  have e: "env_nb echo_env = False" "env_lib echo_env = stored_lib" by (simp_all add: echo_env_def)
  show "writer_step echo_env 0 (W_Start d) (h, sends_world ms off sent) =
     Inr (W_Pushed, h, sends_world (ms @ [frame_message False (0 # d)]) off sent)"
    using sends_world_update(1) [where ms' = "ms @ [frame_message False (0 # d)]" and off' = off and ms = ms and off = off and sent = sent]
    by (simp add: enqueue_message_def encode_string_def e sends_world_channel new_channel_def tsq_push_def)
  show "writer_step echo_env 0 (W_Send m) (h, sends_world ms off sent) =
     Inr (W_Sent m (min 3 (length m - off)), h, sends_world ms off (sent @ take (min 3 (length m - off)) (drop off m)))"
    by (simp add: Let_def sends_world_channel echo_env_def sim_kernel_def sends_world_update)
qed (simp_all add: sends_world_channel sends_world_rearm new_channel_def tsq_empty_def tsq_front_def)

lemma sends_world_sent:
  assumes "off + n \<le> length m" and "length m < 2 ^ 63" and "0 < n"
  shows "writer_step echo_env 0 (W_Sent m n) (h, sends_world (m # ms) off sent) =
     Inr (W_Test, h, if off + n = length m then sends_world ms 0 sent else sends_world (m # ms) (off + n) sent)"
proof -
  have "szadd off n = off + n" using assms by (intro szadd_small) simp
  with assms(3) show ?thesis
    using sends_world_update(1) [where ms' = ms and off' = 0 and ms = "m # ms" and off = off and sent = sent]
      sends_world_update(1) [where ms' = "m # ms" and off' = "off + n" and ms = "m # ms" and off = off and sent = sent]
    by (simp add: Let_def sends_world_channel new_channel_def tsq_pop_def)
qed

lemma sends_world_contract: "sends_or_waits (sim_kernel 3) fd True sim_out"
  unfolding sends_or_waits_def
proof (intro allI impI exI disjI1 conjI)
  fix bs :: "byte list" and k :: sim
  show "k_send (sim_kernel 3) fd bs k =
      (Sent (min 3 (length bs)), snd (k_send (sim_kernel 3) fd bs k))" by (simp add: sim_kernel_def Let_def)
qed (simp_all add: sim_kernel_def Let_def)

theorem concurrent_sends_whole_witness:
  "\<exists>w'. interleave (writer_step echo_env 0) ([0, 0, 1, 1, 1, 0] @ replicate 22 1 @ [0, 0, 0])
       (map W_Start [[65, 66], [67]]) (False, sends_world [] 0 []) = Inr ([W_Finished, W_Finished], False, w') \<and>
     sim_out (w_kernel w') = frames False [[0, 65, 66], [0, 67]]"
proof -
  let ?is = "[0, 0, 1, 1, 1, 0] @ replicate 22 1 @ [0, 0, 0] :: nat list" and ?w = "sends_world [] 0 []"
  have f: "frame_message False [0, 65, 66] = [3, 0, 0, 0, 0, 65, 66]" "frame_message False [0, 67] = [2, 0, 0, 0, 0, 67]"
    by (simp_all add: frame_message_eq word_bytes_def nat_bytes_4)
  have n: "replicate 22 (1 :: nat) = [1, 1, 1, 1, 1, 1, 1, 1, 1, 1, 1, 1, 1, 1, 1, 1, 1, 1, 1, 1, 1, 1]"
    by (simp add: eval_nat_numeral)
  have r: "\<exists>w'. interleave (writer_step echo_env 0) ?is (map W_Start [[65, 66], [67]]) (False, ?w) =
      Inr ([W_Finished, W_Finished], False, w')"
    unfolding n by (simp add: sends_world_steps sends_world_sent f del: writer_step.simps)
  have e: "env_kernel echo_env = sim_kernel 3" "env_lib echo_env = stored_lib" "env_nb echo_env = False"
    by (simp_all add: echo_env_def)
  have k: "sends_or_waits (env_kernel echo_env) 7 True sim_out" "modifies (env_kernel echo_env) 7 sim_in sim_out"
    using sends_world_contract by (simp_all add: e modifies_def sim_kernel_def)
  have w: "idle 0 ?w" "connection_type 0 ?w = Comp_None" "sim_out (w_kernel ?w) = []"
    by (simp_all add: idle_def connection_type_def sends_world_channel new_tsq_def new_channel_def)
  have d: "\<forall>d \<in> set [[65, 66], [67]]. \<exists>e. encodes_to (env_lib echo_env) (connection_type 0 ?w) d e"
    by (simp add: encodes_to_def encode_string_def w(2))
  from r obtain w' where
    w': "interleave (writer_step echo_env 0) ?is (map W_Start [[65, 66], [67]]) (False, ?w) = Inr ([W_Finished, W_Finished], False, w')"
    by blast
  from concurrent_sends_whole [OF k sends_world_registered w(1) d, of ?is, unfolded w' e w(2,3)]
  obtain es where es: "list_all2 (encodes_to stored_lib Comp_None) (first_steps (map Some [[65, 66], [67]]) ?is) es"
    "sim_out (w_kernel w') = frames False es" by auto
  have "first_steps (map Some [[65, 66], [67 :: byte]]) ?is = [[65, 66], [67]]" unfolding n by simp
  with es(1) have "es = [[0, 65, 66], [0, 67]]"
    by (auto simp: list_all2_Cons1 encodes_to_def encode_string_def)
  with w' es(2) show ?thesis by blast
qed

theorem concurrent_sends_finish_witness:
  "\<exists>rs s. interleave (writer_step echo_env 0) ([0, 0, 1, 1, 1, 0] @ replicate 22 1 @ [0, 0, 0])
       (map W_Start [[65, 66], [67]]) (False, sends_world [] 0 []) = Inr (rs, s) \<and>
     effort writer_busy (writer_step echo_env 0) ([0, 0, 1, 1, 1, 0] @ replicate 22 1 @ [0, 0, 0])
       (map W_Start [[65, 66], [67]]) (False, sends_world [] 0 []) \<le> 68"
proof -
  have k: "sends_progress (env_kernel echo_env) 7 sim_in sim_out" "modifies (env_kernel echo_env) 7 sim_in sim_out"
    using sim_kernel_serves [of 3 7] by (simp_all add: serves_def echo_env_def)
  have w: "idle 0 (sends_world [] 0 [])" "connection_type 0 (sends_world [] 0 []) = Comp_None"
    by (simp_all add: idle_def connection_type_def sends_world_channel new_tsq_def new_channel_def)
  have d: "list_all2 (encodes_to (env_lib echo_env) (connection_type 0 (sends_world [] 0 []))) [[65, 66], [67]]
      [[0, 65, 66], [0, 67]]" by (simp add: encodes_to_def encode_string_def w(2))
  have n: "8 * length [[65, 66], [67 :: byte]] + 4 * length (frames (env_nb echo_env) [[0, 65, 66], [0, 67]]) = 68"
    by (simp add: frames_def frame_message_eq)
  from concurrent_sends_finish [OF k sends_world_registered w(1) d, unfolded n] show ?thesis by blast
qed

end
