(* ===== verification/Client_Sends.thy ===== *)
theory Client_Sends
  imports Tcp_Client Concurrent_Reads "HOL-Library.Multiset"
begin

text \<open>
  Several threads that call \<open>Tcp_Client::send_message\<close> at the same time, as the threads in \<open>Rpc_Client::call\<close> and the
  heartbeats do (\<open>Core/Tcp_Client.cpp\<close>, \<open>Core/Channel.cpp\<close>). The steps are the push of the framed message, taking
  the channel's \<open>_send_lock\<close>, and, while the send callback holds it, the test of \<open>_running\<close>, the tests of the
  queue, \<open>front_pop\<close> and \<open>send\<close>. An exception of the callback ends the thread's step and releases the lock.

  The theory shows that one thread alone is \<open>send_message\<close>, and that the threads together put every message on
  the wire whole and once, in any schedule, on a socket that takes each message at once.
\<close>

subsection \<open>Steps of a thread\<close>

datatype sender = S_Start "byte list" | S_Waiting | S_Check | S_Test | S_Pop | S_Send "byte list" | S_Done
  | S_Threw error

definition put_client_channel :: "channel \<Rightarrow> ('a, 'k) cworld \<Rightarrow> ('a, 'k) cworld" where
  "put_client_channel ch w = w\<lparr>c_client := (c_client w)\<lparr>tc_channel := Some ch\<rparr>\<rparr>"

definition client_channel :: "('a, 'k) cworld \<Rightarrow> channel result" where
  "client_channel w = (case tc_channel (c_client w) of None \<Rightarrow> Inl (Undefined ''null channel'') | Some ch \<Rightarrow> Inr ch)"

fun sender_step :: "('d, 'a, 'k) tcp_env \<Rightarrow> sender \<Rightarrow> bool \<times> ('a, 'k) cworld \<Rightarrow>
    (sender \<times> bool \<times> ('a, 'k) cworld) result" where
  "sender_step env (S_Start data) (locked, w) =
     bindE (client_channel w) (\<lambda>ch.
     bindE (enqueue_message (env_lib env) (env_nb env) data ch) (\<lambda>ch1.
     Inr (S_Waiting, locked, put_client_channel ch1 w)))"
| "sender_step env S_Waiting (locked, w) =
     (if locked then Inr (S_Waiting, locked, w) else Inr (S_Check, True, w))"
| "sender_step env S_Check (locked, w) =
     (if \<not> tc_running (c_client w) then Inr (S_Threw (Runtime_Error ''Client is not connected''), False, w)
      else Inr (S_Test, locked, w))"
| "sender_step env S_Test (locked, w) =
     bindE (client_channel w) (\<lambda>ch.
     if tsq_size (ch_send_messages ch) = 0 then Inr (S_Done, False, w) else Inr (S_Pop, locked, w))"
| "sender_step env S_Pop (locked, w) =
     bindE (client_channel w) (\<lambda>ch.
     bindE (tsq_front_pop (ch_send_messages ch)) (\<lambda>(message, q).
     Inr (S_Send message, locked, put_client_channel (ch\<lparr>ch_send_messages := q\<rparr>) w)))"
| "sender_step env (S_Send message) (locked, w) =
     (case k_send (env_kernel env) (tc_fd (c_client w)) message (c_kernel w) of
        (Sent n, k) \<Rightarrow> Inr (S_Test, locked, w\<lparr>c_kernel := k\<rparr>)
      | (Send_Again, k) \<Rightarrow> Inr (S_Threw (System_Error EAGAIN ''Failed to send data''), False, w\<lparr>c_kernel := k\<rparr>)
      | (Send_Error e, k) \<Rightarrow> Inr (S_Threw (System_Error e ''Failed to send data''), False, w\<lparr>c_kernel := k\<rparr>))"
| "sender_step env S_Done s = Inr (S_Done, s)"
| "sender_step env (S_Threw e) s = Inr (S_Threw e, s)"

subsection \<open>One thread alone\<close>

fun sender_end :: "unit result \<Rightarrow> sender" where
  "sender_end (Inr u) = S_Done"
| "sender_end (Inl e) = S_Threw e"

lemma put_client_channel_fields [simp]:
  "tc_channel (c_client (put_client_channel ch w)) = Some ch"
  "tc_running (c_client (put_client_channel ch w)) = tc_running (c_client w)"
  "tc_fd (c_client (put_client_channel ch w)) = tc_fd (c_client w)"
  "c_kernel (put_client_channel ch w) = c_kernel w" "c_app (put_client_channel ch w) = c_app w"
  "put_client_channel ch (put_client_channel ch' w) = put_client_channel ch w"
  "put_client_channel ch (w\<lparr>c_kernel := k\<rparr>) = (put_client_channel ch w)\<lparr>c_kernel := k\<rparr>"
  by (simp_all add: put_client_channel_def)

lemma put_same_channel: "tc_channel (c_client w) = Some ch \<Longrightarrow> put_client_channel ch w = w"
  by (cases w; cases "c_client w") (simp add: put_client_channel_def)

lemma send_queued_alone:
  assumes "tc_channel (c_client w) = Some ch"
    and "send_queued (env_kernel env) (tc_fd (c_client w)) (ch_send_messages ch) (c_kernel w) = (r, q, k)"
  shows "\<exists>n. interleave (sender_step env) (replicate n 0) [S_Test] (True, w) =
     Inr ([sender_end r], False, (put_client_channel (ch\<lparr>ch_send_messages := q\<rparr>) w)\<lparr>c_kernel := k\<rparr>)"
  using assms
proof (induction "tsq_queue (ch_send_messages ch)" arbitrary: w ch)
  case Nil
  then have "tsq_size (ch_send_messages ch) = 0" by (simp add: tsq_size_def flip: length_0_conv)
  with Nil.prems have "r = Inr ()" "q = ch_send_messages ch" "k = c_kernel w"
    by (simp_all add: send_queued.simps [of _ _ "ch_send_messages ch"])
  with Nil.prems(1) \<open>tsq_size (ch_send_messages ch) = 0\<close> show ?case
    by (intro exI [of _ 1]) (simp add: client_channel_def put_same_channel)
next
  case (Cons m ms)
  from tsq.front_pop_Cons [OF Cons.hyps(2) [symmetric]] obtain q1 where
    q1: "tsq_front_pop (ch_send_messages ch) = Inr (m, q1)" "tsq_queue q1 = ms" by blast
  have ne: "tsq_size (ch_send_messages ch) \<noteq> 0" using Cons.hyps(2) [symmetric] by (simp add: tsq_size_def)
  obtain sr k1 where sr: "k_send (env_kernel env) (tc_fd (c_client w)) m (c_kernel w) = (sr, k1)"
    by (cases "k_send (env_kernel env) (tc_fd (c_client w)) m (c_kernel w)")
  let ?w = "(put_client_channel (ch\<lparr>ch_send_messages := q1\<rparr>) w)\<lparr>c_kernel := k1\<rparr>"
  show ?case
  proof (cases sr)
    case (Sent n)
    have s: "interleave (sender_step env) (replicate 3 0) [S_Test] (True, w) = Inr ([S_Test], True, ?w)"
      using Cons.prems(1) q1(1) ne sr Sent by (simp add: numeral_3_eq_3 client_channel_def)
    have "send_queued (env_kernel env) (tc_fd (c_client w)) q1 k1 = (r, q, k)"
      using Cons.prems(2) q1(1) ne sr Sent by (simp add: send_queued.simps [of _ _ "ch_send_messages ch"])
    with Cons.hyps(1) [of "ch\<lparr>ch_send_messages := q1\<rparr>" ?w] q1(2) obtain j where
      "interleave (sender_step env) (replicate j 0) [S_Test] (True, ?w) =
        Inr ([sender_end r], False, (put_client_channel (ch\<lparr>ch_send_messages := q\<rparr>) w)\<lparr>c_kernel := k\<rparr>)" by auto
    with s show ?thesis by (intro exI [of _ "3 + j"]) (simp add: replicate_add interleave_append)
  qed (use Cons.prems q1(1) ne sr in
      \<open>auto simp: numeral_3_eq_3 client_channel_def send_queued.simps [of _ _ "ch_send_messages ch"] intro!: exI [of _ 3]\<close>)
qed

lemma send_message_alone:
  assumes "send_message env data w = (r, w')" and "tc_channel (c_client w) = Some ch"
    and "enqueue_message (env_lib env) (env_nb env) data ch = Inr ch1"
  shows "\<exists>n. interleave (sender_step env) (replicate n 0) [S_Start data] (False, w) = Inr ([sender_end r], False, w')"
proof (cases "tc_running (c_client w)")
  case True
  let ?w = "put_client_channel ch1 w"
  obtain r' q k where q: "send_queued (env_kernel env) (tc_fd (c_client w)) (ch_send_messages ch1) (c_kernel w) = (r', q, k)"
    by (cases "send_queued (env_kernel env) (tc_fd (c_client w)) (ch_send_messages ch1) (c_kernel w)") auto
  from send_queued_alone [of ?w ch1 env r' q k] q obtain n where
    n: "interleave (sender_step env) (replicate n 0) [S_Test] (True, ?w) =
      Inr ([sender_end r'], False, (put_client_channel (ch1\<lparr>ch_send_messages := q\<rparr>) w)\<lparr>c_kernel := k\<rparr>)" by auto
  have "r' = r" "w' = (put_client_channel (ch1\<lparr>ch_send_messages := q\<rparr>) w)\<lparr>c_kernel := k\<rparr>"
    using assms True q by (simp_all add: send_message_def client_on_send_def put_client_channel_def)
  moreover have "interleave (sender_step env) (replicate 3 0) [S_Start data] (False, w) = Inr ([S_Test], True, ?w)"
    using assms(2,3) True by (simp add: numeral_3_eq_3 client_channel_def)
  ultimately show ?thesis using n by (intro exI [of _ "3 + n"]) (simp add: replicate_add interleave_append)
next
  case False
  with assms show ?thesis
    by (intro exI [of _ 3]) (auto simp: numeral_3_eq_3 client_channel_def send_message_def client_on_send_def
        put_client_channel_def)
qed

subsection \<open>The invariant\<close>

fun sending_now :: "sender \<Rightarrow> bool" where
  "sending_now S_Check = True"
| "sending_now S_Test = True"
| "sending_now S_Pop = True"
| "sending_now (S_Send m) = True"
| "sending_now _ = False"

fun sends_on :: "sender \<Rightarrow> bool" where
  "sends_on (S_Start d) = False"
| "sends_on S_Done = False"
| "sends_on (S_Threw e) = False"
| "sends_on _ = True"

fun to_push :: "sender \<Rightarrow> byte list option" where
  "to_push (S_Start d) = Some d"
| "to_push _ = None"

fun not_pushed :: "sender \<Rightarrow> byte list multiset" where
  "not_pushed (S_Start d) = {#d#}"
| "not_pushed _ = {#}"

text \<open>A message that is no longer in the queue and not yet sent.\<close>

fun popped :: "sender \<Rightarrow> byte list" where
  "popped (S_Send m) = m"
| "popped _ = []"

abbreviation all_not_pushed :: "sender list \<Rightarrow> byte list multiset" where
  "all_not_pushed rs \<equiv> sum_list (map not_pushed rs)"

abbreviation all_popped :: "sender list \<Rightarrow> byte list" where
  "all_popped rs \<equiv> concat (map popped rs)"

definition client_queue :: "('a, 'k) cworld \<Rightarrow> byte list list" where
  "client_queue w = (case tc_channel (c_client w) of None \<Rightarrow> [] | Some ch \<Rightarrow> tsq_queue (ch_send_messages ch))"

definition ready_to_send :: "compression_type \<Rightarrow> int \<Rightarrow> ('a, 'k) cworld \<Rightarrow> bool" where
  "ready_to_send type fd w \<longleftrightarrow> tc_running (c_client w) \<and> tc_fd (c_client w) = fd \<and>
     (\<exists>ch. tc_channel (c_client w) = Some ch \<and> ch_compression ch = type)"

definition client_wire :: "('d, 'a, 'k) tcp_env \<Rightarrow> ('k \<Rightarrow> byte list) \<Rightarrow> compression_type \<Rightarrow> byte list list \<Rightarrow> byte list \<Rightarrow>
    byte list \<Rightarrow> ('a, 'k) cworld \<Rightarrow> bool" where
  "client_wire env out type pushed sent mid w \<longleftrightarrow>
     (\<exists>es. list_all2 (encodes_to (env_lib env) type) pushed es \<and>
        out (c_kernel w) @ mid @ concat (client_queue w) = sent @ frames (env_nb env) es)"

definition senders_inv :: "('d, 'a, 'k) tcp_env \<Rightarrow> int \<Rightarrow> ('k \<Rightarrow> byte list) \<Rightarrow> compression_type \<Rightarrow> byte list multiset \<Rightarrow>
    byte list \<Rightarrow> byte list list \<Rightarrow> sender list \<Rightarrow> bool \<times> ('a, 'k) cworld \<Rightarrow> bool" where
  "senders_inv env fd out type ds0 sent pushed rs s \<longleftrightarrow>
     (case s of (locked, w) \<Rightarrow>
        take_all (env_kernel env) fd out \<and> (\<forall>d \<in># ds0. \<exists>e. encodes_to (env_lib env) type d e) \<and>
        ready_to_send type fd w \<and>
        mset pushed + all_not_pushed rs = ds0 \<and> client_wire env out type pushed sent (all_popped rs) w \<and>
        length (filter sending_now rs) = (if locked then 1 else 0) \<and>
        (S_Pop \<in> set rs \<longrightarrow> client_queue w \<noteq> []) \<and> (\<forall>e. S_Threw e \<notin> set rs) \<and>
        (client_queue w \<noteq> [] \<longrightarrow> list_ex sends_on rs))"

lemma not_sending: "filter sending_now rs = [] \<Longrightarrow> all_popped rs = [] \<and> S_Pop \<notin> set rs"
proof (induction rs)
  case (Cons r rs)
  then show ?case by (cases r) (auto split: if_splits)
qed simp

lemma push_step:
  assumes inv: "senders_inv env fd out type ds0 sent pushed (as @ S_Start d # bs) (h, w)"
  shows "\<exists>r s. sender_step env (S_Start d) (h, w) = Inr (r, s) \<and> to_push r = None \<and>
     senders_inv env fd out type ds0 sent (pushed @ [d]) (as @ r # bs) s"
proof -
  let ?rs = "as @ S_Start d # bs"
  from inv obtain ch where pu: "mset pushed + all_not_pushed ?rs = ds0"
    and wi: "client_wire env out type pushed sent (all_popped ?rs) w"
    and ch: "tc_channel (c_client w) = Some ch" "ch_compression ch = type"
    and enc: "\<forall>d \<in># ds0. \<exists>e. encodes_to (env_lib env) type d e"
    unfolding senders_inv_def ready_to_send_def by auto
  have "d \<in># ds0" using pu by auto
  with enc obtain e where e: "encodes_to (env_lib env) type d e" by blast
  let ?f = "frame_message (env_nb env) e"
  let ?w = "put_client_channel (ch\<lparr>ch_send_messages := tsq_push ?f (ch_send_messages ch)\<rparr>) w"
  have st: "sender_step env (S_Start d) (h, w) = Inr (S_Waiting, h, ?w)"
    using e ch by (simp add: client_channel_def enqueue_message_def encodes_to_def)
  have q: "client_queue ?w = client_queue w @ [?f]" using ch by (simp add: client_queue_def tsq.elems_push)
  from wi obtain es where ds: "list_all2 (encodes_to (env_lib env) type) pushed es"
    "out (c_kernel w) @ all_popped ?rs @ concat (client_queue w) = sent @ frames (env_nb env) es"
    by (auto simp: client_wire_def)
  have "client_wire env out type (pushed @ [d]) sent (all_popped (as @ S_Waiting # bs)) ?w"
    unfolding client_wire_def q
  proof (rule exI [of _ "es @ [e]"], intro conjI)
    show "list_all2 (encodes_to (env_lib env) type) (pushed @ [d]) (es @ [e])" using ds(1) e by (simp add: list_all2_appendI)
    have "(out (c_kernel w) @ all_popped ?rs @ concat (client_queue w)) @ ?f = (sent @ frames (env_nb env) es) @ ?f"
      unfolding ds(2) ..
    then show "out (c_kernel ?w) @ all_popped (as @ S_Waiting # bs) @ concat (client_queue w @ [?f]) =
        sent @ frames (env_nb env) (es @ [e])" by (simp add: frames_def)
  qed
  moreover have "mset (pushed @ [d]) + all_not_pushed (as @ S_Waiting # bs) = ds0" using pu by simp
  ultimately have "senders_inv env fd out type ds0 sent (pushed @ [d]) (as @ S_Waiting # bs) (h, ?w)"
    using inv q ch unfolding senders_inv_def by (auto simp: ready_to_send_def)
  with st show ?thesis by auto
qed

lemma section_step:
  assumes inv: "senders_inv env fd out type ds0 sent pushed (as @ r # bs) (True, w)" and r: "sending_now r"
  shows "\<exists>r' s. sender_step env r (True, w) = Inr (r', s) \<and> to_push r' = None \<and>
     senders_inv env fd out type ds0 sent pushed (as @ r' # bs) s"
proof -
  from inv r obtain ch where pu: "mset pushed + all_not_pushed (as @ r # bs) = ds0"
    and wi: "client_wire env out type pushed sent (all_popped (as @ r # bs)) w"
    and ch: "tc_channel (c_client w) = Some ch" "ch_compression ch = type"
    and c: "tc_running (c_client w)" "tc_fd (c_client w) = fd" and k: "take_all (env_kernel env) fd out"
    and h: "filter sending_now as = []" "filter sending_now bs = []"
    unfolding senders_inv_def ready_to_send_def by (auto split: if_splits)
  note o = not_sending [OF h(1)] not_sending [OF h(2)]
  have mid: "all_popped (as @ x # bs) = popped x" for x
    by (simp only: map_append concat_append list.map concat.simps conjunct1 [OF o(1)] conjunct1 [OF o(2)]
        append_Nil append_Nil2)
  show ?thesis
  proof (cases r)
    case S_Check
    with inv c show ?thesis by (auto simp: senders_inv_def)
  next
    case S_Test
    with inv ch show ?thesis
      by (auto simp: senders_inv_def client_channel_def client_queue_def tsq_size_def)
  next
    case S_Pop
    with inv have "client_queue w \<noteq> []" by (simp add: senders_inv_def)
    then obtain m ms where m: "client_queue w = m # ms" by (cases "client_queue w") auto
    with ch tsq.front_pop_Cons [of "ch_send_messages ch" m ms] obtain q where
      q: "tsq_front_pop (ch_send_messages ch) = Inr (m, q)" "tsq_queue q = ms" by (auto simp: client_queue_def)
    let ?w = "put_client_channel (ch\<lparr>ch_send_messages := q\<rparr>) w"
    have cq: "client_queue ?w = ms" using q(2) by (simp add: client_queue_def)
    have "all_popped (as @ r # bs) = []" "all_popped (as @ S_Send m # bs) = m" by (simp_all add: mid S_Pop del: map_append concat_append)
    with wi have "client_wire env out type pushed sent (all_popped (as @ S_Send m # bs)) ?w"
      unfolding client_wire_def cq m by (simp del: concat_map_singleton concat_append map_append)
    then have "senders_inv env fd out type ds0 sent pushed (as @ S_Send m # bs) (True, ?w)"
      using inv pu S_Pop cq ch conjunct2 [OF o(1)] conjunct2 [OF o(2)] h unfolding senders_inv_def by (auto simp: ready_to_send_def)
    moreover have "sender_step env r (True, w) = Inr (S_Send m, True, ?w)"
      using S_Pop ch q(1) by (simp add: client_channel_def)
    ultimately show ?thesis by auto
  next
    case (S_Send m)
    from k obtain k' where k': "k_send (env_kernel env) fd m (c_kernel w) = (Sent (length m), k')"
      "out k' = out (c_kernel w) @ m" unfolding take_all_def by blast
    have "client_wire env out type pushed sent m w" using wi by (simp only: mid popped.simps S_Send)
    with k'(2) have "client_wire env out type pushed sent [] (w\<lparr>c_kernel := k'\<rparr>)"
      by (simp add: client_wire_def client_queue_def)
    then have "client_wire env out type pushed sent (all_popped (as @ S_Test # bs)) (w\<lparr>c_kernel := k'\<rparr>)"
      by (simp only: mid popped.simps)
    then have "senders_inv env fd out type ds0 sent pushed (as @ S_Test # bs) (True, w\<lparr>c_kernel := k'\<rparr>)"
      using inv pu S_Send conjunct2 [OF o(1)] conjunct2 [OF o(2)] h unfolding senders_inv_def by (auto simp: ready_to_send_def client_queue_def)
    moreover have "sender_step env r (True, w) = Inr (S_Test, True, w\<lparr>c_kernel := k'\<rparr>)"
      using S_Send c(2) k'(1) by simp
    ultimately show ?thesis by auto
  qed (use r in simp_all)
qed

lemma senders_inv_step:
  assumes inv: "senders_inv env fd out type ds0 sent pushed rs s" and i: "i < length rs"
  shows "\<exists>r s'. sender_step env (rs ! i) s = Inr (r, s') \<and> to_push r = None \<and>
     senders_inv env fd out type ds0 sent
       (pushed @ (case to_push (rs ! i) of None \<Rightarrow> [] | Some d \<Rightarrow> [d])) (rs[i := r]) s'"
proof -
  obtain h w where s: "s = (h, w)" by (cases s)
  have d: "rs = take i rs @ rs ! i # drop (Suc i) rs" using i by (rule id_take_nth_drop)
  have u: "rs[i := r] = take i rs @ r # drop (Suc i) rs" for r using i by (rule upd_conv_take_nth_drop)
  have v: "senders_inv env fd out type ds0 sent pushed (take i rs @ rs ! i # drop (Suc i) rs) (h, w)"
    using inv d s by simp
  have "\<exists>r s'. sender_step env (rs ! i) (h, w) = Inr (r, s') \<and> to_push r = None \<and>
     senders_inv env fd out type ds0 sent
       (pushed @ (case to_push (rs ! i) of None \<Rightarrow> [] | Some d \<Rightarrow> [d])) (take i rs @ r # drop (Suc i) rs) s'"
  proof (cases "sending_now (rs ! i)")
    case True
    from v True have "h" by (auto simp: senders_inv_def split: if_splits)
    moreover have "to_push (rs ! i) = None" using True by (cases "rs ! i") simp_all
    ultimately show ?thesis using v section_step [OF _ True] by (auto simp del: sender_step.simps)
  next
    case False
    show ?thesis
    proof (cases "rs ! i")
      case (S_Start data)
      with push_step [of env fd out type ds0 sent pushed "take i rs" data] v show ?thesis by (auto simp del: sender_step.simps)
    next
      case S_Waiting
      with v show ?thesis by (cases h) (auto simp: senders_inv_def)
    qed (use v False in auto)
  qed
  then show ?thesis unfolding u s .
qed

interpretation senders: history_by_steps "sender_step env" to_push "senders_inv env fd out type ds0 sent"
  for env fd out type ds0 sent
  by unfold_locales (rule senders_inv_step)

subsection \<open>Properties\<close>

text \<open>
  C8: Messages of different threads are not mixed up. On a connected client whose socket takes each message at
  once, any number of threads send, in any schedule: none of them fails or throws, and the bytes that the socket
  has taken, followed by the message that a thread has popped and not yet sent and by the queue, are the frames of
  the messages that have been pushed, whole, in the order of the pushes, one behind the other. When all threads
  have returned, all messages have been pushed and sent, each once.
\<close>
theorem client_sends_whole:
  assumes "take_all (env_kernel env) (tc_fd (c_client w)) out" and "connected ch w"
    and "ch_send_messages ch = new_tsq"
    and "\<forall>d \<in> set ds. \<exists>e. encodes_to (env_lib env) (ch_compression ch) d e"
  shows "\<exists>rs locked w' es. interleave (sender_step env) is (map S_Start ds) (False, w) = Inr (rs, locked, w') \<and>
     (\<forall>e. S_Threw e \<notin> set rs) \<and>
     list_all2 (encodes_to (env_lib env) (ch_compression ch)) (first_steps (map Some ds) is) es \<and>
     out (c_kernel w') @ all_popped rs @ concat (client_queue w') = out (c_kernel w) @ frames (env_nb env) es \<and>
     (list_all (\<lambda>r. r = S_Done) rs \<longrightarrow>
        mset (first_steps (map Some ds) is) = mset ds \<and> all_popped rs = [] \<and> client_queue w' = [])"
proof -
  let ?type = "ch_compression ch" and ?sent = "out (c_kernel w)" and ?fd = "tc_fd (c_client w)"
  have s: "sum_list (map (not_pushed \<circ> S_Start) ds) = mset ds" for ds
    by (induction ds) simp_all
  have f: "filter sending_now (map S_Start ds) = []" by (induction ds) simp_all
  have q: "client_queue w = []" using assms(2,3) by (simp add: client_queue_def connected_def new_tsq_def)
  have "client_wire env out ?type [] ?sent (all_popped (map S_Start ds)) w"
    using not_sending [OF f] unfolding client_wire_def q by (intro exI [of _ "[]"]) (simp add: frames_def)
  with assms q s [of ds] f have i: "senders_inv env ?fd out ?type (mset ds) ?sent [] (map S_Start ds) (False, w)"
    by (auto simp: senders_inv_def ready_to_send_def connected_def)
  have m: "map to_push (map S_Start ds) = map Some ds" by simp
  from senders.with_history [OF i, of "is", unfolded m] obtain rs locked w' where
    r: "interleave (sender_step env) is (map S_Start ds) (False, w) = Inr (rs, locked, w')"
      "senders_inv env ?fd out ?type (mset ds) ?sent (first_steps (map Some ds) is) rs (locked, w')" by auto
  from r(2) obtain es where e: "list_all2 (encodes_to (env_lib env) ?type) (first_steps (map Some ds) is) es"
      "mset (first_steps (map Some ds) is) + all_not_pushed rs = mset ds"
      "out (c_kernel w') @ all_popped rs @ concat (client_queue w') = ?sent @ frames (env_nb env) es"
    and t: "client_queue w' \<noteq> [] \<longrightarrow> list_ex sends_on rs" "\<forall>e. S_Threw e \<notin> set rs"
    by (auto simp: senders_inv_def client_wire_def)
  have fin: "all_not_pushed rs = {#} \<and> \<not> list_ex sends_on rs \<and> all_popped rs = []" if "list_all (\<lambda>r. r = S_Done) rs"
    using that by (induction rs) auto
  show ?thesis using r(1) e t fin by (intro exI [of _ rs] exI [of _ locked] exI [of _ w'] exI [of _ es]) auto
qed

definition two_callers :: "byte list list \<Rightarrow> byte list \<Rightarrow> (byte list list, read_result list \<times> byte list) cworld" where
  "two_callers ms sent =
     (put_client_channel ((new_channel (replicate BUFFER_SIZE 0) 3)\<lparr>ch_send_messages := \<lparr>tsq_queue = ms\<rparr>\<rparr>) (poll_world []))
       \<lparr>c_kernel := ([], sent)\<rparr>"

lemma two_callers_steps:
  "sender_step poll_env (S_Start d) (h, two_callers ms sent) =
     Inr (S_Waiting, h, two_callers (ms @ [frame_message False (0 # d)]) sent)"
  "sender_step poll_env S_Waiting (h, two_callers ms sent) = Inr (if h then S_Waiting else S_Check, True, two_callers ms sent)"
  "sender_step poll_env S_Check (h, two_callers ms sent) = Inr (S_Test, h, two_callers ms sent)"
  "sender_step poll_env S_Test (h, two_callers ms sent) =
     Inr (if ms = [] then S_Done else S_Pop, if ms = [] then False else h, two_callers ms sent)"
  "sender_step poll_env S_Pop (h, two_callers (m # ms) sent) = Inr (S_Send m, h, two_callers ms sent)"
  "sender_step poll_env (S_Send m) (h, two_callers ms sent) = Inr (S_Test, h, two_callers ms (sent @ m))"
proof -
  have c: "tc_running (c_client (poll_world []))" "tc_fd (c_client (poll_world [])) = 3"
    using poll_world_connected(1,4) [of "[]"] by (simp_all add: connected_def)
  show "sender_step poll_env (S_Start d) (h, two_callers ms sent) =
     Inr (S_Waiting, h, two_callers (ms @ [frame_message False (0 # d)]) sent)"
    by (simp add: two_callers_def client_channel_def enqueue_message_def encode_string_def poll_env_def new_channel_def
        tsq_push_def)
  show "sender_step poll_env S_Check (h, two_callers ms sent) = Inr (S_Test, h, two_callers ms sent)"
    using c by (simp add: two_callers_def)
  show "sender_step poll_env S_Test (h, two_callers ms sent) =
     Inr (if ms = [] then S_Done else S_Pop, if ms = [] then False else h, two_callers ms sent)"
    by (simp add: two_callers_def client_channel_def tsq_size_def)
  show "sender_step poll_env S_Pop (h, two_callers (m # ms) sent) = Inr (S_Send m, h, two_callers ms sent)"
    by (simp add: two_callers_def client_channel_def tsq_front_pop_def tsq_front_def tsq_pop_def)
  show "sender_step poll_env (S_Send m) (h, two_callers ms sent) = Inr (S_Test, h, two_callers ms (sent @ m))"
    using c by (simp add: two_callers_def poll_env_def poll_kernel_def)
qed simp

theorem client_sends_whole_witness:
  "\<exists>w'. interleave (sender_step poll_env) [1, 0, 1, 0, 1, 1, 1, 1, 1, 1, 1, 1, 0, 0, 0] (map S_Start [[65], [66]])
       (False, two_callers [] []) = Inr ([S_Done, S_Done], False, w') \<and>
     snd (c_kernel w') = frames False [[0, 66], [0, 65]]"
proof -
  let ?is = "[1, 0, 1, 0, 1, 1, 1, 1, 1, 1, 1, 1, 0, 0, 0] :: nat list" and ?w = "two_callers [] []"
  let ?ch = "(new_channel (replicate BUFFER_SIZE 0) 3)\<lparr>ch_send_messages := \<lparr>tsq_queue = []\<rparr>\<rparr>"
  obtain w' where
    w': "interleave (sender_step poll_env) ?is (map S_Start [[65], [66]]) (False, ?w) = Inr ([S_Done, S_Done], False, w')"
    by (simp add: two_callers_steps del: sender_step.simps)
  have k: "take_all (env_kernel poll_env) (tc_fd (c_client ?w)) snd" using poll_kernel_ok by (simp add: poll_env_def)
  have c: "connected ?ch ?w" using poll_world_connected(1) [of "[]"] by (simp add: connected_def two_callers_def)
  have q: "ch_send_messages ?ch = new_tsq" "ch_compression ?ch = Comp_None" by (simp_all add: new_tsq_def new_channel_def)
  have e: "env_lib poll_env = stored_lib" "env_nb poll_env = False" "snd (c_kernel ?w) = []"
    by (simp_all add: poll_env_def two_callers_def)
  have d: "\<forall>d \<in> set [[65], [66]]. \<exists>e. encodes_to (env_lib poll_env) (ch_compression ?ch) d e"
    by (simp add: encodes_to_def encode_string_def q(2))
  from client_sends_whole [OF k c q(1) d, of ?is, unfolded w' e q(2)]
  obtain es where es: "list_all2 (encodes_to stored_lib Comp_None) (first_steps (map Some [[65], [66]]) ?is) es"
    "snd (c_kernel w') = frames False es" by auto
  have "first_steps (map Some [[65], [66 :: byte]]) ?is = [[66], [65]]" by simp
  with es(1) have "es = [[0, 66], [0, 65]]"
    by (auto simp: list_all2_Cons1 encodes_to_def encode_string_def)
  with w' es(2) show ?thesis by blast
qed

end
