(* ===== verification/Call_Ids.thy ===== *)
theory Call_Ids
  imports Rpc_Client
begin

text \<open>
  The two small headers of \<open>Common/\<close> that the client uses: \<open>Singleton\<close> (\<open>Common/Singleton.hpp\<close>), the one
  object of a class in a process, and \<open>generate_uuid\<close> (\<open>Common/ID_Genertor.hpp\<close>), which makes the ids of
  calls with libuuid. The library is a parameter: what \<open>uuid_generate\<close> returns and what
  \<open>uuid_unparse_lower\<close> writes.

  The theory shows that the ids are different strings of 36 characters as long as the library's identifiers
  are different, and that a client that draws its ids so never loses a call: no call takes the entry of
  another one in the table of pending calls, so no promise is broken.
\<close>

subsection \<open>Singleton\<close>

text \<open>
  \<open>static T stance;\<close>: the storage is empty until the first call, which runs the constructor (the language
  makes other callers wait meanwhile); every call returns the object in it.
\<close>

definition getInstance :: "('w \<Rightarrow> 'a \<times> 'w) \<Rightarrow> 'a option \<Rightarrow> 'w \<Rightarrow> 'a \<times> 'a option \<times> 'w" where
  "getInstance construct storage w =
     (case storage of
        Some stance \<Rightarrow> (stance, storage, w)
      | None \<Rightarrow> (case construct w of (stance, w1) \<Rightarrow> (stance, Some stance, w1)))"

fun instances :: "nat \<Rightarrow> ('w \<Rightarrow> 'a \<times> 'w) \<Rightarrow> 'a option \<Rightarrow> 'w \<Rightarrow> 'a list \<times> 'a option \<times> 'w" where
  "instances 0 construct storage w = ([], storage, w)"
| "instances (Suc n) construct storage w =
     (case getInstance construct storage w of (x, storage1, w1) \<Rightarrow>
      case instances n construct storage1 w1 of (xs, storage2, w2) \<Rightarrow> (x # xs, storage2, w2))"

lemma instances_filled: "instances n construct (Some x) w = (replicate n x, Some x, w)"
  by (induction n) (simp_all add: getInstance_def)

text \<open>The constructor runs once, however often and from wherever the object is asked for.\<close>

lemma one_instance:
  assumes "construct w = (x, w1)"
  shows "instances (Suc n) construct None w = (replicate (Suc n) x, Some x, w1)"
  using assms by (simp add: getInstance_def instances_filled)

subsection \<open>Identifiers\<close>

record 'k uuid_lib =
  uuid_generate :: "'k \<Rightarrow> byte list \<times> 'k"
  uuid_unparse_lower :: "byte list \<Rightarrow> byte list"

text \<open>
  \<open>std::string(const char*)\<close> reads up to the terminating zero; \<open>uuid_unparse_lower\<close> must not write more
  than the array holds.
\<close>

definition UUID_STR_LEN :: nat where
  "UUID_STR_LEN = 37"

definition c_string :: "byte list \<Rightarrow> byte list result" where
  "c_string chars =
     (if 0 \<in> set chars then Inr (takeWhile (\<lambda>c. c \<noteq> 0) chars)
      else Inl (Undefined ''string without terminating zero''))"

definition generate_uuid :: "'k uuid_lib \<Rightarrow> 'k \<Rightarrow> (byte list \<times> 'k) result" where
  "generate_uuid lib k =
     (case uuid_generate lib k of (uuid, k1) \<Rightarrow>
      let uuid_str = uuid_unparse_lower lib uuid in
      if length uuid_str > UUID_STR_LEN then Inl (Undefined ''write past uuid_str'')
      else bindE (c_string uuid_str) (\<lambda>s. Inr (s, k1)))"

text \<open>What libuuid documents: the text has 36 characters and a terminating zero, and tells the identifiers apart.\<close>

definition uuid_text :: "'k uuid_lib \<Rightarrow> bool" where
  "uuid_text lib \<longleftrightarrow>
     (\<forall>k. length (fst (uuid_generate lib k)) = 16) \<and> inj_on (uuid_unparse_lower lib) {u. length u = 16} \<and>
     (\<forall>u. length u = 16 \<longrightarrow> (\<exists>t. uuid_unparse_lower lib u = t @ [0] \<and> length t = 36 \<and> 0 \<notin> set t))"

text \<open>The identifiers that the library gives out next.\<close>

fun drawn :: "'k uuid_lib \<Rightarrow> nat \<Rightarrow> 'k \<Rightarrow> byte list list" where
  "drawn lib 0 k = []"
| "drawn lib (Suc n) k = (case uuid_generate lib k of (uuid, k1) \<Rightarrow> uuid # drawn lib n k1)"

definition id_of :: "'k uuid_lib \<Rightarrow> byte list \<Rightarrow> byte list" where
  "id_of lib uuid = takeWhile (\<lambda>c. c \<noteq> 0) (uuid_unparse_lower lib uuid)"

lemma id_of_text:
  assumes "uuid_text lib" and "length u = 16"
  shows "uuid_unparse_lower lib u = id_of lib u @ [0] \<and> length (id_of lib u) = 36 \<and> 0 \<notin> set (id_of lib u)"
proof -
  from assms obtain t where t: "uuid_unparse_lower lib u = t @ [0]" "length t = 36" "0 \<notin> set t"
    unfolding uuid_text_def by blast
  have "takeWhile (\<lambda>c. c \<noteq> 0) t = t" using t(3) by (auto simp: takeWhile_eq_all_conv)
  then have "id_of lib u = t" using t(1,3) by (simp add: id_of_def takeWhile_append)
  with t show ?thesis by simp
qed

lemma generate_uuid_ok:
  assumes "uuid_text lib" and "uuid_generate lib k = (u, k1)"
  shows "generate_uuid lib k = Inr (id_of lib u, k1)"
proof -
  have "length u = 16" using assms by (metis uuid_text_def fst_conv)
  note t = id_of_text [OF assms(1) this]
  then have "0 \<in> set (uuid_unparse_lower lib u)" by (metis in_set_conv_decomp)
  then have "c_string (uuid_unparse_lower lib u) = Inr (id_of lib u)" by (simp add: c_string_def id_of_def)
  moreover have "length (uuid_unparse_lower lib u) = 37" using t by simp
  ultimately show ?thesis by (simp add: generate_uuid_def assms(2) Let_def UUID_STR_LEN_def)
qed

lemma id_of_inj:
  assumes "uuid_text lib" and "length u = 16" and "length v = 16" and "id_of lib u = id_of lib v"
  shows "u = v"
proof -
  have "uuid_unparse_lower lib u = uuid_unparse_lower lib v"
    using id_of_text [OF assms(1,2)] id_of_text [OF assms(1,3)] assms(4) by simp
  with assms(1-3) show ?thesis unfolding uuid_text_def inj_on_def by blast
qed

lemma drawn_length: "uuid_text lib \<Longrightarrow> u \<in> set (drawn lib n k) \<Longrightarrow> length u = 16"
proof (induction n arbitrary: k)
  case (Suc n)
  obtain v k1 where v: "uuid_generate lib k = (v, k1)" by (cases "uuid_generate lib k")
  have "length v = 16" using Suc.prems(1) v by (metis uuid_text_def fst_conv)
  with Suc v show ?case by auto
qed simp

text \<open>Different identifiers give different ids.\<close>

lemma ids_distinct:
  assumes "uuid_text lib" and "distinct (drawn lib n k)"
  shows "distinct (map (id_of lib) (drawn lib n k))"
proof -
  have "inj_on (id_of lib) (set (drawn lib n k))"
    by (rule inj_onI) (use id_of_inj [OF assms(1)] drawn_length [OF assms(1)] in blast)
  with assms(2) show ?thesis by (simp add: distinct_map)
qed

subsection \<open>A client that draws its ids\<close>

text \<open>
  What happens to the table of pending calls: a call, up to its wait (the heartbeat is one), or a message of
  the server. \<open>ids\<close> counts the calls.
\<close>

datatype session_op = Begin_Call "byte list" "cval list" | Got_Message "byte list"

definition begin_call :: "'k uuid_lib \<Rightarrow> bool \<Rightarrow> byte list \<Rightarrow> cval list \<Rightarrow> rpc_client \<times> 'k \<Rightarrow>
    (byte list \<times> nat \<times> rpc_client \<times> 'k) result" where
  "begin_call lib nb meth args s =
     (case s of (cl, k) \<Rightarrow>
      bindE (generate_uuid lib k) (\<lambda>(uuid, k1).
      bindE (start_call nb meth args uuid cl) (\<lambda>(bytes, n, cl1). Inr (bytes, n, cl1, k1))))"

fun session_step :: "'k uuid_lib \<Rightarrow> bool \<Rightarrow> session_op \<Rightarrow> rpc_client \<times> 'k \<Rightarrow> (rpc_client \<times> 'k) result" where
  "session_step lib nb (Begin_Call meth args) s =
     bindE (begin_call lib nb meth args s) (\<lambda>(bytes, n, cl, k). Inr (cl, k))"
| "session_step lib nb (Got_Message data) (cl, k) = bindE (on_response nb data cl) (\<lambda>cl1. Inr (cl1, k))"

fun session :: "'k uuid_lib \<Rightarrow> bool \<Rightarrow> session_op list \<Rightarrow> rpc_client \<times> 'k \<Rightarrow> (rpc_client \<times> 'k) result" where
  "session lib nb [] s = Inr s"
| "session lib nb (x # xs) s = bindE (session_step lib nb x s) (session lib nb xs)"

fun calls_in :: "session_op list \<Rightarrow> nat" where
  "calls_in [] = 0"
| "calls_in (Begin_Call meth args # xs) = Suc (calls_in xs)"
| "calls_in (Got_Message data # xs) = calls_in xs"

lemma start_call_fresh:
  assumes "start_call nb meth vs uuid cl = Inr (bytes, n, cl')" and "cl_pending cl uuid = None"
  shows "dom (cl_pending cl') = insert uuid (dom (cl_pending cl)) \<and> cl_promises cl' = cl_promises cl @ [Waiting]"
  using assms by (auto simp: start_call_def bindE_eq_Inr Let_def)

lemma on_response_keeps:
  assumes "on_response nb data cl = Inr cl'" and "Broken \<notin> set (cl_promises cl)"
  shows "dom (cl_pending cl') \<subseteq> dom (cl_pending cl) \<and> Broken \<notin> set (cl_promises cl')"
proof -
  have "complete_with response \<noteq> Broken" for response by (simp add: complete_with_def)
  then have "Broken \<notin> set ((cl_promises cl)[k := complete_with response])" for k response
    using assms(2) set_update_subset_insert [of "cl_promises cl" k "complete_with response"] by (metis insertE subsetD)
  with assms show ?thesis
    by (auto simp: on_response_def bindE_eq_Inr split: option.splits if_splits)
qed

lemma session_ok:
  assumes "uuid_text lib" and "session lib nb xs (cl, k) = Inr (cl', k')" and "client_ok cl"
    and "Broken \<notin> set (cl_promises cl)" and "distinct (drawn lib (calls_in xs) k)"
    and "\<forall>u \<in> set (drawn lib (calls_in xs) k). id_of lib u \<notin> dom (cl_pending cl)"
  shows "client_ok cl' \<and> Broken \<notin> set (cl_promises cl') \<and>
     length (cl_promises cl') = length (cl_promises cl) + calls_in xs"
  using assms(2-)
proof (induction xs arbitrary: cl k)
  case (Cons x xs)
  show ?case
  proof (cases x)
    case (Begin_Call meth args)
    obtain u k1 where u: "uuid_generate lib k = (u, k1)" by (cases "uuid_generate lib k")
    with Begin_Call Cons.prems(1) obtain bytes n cl1 where
      c: "start_call nb meth args (id_of lib u) cl = Inr (bytes, n, cl1)" and r: "session lib nb xs (cl1, k1) = Inr (cl', k')"
      by (auto simp: begin_call_def generate_uuid_ok [OF assms(1) u] bindE_eq_Inr)
    have d: "drawn lib (calls_in (x # xs)) k = u # drawn lib (calls_in xs) k1" by (simp add: Begin_Call u)
    have "cl_pending cl (id_of lib u) = None" using Cons.prems(5) d by auto
    note f = start_call_fresh [OF c this]
    have new: "id_of lib v \<noteq> id_of lib u" if "v \<in> set (drawn lib (calls_in xs) k1)" for v
    proof
      assume "id_of lib v = id_of lib u"
      moreover have "length v = 16" "length u = 16" using drawn_length [OF assms(1)] that d by (metis list.set_intros)+
      ultimately have "v = u" using id_of_inj [OF assms(1)] by blast
      with that Cons.prems(4) d show False by simp
    qed
    have "\<forall>v \<in> set (drawn lib (calls_in xs) k1). id_of lib v \<notin> dom (cl_pending cl1)"
      using Cons.prems(5) new f unfolding d by auto
    from Cons.IH [OF r _ _ _ this] start_call_keeps_ok [OF Cons.prems(2) c] Cons.prems(3,4) f d
    show ?thesis by (simp add: Begin_Call)
  next
    case (Got_Message data)
    with Cons.prems(1) obtain cl1 where c: "on_response nb data cl = Inr cl1" and r: "session lib nb xs (cl1, k) = Inr (cl', k')"
      by (auto simp: bindE_eq_Inr)
    note f = on_response_keeps [OF c Cons.prems(3)]
    have l: "length (cl_promises cl1) = length (cl_promises cl)"
      using c by (auto simp: on_response_def bindE_eq_Inr split: option.splits)
    have "\<forall>u \<in> set (drawn lib (calls_in xs) k). id_of lib u \<notin> dom (cl_pending cl1)"
      using conjunct1 [OF f] Cons.prems(5) unfolding Got_Message calls_in.simps by blast
    with Cons.IH [OF r on_response_ok [OF Cons.prems(2) c] conjunct2 [OF f]] l Cons.prems(4) Got_Message
    show ?thesis by simp
  qed
qed auto

subsection \<open>Properties\<close>

text \<open>
  C14: No call is lost. Whatever calls a client makes, with ids from \<open>generate_uuid\<close>, and whatever bytes
  arrive in between: as long as the library's identifiers are different, every call has a promise of its own,
  no promise is broken by a later call, and every id in the table leads to a waiting promise of its own.
\<close>
theorem no_call_lost:
  assumes "uuid_text lib" and "distinct (drawn lib (calls_in xs) k)"
    and "session lib nb xs (new_rpc_client, k) = Inr (cl, k')"
  shows "client_ok cl \<and> Broken \<notin> set (cl_promises cl) \<and> length (cl_promises cl) = calls_in xs"
  using session_ok [OF assms(1,3) new_rpc_client_ok _ assms(2)] by (simp add: new_rpc_client_def)

text \<open>A library that counts, and prints as libuuid does: five groups of hexadecimal digits.\<close>

definition hex_digit :: "nat \<Rightarrow> byte" where
  "hex_digit n = of_nat (if n < 10 then 48 + n else 87 + n)"

definition hex_byte :: "byte \<Rightarrow> byte list" where
  "hex_byte b = [hex_digit (unat b div 16), hex_digit (unat b mod 16)]"

definition hex_text :: "byte list \<Rightarrow> byte list" where
  "hex_text bs = concat (map hex_byte bs)"

definition unparse :: "byte list \<Rightarrow> byte list" where
  "unparse u = hex_text (take 4 u) @ [45] @ hex_text (take 2 (drop 4 u)) @ [45] @ hex_text (take 2 (drop 6 u)) @ [45] @
     hex_text (take 2 (drop 8 u)) @ [45] @ hex_text (drop 10 u) @ [0]"

definition counting_lib :: "nat uuid_lib" where
  "counting_lib = \<lparr>uuid_generate = (\<lambda>n. (replicate 15 0 @ [of_nat n], Suc n)), uuid_unparse_lower = unparse\<rparr>"

lemma hex_digit_nat: "n < 16 \<Longrightarrow> unat (hex_digit n) = (if n < 10 then 48 + n else 87 + n)"
  by (simp add: hex_digit_def unat_of_nat take_bit_eq_mod)

lemma high_digit: "unat (b :: byte) div 16 < 16"
proof -
  have "unat b < 2 ^ LENGTH(8)" by (rule unsigned_less)
  then show ?thesis by simp
qed

lemma hex_byte_inj: "hex_byte a = hex_byte b \<Longrightarrow> a = b"
proof -
  assume h: "hex_byte a = hex_byte b"
  have eq: "m = n" if "hex_digit m = hex_digit n" "m < 16" "n < 16" for m n
  proof -
    have "(if m < 10 then 48 + m else 87 + m) = (if n < 10 then 48 + n else 87 + n)"
      using hex_digit_nat [OF that(2)] hex_digit_nat [OF that(3)] that(1) by metis
    then show ?thesis by presburger
  qed
  have "unat a div 16 = unat b div 16" "unat a mod 16 = unat b mod 16"
    using h eq [OF _ high_digit high_digit] eq [of "unat a mod 16" "unat b mod 16"] by (simp_all add: hex_byte_def)
  then show "a = b" by (metis div_mult_mod_eq word_unat_eq_iff)
qed

lemma hex_byte_not_zero: "0 \<notin> set (hex_byte b)"
proof -
  have "unat (hex_digit n) \<noteq> 0" if "n < 16" for n using hex_digit_nat [OF that] by (auto split: if_splits)
  then have "hex_digit n \<noteq> 0" if "n < 16" for n using that by (metis unsigned_0)
  then show ?thesis using high_digit [of b] by (auto simp: hex_byte_def dest!: sym)
qed

lemma hex_text_length: "length (hex_text bs) = 2 * length bs"
  by (induction bs) (simp_all add: hex_text_def hex_byte_def)

lemma hex_text_not_zero: "0 \<notin> set (hex_text bs)"
  using hex_byte_not_zero by (auto simp: hex_text_def)

lemma hex_text_inj: "hex_text as = hex_text bs \<Longrightarrow> as = bs"
proof (induction as arbitrary: bs)
  case Nil
  then show ?case by (cases bs) (simp_all add: hex_text_def hex_byte_def)
next
  case (Cons a as)
  then obtain b bs' where bs: "bs = b # bs'" by (cases bs) (simp_all add: hex_text_def hex_byte_def)
  with Cons.prems have "hex_byte a = hex_byte b" "hex_text as = hex_text bs'" by (simp_all add: hex_text_def hex_byte_def)
  with Cons.IH hex_byte_inj bs show ?case by blast
qed

lemma unparse_inj: "length u = 16 \<Longrightarrow> length v = 16 \<Longrightarrow> unparse u = unparse v \<Longrightarrow> u = v"
proof -
  assume l: "length u = 16" "length v = 16" and e: "unparse u = unparse v"
  from e l have "take 4 u = take 4 v \<and> take 2 (drop 4 u) = take 2 (drop 4 v) \<and> take 2 (drop 6 u) = take 2 (drop 6 v) \<and>
      take 2 (drop 8 u) = take 2 (drop 8 v) \<and> drop 10 u = drop 10 v"
    by (simp add: unparse_def append_eq_append_conv hex_text_length) (metis hex_text_inj)
  moreover have "w = take 4 w @ take 2 (drop 4 w) @ take 2 (drop 6 w) @ take 2 (drop 8 w) @ drop 10 w" for w :: "byte list"
    using append_take_drop_id [of 4 w] append_take_drop_id [of 2 "drop 4 w"] append_take_drop_id [of 2 "drop 6 w"]
      append_take_drop_id [of 2 "drop 8 w"] by simp
  ultimately show "u = v" by metis
qed

lemma counting_lib_text: "uuid_text counting_lib"
  unfolding uuid_text_def
proof (intro conjI allI impI)
  show "inj_on (uuid_unparse_lower counting_lib) {u. length u = 16}"
    using unparse_inj by (auto simp: counting_lib_def inj_on_def)
  fix u :: "byte list"
  assume "length u = 16"
  then show "\<exists>t. uuid_unparse_lower counting_lib u = t @ [0] \<and> length t = 36 \<and> 0 \<notin> set t"
    using hex_text_not_zero
    by (intro exI [of _ "butlast (unparse u)"]) (simp add: counting_lib_def unparse_def hex_text_length butlast_append)
qed (simp add: counting_lib_def)

lemma begin_heartbeat:
  assumes "uuid_text lib" and "uuid_generate lib k = (u, k1)" and "cl_pending cl (id_of lib u) = None"
  shows "\<exists>bytes n cl'. begin_call lib nb (ascii ''HEARTBEAT'') [] (cl, k) = Inr (bytes, n, cl', k1) \<and>
     cl_pending cl' = (cl_pending cl)(id_of lib u \<mapsto> length (cl_promises cl))"
proof -
  have "length u = 16" using assms(1,2) by (metis uuid_text_def fst_conv)
  then have "small_call (ascii ''HEARTBEAT'') [] (id_of lib u)"
    using id_of_text [OF assms(1)] by (simp add: small_call_def ascii_def enc_args_def)
  from start_call_ok [OF _ this assms(3), of "[]" nb] show ?thesis
    by (auto simp: begin_call_def generate_uuid_ok [OF assms(1,2)])
qed

theorem no_call_lost_witness:
  "\<exists>cl k. session counting_lib False (replicate 2 (Begin_Call (ascii ''HEARTBEAT'') [])) (new_rpc_client, 0) = Inr (cl, k) \<and>
     Broken \<notin> set (cl_promises cl) \<and> length (cl_promises cl) = 2"
proof -
  let ?u = "\<lambda>n. replicate 15 0 @ [of_nat n] :: byte list"
  have g: "uuid_generate counting_lib n = (?u n, Suc n)" for n by (simp add: counting_lib_def)
  have ne: "id_of counting_lib (?u 1) \<noteq> id_of counting_lib (?u 0)"
    using id_of_inj [OF counting_lib_text, of "?u 1" "?u 0"] by auto
  from begin_heartbeat [OF counting_lib_text g, of new_rpc_client 0 False] obtain b0 n0 cl0 where
    c0: "begin_call counting_lib False (ascii ''HEARTBEAT'') [] (new_rpc_client, 0) = Inr (b0, n0, cl0, Suc 0)"
      "cl_pending cl0 = [id_of counting_lib (?u 0) \<mapsto> 0]" by (auto simp: new_rpc_client_def)
  from begin_heartbeat [OF counting_lib_text g, of cl0 1 False] ne obtain b1 n1 cl1 where
    c1: "begin_call counting_lib False (ascii ''HEARTBEAT'') [] (cl0, Suc 0) = Inr (b1, n1, cl1, Suc (Suc 0))"
    by (auto simp: c0(2))
  have s: "session counting_lib False (replicate 2 (Begin_Call (ascii ''HEARTBEAT'') [])) (new_rpc_client, 0) = Inr (cl1, 2)"
    by (simp add: numeral_2_eq_2 c0(1) c1)
  have c: "calls_in (replicate 2 (Begin_Call (ascii ''HEARTBEAT'') [])) = 2" by (simp add: numeral_2_eq_2)
  have d: "distinct (drawn counting_lib (calls_in (replicate 2 (Begin_Call (ascii ''HEARTBEAT'') []))) 0)"
    by (simp add: c) (simp add: numeral_2_eq_2 g)
  from no_call_lost [OF counting_lib_text d s] s c show ?thesis by auto
qed

end
