(* ===== verification/Spec2Isabelle.thy ===== *)
theory Spec2Isabelle
  imports Stream_Growth Codec_Types Split_Frames Heartbeat Thread_Pool_Monitor Concurrent_Calls Server_Life
    Delivery Concurrent_Sends Client_Sends Call_Ids
begin

text \<open>
  ZeroRPC is a C++20 library for remote procedure calls over TCP. A server registers functions by
  name; a client calls one by name with arguments of C++ types. This development models the library
  from the bytes of a message up to a remote call and the threads that carry it, and proves what the
  parts promise each other, and where the code does not keep a promise.

  \<^bold>\<open>How the parts interact.\<close> \<open>Rpc_Client::call\<close> writes its arguments to a \<open>Data_Stream\<close>, wraps them in
  an \<open>RPCRequest\<close> with a fresh id, leaves a promise under the id and gives the bytes to
  \<open>Tcp_Client::send_message\<close>. A \<open>Socket_Channel\<close> puts a compression byte and a length before them. On
  the server the main reactor accepts connections, and each sub-reactor commits a \<open>read_data\<close> task to the
  \<open>Thread_Pool\<close> for every readable descriptor; the task moves bytes from the socket to the channel's ring
  buffer and calls \<open>parse_message\<close>, which cuts messages and gives each to the callback of \<open>Rpc_Server\<close>.
  That callback reads the request, refreshes the user's heartbeat, calls the registered function through
  \<open>Handler_Manager\<close> and writes an \<open>RPCResponse\<close>. The client's reader does the same with responses, and
  completes the promise. A \<open>Timer\<close> on each side sends heartbeats, and closes the connections of silent users.

  \<^bold>\<open>The theories.\<close>

  \<^item> \<open>Prelude\<close>: bytes and words, the exceptions and other ends of an operation (\<open>error\<close>), chained
    fallible operations (\<open>bindE\<close>), arithmetic of \<open>size_t\<close>, byte strings of words, lists updated by index.
    \<open>Interleaving\<close>: tasks that take steps on one state in the order of a schedule, with locales for
    invariants and measures of such runs.
  \<^item> \<open>Ring_Buffer\<close>: \<open>Common/Buffer.hpp\<close>, as a refinement of a bounded FIFO. \<open>Safe_Queue\<close>:
    \<open>Common/Thread_Safe_Queue.hpp\<close>.
  \<^item> \<open>Data_Stream\<close>, \<open>Stream_Growth\<close>, \<open>Data_Codec\<close>, \<open>Codec_Laws\<close>, \<open>Codec_Types\<close>: the serialization of
    \<open>Core/Data_Stream.h\<close>, \<open>Core/Data_Stream.cpp\<close>, \<open>Core/enable_serializable.h\<close>. The first has the
    vector with its block, \<open>reserve\<close>, \<open>load\<close> and the primitive types; the second the growth loop; the
    third the templates for containers and classes, as equations over a datatype of C++ types; the
    fourth the round trips and the wire format; the fifth the types of what is read.
  \<^item> \<open>Compression\<close>: \<open>Core/Compression.cpp\<close>, over the Brotli library.
  \<^item> \<open>Channel\<close>: \<open>Socket_Channel\<close>, the framing of messages in \<open>Core/Channel.cpp\<close>.
  \<^item> \<open>Network\<close>, \<open>Tcp_Server\<close>, \<open>Tcp_Client\<close>: \<open>Core/Network.h\<close>, \<open>Core/Tcp_Server.cpp\<close>,
    \<open>Core/Tcp_Client.cpp\<close>, over the system calls of the operating system.
  \<^item> \<open>Concurrent_Reads\<close>, \<open>Split_Frames\<close>: several \<open>read_data\<close> tasks of one descriptor at once; in the
    first \<open>parse_message\<close> is one step, in the second each half of a turn of its loop. \<open>Delivery\<close>: the last
    loop of \<open>parse_message\<close>, with a step for the test, the \<open>front_pop\<close> and the callback.
  \<^item> \<open>Concurrent_Sends\<close>: several tasks that answer on one channel of the server at once, with a step for each
    lock and system call of \<open>write_data\<close> and \<open>try_send\<close>; \<open>Client_Sends\<close>: the same for the threads that call
    \<open>send_message\<close> of one client.
  \<^item> \<open>User_Manager\<close>, \<open>Function_Handler\<close>, \<open>Rpc_Package\<close>, \<open>Rpc_Server\<close>, \<open>Rpc_Client\<close>: the files of these
    names in \<open>RPC/\<close>: who is connected, the table of functions, the two messages, the callbacks of
    the server and the call and the callback of the client. \<open>Call_Ids\<close>: \<open>Common/ID_Genertor.hpp\<close> and
    \<open>Common/Singleton.hpp\<close>, and a client whose calls draw their ids.
  \<^item> \<open>Rpc_System\<close>: a remote call through all of these: \<open>send_message\<close> of the client, \<open>read_data\<close> of the server,
    the first turns of the client's read loop. \<open>Concurrent_Calls\<close>: the calls of any number of threads at once,
    as interleaved steps over whole messages, with sends that fail and the loss of the connection.
  \<^item> \<open>Timer\<close>: \<open>Core/Timer.cpp\<close>. \<open>Thread_Pool\<close>: \<open>Core/Thread_Pool.cpp\<close>, as a transition system of
    workers, daemon and callers; \<open>Pool_Progress\<close>: what moves on in it, and its end.
    \<open>Thread_Pool_Monitor\<close>: \<open>Maintain/Thread_Pool_Monitor.hpp\<close>.
  \<^item> \<open>Rpc_Runtime\<close>: the executors, timers and \<open>run\<close>s of a server and of a client, whose tasks share the
    one pool of the process. \<open>Server_Life\<close>: the tables of a server over any sequence of its turns and tasks.
    \<open>Heartbeat\<close>: the two timers and the user table in real time.

  \<^bold>\<open>What is shown.\<close> A remote call is the local call (\<open>Rpc_System\<close>), given an order of evaluation of
  function arguments that suits the code, and concurrent calls are local calls one after the other, except
  for those that cannot be sent (\<open>Concurrent_Calls\<close>). That rests on the round trip of values (\<open>Codec_Laws\<close>), the
  transport of messages (\<open>Channel\<close>, \<open>Tcp_Server\<close>, \<open>Tcp_Client\<close>), also when many threads write at once
  (\<open>Concurrent_Sends\<close>, \<open>Client_Sends\<close>: whole frames, because of \<open>_send_lock\<close>), the answer to a request, the
  ids of the calls (\<open>Call_Ids\<close>) and the routing of responses. The containers refine their abstract counterparts; the loops end, or the inputs for which
  they do not are stated. The pool starts tasks in order; if its daemon first looks at it after all threads are
  started it loses no wake-up and keeps its minimum of threads, and otherwise it can lose all of them
  (\<open>startup_kills_pool\<close>); its destructor returns. The tables of the server agree over its whole life. A live client is never closed, a silent one
  is, within stated times. Counterparts show where the code fails: partial messages, malformed headers,
  blocked sockets, failed sends, lost connections, machines with few cores, periods of zero, callbacks that
  call the timer back, counters read without a lock, and tasks that run at the same time.

  \<^bold>\<open>Parameters, and what is assumed of them.\<close> The Brotli library is a record of its calls with the contract
  \<open>brotli_contract\<close>. The operating system is the record \<open>kernel\<close>; hypotheses such as \<open>serves\<close> say how
  \<open>read\<close>, \<open>send\<close> and \<open>epoll_ctl\<close> behave on a descriptor. Registered functions and the application's state
  are type variables and values. \<open>machine\<close> has the byte order, the order in which the compiler evaluates
  the arguments of a call, and the texts of library exceptions. libuuid is the record \<open>uuid_lib\<close> with the
  contract \<open>uuid_text\<close>; where a call is looked at alone its id is an argument. Readings of the clock,
  \<open>hardware_concurrency\<close>, and which of several timers due at the same instant is on top
  (\<open>pick\<close>) are arguments. Every hypothesis is shown to hold for a concrete value by a witness. In \<open>Rpc_System\<close> the request and the
  response each arrive in one piece; what happens to pieces is in \<open>Split_Frames\<close> for the server and in
  \<open>split_response_hangs\<close> for the client. Registered functions throw exceptions with a text: one with an empty
  text is taken for a success (\<open>empty_response_result\<close>). The first \<open>read\<close> of the client finds nothing, so
  that \<open>errno\<close> is \<open>EAGAIN\<close> from then on (\<open>client_feed\<close>; \<open>stale_errno_disconnects\<close> otherwise).

  \<^bold>\<open>Bounds.\<close> \<open>size_t\<close> arithmetic is modulo \<open>2^64\<close> on naturals, \<open>int32_t\<close> and \<open>uint32_t\<close> are words. The ring
  buffer has 16392 bytes. Strings and streams are below \<open>2^28\<close> or \<open>2^31\<close> bytes, where the \<open>int32_t\<close>
  position does not wrap; beyond, \<open>write_string_hangs\<close> says what happens. Pools have
  \<open>maxThread + batchSize\<close> below \<open>2^32\<close>. A loop that may run for ever is a \<open>partial_function (option)\<close>,
  so that a theorem that gives a result also says that the loop ends, and \<open>Hang\<close> is a result that
  can be proved.

  \<^bold>\<open>Not modelled.\<close> Logging, the getters of the pool and the timer, the storing of the send callback (each
  constructor installs its own, which is modelled where it is called), and the test programs.
  Data races in the sense of the C++ memory model: a step of a task is atomic, and accesses
  that the code leaves unsynchronized are separate steps at most. Tasks that throw (they end the
  process). The table \<open>_threads\<close> beyond its workers, so that a worker's \<open>detach\<close> and \<open>erase\<close> at the time of
  the destructor's joins are left out. What an argument holds after a failed read: where the code goes on
  with an indeterminate variable, which is undefined behaviour, the model stops. The order of the elements
  of an unordered container, which is that of their insertion here. Accepting a connection is one step.
  Overflow of the clock.
\<close>

end
